(* ===== verification/Prelude.thy ===== *)
theory Prelude
  imports Main "HOL-Library.Word" "HOL-Library.Monad_Syntax"
begin

unbundle bit_operations_syntax

text \<open>
  What every theory of the development shares: the machine integer types of
  \<^verbatim>\<open>cm_types.h\<close>, the reserved identifiers of \<^verbatim>\<open>cm_defs.h\<close>, the status codes, the
  increments and decrements of unsigned counters, and walks along chains of array indices.

  The resource directory of oGRAC keeps all its lists inside arrays: an element names its
  successor by index. A walk follows such a link function for a given number of steps; the
  lemmas here say when two link functions give the same walk, which is all a component needs to
  show that an update of one element leaves the other chains alone.
\<close>

named_theorems word_count \<open>counters of a fixed width read as natural numbers\<close>
named_theorems walk_simps \<open>walks along index chains\<close>

type_synonym u8 = "8 word"
type_synonym u16 = "16 word"
type_synonym u32 = "32 word"
type_synonym u64 = "64 word"

subsection \<open>Reserved identifiers and status codes\<close>

definition OG_INVALID_ID8 :: u8 where
  "OG_INVALID_ID8 = 0xFF"

definition OG_INVALID_ID16 :: u16 where
  "OG_INVALID_ID16 = 0xFFFF"

definition OG_INVALID_ID32 :: u32 where
  "OG_INVALID_ID32 = 0xFFFFFFFF"

definition OG_MAX_INSTANCES :: nat where
  "OG_MAX_INSTANCES = 64"

datatype status_t = OG_SUCCESS | OG_ERROR

text \<open>
  \<^verbatim>\<open>knl_panic(c)\<close> of \<^verbatim>\<open>knl_common.h\<close> writes through a null pointer when \<open>c\<close> is false, in every
  build. A routine that may panic, or that indexes an array, returns an option here: \<open>None\<close> is
  a panic or an access outside the array, and every theorem that says a routine returns some
  value also says that neither happens.
\<close>

definition knl_panic :: "bool \<Rightarrow> unit option" where
  "knl_panic c = (if c then Some () else None)"

definition rd :: "'a list \<Rightarrow> 'n::len word \<Rightarrow> 'a option" where
  "rd xs i = (if unat i < length xs then Some (xs ! unat i) else None)"

definition wr :: "'a list \<Rightarrow> 'n::len word \<Rightarrow> 'a \<Rightarrow> 'a list option" where
  "wr xs i x = (if unat i < length xs then Some (xs[unat i := x]) else None)"

lemma knl_panic_True [simp]: "knl_panic True = Some ()"
  by (simp add: knl_panic_def)

lemma knl_panic_eq_Some [simp]: "knl_panic c = Some u \<longleftrightarrow> c"
  by (simp add: knl_panic_def)

lemma rd_in [simp]: "unat i < length xs \<Longrightarrow> rd xs i = Some (xs ! unat i)"
  by (simp add: rd_def)

lemma wr_in [simp]: "unat i < length xs \<Longrightarrow> wr xs i x = Some (xs[unat i := x])"
  by (simp add: wr_def)

lemma rd_eq_Some: "rd xs i = Some x \<longleftrightarrow> unat i < length xs \<and> x = xs ! unat i"
  by (auto simp: rd_def)

lemma wr_eq_Some: "wr xs i x = Some ys \<longleftrightarrow> unat i < length xs \<and> ys = xs[unat i := x]"
  by (auto simp: wr_def)

lemma unat_OG_INVALID_ID32 [simp]: "unat OG_INVALID_ID32 = 4294967295"
  by (simp add: OG_INVALID_ID32_def)

lemma unat_OG_INVALID_ID8 [simp]: "unat OG_INVALID_ID8 = 255"
  by (simp add: OG_INVALID_ID8_def)

lemma unat_u32_le: "unat (w :: u32) \<le> 4294967295"
proof -
  have "unat w < 2 ^ LENGTH(32)"
    by (rule unsigned_less)
  then show ?thesis by simp
qed

lemma index_not_invalid32:
  assumes "unat i < n" and "n \<le> 4294967295"
  shows "i \<noteq> OG_INVALID_ID32"
  using assms by auto

lemma small_id_not_invalid8: "unat i < OG_MAX_INSTANCES \<Longrightarrow> i \<noteq> OG_INVALID_ID8"
  by (auto simp: OG_MAX_INSTANCES_def)

subsection \<open>Counters\<close>

lemma unat_inc [word_count]:
  fixes w :: u32
  assumes "unat w < 4294967295"
  shows "unat (w + 1) = Suc (unat w)"
  using assms by (simp add: unat_word_ariths)

lemma unat_dec [word_count]:
  fixes w :: u32
  assumes "0 < unat w"
  shows "unat (w - 1) = unat w - 1"
proof -
  have "1 \<le> w"
    using assms by (simp add: word_le_nat_alt)
  then show ?thesis
    by (simp add: unat_sub)
qed

lemma inc_dec_cancel [simp]: "(w :: u32) + 1 - 1 = w" "w - 1 + 1 = w"
  by simp_all

lemma unat_of_nat_u32 [word_count]: "n < 4294967296 \<Longrightarrow> unat (of_nat n :: u32) = n"
  by (simp add: unat_of_nat)

subsection \<open>Walks along index chains\<close>

fun walk :: "('i \<Rightarrow> 'i) \<Rightarrow> 'i \<Rightarrow> nat \<Rightarrow> 'i list" where
  "walk f p 0 = []"
| "walk f p (Suc n) = p # walk f (f p) n"

fun walk_end :: "('i \<Rightarrow> 'i) \<Rightarrow> 'i \<Rightarrow> nat \<Rightarrow> 'i" where
  "walk_end f p 0 = p"
| "walk_end f p (Suc n) = walk_end f (f p) n"

lemma length_walk [simp]: "length (walk f p n) = n"
  by (induction n arbitrary: p) auto

lemma walk_eq_Nil [simp]: "walk f p n = [] \<longleftrightarrow> n = 0"
  by (cases n) auto

lemma walk_add [walk_simps]: "walk f p (m + n) = walk f p m @ walk f (walk_end f p m) n"
  by (induction m arbitrary: p) auto

lemma walk_end_add [walk_simps]: "walk_end f p (m + n) = walk_end f (walk_end f p m) n"
  by (induction m arbitrary: p) auto

lemma walk_snoc [walk_simps]: "walk f p (Suc n) = walk f p n @ [walk_end f p n]"
  using walk_add [of f p n 1] by simp

lemma walk_end_snoc [walk_simps]: "walk_end f p (Suc n) = f (walk_end f p n)"
  using walk_end_add [of f p n 1] by simp

lemma walk_cong:
  assumes "\<And>i. i \<in> set (walk f p n) \<Longrightarrow> g i = f i"
  shows "walk g p n = walk f p n"
  using assms by (induction n arbitrary: p) auto

lemma walk_end_cong:
  assumes "\<And>i. i \<in> set (walk f p n) \<Longrightarrow> g i = f i"
  shows "walk_end g p n = walk_end f p n"
  using assms by (induction n arbitrary: p) auto

lemma walk_nth: "k < n \<Longrightarrow> walk f p n ! k = walk_end f p k"
proof (induction n arbitrary: p k)
  case 0
  then show ?case by simp
next
  case (Suc n)
  then show ?case by (cases k) auto
qed

lemma hd_walk: "0 < n \<Longrightarrow> hd (walk f p n) = p"
  by (cases n) auto

lemma tl_walk: "tl (walk f p n) = walk f (f p) (n - 1)"
  by (cases n) auto

lemma last_walk: "0 < n \<Longrightarrow> last (walk f p n) = walk_end f p (n - 1)"
  by (cases n) (simp_all add: walk_snoc del: walk.simps)

lemma walk_split:
  assumes "walk f p n = xs @ ys"
  shows "walk f p (length xs) = xs" "walk f (walk_end f p (length xs)) (length ys) = ys"
    "n = length xs + length ys"
proof -
  show n: "n = length xs + length ys"
    using arg_cong [OF assms, of length] by simp
  have "walk f p (length xs) @ walk f (walk_end f p (length xs)) (length ys) = xs @ ys"
    using assms n by (simp add: walk_add)
  then show "walk f p (length xs) = xs" "walk f (walk_end f p (length xs)) (length ys) = ys"
    by simp_all
qed

lemma walk_update_other: "q \<notin> set (walk f p n) \<Longrightarrow> walk (f(q := v)) p n = walk f p n"
  by (rule walk_cong) auto

lemma walk_end_update_other: "q \<notin> set (walk f p n) \<Longrightarrow> walk_end (f(q := v)) p n = walk_end f p n"
  by (rule walk_end_cong) auto

lemma walk_extend:
  assumes c: "walk f p (Suc m) = c" and same: "\<And>x. x \<in> set (butlast c) \<Longrightarrow> g x = f x"
    and new: "g (last c) = i"
  shows "walk g p (Suc (Suc m)) = c @ [i]"
proof -
  have c': "c = walk f p m @ [walk_end f p m]"
    using c by (simp only: walk_snoc)
  then have "walk g p m = walk f p m" "walk_end g p m = walk_end f p m"
    using same walk_cong [of f p m g] walk_end_cong [of f p m g] by simp_all
  then show ?thesis
    using c' new by (simp only: walk_snoc walk_end_snoc) simp
qed

text \<open>Unlinking one element: its predecessor is linked to its successor.\<close>

lemma walk_skip:
  assumes w: "walk f p n = as @ a # x # bs" and d: "distinct (as @ a # x # bs)"
  shows "walk (f(a := f x)) p (n - 1) = as @ a # bs"
proof -
  note s = walk_split [OF w]
  have end_as: "walk_end f p (length as) = a" and fa: "f a = x" and bs: "walk f (f x) (length bs) = bs"
    using s(2) by auto
  have "walk (f(a := f x)) p (length as) = as" "walk_end (f(a := f x)) p (length as) = a"
    using s(1) end_as d by (simp_all add: walk_update_other walk_end_update_other)
  moreover have "walk (f(a := f x)) (f x) (length bs) = bs"
    using bs d by (simp add: walk_update_other)
  moreover have "n - 1 = length as + Suc (length bs)"
    using s(3) by simp
  ultimately show ?thesis by (simp add: walk_add del: add_Suc_right)
qed

subsection \<open>Array updates\<close>

lemma unat_eq_iff: "unat (a :: 'a::len word) = unat b \<longleftrightarrow> a = b"
  by (simp add: word_unat_eq_iff)

lemma nth_update_word:
  "unat i < length xs \<Longrightarrow> xs[unat i := x] ! unat j = (if i = j then x else xs ! unat j)"
  by (cases "i = j") (simp_all add: unat_eq_iff)

lemma nth_update_ne [simp]:
  "i \<noteq> j \<Longrightarrow> xs[unat i := x] ! unat j = xs ! unat j"
  "j \<noteq> i \<Longrightarrow> xs[unat i := x] ! unat j = xs ! unat j"
  by (auto simp: unat_eq_iff)

lemma distinct_words_length:
  assumes "distinct ws" and "\<And>w. w \<in> set ws \<Longrightarrow> unat (w :: 'a::len word) < n"
  shows "length ws \<le> n"
proof -
  have "card (unat ` set ws) = length ws"
    using distinct_card [OF assms(1)] by (simp add: card_image inj_on_def unat_eq_iff)
  moreover have "unat ` set ws \<subseteq> {..<n}"
    using assms(2) by auto
  ultimately show ?thesis
    using card_mono [of "{..<n}" "unat ` set ws"] by simp
qed

lemma find_append: "find P (xs @ ys) = (case find P xs of None \<Rightarrow> find P ys | Some x \<Rightarrow> Some x)"
  by (induction xs) auto

end
