(* ===== verification/Res_Pool.thy ===== *)
theory Res_Pool
  imports Prelude
begin

text \<open>
  The resource item pool of \<^verbatim>\<open>cluster/dtc_drc_util.c\<close>: an array of items whose free items are
  chained by the index in their first word. A C structure used as a pool item has \<open>next\<close> as its
  first field; here it is a record that extends \<open>drc_res_block_header\<close>.

  The memory behind \<open>addr\<close> is the list of items it holds, empty for a null pointer. The pool's
  spin lock makes every routine atomic. \<open>malloc\<close> may fail, which is the argument \<open>malloc_ok\<close>.
\<close>

record drc_res_block_header =
  bh_next :: u32

record ('a) drc_res_pool =
  rp_inited :: bool
  rp_free_list :: u32
  rp_item_num :: u32
  rp_used_num :: u32
  rp_item_size :: u64
  rp_addr :: "'a drc_res_block_header_scheme list"
  rp_recycle_pos :: u32

subsection \<open>Operations\<close>

definition set_next :: "'a drc_res_block_header_scheme list \<Rightarrow> u32 \<Rightarrow> u32 \<Rightarrow>
    'a drc_res_block_header_scheme list option" where
  "set_next mem idx n = do {
     block \<leftarrow> rd mem idx;
     wr mem idx (block\<lparr>bh_next := n\<rparr>)
   }"

fun drc_res_pool_link :: "'a drc_res_block_header_scheme list \<Rightarrow> u32 \<Rightarrow> nat \<Rightarrow>
    'a drc_res_block_header_scheme list option" where
  "drc_res_pool_link mem i 0 = set_next mem i OG_INVALID_ID32"
| "drc_res_pool_link mem i (Suc k) = do {
     mem' \<leftarrow> set_next mem i (i + 1);
     drc_res_pool_link mem' (i + 1) k
   }"

definition drc_res_pool_init :: "bool \<Rightarrow> 'a drc_res_block_header_scheme \<Rightarrow> 'a drc_res_pool \<Rightarrow>
    u64 \<Rightarrow> u32 \<Rightarrow> (status_t \<times> 'a drc_res_pool) option" where
  "drc_res_pool_init malloc_ok zero pool item_size item_num =
     (if rp_inited pool then Some (OG_ERROR, pool)
      else if item_size < 4 then Some (OG_ERROR, pool)
      else if \<not> malloc_ok then Some (OG_ERROR, pool\<lparr>rp_addr := []\<rparr>)
      else do {
        mem \<leftarrow> drc_res_pool_link
                 (replicate (unat (item_size * ucast item_num) div unat item_size) zero)
                 0 (unat (item_num - 1));
        Some (OG_SUCCESS, pool\<lparr>rp_item_size := item_size, rp_item_num := item_num,
                rp_used_num := 0, rp_free_list := 0, rp_recycle_pos := 0, rp_inited := True,
                rp_addr := mem\<rparr>)
      })"

definition drc_res_pool_destroy :: "'a drc_res_pool \<Rightarrow> 'a drc_res_pool" where
  "drc_res_pool_destroy pool =
     (if \<not> rp_inited pool then pool
      else pool\<lparr>rp_addr := [], rp_free_list := 0, rp_item_num := 0, rp_item_size := 0,
             rp_used_num := 0, rp_inited := False\<rparr>)"

definition drc_res_pool_alloc_item :: "'a drc_res_pool \<Rightarrow> (u32 \<times> 'a drc_res_pool) option" where
  "drc_res_pool_alloc_item pool =
     (if \<not> rp_inited pool then Some (OG_INVALID_ID32, pool)
      else let idx = rp_free_list pool in
        if idx = OG_INVALID_ID32 then Some (OG_INVALID_ID32, pool)
        else do {
          block \<leftarrow> rd (rp_addr pool) idx;
          Some (idx, pool\<lparr>rp_free_list := bh_next block, rp_used_num := rp_used_num pool + 1\<rparr>)
        })"

fun drc_res_pool_take :: "'a drc_res_pool \<Rightarrow> nat \<Rightarrow> (u32 list \<times> 'a drc_res_pool) option" where
  "drc_res_pool_take pool 0 = Some ([], pool)"
| "drc_res_pool_take pool (Suc k) = do {
     block \<leftarrow> rd (rp_addr pool) (rp_free_list pool);
     (ids, pool') \<leftarrow> drc_res_pool_take
        (pool\<lparr>rp_free_list := bh_next block, rp_used_num := rp_used_num pool + 1\<rparr>) k;
     Some (rp_free_list pool # ids, pool')
   }"

definition drc_res_pool_alloc_batch_item :: "'a drc_res_pool \<Rightarrow> u32 \<Rightarrow>
    (status_t \<times> u32 list \<times> 'a drc_res_pool) option" where
  "drc_res_pool_alloc_batch_item pool num =
     (if \<not> rp_inited pool then Some (OG_ERROR, [], pool)
      else if num > rp_item_num pool \<or> rp_used_num pool + num > rp_item_num pool
        then Some (OG_ERROR, [], pool)
      else if rp_free_list pool = OG_INVALID_ID32 then Some (OG_ERROR, [], pool)
      else do {
        (ids, pool') \<leftarrow> drc_res_pool_take pool (unat num);
        Some (OG_SUCCESS, ids, pool')
      })"

definition drc_res_pool_put :: "'a drc_res_pool \<Rightarrow> u32 \<Rightarrow> 'a drc_res_pool option" where
  "drc_res_pool_put pool idx = do {
     mem \<leftarrow> set_next (rp_addr pool) idx (rp_free_list pool);
     Some (pool\<lparr>rp_addr := mem, rp_free_list := idx, rp_used_num := rp_used_num pool - 1\<rparr>)
   }"

definition drc_res_pool_free_item :: "'a drc_res_pool \<Rightarrow> u32 \<Rightarrow> 'a drc_res_pool option" where
  "drc_res_pool_free_item pool idx =
     (if \<not> rp_inited pool then Some pool else drc_res_pool_put pool idx)"

fun drc_res_pool_put_all :: "'a drc_res_pool \<Rightarrow> u32 list \<Rightarrow> 'a drc_res_pool option" where
  "drc_res_pool_put_all pool [] = Some pool"
| "drc_res_pool_put_all pool (idx # ids) =
     (if idx > rp_item_num pool then Some pool
      else do {
        pool' \<leftarrow> drc_res_pool_put pool idx;
        drc_res_pool_put_all pool' ids
      })"

text \<open>The C routine takes the array and its length; the length is that of the list.\<close>

definition drc_res_pool_free_batch_item :: "'a drc_res_pool \<Rightarrow> u32 list \<Rightarrow> 'a drc_res_pool option"
  where
  "drc_res_pool_free_batch_item pool ids =
     (if \<not> rp_inited pool then Some pool
      else if length ids > unat (rp_used_num pool) then Some pool
      else drc_res_pool_put_all pool ids)"

subsection \<open>The free chain and the pool invariant\<close>

definition pool_next :: "'a drc_res_pool \<Rightarrow> u32 \<Rightarrow> u32" where
  "pool_next p i =
     (if unat i < length (rp_addr p) then bh_next (rp_addr p ! unat i) else OG_INVALID_ID32)"

definition pool_free_num :: "'a drc_res_pool \<Rightarrow> nat" where
  "pool_free_num p = unat (rp_item_num p) - unat (rp_used_num p)"

definition pool_free :: "'a drc_res_pool \<Rightarrow> u32 list" where
  "pool_free p = walk (pool_next p) (rp_free_list p) (pool_free_num p)"

definition pool_valid :: "'a drc_res_pool \<Rightarrow> u32 \<Rightarrow> bool" where
  "pool_valid p i \<longleftrightarrow> unat i < unat (rp_item_num p)"

definition pool_inv :: "'a drc_res_pool \<Rightarrow> bool" where
  "pool_inv p \<longleftrightarrow>
     rp_inited p \<and> length (rp_addr p) = unat (rp_item_num p) \<and>
     unat (rp_used_num p) \<le> unat (rp_item_num p) \<and>
     distinct (pool_free p) \<and> list_all (pool_valid p) (pool_free p) \<and>
     walk_end (pool_next p) (rp_free_list p) (pool_free_num p) = OG_INVALID_ID32"

definition pool_pop :: "'a drc_res_pool \<Rightarrow> 'a drc_res_pool" where
  "pool_pop p = p\<lparr>rp_free_list := pool_next p (rp_free_list p), rp_used_num := rp_used_num p + 1\<rparr>"

definition pool_push :: "'a drc_res_pool \<Rightarrow> u32 \<Rightarrow> 'a drc_res_pool" where
  "pool_push p i = p\<lparr>rp_addr := (rp_addr p)[unat i := (rp_addr p ! unat i)\<lparr>bh_next := rp_free_list p\<rparr>],
     rp_free_list := i, rp_used_num := rp_used_num p - 1\<rparr>"

lemma pool_inv_length: "pool_inv p \<Longrightarrow> length (rp_addr p) = unat (rp_item_num p)"
  by (simp add: pool_inv_def)

lemma pool_valid_not_invalid: "pool_valid p i \<Longrightarrow> i \<noteq> OG_INVALID_ID32"
  using unat_u32_le [of "rp_item_num p"] by (auto simp: pool_valid_def)

lemma pool_free_empty_iff: "pool_inv p \<Longrightarrow> pool_free p = [] \<longleftrightarrow> rp_free_list p = OG_INVALID_ID32"
proof (cases "pool_free_num p")
  case 0
  assume "pool_inv p"
  then show ?thesis using 0 by (simp add: pool_inv_def pool_free_def)
next
  case (Suc n)
  assume "pool_inv p"
  then have "pool_valid p (rp_free_list p)"
    using Suc by (simp add: pool_inv_def pool_free_def)
  then show ?thesis
    using Suc pool_valid_not_invalid by (auto simp: pool_free_def)
qed

lemma set_next_in:
  "unat i < length mem \<Longrightarrow> set_next mem i n = Some (mem[unat i := (mem ! unat i)\<lparr>bh_next := n\<rparr>])"
  by (simp add: set_next_def)

lemma pool_next_set_next:
  "unat i < length (rp_addr p) \<Longrightarrow>
   pool_next (p\<lparr>rp_addr := (rp_addr p)[unat i := (rp_addr p ! unat i)\<lparr>bh_next := n\<rparr>]\<rparr>) =
   (pool_next p)(i := n)"
  by (auto simp: fun_eq_iff pool_next_def nth_update_word)

lemma pool_frame:
  assumes "length mem = length (rp_addr p)"
    and "\<And>i. i \<in> set (pool_free p) \<Longrightarrow> bh_next (mem ! unat i) = bh_next (rp_addr p ! unat i)"
  shows "pool_free (p\<lparr>rp_addr := mem\<rparr>) = pool_free p"
    and "pool_inv p \<Longrightarrow> pool_inv (p\<lparr>rp_addr := mem\<rparr>)"
proof -
  let ?q = "p\<lparr>rp_addr := mem\<rparr>"
  have nx: "pool_next ?q i = pool_next p i"
    if "i \<in> set (walk (pool_next p) (rp_free_list p) (pool_free_num p))" for i
    using that assms by (simp add: pool_next_def pool_free_def)
  have n: "pool_free_num ?q = pool_free_num p"
    by (simp add: pool_free_num_def)
  show f: "pool_free ?q = pool_free p"
    using walk_cong [OF nx] by (simp add: pool_free_def n)
  have e: "walk_end (pool_next ?q) (rp_free_list p) (pool_free_num p) =
      walk_end (pool_next p) (rp_free_list p) (pool_free_num p)"
    by (rule walk_end_cong [OF nx])
  have v: "pool_valid ?q = pool_valid p"
    by (simp add: pool_valid_def fun_eq_iff)
  show "pool_inv ?q" if "pool_inv p"
    using that f e v n assms(1) by (simp add: pool_inv_def)
qed

lemma pool_frame_item:
  assumes "i \<notin> set (pool_free p)"
  shows "pool_free (p\<lparr>rp_addr := (rp_addr p)[unat i := x]\<rparr>) = pool_free p"
    and "pool_inv p \<Longrightarrow> pool_inv (p\<lparr>rp_addr := (rp_addr p)[unat i := x]\<rparr>)"
proof -
  have "bh_next ((rp_addr p)[unat i := x] ! unat j) = bh_next (rp_addr p ! unat j)"
    if "j \<in> set (pool_free p)" for j
    using that assms by (cases "j = i") auto
  then show "pool_free (p\<lparr>rp_addr := (rp_addr p)[unat i := x]\<rparr>) = pool_free p"
    and "pool_inv p \<Longrightarrow> pool_inv (p\<lparr>rp_addr := (rp_addr p)[unat i := x]\<rparr>)"
    using pool_frame [of "(rp_addr p)[unat i := x]" p] by auto
qed

subsection \<open>Allocation\<close>

lemma pool_pop:
  assumes inv: "pool_inv p" and fr: "pool_free p = i # is"
  shows "pool_inv (pool_pop p)" "pool_free (pool_pop p) = is" "rp_free_list p = i"
    "pool_valid (pool_pop p) = pool_valid p" "pool_valid p i"
    "unat (rp_used_num p) < unat (rp_item_num p)"
    "unat (rp_used_num (pool_pop p)) = Suc (unat (rp_used_num p))"
proof -
  obtain n where n: "pool_free_num p = Suc n"
    using fr by (cases "pool_free_num p") (auto simp: pool_free_def)
  show used: "unat (rp_used_num p) < unat (rp_item_num p)"
    using n by (simp add: pool_free_num_def)
  show inc: "unat (rp_used_num (pool_pop p)) = Suc (unat (rp_used_num p))"
    using used unat_u32_le [of "rp_item_num p"] by (simp add: pool_pop_def word_count)
  have nx: "pool_next (pool_pop p) = pool_next p"
    by (simp add: fun_eq_iff pool_next_def pool_pop_def)
  have n': "pool_free_num (pool_pop p) = n"
    using n inc by (simp add: pool_free_num_def) (simp add: pool_pop_def)
  show i: "rp_free_list p = i"
    using fr n by (simp add: pool_free_def)
  show fr': "pool_free (pool_pop p) = is"
    using fr n nx n' by (auto simp: pool_free_def) (auto simp: pool_pop_def)
  show v: "pool_valid (pool_pop p) = pool_valid p"
    by (simp add: fun_eq_iff pool_valid_def pool_pop_def)
  show "pool_valid p i"
    using inv fr by (simp add: pool_inv_def)
  have "walk_end (pool_next p) (pool_next p i) n = OG_INVALID_ID32"
    using inv n i by (simp add: pool_inv_def)
  then show "pool_inv (pool_pop p)"
    using inv fr fr' v nx n' used inc i unfolding pool_inv_def
    by (simp add: pool_pop_def)
qed

lemma alloc_item_empty:
  assumes "pool_inv p" and "pool_free p = []"
  shows "drc_res_pool_alloc_item p = Some (OG_INVALID_ID32, p)"
  using assms pool_free_empty_iff [of p]
  by (simp add: drc_res_pool_alloc_item_def pool_inv_def)

lemma alloc_item_Cons:
  assumes "pool_inv p" and "pool_free p = i # is"
  shows "drc_res_pool_alloc_item p = Some (i, pool_pop p)"
  using pool_pop [OF assms] pool_valid_not_invalid [of p i] assms(1) pool_inv_length [of p]
  by (simp add: drc_res_pool_alloc_item_def pool_pop_def pool_next_def pool_valid_def pool_inv_def)

lemma take_items:
  assumes "pool_inv p" and "k \<le> length (pool_free p)"
  shows "drc_res_pool_take p k = Some (take k (pool_free p), (pool_pop ^^ k) p) \<and>
    pool_inv ((pool_pop ^^ k) p) \<and> pool_free ((pool_pop ^^ k) p) = drop k (pool_free p)"
  using assms
proof (induction k arbitrary: p)
  case 0
  then show ?case by simp
next
  case (Suc k)
  then obtain i "is" where fr: "pool_free p = i # is"
    by (cases "pool_free p") auto
  note pop = pool_pop [OF Suc.prems(1) fr]
  have eq: "p\<lparr>rp_free_list := bh_next (rp_addr p ! unat i), rp_used_num := rp_used_num p + 1\<rparr> =
      pool_pop p" "unat i < length (rp_addr p)"
    using pop(3,5) pool_inv_length [OF Suc.prems(1)]
    by (simp_all add: pool_pop_def pool_next_def pool_valid_def)
  show ?case
    using Suc.IH [OF pop(1)] Suc.prems(2) fr pop eq
    by (simp add: funpow_swap1)
qed

subsection \<open>Release\<close>

lemma put_item: "pool_inv p \<Longrightarrow> pool_valid p i \<Longrightarrow> drc_res_pool_put p i = Some (pool_push p i)"
  by (simp add: drc_res_pool_put_def set_next_def pool_push_def pool_valid_def pool_inv_def)

lemma held_le_used:
  assumes "pool_inv p" and "distinct ids" and "list_all (pool_valid p) ids"
    and "set ids \<inter> set (pool_free p) = {}"
  shows "length ids \<le> unat (rp_used_num p)"
proof -
  let ?all = "ids @ pool_free p"
  have all: "distinct ?all" "list_all (pool_valid p) ?all"
    using assms by (auto simp: pool_inv_def)
  have "length ?all \<le> unat (rp_item_num p)"
    by (rule distinct_words_length) (use all in \<open>auto simp: list_all_iff pool_valid_def\<close>)
  moreover have "length (pool_free p) = unat (rp_item_num p) - unat (rp_used_num p)"
    by (simp add: pool_free_def pool_free_num_def)
  ultimately show ?thesis using assms(1) by (simp add: pool_inv_def)
qed

lemma used_pos:
  "pool_inv p \<Longrightarrow> pool_valid p i \<Longrightarrow> i \<notin> set (pool_free p) \<Longrightarrow> 0 < unat (rp_used_num p)"
  using held_le_used [of p "[i]"] by simp

lemma pool_push:
  assumes inv: "pool_inv p" and v: "pool_valid p i" and ni: "i \<notin> set (pool_free p)"
  shows "pool_inv (pool_push p i)" "pool_free (pool_push p i) = i # pool_free p"
    "pool_valid (pool_push p i) = pool_valid p"
    "unat (rp_used_num (pool_push p i)) = unat (rp_used_num p) - 1"
proof -
  let ?q = "pool_push p i"
  show dec: "unat (rp_used_num ?q) = unat (rp_used_num p) - 1"
    using used_pos [OF assms] by (simp add: pool_push_def word_count)
  have n: "pool_free_num ?q = Suc (pool_free_num p)"
    using used_pos [OF assms] inv dec
    by (simp add: pool_free_num_def pool_inv_def) (simp add: pool_push_def Suc_diff_le)
  have ir: "unat i < length (rp_addr p)"
    using v pool_inv_length [OF inv] by (simp add: pool_valid_def)
  have nx_i: "pool_next ?q i = rp_free_list p"
    using ir by (simp add: pool_next_def pool_push_def)
  have nx: "pool_next ?q j = pool_next p j"
    if "j \<in> set (walk (pool_next p) (rp_free_list p) (pool_free_num p))" for j
    using that ni ir by (auto simp: pool_next_def pool_push_def pool_free_def nth_update_word)
  have fl: "rp_free_list ?q = i"
    by (simp add: pool_push_def)
  show fr: "pool_free ?q = i # pool_free p"
    using walk_cong [OF nx] by (simp add: pool_free_def n fl nx_i)
  show vq: "pool_valid ?q = pool_valid p"
    by (simp add: fun_eq_iff pool_valid_def pool_push_def)
  have we: "walk_end (pool_next ?q) (rp_free_list ?q) (pool_free_num ?q) = OG_INVALID_ID32"
    using walk_end_cong [OF nx] inv by (simp add: n fl nx_i pool_inv_def)
  have "rp_inited ?q" "length (rp_addr ?q) = unat (rp_item_num ?q)" "rp_item_num ?q = rp_item_num p"
    using inv by (simp_all add: pool_inv_def pool_push_def)
  then show "pool_inv ?q"
    using inv fr vq we dec ni v unfolding pool_inv_def by (simp add: le_diff_conv)
qed

subsection \<open>Initialisation\<close>

lemma link_items:
  assumes "unat i + k < length mem" and "length mem \<le> 4294967295"
  shows "\<exists>mem'. drc_res_pool_link mem i k = Some mem' \<and> length mem' = length mem \<and>
    (\<forall>j < length mem. bh_next (mem' ! j) =
       (if j < unat i then bh_next (mem ! j)
        else if j < unat i + k then of_nat (Suc j)
        else if j = unat i + k then OG_INVALID_ID32
        else bh_next (mem ! j)))"
  using assms
proof (induction k arbitrary: mem i)
  case 0
  then show ?case by (auto simp: set_next_def nth_list_update)
next
  case (Suc k)
  let ?m = "mem[unat i := (mem ! unat i)\<lparr>bh_next := i + 1\<rparr>]"
  have i1: "unat (i + 1) = Suc (unat i)"
    using Suc.prems by (simp add: word_count)
  obtain m' where m': "drc_res_pool_link ?m (i + 1) k = Some m'" "length m' = length mem"
    and nx: "\<And>j. j < length mem \<Longrightarrow> bh_next (m' ! j) =
       (if j < Suc (unat i) then bh_next (?m ! j)
        else if j < Suc (unat i) + k then of_nat (Suc j)
        else if j = Suc (unat i) + k then OG_INVALID_ID32
        else bh_next (?m ! j))"
    using Suc.IH [of "i + 1" ?m] Suc.prems i1 by auto
  have "(of_nat (Suc (unat i)) :: u32) = i + 1"
    by simp
  then show ?case
    using Suc.prems m' nx
    by (auto simp: set_next_def nth_list_update less_Suc_eq)
qed

lemma walk_end_counts:
  assumes "\<And>j. Suc j < n \<Longrightarrow> f (of_nat j) = of_nat (Suc j)" and "k < n"
  shows "walk_end f (of_nat 0) k = (of_nat k :: u32)"
  using assms(2)
proof (induction k)
  case 0
  then show ?case by simp
next
  case (Suc k)
  then show ?case using assms(1) [of k] by (simp add: walk_end_snoc del: walk_end.simps)
qed

lemma walk_counts:
  assumes "\<And>j. Suc j < n \<Longrightarrow> f (of_nat j) = of_nat (Suc j)"
  shows "walk f (0 :: u32) n = map of_nat [0..<n]"
proof (rule nth_equalityI)
  fix k assume "k < length (walk f (0 :: u32) n)"
  then show "walk f 0 n ! k = map of_nat [0..<n] ! k"
    using walk_end_counts [of n f k] assms by (simp add: walk_nth)
qed simp

lemma alloc_size:
  assumes "4 \<le> (item_size :: u64)" and "unat item_size * unat (item_num :: u32) < 2 ^ 64"
  shows "unat (item_size * ucast item_num) div unat item_size = unat item_num"
proof -
  have u: "unat (ucast item_num :: u64) = unat item_num"
    using unat_u32_le [of item_num] by (simp add: unsigned_ucast_eq take_bit_nat_eq_self)
  have "unat (item_size * ucast item_num) = unat item_size * unat item_num"
    using assms(2) by (simp add: unat_word_ariths u)
  moreover have "0 < unat item_size"
    using assms(1) by (simp add: word_le_nat_alt)
  ultimately show ?thesis by simp
qed

lemma init_ok:
  assumes "\<not> rp_inited p" and "4 \<le> item_size" and "0 < unat item_num"
    and "unat item_size * unat item_num < 2 ^ 64"
  shows "\<exists>q. drc_res_pool_init True zero p item_size item_num = Some (OG_SUCCESS, q) \<and>
    pool_inv q \<and> pool_free q = map of_nat [0..<unat item_num] \<and> rp_item_num q = item_num \<and>
    rp_used_num q = 0"
proof -
  let ?n = "unat item_num" and ?mem = "replicate (unat item_num) zero"
  have le: "?n \<le> 4294967295" by (rule unat_u32_le)
  have k: "unat (item_num - 1) = ?n - 1"
    using assms(3) by (simp add: word_count)
  obtain mem where mem: "drc_res_pool_link ?mem 0 (?n - 1) = Some mem" "length mem = ?n"
    and nx: "\<And>j. j < ?n \<Longrightarrow> bh_next (mem ! j) = (if Suc j < ?n then of_nat (Suc j) else OG_INVALID_ID32)"
    using link_items [of 0 "?n - 1" ?mem] assms(3) le by fastforce
  define q where "q = p\<lparr>rp_item_size := item_size, rp_item_num := item_num, rp_used_num := 0,
    rp_free_list := 0, rp_recycle_pos := 0, rp_inited := True, rp_addr := mem\<rparr>"
  have init: "drc_res_pool_init True zero p item_size item_num = Some (OG_SUCCESS, q)"
    using assms mem(1) by (simp add: drc_res_pool_init_def alloc_size k q_def not_less)
  have f: "pool_next q (of_nat j) = (if Suc j < ?n then of_nat (Suc j) else OG_INVALID_ID32)"
    if "j < ?n" for j
    using that nx [of j] mem(2) le by (simp add: pool_next_def q_def word_count)
  have num: "pool_free_num q = ?n" by (simp add: pool_free_num_def q_def)
  have free: "pool_free q = map of_nat [0..<?n]"
    using walk_counts [of ?n "pool_next q"] f by (simp add: pool_free_def num) (simp add: q_def)
  have "pool_next q (walk_end (pool_next q) 0 (?n - 1)) = OG_INVALID_ID32"
    using walk_end_counts [of ?n "pool_next q" "?n - 1"] f [of "?n - 1"] f assms(3) by simp
  then have "walk_end (pool_next q) 0 (Suc (?n - 1)) = OG_INVALID_ID32"
    by (simp only: walk_end_snoc)
  then have we: "walk_end (pool_next q) (rp_free_list q) (pool_free_num q) = OG_INVALID_ID32"
    using assms(3) num by (simp add: q_def)
  have "inj_on (of_nat :: nat \<Rightarrow> u32) {0..<?n}"
    using le by (intro inj_on_inverseI [where g = unat]) (simp add: word_count)
  then have "distinct (pool_free q)" by (simp add: free distinct_map)
  moreover have "rp_item_num q = item_num" by (simp add: q_def)
  then have "list_all (pool_valid q) (pool_free q)"
    using le by (auto simp: free list_all_iff pool_valid_def word_count)
  ultimately have "pool_inv q"
    using we mem(2) by (simp add: pool_inv_def) (simp add: q_def)
  then show ?thesis using init free by (auto simp: q_def)
qed

subsection \<open>The allocator interface\<close>

text \<open>
  What a client of the pool relies on. A client issues requests against the allocator and keeps
  the identifiers it was given; \<open>Req_free k\<close> gives back the \<open>k\<close>-th of them.
\<close>

datatype alloc_req = Req_alloc | Req_free nat

fun run_client :: "('s \<Rightarrow> ('i \<times> 's) option) \<Rightarrow> ('s \<Rightarrow> 'i \<Rightarrow> 's option) \<Rightarrow> 'i \<Rightarrow> 's \<Rightarrow> 'i list \<Rightarrow>
    alloc_req list \<Rightarrow> ('s \<times> 'i list) option" where
  "run_client alloc dealloc none s held [] = Some (s, held)"
| "run_client alloc dealloc none s held (Req_alloc # rs) = do {
     (i, s') \<leftarrow> alloc s;
     run_client alloc dealloc none s' (if i = none then held else i # held) rs
   }"
| "run_client alloc dealloc none s held (Req_free k # rs) =
     (if k < length held then do {
        s' \<leftarrow> dealloc s (held ! k);
        run_client alloc dealloc none s' (take k held @ drop (Suc k) held) rs
      } else run_client alloc dealloc none s held rs)"

locale allocator =
  fixes inv :: "'s \<Rightarrow> bool"
    and avail :: "'s \<Rightarrow> 'i list"
    and valid :: "'s \<Rightarrow> 'i \<Rightarrow> bool"
    and none :: 'i
    and alloc :: "'s \<Rightarrow> ('i \<times> 's) option"
    and dealloc :: "'s \<Rightarrow> 'i \<Rightarrow> 's option"
  assumes none_invalid: "\<not> valid s none"
    and avail_valid: "inv s \<Longrightarrow> list_all (valid s) (avail s)"
    and avail_distinct: "inv s \<Longrightarrow> distinct (avail s)"
    and alloc_empty: "inv s \<Longrightarrow> avail s = [] \<Longrightarrow> alloc s = Some (none, s)"
    and alloc_Cons: "inv s \<Longrightarrow> avail s = i # is \<Longrightarrow>
      \<exists>s'. alloc s = Some (i, s') \<and> inv s' \<and> avail s' = is \<and> valid s' = valid s"
    and dealloc_held: "inv s \<Longrightarrow> valid s i \<Longrightarrow> i \<notin> set (avail s) \<Longrightarrow>
      \<exists>s'. dealloc s i = Some s' \<and> inv s' \<and> avail s' = i # avail s \<and> valid s' = valid s"
begin

lemma alloc_dealloc:
  assumes "inv s" and "avail s \<noteq> []"
  shows "\<exists>i s1 s2. alloc s = Some (i, s1) \<and> i \<noteq> none \<and> i \<notin> set (avail s1) \<and>
    dealloc s1 i = Some s2 \<and> inv s2 \<and> avail s2 = avail s"
proof -
  obtain i "is" where a: "avail s = i # is"
    using assms(2) by (cases "avail s") auto
  have i: "valid s i" "i \<notin> set is"
    using avail_valid [OF assms(1)] avail_distinct [OF assms(1)] a by auto
  obtain s1 where s1: "alloc s = Some (i, s1)" "inv s1" "avail s1 = is" "valid s1 = valid s"
    using alloc_Cons [OF assms(1) a] by auto
  then show ?thesis
    using dealloc_held [of s1 i] i a none_invalid by fastforce
qed

lemma run_client_ok:
  assumes "inv s" and "distinct held" and "set held \<inter> set (avail s) = {}"
    and "list_all (valid s) held"
  shows "\<exists>s' held'. run_client alloc dealloc none s held rs = Some (s', held') \<and> inv s' \<and>
    distinct held' \<and> set held' \<inter> set (avail s') = {} \<and> list_all (valid s') held' \<and>
    valid s' = valid s \<and>
    length held' + length (avail s') = length held + length (avail s)"
  using assms
proof (induction rs arbitrary: s held)
  case Nil
  then show ?case by simp
next
  case (Cons r rs)
  show ?case
  proof (cases r)
    case Req_alloc
    show ?thesis
    proof (cases "avail s")
      case Nil
      then show ?thesis
        using Cons.IH [OF Cons.prems] Req_alloc alloc_empty [OF Cons.prems(1)] by simp
    next
      case (Cons i "is")
      obtain s1 where s1: "alloc s = Some (i, s1)" "inv s1" "avail s1 = is" "valid s1 = valid s"
        using alloc_Cons [OF Cons.prems(1) Cons] by auto
      have i: "valid s i" "i \<notin> set is" "i \<notin> set held"
        using avail_valid [OF Cons.prems(1)] avail_distinct [OF Cons.prems(1)] Cons.prems(3) Cons
        by auto
      have "i \<noteq> none"
        using i(1) none_invalid by auto
      then show ?thesis
        using Cons.IH [of s1 "i # held"] Cons.prems s1 i Cons Req_alloc by simp
    qed
  next
    case (Req_free k)
    show ?thesis
    proof (cases "k < length held")
      case False
      then show ?thesis using Cons.IH [OF Cons.prems] Req_free by simp
    next
      case True
      let ?h = "take k held @ drop (Suc k) held"
      have h: "held = take k held @ held ! k # drop (Suc k) held"
        using True by (rule id_take_nth_drop)
      have parts: "distinct (take k held @ held ! k # drop (Suc k) held)"
        "set (take k held @ held ! k # drop (Suc k) held) \<inter> set (avail s) = {}"
        "list_all (valid s) (take k held @ held ! k # drop (Suc k) held)"
        using Cons.prems(2-4) h by simp_all
      obtain s1 where s1: "dealloc s (held ! k) = Some s1" "inv s1"
        "avail s1 = held ! k # avail s" "valid s1 = valid s"
        using dealloc_held [OF Cons.prems(1), of "held ! k"] parts by auto
      have "length held = Suc (length ?h)"
        using True by simp
      moreover have "\<exists>s' held'. run_client alloc dealloc none s1 ?h rs = Some (s', held') \<and>
          inv s' \<and> distinct held' \<and> set held' \<inter> set (avail s') = {} \<and>
          list_all (valid s') held' \<and> valid s' = valid s1 \<and>
          length held' + length (avail s') = length ?h + length (avail s1)"
        by (rule Cons.IH) (use s1 parts in auto)
      ultimately show ?thesis
        using True s1 Req_free by auto
    qed
  qed
qed

end

interpretation pool: allocator pool_inv pool_free pool_valid OG_INVALID_ID32
  drc_res_pool_alloc_item drc_res_pool_free_item
proof
  fix p :: "'a drc_res_pool" and i "is"
  show "\<not> pool_valid p OG_INVALID_ID32"
    using pool_valid_not_invalid by blast
  show "list_all (pool_valid p) (pool_free p)" "distinct (pool_free p)" if "pool_inv p"
    using that by (simp_all add: pool_inv_def)
  show "drc_res_pool_alloc_item p = Some (OG_INVALID_ID32, p)" if "pool_inv p" "pool_free p = []"
    using that by (rule alloc_item_empty)
  show "\<exists>s'. drc_res_pool_alloc_item p = Some (i, s') \<and> pool_inv s' \<and> pool_free s' = is \<and>
      pool_valid s' = pool_valid p" if "pool_inv p" "pool_free p = i # is"
    using alloc_item_Cons [OF that] pool_pop [OF that] by blast
  show "\<exists>s'. drc_res_pool_free_item p i = Some s' \<and> pool_inv s' \<and>
      pool_free s' = i # pool_free p \<and> pool_valid s' = pool_valid p"
    if "pool_inv p" "pool_valid p i" "i \<notin> set (pool_free p)"
    using pool_push [OF that] put_item [OF that(1,2)] that(1)
    by (simp add: drc_res_pool_free_item_def pool_inv_def)
qed

subsection \<open>Batches\<close>

lemma put_all_items:
  assumes "pool_inv p" and "distinct ids" and "list_all (pool_valid p) ids"
    and "set ids \<inter> set (pool_free p) = {}"
  shows "\<exists>q. drc_res_pool_put_all p ids = Some q \<and> pool_inv q \<and>
    pool_free q = rev ids @ pool_free p \<and> rp_item_num q = rp_item_num p"
  using assms
proof (induction ids arbitrary: p)
  case Nil
  then show ?case by simp
next
  case (Cons i ids)
  then have v: "pool_valid p i" "i \<notin> set (pool_free p)" by auto
  note push = pool_push [OF Cons.prems(1) v]
  have "\<not> rp_item_num p < i"
    using v(1) by (simp add: pool_valid_def word_less_nat_alt)
  moreover have "rp_item_num (pool_push p i) = rp_item_num p"
    by (simp add: pool_push_def)
  moreover have "\<exists>q. drc_res_pool_put_all (pool_push p i) ids = Some q \<and> pool_inv q \<and>
      pool_free q = rev ids @ pool_free (pool_push p i) \<and>
      rp_item_num q = rp_item_num (pool_push p i)"
    by (rule Cons.IH) (use Cons.prems push in auto)
  ultimately show ?case
    using put_item [OF Cons.prems(1) v(1)] push(2) by auto
qed

subsection \<open>Properties of the pool\<close>

lemma pool_valid_item_num:
  assumes "pool_valid q' = pool_valid q" and "rp_item_num q = n"
  shows "unat (rp_item_num q') = unat n"
proof -
  have "pool_valid q' i = pool_valid q i" for i
    using assms(1) by simp
  from this [of "rp_item_num q'"] this [of "rp_item_num q"] show ?thesis
    using assms(2) by (simp add: pool_valid_def)
qed

text \<open>A pool of plain items, before initialisation; the concrete pool of the witnesses below.\<close>

definition blank_pool :: "unit drc_res_pool" where
  "blank_pool = \<lparr>rp_inited = False, rp_free_list = 0, rp_item_num = 0, rp_used_num = 0,
     rp_item_size = 0, rp_addr = [], rp_recycle_pos = 0\<rparr>"

definition three_pool :: "unit drc_res_pool" where
  "three_pool = \<lparr>rp_inited = True, rp_free_list = 0, rp_item_num = 3, rp_used_num = 0,
     rp_item_size = 8, rp_addr = [\<lparr>bh_next = 1\<rparr>, \<lparr>bh_next = 2\<rparr>, \<lparr>bh_next = OG_INVALID_ID32\<rparr>],
     rp_recycle_pos = 0\<rparr>"

text \<open>
  Claim C9. Whatever requests a client issues against a freshly initialised pool, no request
  touches memory outside the pool, the items it holds at the end are pairwise different items of
  the pool, and \<open>used_num\<close> counts them exactly.
\<close>

theorem pool_client_safe:
  assumes "\<not> rp_inited p" and "4 \<le> item_size" and "0 < unat item_num"
    and "unat item_size * unat item_num < 2 ^ 64"
  shows "\<exists>q q' held. drc_res_pool_init True zero p item_size item_num = Some (OG_SUCCESS, q) \<and>
    run_client drc_res_pool_alloc_item drc_res_pool_free_item OG_INVALID_ID32 q [] rs =
      Some (q', held) \<and> pool_inv q' \<and> distinct held \<and>
    list_all (\<lambda>i. unat i < unat item_num) held \<and> length held = unat (rp_used_num q')"
proof -
  obtain q where q: "drc_res_pool_init True zero p item_size item_num = Some (OG_SUCCESS, q)"
    "pool_inv q" "pool_free q = map of_nat [0..<unat item_num]" "rp_item_num q = item_num"
    using init_ok [OF assms] by blast
  obtain q' held where run:
    "run_client drc_res_pool_alloc_item drc_res_pool_free_item OG_INVALID_ID32 q [] rs =
       Some (q', held)" "pool_inv q'" "distinct held" "list_all (pool_valid q') held"
    "pool_valid q' = pool_valid q" "length held + length (pool_free q') = length (pool_free q)"
    using pool.run_client_ok [OF q(2), of "[]" rs] by auto
  have "pool_valid q' = (\<lambda>i. unat i < unat item_num)"
    using run(5) q(4) by (simp add: pool_valid_def fun_eq_iff)
  moreover have "unat (rp_item_num q') = unat item_num"
    using run(5) q(4) by (rule pool_valid_item_num)
  then have "length (pool_free q') + unat (rp_used_num q') = unat item_num"
    using run(2) by (simp add: pool_free_def pool_free_num_def pool_inv_def)
  then have "length held = unat (rp_used_num q')"
    using run(6) q(3) by simp
  ultimately show ?thesis using q(1) run by auto
qed

theorem pool_client_safe_witness:
  "\<exists>q q' held. drc_res_pool_init True \<lparr>bh_next = 0\<rparr> blank_pool 8 3 = Some (OG_SUCCESS, q) \<and>
    run_client drc_res_pool_alloc_item drc_res_pool_free_item OG_INVALID_ID32 q []
      [Req_alloc, Req_alloc, Req_free 1, Req_alloc] = Some (q', held) \<and>
    pool_inv q' \<and> distinct held \<and> list_all (\<lambda>i. unat i < unat (3 :: u32)) held \<and>
    length held = unat (rp_used_num q')"
  by (rule pool_client_safe) (simp_all add: blank_pool_def)


lemma three_pool_inv: "pool_inv three_pool"
  by code_simp


text \<open>
  Claim C32. Giving back a batch of held items returns all of them to the free chain, last one
  first, and keeps the pool well formed; the check against \<open>used_num\<close> never refuses such a batch.
\<close>

theorem free_batch_returns_items:
  assumes "pool_inv p" and "distinct ids" and "list_all (pool_valid p) ids"
    and "set ids \<inter> set (pool_free p) = {}"
  shows "\<exists>q. drc_res_pool_free_batch_item p ids = Some q \<and> pool_inv q \<and>
    pool_free q = rev ids @ pool_free p"
  using put_all_items [OF assms] held_le_used [OF assms] assms(1)
  by (auto simp: drc_res_pool_free_batch_item_def pool_inv_def)

theorem free_batch_returns_items_witness:
  "\<exists>q. drc_res_pool_free_batch_item ((pool_pop ^^ 2) three_pool) [0, 1] = Some q \<and> pool_inv q \<and>
    pool_free q = rev [0, 1] @ pool_free ((pool_pop ^^ 2) three_pool)"
  by (rule free_batch_returns_items) code_simp+

text \<open>
  Claim C36. The range check of a batch release is off by one: the identifier \<open>item_num\<close>, one past
  the last item, passes it, and the release writes outside the pool's memory.
\<close>

theorem free_batch_past_end:
  assumes "pool_inv p" and "0 < unat (rp_used_num p)"
  shows "drc_res_pool_free_batch_item p [rp_item_num p] = None"
  using assms
  by (simp add: drc_res_pool_free_batch_item_def drc_res_pool_put_def set_next_def rd_def pool_inv_def)

theorem free_batch_past_end_witness:
  "drc_res_pool_free_batch_item (pool_pop three_pool) [rp_item_num (pool_pop three_pool)] = None"
  by (rule free_batch_past_end) code_simp+

end
