(* ===== verification/Bitmap64.thy ===== *)
theory Bitmap64
  imports Prelude
begin

text \<open>
  The 64-bit sets of instance numbers: \<^verbatim>\<open>drc_bitmap64_*\<close> of \<^verbatim>\<open>cluster/dtc_drc_util.h\<close> and
  \<^verbatim>\<open>rc_bitmap64_*\<close> of \<^verbatim>\<open>rc/rc_reform.h\<close>, and the two hash functions of the resource
  directory. C leaves a shift by 64 or more undefined; the laws below are for instance numbers
  below \<open>OG_MAX_INSTANCES\<close>, which is what the debug assertion of each routine states.
\<close>

definition drc_bitmap64_set :: "u64 \<Rightarrow> u8 \<Rightarrow> u64" where
  "drc_bitmap64_set bitmap num = (let position = push_bit (unat num) 1 in bitmap OR position)"

definition drc_bitmap64_clear :: "u64 \<Rightarrow> u8 \<Rightarrow> u64" where
  "drc_bitmap64_clear bitmap num = (let position = NOT (push_bit (unat num) 1) in bitmap AND position)"

definition drc_bitmap64_exist :: "u64 \<Rightarrow> u8 \<Rightarrow> bool" where
  "drc_bitmap64_exist bitmap num =
     (let position = push_bit (unat num) 1; position = bitmap AND position in position \<noteq> 0)"

definition rc_bitmap64_set :: "u64 \<Rightarrow> u8 \<Rightarrow> u64" where
  "rc_bitmap64_set bitmap num = (let position = push_bit (unat num) 1 in bitmap OR position)"

definition rc_bitmap64_clear :: "u64 \<Rightarrow> u8 \<Rightarrow> u64" where
  "rc_bitmap64_clear bitmap num = (let position = NOT (push_bit (unat num) 1) in bitmap AND position)"

definition rc_bitmap64_exist :: "u64 \<Rightarrow> u8 \<Rightarrow> bool" where
  "rc_bitmap64_exist bitmap num =
     (let position = push_bit (unat num) 1; position = bitmap AND position in position \<noteq> 0)"

definition HASH_SEED :: u32 where
  "HASH_SEED = 0x811c9dc5"

text \<open>A remainder by zero is undefined in C; the callers pass the number of buckets or partitions.\<close>

definition drc_page_id_hash :: "u16 \<Rightarrow> u32 \<Rightarrow> u32 \<Rightarrow> u32" where
  "drc_page_id_hash file page rng = (HASH_SEED * ucast file + HASH_SEED * page) mod rng"

text \<open>
  The bytes of an identifier are \<open>char\<close>, whose sign C leaves to the platform; \<open>promote\<close> is the
  conversion of one \<open>char\<close> to \<open>uint32\<close>.
\<close>

fun bkdr_hash :: "(u8 \<Rightarrow> u32) \<Rightarrow> u32 \<Rightarrow> u8 list \<Rightarrow> u32" where
  "bkdr_hash promote hash [] = hash"
| "bkdr_hash promote hash (c # cs) = bkdr_hash promote (hash * 131 + promote c) cs"

definition drc_resource_id_hash :: "(u8 \<Rightarrow> u32) \<Rightarrow> u8 list \<Rightarrow> u32 \<Rightarrow> u32" where
  "drc_resource_id_hash promote bytes rng = bkdr_hash promote 0 bytes mod rng"

text \<open>The instance numbers a bitmap holds.\<close>

definition insts :: "u64 \<Rightarrow> u8 set" where
  "insts bitmap = {n. unat n < 64 \<and> bit bitmap (unat n)}"

definition inst_ok :: "u8 \<Rightarrow> bool" where
  "inst_ok n \<longleftrightarrow> unat n < OG_MAX_INSTANCES"

subsection \<open>The interface of a set of instances\<close>

locale inst_set =
  fixes elems :: "'b \<Rightarrow> 'i set"
    and ok :: "'i \<Rightarrow> bool"
    and add :: "'b \<Rightarrow> 'i \<Rightarrow> 'b"
    and exist :: "'b \<Rightarrow> 'i \<Rightarrow> bool"
  assumes elems_add: "ok i \<Longrightarrow> elems (add b i) = insert i (elems b)"
    and exist_iff: "ok i \<Longrightarrow> exist b i \<longleftrightarrow> i \<in> elems b"
begin

lemma exist_add: "ok i \<Longrightarrow> ok j \<Longrightarrow> exist (add b i) j \<longleftrightarrow> j = i \<or> exist b j"
  by (simp add: exist_iff elems_add)

lemma elems_fold_add: "list_all ok is \<Longrightarrow> elems (fold (\<lambda>i b. add b i) is b) = elems b \<union> set is"
  by (induction "is" arbitrary: b) (auto simp: elems_add)

end

locale inst_set_remove = inst_set +
  fixes remove :: "'b \<Rightarrow> 'i \<Rightarrow> 'b"
  assumes elems_remove: "ok i \<Longrightarrow> elems (remove b i) = elems b - {i}"
begin

lemma exist_remove: "ok i \<Longrightarrow> ok j \<Longrightarrow> exist (remove b i) j \<longleftrightarrow> j \<noteq> i \<and> exist b j"
  by (auto simp: exist_iff elems_remove)

lemma remove_add: "ok i \<Longrightarrow> \<not> exist b i \<Longrightarrow> elems (remove (add b i) i) = elems b"
  by (auto simp: exist_iff elems_remove elems_add)

lemma elems_fold_remove:
  "list_all ok is \<Longrightarrow> elems (fold (\<lambda>i b. remove b i) is b) = elems b - set is"
  by (induction "is" arbitrary: b) (auto simp: elems_remove)

end

lemma insts_set [simp]:
  "inst_ok n \<Longrightarrow> insts (drc_bitmap64_set b n) = insert n (insts b)"
  by (auto simp: insts_def drc_bitmap64_set_def inst_ok_def OG_MAX_INSTANCES_def bit_simps unat_eq_iff)

lemma insts_clear [simp]: "insts (drc_bitmap64_clear b n) = insts b - {n}"
  by (auto simp: insts_def drc_bitmap64_clear_def bit_simps unat_eq_iff)

lemma exist_insts: "drc_bitmap64_exist b n \<longleftrightarrow> n \<in> insts b"
  using bit_imp_le_length [of b "unat n"]
  by (auto simp: insts_def drc_bitmap64_exist_def and_exp_eq_0_iff_not_bit)

interpretation drc_bits: inst_set_remove insts inst_ok drc_bitmap64_set drc_bitmap64_exist
  drc_bitmap64_clear
  by unfold_locales (simp_all add: exist_insts)

lemma rc_bitmap64_eq:
  "rc_bitmap64_set = drc_bitmap64_set" "rc_bitmap64_clear = drc_bitmap64_clear"
  "rc_bitmap64_exist = drc_bitmap64_exist"
  by (simp_all add: fun_eq_iff rc_bitmap64_set_def drc_bitmap64_set_def rc_bitmap64_clear_def
      drc_bitmap64_clear_def rc_bitmap64_exist_def drc_bitmap64_exist_def)

interpretation rc_bits: inst_set_remove insts inst_ok rc_bitmap64_set rc_bitmap64_exist
  rc_bitmap64_clear
  unfolding rc_bitmap64_eq by (rule drc_bits.inst_set_remove_axioms)

lemma insts_0 [simp]: "insts 0 = {}"
  by (simp add: insts_def)

lemma insts_empty_iff: "insts b = {} \<longleftrightarrow> b = 0"
proof
  assume e: "insts b = {}"
  have "\<not> bit b n" for n
  proof
    assume b: "bit b n"
    then have n: "n < 64" by (auto dest: bit_imp_le_length)
    then have "unat (of_nat n :: u8) = n" by (simp add: unat_of_nat)
    then have "of_nat n \<in> insts b" using b n by (simp add: insts_def)
    then show False using e by simp
  qed
  then show "b = 0" by (simp add: bit_eq_iff)
qed simp

lemma insts_inj: "insts a = insts b \<longleftrightarrow> a = b"
proof
  assume e: "insts a = insts b"
  have "bit a n = bit b n" for n
  proof (cases "n < 64")
    case True
    then have "unat (of_nat n :: u8) = n" by (simp add: unat_of_nat)
    then have "bit w n \<longleftrightarrow> of_nat n \<in> insts w" for w using True by (simp add: insts_def)
    then show ?thesis using e by simp
  next
    case False
    then show ?thesis by (auto dest: bit_imp_le_length)
  qed
  then show "a = b" by (simp add: bit_eq_iff)
qed simp

lemma insts_ok: "n \<in> insts b \<Longrightarrow> inst_ok n"
  by (simp add: insts_def inst_ok_def OG_MAX_INSTANCES_def)

lemma not_inst_ok_invalid [simp]: "\<not> inst_ok OG_INVALID_ID8"
  by (simp add: inst_ok_def OG_MAX_INSTANCES_def)

lemma hash_lt: "0 < unat rng \<Longrightarrow> unat (w mod rng :: u32) < unat rng"
  by (simp add: unat_mod)

lemma hash_in_range:
  assumes "0 < unat rng"
  shows "unat (drc_page_id_hash file page rng) < unat rng \<and>
    unat (drc_resource_id_hash promote bytes rng) < unat rng"
  using hash_lt [OF assms] by (simp add: drc_page_id_hash_def drc_resource_id_hash_def)

subsection \<open>Properties of bitmaps\<close>

text \<open>
  Claim C33. A bitmap of instances is a set: removing a list of instances after adding another one
  leaves exactly the set difference, whatever the bitmap held before, and the bitmap is zero exactly
  when no instance is left.
\<close>

theorem bitmap_add_remove_all:
  assumes "list_all inst_ok adds" and "list_all inst_ok dels"
  shows "let b' = fold (\<lambda>i b. drc_bitmap64_clear b i) dels (fold (\<lambda>i b. drc_bitmap64_set b i) adds b)
    in insts b' = (insts b \<union> set adds) - set dels \<and> (b' = 0 \<longleftrightarrow> insts b \<union> set adds \<subseteq> set dels) \<and>
       (\<forall>n. drc_bitmap64_exist b' n \<longleftrightarrow> (drc_bitmap64_exist b n \<or> n \<in> set adds) \<and> n \<notin> set dels)"
  using drc_bits.elems_fold_remove [OF assms(2)] drc_bits.elems_fold_add [OF assms(1), of b]
  by (auto simp: Let_def exist_insts insts_empty_iff [symmetric])

theorem bitmap_add_remove_all_witness:
  "insts (fold (\<lambda>i b. drc_bitmap64_clear b i) [0, 63] (fold (\<lambda>i b. drc_bitmap64_set b i) [0, 3, 63] 2)) =
     (insts 2 \<union> set [0, 3, 63]) - set [0, 63]"
  using bitmap_add_remove_all [of "[0, 3, 63]" "[0, 63]" 2]
  by (simp add: Let_def inst_ok_def OG_MAX_INSTANCES_def)

end
