(* ===== verification/Res_Map.thy ===== *)
theory Res_Map
  imports Res_Pool Bitmap64
begin

text \<open>
  The resource hash map of \<^verbatim>\<open>cluster/dtc_drc_util.c\<close>: an item pool and an array of buckets, each with
  the index of its first item and a count; the items of a bucket are chained by their first word.
  The routines take a pointer to the bucket the caller selected by hashing the identifier; here the
  bucket is its index. \<open>res_cmp_func\<close> compares an identifier with an item.
\<close>

record drc_res_bucket =
  bk_count :: u32
  bk_first :: u32

record ('k, 'a) drc_res_map =
  rm_inited :: bool
  rm_res_pool :: "'a drc_res_pool"
  rm_bucket_num :: u32
  rm_buckets :: "drc_res_bucket list"
  rm_res_cmp_func :: "('k \<Rightarrow> 'a drc_res_block_header_scheme \<Rightarrow> bool) option"

subsection \<open>Operations\<close>

definition drc_res_map_init :: "bool \<Rightarrow> bool \<Rightarrow> 'a drc_res_block_header_scheme \<Rightarrow>
    ('k, 'a) drc_res_map \<Rightarrow> u32 \<Rightarrow> u64 \<Rightarrow> ('k \<Rightarrow> 'a drc_res_block_header_scheme \<Rightarrow> bool) \<Rightarrow>
    (status_t \<times> ('k, 'a) drc_res_map) option" where
  "drc_res_map_init malloc_ok pool_malloc_ok zero m pool_size item_size res_cmp_func =
     (if rm_inited m then Some (OG_ERROR, m)
      else let m = m\<lparr>rm_bucket_num := pool_size * 2 + 1\<rparr> in
        if \<not> malloc_ok then Some (OG_ERROR, m\<lparr>rm_buckets := []\<rparr>)
        else let m = m\<lparr>rm_buckets := replicate (unat (rm_bucket_num m)) \<lparr>bk_count = 0, bk_first = 0\<rparr>\<rparr>
        in do {
          (ret, pool) \<leftarrow> drc_res_pool_init pool_malloc_ok zero (rm_res_pool m) item_size pool_size;
          if ret \<noteq> OG_SUCCESS
          then Some (OG_ERROR, m\<lparr>rm_res_pool := pool, rm_buckets := []\<rparr>)
          else Some (OG_SUCCESS, m\<lparr>rm_res_pool := pool, rm_res_cmp_func := Some res_cmp_func,
                                  rm_inited := True\<rparr>)
        })"

definition drc_res_map_destroy :: "('k, 'a) drc_res_map \<Rightarrow> ('k, 'a) drc_res_map" where
  "drc_res_map_destroy m =
     (if \<not> rm_inited m then m
      else m\<lparr>rm_res_pool := drc_res_pool_destroy (rm_res_pool m), rm_buckets := [],
             rm_bucket_num := 0, rm_res_cmp_func := None, rm_inited := False\<rparr>)"

definition drc_get_buf_map_bucket :: "('k, 'a) drc_res_map \<Rightarrow> u16 \<Rightarrow> u32 \<Rightarrow> u32" where
  "drc_get_buf_map_bucket m file page = drc_page_id_hash file page (rm_bucket_num m)"

definition drc_get_res_map_bucket :: "(u8 \<Rightarrow> u32) \<Rightarrow> ('k, 'a) drc_res_map \<Rightarrow> u8 list \<Rightarrow> u32" where
  "drc_get_res_map_bucket promote m bytes = drc_resource_id_hash promote bytes (rm_bucket_num m)"

text \<open>The result is the value stored through \<open>next\<close> and the bucket.\<close>

definition drc_res_map_add :: "drc_res_bucket \<Rightarrow> u32 \<Rightarrow> u32 \<times> drc_res_bucket" where
  "drc_res_map_add bucket add_idx =
     (if bk_count bucket = 0 then OG_INVALID_ID32 else bk_first bucket,
      bucket\<lparr>bk_first := add_idx, bk_count := bk_count bucket + 1\<rparr>)"

text \<open>The callers pass the \<open>next\<close> field of the added item.\<close>

definition map_add :: "('k, 'a) drc_res_map \<Rightarrow> u32 \<Rightarrow> u32 \<Rightarrow> ('k, 'a) drc_res_map option" where
  "map_add m b idx = do {
     bucket \<leftarrow> rd (rm_buckets m) b;
     let (nxt, bucket') = drc_res_map_add bucket idx;
     mem \<leftarrow> set_next (rp_addr (rm_res_pool m)) idx nxt;
     buckets \<leftarrow> wr (rm_buckets m) b bucket';
     Some (m\<lparr>rm_res_pool := (rm_res_pool m)\<lparr>rp_addr := mem\<rparr>, rm_buckets := buckets\<rparr>)
   }"

fun map_scan :: "('k \<Rightarrow> 'a drc_res_block_header_scheme \<Rightarrow> bool) \<Rightarrow>
    'a drc_res_block_header_scheme list \<Rightarrow> 'k \<Rightarrow> u32 \<Rightarrow> nat \<Rightarrow> u32 option option" where
  "map_scan cmp mem k idx 0 = Some None"
| "map_scan cmp mem k idx (Suc n) = do {
     res \<leftarrow> rd mem idx;
     if cmp k res then Some (Some idx) else map_scan cmp mem k (bh_next res) n
   }"

text \<open>The pointer to the found item is its index; \<open>Some None\<close> is a null pointer.\<close>

definition drc_res_map_lookup :: "('k, 'a) drc_res_map \<Rightarrow> u32 \<Rightarrow> 'k \<Rightarrow> u32 option option" where
  "drc_res_map_lookup m b k = do {
     bucket \<leftarrow> rd (rm_buckets m) b;
     if bk_count bucket = 0 then Some None
     else do {
       cmp \<leftarrow> rm_res_cmp_func m;
       map_scan cmp (rp_addr (rm_res_pool m)) k (bk_first bucket) (unat (bk_count bucket))
     }
   }"

text \<open>The loop of the removal; \<open>pre\<close> is the item before \<open>idx\<close>, if any.\<close>

fun map_unlink :: "('k \<Rightarrow> 'a drc_res_block_header_scheme \<Rightarrow> bool) \<Rightarrow>
    'a drc_res_block_header_scheme list \<Rightarrow> drc_res_bucket \<Rightarrow> 'k \<Rightarrow> u32 option \<Rightarrow> u32 \<Rightarrow> nat \<Rightarrow>
    ('a drc_res_block_header_scheme list \<times> drc_res_bucket) option" where
  "map_unlink cmp mem bucket k pre idx 0 = Some (mem, bucket)"
| "map_unlink cmp mem bucket k pre idx (Suc n) = do {
     res \<leftarrow> rd mem idx;
     if cmp k res then
       (case pre of
          None \<Rightarrow> Some (mem, bucket\<lparr>bk_first := bh_next res, bk_count := bk_count bucket - 1\<rparr>)
        | Some p \<Rightarrow> do {
            mem' \<leftarrow> set_next mem p (bh_next res);
            Some (mem', bucket\<lparr>bk_count := bk_count bucket - 1\<rparr>)
          })
     else map_unlink cmp mem bucket k (Some idx) (bh_next res) n
   }"

definition drc_res_map_remove :: "('k, 'a) drc_res_map \<Rightarrow> u32 \<Rightarrow> 'k \<Rightarrow> ('k, 'a) drc_res_map option"
  where
  "drc_res_map_remove m b k = do {
     bucket \<leftarrow> rd (rm_buckets m) b;
     if bk_count bucket = 0 then Some m
     else do {
       cmp \<leftarrow> rm_res_cmp_func m;
       (mem, bucket') \<leftarrow> map_unlink cmp (rp_addr (rm_res_pool m)) bucket k None (bk_first bucket)
                          (unat (bk_count bucket));
       buckets \<leftarrow> wr (rm_buckets m) b bucket';
       Some (m\<lparr>rm_res_pool := (rm_res_pool m)\<lparr>rp_addr := mem\<rparr>, rm_buckets := buckets\<rparr>)
     }
   }"

subsection \<open>Bucket chains and the map invariant\<close>

definition bucket_chain :: "('k, 'a) drc_res_map \<Rightarrow> nat \<Rightarrow> u32 list" where
  "bucket_chain m b = walk (pool_next (rm_res_pool m)) (bk_first (rm_buckets m ! b))
     (unat (bk_count (rm_buckets m ! b)))"

definition map_item :: "('k, 'a) drc_res_map \<Rightarrow> u32 \<Rightarrow> 'a drc_res_block_header_scheme" where
  "map_item m i = rp_addr (rm_res_pool m) ! unat i"

definition map_used :: "('k, 'a) drc_res_map \<Rightarrow> u32 \<Rightarrow> bool" where
  "map_used m i \<longleftrightarrow> pool_valid (rm_res_pool m) i \<and> i \<notin> set (pool_free (rm_res_pool m))"

text \<open>
  \<open>hash\<close> selects the bucket of an identifier from the number of buckets, \<open>key\<close> reads the identifier
  of an item. Every item is in the bucket of its identifier, so chains never share items.
\<close>

definition bucket_ok :: "(u32 \<Rightarrow> 'k \<Rightarrow> u32) \<Rightarrow> ('a drc_res_block_header_scheme \<Rightarrow> 'k) \<Rightarrow>
    ('k, 'a) drc_res_map \<Rightarrow> nat \<Rightarrow> bool" where
  "bucket_ok hash key m b \<longleftrightarrow>
     distinct (map (\<lambda>i. key (map_item m i)) (bucket_chain m b)) \<and>
     list_all (\<lambda>i. map_used m i \<and> unat (hash (rm_bucket_num m) (key (map_item m i))) = b)
       (bucket_chain m b)"

definition map_inv :: "(u32 \<Rightarrow> 'k \<Rightarrow> u32) \<Rightarrow> ('a drc_res_block_header_scheme \<Rightarrow> 'k) \<Rightarrow>
    ('k, 'a) drc_res_map \<Rightarrow> bool" where
  "map_inv hash key m \<longleftrightarrow>
     rm_inited m \<and> pool_inv (rm_res_pool m) \<and> 0 < unat (rm_bucket_num m) \<and>
     length (rm_buckets m) = unat (rm_bucket_num m) \<and>
     list_all (bucket_ok hash key m) [0..<length (rm_buckets m)]"

definition map_find :: "(u32 \<Rightarrow> 'k \<Rightarrow> u32) \<Rightarrow> ('a drc_res_block_header_scheme \<Rightarrow> 'k) \<Rightarrow>
    ('k, 'a) drc_res_map \<Rightarrow> 'k \<Rightarrow> u32 option" where
  "map_find hash key m k =
     find (\<lambda>i. key (map_item m i) = k) (bucket_chain m (unat (hash (rm_bucket_num m) k)))"

subsection \<open>Chains under updates of the pool\<close>

lemma bucket_okD:
  assumes "map_inv hash key m" and "b < length (rm_buckets m)"
  shows "bucket_ok hash key m b"
  using assms by (simp add: map_inv_def list_all_iff)

lemma chain_used:
  assumes "map_inv hash key m" and "b < length (rm_buckets m)" and "i \<in> set (bucket_chain m b)"
  shows "map_used m i" and "unat (hash (rm_bucket_num m) (key (map_item m i))) = b"
  using bucket_okD [OF assms(1,2)] assms(3) by (auto simp: bucket_ok_def list_all_iff)

lemma map_used_lt: "pool_inv (rm_res_pool m) \<Longrightarrow> map_used m i \<Longrightarrow> unat i < length (rp_addr (rm_res_pool m))"
  by (simp add: map_used_def pool_valid_def pool_inv_length)

text \<open>
  The map does not see changes of the pool that keep the links and identifiers of the chained items
  and leave them allocated: allocation, release of an item that is in no chain, and changes of the
  rest of an item.
\<close>

lemma map_frame:
  assumes inv: "map_inv hash key m" and pool: "pool_inv pool'"
    and num: "rp_item_num pool' = rp_item_num (rm_res_pool m)"
    and kept: "\<And>b i. b < length (rm_buckets m) \<Longrightarrow> i \<in> set (bucket_chain m b) \<Longrightarrow>
      bh_next (rp_addr pool' ! unat i) = bh_next (map_item m i) \<and>
      key (rp_addr pool' ! unat i) = key (map_item m i) \<and> i \<notin> set (pool_free pool')"
  shows "map_inv hash key (m\<lparr>rm_res_pool := pool'\<rparr>)"
    and "b < length (rm_buckets m) \<Longrightarrow> bucket_chain (m\<lparr>rm_res_pool := pool'\<rparr>) b = bucket_chain m b"
    and "\<And>k. unat (hash (rm_bucket_num m) k) < length (rm_buckets m) \<Longrightarrow>
      map_find hash key (m\<lparr>rm_res_pool := pool'\<rparr>) k = map_find hash key m k"
proof -
  let ?m = "m\<lparr>rm_res_pool := pool'\<rparr>"
  have len: "length (rp_addr pool') = length (rp_addr (rm_res_pool m))"
    using inv pool num by (simp add: map_inv_def pool_inv_def)
  have chain: "bucket_chain ?m b = bucket_chain m b" if "b < length (rm_buckets m)" for b
    unfolding bucket_chain_def
  proof (simp, rule walk_cong)
    fix i assume "i \<in> set (walk (pool_next (rm_res_pool m)) (bk_first (rm_buckets m ! b))
        (unat (bk_count (rm_buckets m ! b))))"
    then show "pool_next pool' i = pool_next (rm_res_pool m) i"
      using kept [OF that, of i] len by (simp add: bucket_chain_def pool_next_def map_item_def)
  qed
  then show "b < length (rm_buckets m) \<Longrightarrow> bucket_chain ?m b = bucket_chain m b" .
  have item: "key (map_item ?m i) = key (map_item m i)" "map_used m i \<longrightarrow> map_used ?m i"
    if "b < length (rm_buckets m)" "i \<in> set (bucket_chain m b)" for b i
    using kept [OF that] num by (simp_all add: map_item_def map_used_def pool_valid_def)
  have "bucket_ok hash key ?m b" if b: "b < length (rm_buckets m)" for b
    using bucket_okD [OF inv b] item [OF b] chain [OF b]
    by (simp add: bucket_ok_def list_all_iff cong: map_cong)
  then show "map_inv hash key ?m"
    using inv pool by (simp add: map_inv_def list_all_iff)
  fix k
  assume "unat (hash (rm_bucket_num m) k) < length (rm_buckets m)"
  then show "map_find hash key ?m k = map_find hash key m k"
    using chain item by (simp add: map_find_def cong: find_cong)
qed

lemma item_next_ex: "\<exists>nx. (item :: 'a drc_res_block_header_scheme) = item\<lparr>bh_next := nx\<rparr>"
  by (rule exI [of _ "bh_next item"]) simp

lemma remove_walk:
  assumes w: "walk f p n = as @ x # bs" and d: "distinct (as @ x # bs)"
  shows "walk (f(if as = [] then x else last as := f x)) (if as = [] then f x else p) (n - 1) = as @ bs"
proof (cases as rule: rev_cases)
  case Nil
  then have "walk f (f x) (n - 1) = bs"
    using tl_walk [of f p n] w hd_walk [of n f p] by (cases n) auto
  then show ?thesis
    using Nil d by (simp add: walk_update_other)
next
  case (snoc as' a)
  then show ?thesis
    using walk_skip [of f p n as' a x bs] w d by simp
qed

definition map_relink :: "('k, 'a) drc_res_map \<Rightarrow> u32 \<Rightarrow> drc_res_bucket \<Rightarrow> u32 \<Rightarrow> u32 \<Rightarrow>
    ('k, 'a) drc_res_map" where
  "map_relink m b bk q nx = m\<lparr>
     rm_res_pool := (rm_res_pool m)\<lparr>rp_addr := (rp_addr (rm_res_pool m))
       [unat q := (rp_addr (rm_res_pool m) ! unat q)\<lparr>bh_next := nx\<rparr>]\<rparr>,
     rm_buckets := (rm_buckets m)[unat b := bk]\<rparr>"

lemma map_relink_simps [simp]:
  "rm_inited (map_relink m b bk q nx) = rm_inited m"
  "rm_bucket_num (map_relink m b bk q nx) = rm_bucket_num m"
  "rm_res_cmp_func (map_relink m b bk q nx) = rm_res_cmp_func m"
  "length (rm_buckets (map_relink m b bk q nx)) = length (rm_buckets m)"
  "rp_item_num (rm_res_pool (map_relink m b bk q nx)) = rp_item_num (rm_res_pool m)"
  by (simp_all add: map_relink_def)

subsection \<open>The interface between the map and its clients\<close>

text \<open>
  A client of the map supplies the hash that selects the bucket, the identifier of an item and the
  comparison function. The map relies on the hash staying in range, on the comparison deciding
  equality of identifiers and on identifiers not depending on the link word of an item. The lemmas
  show that the map then implements a finite map from identifiers to items.
\<close>

locale keyed_map =
  fixes hash :: "u32 \<Rightarrow> 'k \<Rightarrow> u32"
    and key :: "'a drc_res_block_header_scheme \<Rightarrow> 'k"
    and cmp :: "'k \<Rightarrow> 'a drc_res_block_header_scheme \<Rightarrow> bool"
  assumes hash_range: "0 < unat n \<Longrightarrow> unat (hash n k) < unat n"
    and cmp_key: "cmp k item \<longleftrightarrow> key item = k"
    and key_next: "key (item\<lparr>bh_next := nx\<rparr>) = key item"
begin

lemma bucket_in:
  "map_inv hash key m \<Longrightarrow> unat (hash (rm_bucket_num m) k) < length (rm_buckets m)"
  using hash_range by (simp add: map_inv_def)

lemma scan_find:
  assumes "\<And>i. i \<in> set (walk (pool_next p) idx n) \<Longrightarrow> unat i < length (rp_addr p)"
  shows "map_scan cmp (rp_addr p) k idx n =
    Some (find (\<lambda>i. key (rp_addr p ! unat i) = k) (walk (pool_next p) idx n))"
  using assms
proof (induction n arbitrary: idx)
  case 0
  then show ?case by simp
next
  case (Suc n)
  have "unat idx < length (rp_addr p)" using Suc.prems by simp
  moreover have "map_scan cmp (rp_addr p) k (pool_next p idx) n =
    Some (find (\<lambda>i. key (rp_addr p ! unat i) = k) (walk (pool_next p) (pool_next p idx) n))"
    by (rule Suc.IH) (use Suc.prems in simp)
  moreover have "pool_next p idx = bh_next (rp_addr p ! unat idx)"
    using calculation(1) by (simp add: pool_next_def)
  ultimately show ?case
    using cmp_key [of k "rp_addr p ! unat idx"] by simp
qed

lemma chain_in_pool:
  assumes "map_inv hash key m" and "b < length (rm_buckets m)" and "i \<in> set (bucket_chain m b)"
  shows "unat i < length (rp_addr (rm_res_pool m))"
  using chain_used(1) [OF assms] map_used_lt assms(1) by (auto simp: map_inv_def)

lemma lookup_find:
  assumes inv: "map_inv hash key m" and "rm_res_cmp_func m = Some cmp"
  shows "drc_res_map_lookup m (hash (rm_bucket_num m) k) k = Some (map_find hash key m k)"
proof -
  let ?b = "hash (rm_bucket_num m) k"
  let ?bk = "rm_buckets m ! unat ?b"
  have scan: "map_scan cmp (rp_addr (rm_res_pool m)) k (bk_first ?bk) (unat (bk_count ?bk)) =
      Some (map_find hash key m k)"
    using scan_find [of "rm_res_pool m"] chain_in_pool [OF inv bucket_in [OF inv]]
    by (simp add: map_find_def bucket_chain_def map_item_def)
  then show ?thesis
    using assms(2) bucket_in [OF inv, of k]
    by (auto simp: drc_res_map_lookup_def map_find_def bucket_chain_def)
qed

lemma find_chain:
  assumes inv: "map_inv hash key m"
  shows "map_find hash key m k = Some i \<longleftrightarrow>
    i \<in> set (bucket_chain m (unat (hash (rm_bucket_num m) k))) \<and> key (map_item m i) = k"
proof -
  let ?c = "bucket_chain m (unat (hash (rm_bucket_num m) k))"
  have d: "inj_on (\<lambda>i. key (map_item m i)) (set ?c)"
    using bucket_okD [OF inv bucket_in [OF inv]] by (simp add: bucket_ok_def distinct_map)
  show ?thesis
  proof
    assume "map_find hash key m k = Some i"
    then show "i \<in> set ?c \<and> key (map_item m i) = k"
      by (auto simp: map_find_def find_Some_iff)
  next
    assume i: "i \<in> set ?c \<and> key (map_item m i) = k"
    then obtain j where j: "map_find hash key m k = Some j"
      by (cases "map_find hash key m k") (auto simp: map_find_def find_None_iff)
    then have "j \<in> set ?c" "key (map_item m j) = k"
      by (auto simp: map_find_def find_Some_iff)
    then show "map_find hash key m k = Some i"
      using d i j by (auto dest: inj_onD)
  qed
qed

lemma find_None_chain:
  assumes inv: "map_inv hash key m" and "map_find hash key m (key (map_item m i)) = None"
    and "b < length (rm_buckets m)"
  shows "i \<notin> set (bucket_chain m b)"
proof
  assume i: "i \<in> set (bucket_chain m b)"
  then have "unat (hash (rm_bucket_num m) (key (map_item m i))) = b"
    by (rule chain_used(2) [OF inv assms(3)])
  then show False
    using i find_chain [OF inv, of "key (map_item m i)" i] assms(2) by simp
qed

text \<open>
  Insertion and removal change the link of one item and the header of one bucket. Such a change
  keeps the map well formed when the new chain of that bucket is.
\<close>

lemma map_relink:
  assumes inv: "map_inv hash key m" and b: "unat b < length (rm_buckets m)" and q: "map_used m q"
    and other: "\<And>c. c < length (rm_buckets m) \<Longrightarrow> c \<noteq> unat b \<Longrightarrow> q \<notin> set (bucket_chain m c)"
    and xs: "walk ((pool_next (rm_res_pool m))(q := nx)) (bk_first bk) (unat (bk_count bk)) = xs"
    and keys: "distinct (map (\<lambda>i. key (map_item m i)) xs)"
    and members: "\<And>i. i \<in> set xs \<Longrightarrow>
      map_used m i \<and> unat (hash (rm_bucket_num m) (key (map_item m i))) = unat b"
  shows "map_inv hash key (map_relink m b bk q nx)"
    and "map_find hash key (map_relink m b bk q nx) k =
      (if unat (hash (rm_bucket_num m) k) = unat b then find (\<lambda>i. key (map_item m i) = k) xs
       else map_find hash key m k)"
    and "pool_free (rm_res_pool (map_relink m b bk q nx)) = pool_free (rm_res_pool m)"
    and "map_item (map_relink m b bk q nx) j =
      (if j = q then (map_item m q)\<lparr>bh_next := nx\<rparr> else map_item m j)"
proof -
  let ?p = "rm_res_pool m" and ?m = "map_relink m b bk q nx"
  have pool: "pool_inv ?p"
    using inv by (simp add: map_inv_def)
  have ql: "unat q < length (rp_addr ?p)" and qf: "q \<notin> set (pool_free ?p)"
    using map_used_lt [OF pool q] q by (simp_all add: map_used_def)
  show free: "pool_free (rm_res_pool ?m) = pool_free ?p"
    using pool_frame_item(1) [OF qf] by (simp add: map_relink_def)
  have pool': "pool_inv (rm_res_pool ?m)"
    using pool_frame_item(2) [OF qf pool] by (simp add: map_relink_def)
  have item: "map_item ?m j = (if j = q then (map_item m q)\<lparr>bh_next := nx\<rparr> else map_item m j)" for j
    using ql by (simp add: map_item_def map_relink_def nth_update_word)
  then show "map_item ?m j = (if j = q then (map_item m q)\<lparr>bh_next := nx\<rparr> else map_item m j)" .
  have key': "key (map_item ?m i) = key (map_item m i)" for i
    by (simp add: item key_next)
  have used: "map_used ?m = map_used m"
    by (simp add: fun_eq_iff map_used_def pool_valid_def free)
  have nxt: "pool_next (rm_res_pool ?m) = (pool_next ?p)(q := nx)"
    using pool_next_set_next [OF ql] by (simp add: map_relink_def)
  have bks: "rm_buckets ?m ! c = (if c = unat b then bk else rm_buckets m ! c)" for c
    using b by (simp add: map_relink_def nth_list_update)
  have chain: "bucket_chain ?m c = (if c = unat b then xs else bucket_chain m c)"
    if "c < length (rm_buckets m)" for c
    using other [OF that] by (auto simp: bucket_chain_def nxt bks xs walk_update_other)
  have "bucket_ok hash key ?m c" if c: "c < length (rm_buckets m)" for c
    using bucket_okD [OF inv c] keys members chain [OF c]
    by (simp add: bucket_ok_def key' used list_all_iff)
  then show "map_inv hash key ?m"
    using inv pool' by (simp add: map_inv_def list_all_iff)
  show "map_find hash key ?m k =
      (if unat (hash (rm_bucket_num m) k) = unat b then find (\<lambda>i. key (map_item m i) = k) xs
       else map_find hash key m k)"
    using chain [OF bucket_in [OF inv]] by (simp add: map_find_def key')
qed

lemma map_add_ok:
  assumes inv: "map_inv hash key m" and used: "map_used m i"
    and k: "key (map_item m i) = k" and fresh: "map_find hash key m k = None"
  shows "\<exists>m'. map_add m (hash (rm_bucket_num m) k) i = Some m' \<and> map_inv hash key m' \<and>
    map_find hash key m' = (map_find hash key m)(k := Some i) \<and>
    rm_bucket_num m' = rm_bucket_num m \<and> rm_res_cmp_func m' = rm_res_cmp_func m \<and>
    pool_free (rm_res_pool m') = pool_free (rm_res_pool m) \<and>
    rp_item_num (rm_res_pool m') = rp_item_num (rm_res_pool m) \<and>
    (\<exists>nx. \<forall>j. map_item m' j = (if j = i then (map_item m i)\<lparr>bh_next := nx\<rparr> else map_item m j))"
proof -
  let ?b = "hash (rm_bucket_num m) k" and ?p = "rm_res_pool m"
  let ?bk = "rm_buckets m ! unat ?b" and ?xs = "i # bucket_chain m (unat (hash (rm_bucket_num m) k))"
  let ?nx = "if bk_count ?bk = 0 then OG_INVALID_ID32 else bk_first ?bk"
  let ?bk' = "?bk\<lparr>bk_first := i, bk_count := bk_count ?bk + 1\<rparr>"
  have b: "unat ?b < length (rm_buckets m)" by (rule bucket_in [OF inv])
  have i: "unat i < length (rp_addr ?p)" "pool_valid ?p i"
    using map_used_lt used inv by (auto simp: map_used_def map_inv_def)
  have out: "i \<notin> set (bucket_chain m c)" if "c < length (rm_buckets m)" for c
    using find_None_chain [OF inv _ that, of i] k fresh by simp
  have members: "map_used m j \<and> unat (hash (rm_bucket_num m) (key (map_item m j))) = unat ?b"
    if "j \<in> set ?xs" for j
    using that chain_used [OF inv b] used k by auto
  have "k \<notin> set (map (\<lambda>i. key (map_item m i)) (bucket_chain m (unat ?b)))"
    using fresh find_chain [OF inv, of k] by auto
  then have keys: "distinct (map (\<lambda>i. key (map_item m i)) ?xs)"
    using bucket_okD [OF inv b] k by (simp add: bucket_ok_def)
  have "length ?xs \<le> unat (rp_item_num ?p)"
    by (rule distinct_words_length)
      (use keys members in \<open>auto simp: distinct_map map_used_def pool_valid_def\<close>)
  then have "unat (bk_count ?bk + 1) = Suc (unat (bk_count ?bk))"
    using unat_u32_le [of "rp_item_num ?p"] by (simp add: bucket_chain_def word_count)
  then have xs: "walk ((pool_next ?p)(i := ?nx)) (bk_first ?bk') (unat (bk_count ?bk')) = ?xs"
    using out [OF b] by (auto simp: bucket_chain_def walk_update_other)
  have add: "map_add m ?b i = Some (map_relink m ?b ?bk' i ?nx)"
    using b i by (simp add: map_add_def drc_res_map_add_def set_next_in map_relink_def)
  note relink = map_relink [OF inv b used out xs keys members]
  have "map_find hash key (map_relink m ?b ?bk' i ?nx) k' = ((map_find hash key m)(k := Some i)) k'" for k'
    using relink(2) [of k'] k by (auto simp: map_find_def)
  then show ?thesis
    using add relink by (auto simp: fun_eq_iff)
qed

lemma unlink_miss:
  assumes "\<And>i. i \<in> set (walk (pool_next p) idx n) \<Longrightarrow>
      unat i < length (rp_addr p) \<and> key (rp_addr p ! unat i) \<noteq> k"
  shows "map_unlink cmp (rp_addr p) bk k pre idx n = Some (rp_addr p, bk)"
  using assms
proof (induction n arbitrary: idx pre)
  case 0
  then show ?case by simp
next
  case (Suc n)
  have "unat idx < length (rp_addr p)" "\<not> cmp k (rp_addr p ! unat idx)"
    using Suc.prems by (auto simp: cmp_key)
  moreover have "pool_next p idx = bh_next (rp_addr p ! unat idx)"
    using calculation(1) by (simp add: pool_next_def)
  ultimately show ?case
    using Suc.IH [of "pool_next p idx" "Some idx"] Suc.prems by simp
qed

lemma unlink_hit:
  assumes "walk (pool_next p) idx n = as @ x # bs"
    and "\<And>i. i \<in> set (as @ [x]) \<Longrightarrow> unat i < length (rp_addr p)"
    and "\<And>i. i \<in> set as \<Longrightarrow> key (rp_addr p ! unat i) \<noteq> k" and "key (rp_addr p ! unat x) = k"
  shows "map_unlink cmp (rp_addr p) bk k pre idx n =
    (case (if as = [] then pre else Some (last as)) of
       None \<Rightarrow> Some (rp_addr p, bk\<lparr>bk_first := pool_next p x, bk_count := bk_count bk - 1\<rparr>)
     | Some a \<Rightarrow> do {
         mem' \<leftarrow> set_next (rp_addr p) a (pool_next p x);
         Some (mem', bk\<lparr>bk_count := bk_count bk - 1\<rparr>)
       })"
  using assms
proof (induction as arbitrary: idx n pre)
  case Nil
  then obtain n' where n: "n = Suc n'" "idx = x" by (cases n) auto
  have "unat x < length (rp_addr p)" "cmp k (rp_addr p ! unat x)"
    using Nil.prems by (auto simp: cmp_key)
  then show ?case by (simp add: n pool_next_def split: option.split)
next
  case (Cons a as)
  then obtain n' where n: "n = Suc n'" "idx = a" "walk (pool_next p) (pool_next p a) n' = as @ x # bs"
    by (cases n) auto
  have a: "unat a < length (rp_addr p)" "\<not> cmp k (rp_addr p ! unat a)"
    using Cons.prems by (auto simp: cmp_key)
  then have "map_unlink cmp (rp_addr p) bk k pre idx n =
      map_unlink cmp (rp_addr p) bk k (Some a) (pool_next p a) n'"
    by (simp add: n pool_next_def)
  also have "\<dots> = (case (if as = [] then Some a else Some (last as)) of
       None \<Rightarrow> Some (rp_addr p, bk\<lparr>bk_first := pool_next p x, bk_count := bk_count bk - 1\<rparr>)
     | Some a \<Rightarrow> do {
         mem' \<leftarrow> set_next (rp_addr p) a (pool_next p x);
         Some (mem', bk\<lparr>bk_count := bk_count bk - 1\<rparr>)
       })"
    by (rule Cons.IH) (use Cons.prems n in auto)
  finally show ?case by simp
qed

lemma chain_at:
  assumes inv: "map_inv hash key m" and Some: "map_find hash key m k = Some x"
  shows "\<exists>as bs. bucket_chain m (unat (hash (rm_bucket_num m) k)) = as @ x # bs \<and>
    key (map_item m x) = k \<and> (\<forall>i \<in> set (as @ bs). key (map_item m i) \<noteq> k) \<and>
    distinct (map (\<lambda>i. key (map_item m i)) (as @ x # bs)) \<and> distinct (as @ x # bs)"
proof -
  have x: "x \<in> set (bucket_chain m (unat (hash (rm_bucket_num m) k)))" "key (map_item m x) = k"
    using Some find_chain [OF inv, of k x] by simp_all
  then obtain as bs where ch: "bucket_chain m (unat (hash (rm_bucket_num m) k)) = as @ x # bs"
    by (auto dest: split_list)
  have d: "distinct (map (\<lambda>i. key (map_item m i)) (as @ x # bs))"
    using bucket_okD [OF inv bucket_in [OF inv], of k] ch by (simp add: bucket_ok_def)
  moreover have "\<forall>i \<in> set (as @ bs). key (map_item m i) \<noteq> k"
    using d x(2) by (auto simp: image_iff)
  moreover have "distinct (as @ x # bs)"
    using d distinct_map by blast
  ultimately show ?thesis using ch x(2) by blast
qed

lemma map_remove_absent:
  assumes inv: "map_inv hash key m" and c: "rm_res_cmp_func m = Some cmp"
    and None: "map_find hash key m k = None"
  shows "\<exists>m'. drc_res_map_remove m (hash (rm_bucket_num m) k) k = Some m' \<and> map_inv hash key m' \<and>
    map_find hash key m' = (map_find hash key m)(k := None) \<and>
    rm_bucket_num m' = rm_bucket_num m \<and> rm_res_cmp_func m' = rm_res_cmp_func m \<and>
    pool_free (rm_res_pool m') = pool_free (rm_res_pool m) \<and>
    rp_item_num (rm_res_pool m') = rp_item_num (rm_res_pool m) \<and>
    (\<forall>j. \<exists>nx. map_item m' j = (map_item m j)\<lparr>bh_next := nx\<rparr>)"
proof -
  let ?b = "hash (rm_bucket_num m) k"
  have b: "unat ?b < length (rm_buckets m)" by (rule bucket_in [OF inv])
  have "map_unlink cmp (rp_addr (rm_res_pool m)) (rm_buckets m ! unat ?b) k None
      (bk_first (rm_buckets m ! unat ?b)) (unat (bk_count (rm_buckets m ! unat ?b))) =
      Some (rp_addr (rm_res_pool m), rm_buckets m ! unat ?b)"
    by (rule unlink_miss) (use chain_in_pool [OF inv b] find_chain [OF inv, of k] None in
      \<open>auto simp: bucket_chain_def map_item_def\<close>)
  then have "drc_res_map_remove m ?b k = Some m"
    using b c by (simp add: drc_res_map_remove_def)
  then show ?thesis
    using inv None by (auto simp: fun_eq_iff intro: item_next_ex)
qed

lemma map_remove_present:
  assumes inv: "map_inv hash key m" and c: "rm_res_cmp_func m = Some cmp"
    and Some: "map_find hash key m k = Some x"
  shows "\<exists>m'. drc_res_map_remove m (hash (rm_bucket_num m) k) k = Some m' \<and> map_inv hash key m' \<and>
    map_find hash key m' = (map_find hash key m)(k := None) \<and>
    rm_bucket_num m' = rm_bucket_num m \<and> rm_res_cmp_func m' = rm_res_cmp_func m \<and>
    pool_free (rm_res_pool m') = pool_free (rm_res_pool m) \<and>
    rp_item_num (rm_res_pool m') = rp_item_num (rm_res_pool m) \<and>
    (\<forall>j. \<exists>nx. map_item m' j = (map_item m j)\<lparr>bh_next := nx\<rparr>)"
proof -
  let ?b = "hash (rm_bucket_num m) k" and ?p = "rm_res_pool m"
  let ?bk = "rm_buckets m ! unat ?b"
  have b: "unat ?b < length (rm_buckets m)" by (rule bucket_in [OF inv])
  obtain as bs where ch: "bucket_chain m (unat ?b) = as @ x # bs" and kx: "key (map_item m x) = k"
    and kas: "\<And>i. i \<in> set (as @ bs) \<Longrightarrow> key (map_item m i) \<noteq> k"
    and d: "distinct (map (\<lambda>i. key (map_item m i)) (as @ x # bs))" and dx: "distinct (as @ x # bs)"
    using chain_at [OF inv Some] by blast
  have cnt: "unat (bk_count ?bk) = length (as @ x # bs)"
    using arg_cong [OF ch, of length] by (simp add: bucket_chain_def)
  then have ne: "bk_count ?bk \<noteq> 0" and cnt': "unat (bk_count ?bk - 1) = unat (bk_count ?bk) - 1"
    by (auto simp: word_count)
  define q where "q = (if as = [] then x else last as)"
  define bk' where "bk' = (if as = [] then ?bk\<lparr>bk_first := pool_next ?p x, bk_count := bk_count ?bk - 1\<rparr>
    else ?bk\<lparr>bk_count := bk_count ?bk - 1\<rparr>)"
  have qc: "q \<in> set (bucket_chain m (unat ?b))"
    using ch by (simp add: q_def)
  note used = chain_used [OF inv b]
  have ql: "unat q < length (rp_addr ?p)" and xl: "unat x < length (rp_addr ?p)"
    using chain_in_pool [OF inv b] qc ch by auto
  have other: "q \<notin> set (bucket_chain m c)" if "c < length (rm_buckets m)" "c \<noteq> unat ?b" for c
    using used(2) [OF qc] chain_used(2) [OF inv that(1), of q] that(2) by auto
  have members: "map_used m i \<and> unat (hash (rm_bucket_num m) (key (map_item m i))) = unat ?b"
    if "i \<in> set (as @ bs)" for i
    using that used [of i] ch by auto
  have w: "walk (pool_next ?p) (bk_first ?bk) (unat (bk_count ?bk)) = as @ x # bs"
    using ch by (simp add: bucket_chain_def)
  have xs: "walk ((pool_next ?p)(q := pool_next ?p x)) (bk_first bk') (unat (bk_count bk')) = as @ bs"
    using remove_walk [OF w dx] cnt' by (auto simp: q_def bk'_def)
  have in_pool: "unat i < length (rp_addr ?p)" if "i \<in> set (as @ [x])" for i
    using that chain_in_pool [OF inv b, of i] ch by auto
  have "map_unlink cmp (rp_addr ?p) ?bk k None (bk_first ?bk) (unat (bk_count ?bk)) =
      Some ((rp_addr ?p)[unat q := (rp_addr ?p ! unat q)\<lparr>bh_next := pool_next ?p x\<rparr>], bk')"
    using unlink_hit [OF w in_pool, of k ?bk None] kas kx ql xl
    by (auto simp: q_def bk'_def map_item_def set_next_in pool_next_def)
  then have rem: "drc_res_map_remove m ?b k = Some (map_relink m ?b bk' q (pool_next ?p x))"
    using b c ne by (simp add: drc_res_map_remove_def map_relink_def)
  have keys: "distinct (map (\<lambda>i. key (map_item m i)) (as @ bs))"
    using d by simp
  note relink = map_relink [OF inv b used(1) [OF qc] other xs keys members]
  have find: "map_find hash key (map_relink m ?b bk' q (pool_next ?p x)) k' =
      ((map_find hash key m)(k := None)) k'" for k'
  proof (cases "k' = k")
    case True
    have "find (\<lambda>i. key (map_item m i) = k) (as @ bs) = None"
      using kas by (auto simp: find_None_iff)
    then show ?thesis using relink(2) [of k] True by simp
  next
    case False
    then have "find (\<lambda>i. key (map_item m i) = k') (as @ bs) =
        find (\<lambda>i. key (map_item m i) = k') (as @ x # bs)"
      using kx by (auto simp: find_append split: option.split)
    then show ?thesis
      using relink(2) [of k'] False ch by (auto simp: map_find_def [of hash key m])
  qed
  show ?thesis
    using rem relink(1,3,4) find by (auto simp: fun_eq_iff intro: item_next_ex)
qed

lemma map_remove_ok:
  assumes inv: "map_inv hash key m" and c: "rm_res_cmp_func m = Some cmp"
  shows "\<exists>m'. drc_res_map_remove m (hash (rm_bucket_num m) k) k = Some m' \<and> map_inv hash key m' \<and>
    map_find hash key m' = (map_find hash key m)(k := None) \<and>
    rm_bucket_num m' = rm_bucket_num m \<and> rm_res_cmp_func m' = rm_res_cmp_func m \<and>
    pool_free (rm_res_pool m') = pool_free (rm_res_pool m) \<and>
    rp_item_num (rm_res_pool m') = rp_item_num (rm_res_pool m) \<and>
    (\<forall>j. \<exists>nx. map_item m' j = (map_item m j)\<lparr>bh_next := nx\<rparr>)"
  using map_remove_absent [OF assms] map_remove_present [OF assms]
  by (cases "map_find hash key m k") blast+

end

end
