(* ===== verification/Res_List.thy ===== *)
theory Res_List
  imports Prelude
begin

text \<open>
  The doubly linked lists of \<^verbatim>\<open>cluster/dtc_drc_util.c\<close>. A list header holds the indices of the first
  and last node and a count; a node holds its own index and those of its neighbours. The routines
  get pointers to the nodes they touch, which the callers find by index. Here a routine takes the
  node values and returns the updated ones; \<open>list_add\<close> and \<open>list_delete\<close> are the code around the
  calls, which finds the neighbours in a store of nodes and writes them back.

  A list represents a sequence of indices when following \<open>next\<close> gives the sequence and following
  \<open>prev\<close> gives its reverse. The lemmas show that the two routines are insertion at the front and
  removal of one element of that sequence.
\<close>

record drc_list =
  dl_first :: u32
  dl_last :: u32
  dl_count :: u32

record drc_list_node =
  ln_prev :: u32
  ln_next :: u32
  ln_idx :: u32

definition DRC_LIST_INIT :: drc_list where
  "DRC_LIST_INIT = \<lparr>dl_first = OG_INVALID_ID32, dl_last = OG_INVALID_ID32, dl_count = 0\<rparr>"

text \<open>The result is the list, the new node and the old head; \<open>head\<close> is not used on an empty list.\<close>

definition drc_add_list_node :: "drc_list \<Rightarrow> drc_list_node \<Rightarrow> drc_list_node option \<Rightarrow>
    (drc_list \<times> drc_list_node \<times> drc_list_node option) option" where
  "drc_add_list_node lst node head =
     (if dl_count lst = 0
      then Some (lst\<lparr>dl_first := ln_idx node, dl_last := ln_idx node, dl_count := dl_count lst + 1\<rparr>,
                 node\<lparr>ln_next := OG_INVALID_ID32, ln_prev := OG_INVALID_ID32\<rparr>, head)
      else do {
        h \<leftarrow> head;
        Some (lst\<lparr>dl_first := ln_idx node, dl_count := dl_count lst + 1\<rparr>,
              node\<lparr>ln_prev := OG_INVALID_ID32, ln_next := dl_first lst\<rparr>,
              Some (h\<lparr>ln_prev := ln_idx node\<rparr>))
      })"

text \<open>The result is the list and the two neighbours; a null pointer is \<open>None\<close>.\<close>

definition drc_delete_list_node :: "drc_list \<Rightarrow> drc_list_node \<Rightarrow> drc_list_node option \<Rightarrow>
    drc_list_node option \<Rightarrow> drc_list \<times> drc_list_node option \<times> drc_list_node option" where
  "drc_delete_list_node lst del prev next =
     (let (lst', prev', next') =
        (case prev of
           Some p \<Rightarrow>
             (case next of
                Some n \<Rightarrow> (lst, Some (p\<lparr>ln_next := ln_next del\<rparr>), Some (n\<lparr>ln_prev := ln_prev del\<rparr>))
              | None \<Rightarrow> (lst\<lparr>dl_last := ln_idx p\<rparr>, Some (p\<lparr>ln_next := OG_INVALID_ID32\<rparr>), None))
         | None \<Rightarrow>
             (case next of
                Some n \<Rightarrow> (lst\<lparr>dl_first := ln_next del\<rparr>, None, Some (n\<lparr>ln_prev := OG_INVALID_ID32\<rparr>))
              | None \<Rightarrow> (lst\<lparr>dl_first := OG_INVALID_ID32, dl_last := OG_INVALID_ID32\<rparr>, None, None)))
      in (lst'\<lparr>dl_count := dl_count lst' - 1\<rparr>, prev', next'))"

subsection \<open>The code around the calls\<close>

definition list_add :: "drc_list_node list \<Rightarrow> drc_list \<Rightarrow> u32 \<Rightarrow>
    (drc_list_node list \<times> drc_list) option" where
  "list_add nodes lst i = do {
     node \<leftarrow> rd nodes i;
     head \<leftarrow> (if dl_count lst \<noteq> 0 then map_option Some (rd nodes (dl_first lst)) else Some None);
     (lst', node', head') \<leftarrow> drc_add_list_node lst node head;
     nodes' \<leftarrow> (case head' of None \<Rightarrow> Some nodes | Some h \<Rightarrow> wr nodes (dl_first lst) h);
     nodes'' \<leftarrow> wr nodes' i node';
     Some (nodes'', lst')
   }"

definition neighbour :: "drc_list_node list \<Rightarrow> u32 \<Rightarrow> drc_list_node option option" where
  "neighbour nodes i =
     (if i \<noteq> OG_INVALID_ID32 then map_option Some (rd nodes i) else Some None)"

definition put_neighbour :: "drc_list_node list \<Rightarrow> u32 \<Rightarrow> drc_list_node option \<Rightarrow>
    drc_list_node list option" where
  "put_neighbour nodes i n = (case n of None \<Rightarrow> Some nodes | Some node \<Rightarrow> wr nodes i node)"

definition list_delete :: "drc_list_node list \<Rightarrow> drc_list \<Rightarrow> u32 \<Rightarrow>
    (drc_list_node list \<times> drc_list) option" where
  "list_delete nodes lst i = do {
     node \<leftarrow> rd nodes i;
     prev \<leftarrow> neighbour nodes (ln_prev node);
     next \<leftarrow> neighbour nodes (ln_next node);
     let (lst', prev', next') = drc_delete_list_node lst node prev next;
     nodes' \<leftarrow> put_neighbour nodes (ln_prev node) prev';
     nodes'' \<leftarrow> put_neighbour nodes' (ln_next node) next';
     Some (nodes'', lst')
   }"

subsection \<open>Sequences represented by a list\<close>

definition hd_or :: "'a \<Rightarrow> 'a list \<Rightarrow> 'a" where
  "hd_or d xs = (case xs of [] \<Rightarrow> d | x # _ \<Rightarrow> x)"

definition last_or :: "'a \<Rightarrow> 'a list \<Rightarrow> 'a" where
  "last_or d xs = (if xs = [] then d else last xs)"

fun dseg :: "drc_list_node list \<Rightarrow> u32 \<Rightarrow> u32 list \<Rightarrow> u32 \<Rightarrow> bool" where
  "dseg nodes p [] q \<longleftrightarrow> True"
| "dseg nodes p (x # xs) q \<longleftrightarrow>
     unat x < length nodes \<and> ln_idx (nodes ! unat x) = x \<and> ln_prev (nodes ! unat x) = p \<and>
     ln_next (nodes ! unat x) = hd_or q xs \<and> dseg nodes x xs q"

definition list_repr :: "drc_list_node list \<Rightarrow> drc_list \<Rightarrow> u32 list \<Rightarrow> bool" where
  "list_repr nodes lst xs \<longleftrightarrow>
     distinct xs \<and> dseg nodes OG_INVALID_ID32 xs OG_INVALID_ID32 \<and>
     dl_first lst = hd_or OG_INVALID_ID32 xs \<and> dl_last lst = last_or OG_INVALID_ID32 xs \<and>
     unat (dl_count lst) = length xs"

lemma hd_or_simps [simp]: "hd_or d [] = d" "hd_or d (x # xs) = x"
  by (simp_all add: hd_or_def)

lemma hd_or_append: "hd_or d (xs @ ys) = hd_or (hd_or d ys) xs"
  by (cases xs) simp_all

lemma last_or_simps [simp]: "last_or d [] = d" "last_or d (x # xs) = last_or x xs"
  "last_or d (xs @ [y]) = y"
  by (simp_all add: last_or_def)

lemma last_or_append: "last_or d (xs @ ys) = last_or (last_or d xs) ys"
  by (simp add: last_or_def)

lemma dseg_append:
  "dseg nodes p (xs @ ys) q \<longleftrightarrow> dseg nodes p xs (hd_or q ys) \<and> dseg nodes (last_or p xs) ys q"
  by (induction xs arbitrary: p) (auto simp: hd_or_append)

lemma dseg_bounds: "dseg nodes p xs q \<Longrightarrow> x \<in> set xs \<Longrightarrow> unat x < length nodes"
  by (induction xs arbitrary: p) auto

lemma dseg_not_invalid:
  assumes "dseg nodes p xs q" and "x \<in> set xs" and "length nodes \<le> 4294967295"
  shows "x \<noteq> OG_INVALID_ID32"
  using dseg_bounds [OF assms(1,2)] assms(3) by (rule index_not_invalid32)

text \<open>A node outside a segment, or another index store, can change without changing the segment.\<close>

lemma dseg_cong:
  assumes "length ns = length nodes" and "\<And>x. x \<in> set xs \<Longrightarrow> ns ! unat x = nodes ! unat x"
  shows "dseg ns p xs q = dseg nodes p xs q"
  using assms by (induction xs arbitrary: p) auto

lemma dseg_update_other:
  "x \<notin> set xs \<Longrightarrow> dseg (nodes[unat x := n]) p xs q = dseg nodes p xs q"
  by (rule dseg_cong) (simp, metis nth_update_ne)

text \<open>Relinking the front or the back of a segment.\<close>

lemma dseg_set_prev:
  assumes "dseg nodes p (x # xs) q" and "x \<notin> set xs"
  shows "dseg (nodes[unat x := (nodes ! unat x)\<lparr>ln_prev := p'\<rparr>]) p' (x # xs) q"
  using assms by (simp add: dseg_update_other)

lemma dseg_set_next:
  assumes "dseg nodes p (xs @ [x]) q" and "x \<notin> set xs"
  shows "dseg (nodes[unat x := (nodes ! unat x)\<lparr>ln_next := q'\<rparr>]) p (xs @ [x]) q'"
  using assms by (simp add: dseg_append dseg_update_other)

subsection \<open>Insertion and removal\<close>

lemma list_add_repr:
  assumes rep: "list_repr nodes lst xs" and i: "i \<notin> set xs" "unat i < length nodes"
    and own: "ln_idx (nodes ! unat i) = i" and len: "length nodes \<le> 4294967295"
  shows "\<exists>nodes' lst'. list_add nodes lst i = Some (nodes', lst') \<and> list_repr nodes' lst' (i # xs) \<and>
    length nodes' = length nodes \<and> (\<forall>j. j \<notin> set (i # xs) \<longrightarrow> nodes' ! unat j = nodes ! unat j)"
proof -
  have "length (i # xs) \<le> length nodes"
    by (rule distinct_words_length) (use rep i dseg_bounds in \<open>auto simp: list_repr_def\<close>)
  then have cnt: "unat (dl_count lst + 1) = Suc (length xs)"
    using rep len by (simp add: list_repr_def word_count)
  show ?thesis
  proof (cases xs)
    case Nil
    then have "dl_count lst = 0"
      using rep by (simp add: list_repr_def unat_eq_zero)
    then show ?thesis
      using Nil i own cnt by (simp add: list_add_def drc_add_list_node_def list_repr_def)
  next
    case (Cons y ys)
    let ?n1 = "nodes[unat y := (nodes ! unat y)\<lparr>ln_prev := i\<rparr>]"
    have seg: "dseg nodes OG_INVALID_ID32 (y # ys) OG_INVALID_ID32" and d: "distinct (y # ys)"
      using rep Cons by (simp_all add: list_repr_def)
    have seg1: "dseg ?n1 i (y # ys) OG_INVALID_ID32"
      by (rule dseg_set_prev [OF seg]) (use d in simp)
    have "dl_count lst \<noteq> 0" "dl_first lst = y"
      using rep Cons by (auto simp: list_repr_def)
    then show ?thesis
      using Cons i own cnt d rep seg seg1
      by (simp add: list_add_def drc_add_list_node_def list_repr_def dseg_update_other
          del: dseg.simps(2)) (simp add: dseg_update_other)
  qed
qed

lemma list_delete_repr:
  assumes rep: "list_repr nodes lst (as @ i # bs)" and len: "length nodes \<le> 4294967295"
  shows "\<exists>nodes' lst'. list_delete nodes lst i = Some (nodes', lst') \<and>
    list_repr nodes' lst' (as @ bs) \<and> length nodes' = length nodes \<and>
    (\<forall>j. j \<notin> set (as @ bs) \<longrightarrow> nodes' ! unat j = nodes ! unat j)"
proof -
  let ?inv = OG_INVALID_ID32
  have seg: "dseg nodes ?inv (as @ i # bs) ?inv" and d: "distinct (as @ i # bs)"
    using rep by (simp_all add: list_repr_def)
  have ne: "x \<noteq> ?inv" if "x \<in> set (as @ i # bs)" for x
    by (rule dseg_not_invalid [OF seg that len])
  have cnt: "unat (dl_count lst - 1) = length (as @ bs)"
    using rep by (simp add: list_repr_def word_count)
  have i: "unat i < length nodes" "ln_prev (nodes ! unat i) = last_or ?inv as"
    "ln_next (nodes ! unat i) = hd_or ?inv bs"
    using seg by (simp_all add: dseg_append)
  note defs = list_delete_def neighbour_def put_neighbour_def drc_delete_list_node_def list_repr_def
  show ?thesis
  proof (cases as rule: rev_cases)
    case Nil
    then show ?thesis
    proof (cases bs)
      case Nil
      then show ?thesis using \<open>as = []\<close> i cnt by (simp add: defs)
    next
      case (Cons b bs')
      then show ?thesis
        using \<open>as = []\<close> i cnt ne [of b] seg d rep by (simp add: defs dseg_update_other)
    qed
  next
    case (snoc as' a)
    have a: "unat a < length nodes" "ln_idx (nodes ! unat a) = a"
      using seg snoc by (simp_all add: dseg_append)
    show ?thesis
    proof (cases bs)
      case Nil
      then show ?thesis
        using snoc i cnt a ne [of a] seg d rep
        by (simp add: defs dseg_append dseg_update_other last_or_append hd_or_append)
    next
      case (Cons b bs')
      then show ?thesis
        using snoc i cnt a ne [of a] ne [of b] seg d rep
        by (auto simp: defs dseg_append dseg_update_other last_or_append hd_or_append)
    qed
  qed
qed

subsection \<open>Properties of the lists\<close>

definition two_nodes :: "drc_list_node list" where
  "two_nodes = [\<lparr>ln_prev = OG_INVALID_ID32, ln_next = 1, ln_idx = 0\<rparr>,
     \<lparr>ln_prev = 0, ln_next = OG_INVALID_ID32, ln_idx = 1\<rparr>, \<lparr>ln_prev = 0, ln_next = 0, ln_idx = 2\<rparr>]"

definition two_list :: drc_list where
  "two_list = \<lparr>dl_first = 0, dl_last = 1, dl_count = 2\<rparr>"

text \<open>
  Claim C30. The doubly linked lists refine sequences. Adding a node that is not in the list puts it
  at the front, deleting a node of the list removes exactly that node, both leave every node outside
  the list alone, and neither touches memory outside the store.
\<close>

theorem list_refines_sequence:
  assumes "list_repr nodes lst xs" and "length nodes \<le> 4294967295"
  shows "(unat i < length nodes \<and> ln_idx (nodes ! unat i) = i \<and> i \<notin> set xs \<longrightarrow>
      (\<exists>nodes' lst'. list_add nodes lst i = Some (nodes', lst') \<and> list_repr nodes' lst' (i # xs) \<and>
         (\<forall>j. j \<notin> set (i # xs) \<longrightarrow> nodes' ! unat j = nodes ! unat j))) \<and>
    (i \<in> set xs \<longrightarrow>
      (\<exists>nodes' lst'. list_delete nodes lst i = Some (nodes', lst') \<and>
         list_repr nodes' lst' (remove1 i xs) \<and>
         (\<forall>j. j \<notin> set (remove1 i xs) \<longrightarrow> nodes' ! unat j = nodes ! unat j)))"
proof (intro conjI impI)
  assume "unat i < length nodes \<and> ln_idx (nodes ! unat i) = i \<and> i \<notin> set xs"
  then show "\<exists>nodes' lst'. list_add nodes lst i = Some (nodes', lst') \<and> list_repr nodes' lst' (i # xs) \<and>
      (\<forall>j. j \<notin> set (i # xs) \<longrightarrow> nodes' ! unat j = nodes ! unat j)"
    using list_add_repr [OF assms(1)] assms(2) by blast
next
  assume "i \<in> set xs"
  then obtain as bs where xs: "xs = as @ i # bs" and "i \<notin> set as"
    by (auto dest: split_list_first)
  then have "remove1 i xs = as @ bs"
    by (simp add: remove1_append)
  then show "\<exists>nodes' lst'. list_delete nodes lst i = Some (nodes', lst') \<and>
      list_repr nodes' lst' (remove1 i xs) \<and>
      (\<forall>j. j \<notin> set (remove1 i xs) \<longrightarrow> nodes' ! unat j = nodes ! unat j)"
    using list_delete_repr [of nodes lst as i bs] assms xs by auto
qed

theorem list_refines_sequence_witness:
  "list_repr two_nodes two_list [0, 1] \<and>
   (\<exists>nodes' lst'. list_add two_nodes two_list 2 = Some (nodes', lst') \<and>
      list_repr nodes' lst' [2, 0, 1]) \<and>
   (\<exists>nodes' lst'. list_delete two_nodes two_list 0 = Some (nodes', lst') \<and>
      list_repr nodes' lst' [1])"
proof -
  have rep: "list_repr two_nodes two_list [0, 1]" by code_simp
  have len: "length two_nodes \<le> 4294967295" by (simp add: two_nodes_def)
  show ?thesis
    using rep list_refines_sequence [OF rep len, of 2] list_refines_sequence [OF rep len, of 0]
    by (auto simp: two_nodes_def)
qed

end
