(* ===== verification/Drc_Types.thy ===== *)
theory Drc_Types
  imports Res_Map Res_List
begin

text \<open>
  The data of the distributed resource catalogue: \<^verbatim>\<open>cluster/dtc_drc.h\<close> and the constants and
  comparison functions at the top of \<^verbatim>\<open>cluster/dtc_drc.c\<close>.

  A page resource (\<^verbatim>\<open>drc_buf_res_t\<close>) and a lock resource (\<^verbatim>\<open>drc_master_res_t\<close>) have fields in
  common, which the list, queue and conversion code uses in the same way; they are the record
  \<open>drc_res_base\<close>, and the two structures extend it. Spin locks, padding and debug output have no
  counterpart: what a lock protects is one atomic step. Times are integers, as no claim depends on
  the width of a microsecond clock.
\<close>

datatype drc_lock_mode = DRC_LOCK_NULL | DRC_LOCK_SHARE | DRC_LOCK_EXCLUSIVE

fun mode_num :: "drc_lock_mode \<Rightarrow> nat" where
  "mode_num DRC_LOCK_NULL = 0"
| "mode_num DRC_LOCK_SHARE = 1"
| "mode_num DRC_LOCK_EXCLUSIVE = 2"

text \<open>The code compares modes by their number in the enumeration.\<close>

instantiation drc_lock_mode :: linorder
begin

definition less_eq_drc_lock_mode :: "drc_lock_mode \<Rightarrow> drc_lock_mode \<Rightarrow> bool" where
  "less_eq_drc_lock_mode a b \<longleftrightarrow> mode_num a \<le> mode_num b"

definition less_drc_lock_mode :: "drc_lock_mode \<Rightarrow> drc_lock_mode \<Rightarrow> bool" where
  "less_drc_lock_mode a b \<longleftrightarrow> mode_num a < mode_num b"

instance
proof
  fix a b c :: drc_lock_mode
  show "a < b \<longleftrightarrow> a \<le> b \<and> \<not> b \<le> a" "a \<le> a" "a \<le> b \<or> b \<le> a"
    by (auto simp: less_eq_drc_lock_mode_def less_drc_lock_mode_def)
  show "a \<le> b \<Longrightarrow> b \<le> c \<Longrightarrow> a \<le> c"
    by (auto simp: less_eq_drc_lock_mode_def)
  show "a \<le> b \<Longrightarrow> b \<le> a \<Longrightarrow> a = b"
    by (cases a; cases b) (auto simp: less_eq_drc_lock_mode_def)
qed

end

lemmas mode_order = less_eq_drc_lock_mode_def less_drc_lock_mode_def

record drc_req_info =
  ri_inst_id :: u8
  ri_req_mode :: drc_lock_mode
  ri_curr_mode :: drc_lock_mode
  ri_req_owner_result :: u8
  ri_inst_sid :: u16
  ri_rsn :: u32
  ri_req_time :: int
  ri_req_version :: u64
  ri_lsn :: u64
  ri_release_timeout_ticks :: u32

record drc_lock_item = drc_res_block_header +
  li_req_info :: drc_req_info

type_synonym lock_item_pool = "unit drc_lock_item_ext drc_res_pool"

definition g_invalid_req_info :: drc_req_info where
  "g_invalid_req_info = \<lparr>ri_inst_id = OG_INVALID_ID8, ri_req_mode = DRC_LOCK_NULL,
     ri_curr_mode = DRC_LOCK_NULL, ri_req_owner_result = 0, ri_inst_sid = OG_INVALID_ID16,
     ri_rsn = OG_INVALID_ID32, ri_req_time = 0, ri_req_version = 0, ri_lsn = 0,
     ri_release_timeout_ticks = 0\<rparr>"

definition g_mode_compatible_matrix :: "drc_lock_mode \<Rightarrow> drc_lock_mode \<Rightarrow> bool" where
  "g_mode_compatible_matrix a b =
     ([[True, True, True], [True, True, False], [True, False, False]] ! mode_num a) ! mode_num b"

datatype drc_res_action = DRC_RES_INVALID_ACTION | DRC_RES_PENDING_ACTION | DRC_RES_SHARE_ACTION
  | DRC_RES_EXCLUSIVE_ACTION | DRC_RES_CLEAN_EDP_ACTION

datatype drc_req_owner_result_type = DRC_REQ_OWNER_INVALID | DRC_REQ_OWNER_GRANTED
  | DRC_REQ_OWNER_ALREADY_OWNER | DRC_REQ_OWNER_CONVERTING | DRC_REQ_OWNER_WAITING
  | DRC_REQ_OWNER_TRANSFERRED

fun owner_result_num :: "drc_req_owner_result_type \<Rightarrow> u8" where
  "owner_result_num DRC_REQ_OWNER_INVALID = 0"
| "owner_result_num DRC_REQ_OWNER_GRANTED = 1"
| "owner_result_num DRC_REQ_OWNER_ALREADY_OWNER = 2"
| "owner_result_num DRC_REQ_OWNER_CONVERTING = 3"
| "owner_result_num DRC_REQ_OWNER_WAITING = 4"
| "owner_result_num DRC_REQ_OWNER_TRANSFERRED = 5"

subsection \<open>Resources\<close>

record page_id =
  pg_page :: u32
  pg_file :: u16

record drid =
  dr_key1 :: u64
  dr_key2 :: u64
  dr_key3 :: u32
  dr_key4 :: u8

record drc_res_base = drc_res_block_header +
  rb_idx :: u32
  rb_mode :: drc_lock_mode
  rb_part_id :: u16
  rb_converting :: drc_lock_item
  rb_convert_q :: drc_list
  rb_node :: drc_list_node

record drc_buf_res = drc_res_base +
  br_claimed_owner :: u8
  br_latest_edp :: u8
  br_pending :: drc_res_action
  br_latest_edp_lsn :: u64
  br_page_id :: page_id
  br_is_used :: bool
  br_edp_map :: u64
  br_lsn :: u64
  br_readonly_copies :: u64

record drc_master_res = drc_res_base +
  mr_res_id :: drid
  mr_granted_map :: u64

record ('k, 'a) drc_global_res =
  gr_res_map :: "('k, 'a) drc_res_map"
  gr_res_parts :: "drc_list list"

type_synonym buf_ext = "unit drc_buf_res_ext drc_res_base_ext"
type_synonym lock_ext = "unit drc_master_res_ext drc_res_base_ext"
type_synonym buf_directory = "(page_id, buf_ext) drc_global_res"
type_synonym lock_directory = "(drid, lock_ext) drc_global_res"

definition is_same_page :: "page_id \<Rightarrow> drc_buf_res \<Rightarrow> bool" where
  "is_same_page pagid buf_res \<longleftrightarrow>
     pg_file (br_page_id buf_res) = pg_file pagid \<and> pg_page (br_page_id buf_res) = pg_page pagid"

definition is_same_lock :: "drid \<Rightarrow> drc_master_res \<Rightarrow> bool" where
  "is_same_lock lock_id lock_res \<longleftrightarrow>
     dr_key1 (mr_res_id lock_res) = dr_key1 lock_id \<and> dr_key2 (mr_res_id lock_res) = dr_key2 lock_id \<and>
     dr_key3 (mr_res_id lock_res) = dr_key3 lock_id \<and> dr_key4 (mr_res_id lock_res) = dr_key4 lock_id"

definition DRC_MAX_PART_NUM :: nat where
  "DRC_MAX_PART_NUM = 1024"

definition INVALID_FILE_ID :: u32 where
  "INVALID_FILE_ID = 1023"

definition IS_INVALID_PAGID :: "page_id \<Rightarrow> bool" where
  "IS_INVALID_PAGID pagid \<longleftrightarrow> ucast (pg_file pagid) \<ge> INVALID_FILE_ID"

definition cm_hash_uint32 :: "u32 \<Rightarrow> u32 \<Rightarrow> u32" where
  "cm_hash_uint32 i32_input rng =
     (let i32 = i32_input * HASH_SEED in if rng > 0 then i32 mod rng else i32)"

text \<open>\<open>ext_pages\<close> is \<^verbatim>\<open>DRC_FILE_EXTENT_PAGE_NUM\<close>, the pages of an 8 MB extent for the page size.\<close>

definition drc_page_partid :: "u32 \<Rightarrow> page_id \<Rightarrow> u32" where
  "drc_page_partid ext_pages pagid =
     (let ext_no = pg_page pagid div ext_pages in cm_hash_uint32 ext_no 1024)"

text \<open>
  The memory image of a lock identifier, which is what is hashed: little-endian words, and the three
  unused bytes, taken to be zero (\<open>is_same_lock\<close> does not compare them).
\<close>

fun le_bytes :: "nat \<Rightarrow> 'n::len word \<Rightarrow> u8 list" where
  "le_bytes 0 w = []"
| "le_bytes (Suc n) w = ucast w # le_bytes n (drop_bit 8 w)"

definition drid_bytes :: "drid \<Rightarrow> u8 list" where
  "drid_bytes d = le_bytes 8 (dr_key1 d) @ le_bytes 8 (dr_key2 d) @ le_bytes 4 (dr_key3 d) @
     [dr_key4 d, 0, 0, 0]"

definition lock_partid :: "(u8 \<Rightarrow> u32) \<Rightarrow> drid \<Rightarrow> u16" where
  "lock_partid promote lock_id = ucast (drc_resource_id_hash promote (drid_bytes lock_id) 1024)"

subsection \<open>The two directories as keyed maps\<close>

definition page_hash :: "u32 \<Rightarrow> page_id \<Rightarrow> u32" where
  "page_hash n pagid = drc_page_id_hash (pg_file pagid) (pg_page pagid) n"

definition lock_hash :: "(u8 \<Rightarrow> u32) \<Rightarrow> u32 \<Rightarrow> drid \<Rightarrow> u32" where
  "lock_hash promote n lock_id = drc_resource_id_hash promote (drid_bytes lock_id) n"

interpretation pages: keyed_map page_hash br_page_id is_same_page
  by unfold_locales (auto simp: page_hash_def hash_in_range is_same_page_def)

interpretation locks: keyed_map "lock_hash promote" mr_res_id is_same_lock
  by unfold_locales (auto simp: lock_hash_def hash_in_range is_same_lock_def)

end
