(* ===== verification/Convert_Queue.thy ===== *)
theory Convert_Queue
  imports Drc_Types
begin

text \<open>
  The convert queue of a resource: the requests that wait for the one being converted. A queue is a
  list header (\<open>first\<close>, \<open>last\<close>, \<open>count\<close>) over items of the lock item pool that all resources share,
  chained by their first word. Page requests (\<^verbatim>\<open>drc_keep_requester_wait\<close>,
  \<^verbatim>\<open>drc_convert_next_request\<close>) and lock requests
  (\<^verbatim>\<open>drc_request_lock_owner_add_req_into_cvt_q\<close>, \<^verbatim>\<open>drc_convert_lock_owner\<close>) use the same code.

  The lemmas show that a queue is a first-in first-out sequence of requests, that no operation
  touches memory outside the pool, and that an operation on one queue leaves every other queue of
  the pool alone.
\<close>

subsection \<open>Operations\<close>

text \<open>Appending a request; \<open>None\<close> inside the result says that the pool is exhausted.\<close>

definition cvt_q_enqueue :: "lock_item_pool \<Rightarrow> drc_list \<Rightarrow> drc_req_info \<Rightarrow>
    (lock_item_pool \<times> drc_list) option option" where
  "cvt_q_enqueue pool q req_info = do {
     (item_id, pool) \<leftarrow> drc_res_pool_alloc_item pool;
     if item_id = OG_INVALID_ID32 then Some None
     else do {
       item \<leftarrow> rd (rp_addr pool) item_id;
       mem \<leftarrow> wr (rp_addr pool) item_id (item\<lparr>bh_next := OG_INVALID_ID32, li_req_info := req_info\<rparr>);
       if dl_count q = 0
       then Some (Some (pool\<lparr>rp_addr := mem\<rparr>,
                        q\<lparr>dl_first := item_id, dl_last := item_id, dl_count := dl_count q + 1\<rparr>))
       else do {
         mem \<leftarrow> set_next mem (dl_last q) item_id;
         Some (Some (pool\<lparr>rp_addr := mem\<rparr>, q\<lparr>dl_last := item_id, dl_count := dl_count q + 1\<rparr>))
       }
     }
   }"

text \<open>Taking the first request off a queue that is not empty, and giving its item back.\<close>

definition cvt_q_pop :: "lock_item_pool \<Rightarrow> drc_list \<Rightarrow>
    (drc_lock_item \<times> lock_item_pool \<times> drc_list) option" where
  "cvt_q_pop pool q = do {
     let item_id = dl_first q;
     item \<leftarrow> rd (rp_addr pool) item_id;
     pool \<leftarrow> drc_res_pool_free_item pool item_id;
     Some (item, pool, q\<lparr>dl_first := bh_next item, dl_count := dl_count q - 1\<rparr>)
   }"

subsection \<open>Queues as sequences of requests\<close>

definition cvt_q_chain :: "lock_item_pool \<Rightarrow> drc_list \<Rightarrow> u32 list" where
  "cvt_q_chain pool q = walk (pool_next pool) (dl_first q) (unat (dl_count q))"

definition pool_used :: "'a drc_res_pool \<Rightarrow> u32 \<Rightarrow> bool" where
  "pool_used p i \<longleftrightarrow> pool_valid p i \<and> i \<notin> set (pool_free p)"

definition cvt_q_ok :: "lock_item_pool \<Rightarrow> drc_list \<Rightarrow> bool" where
  "cvt_q_ok pool q \<longleftrightarrow>
     distinct (cvt_q_chain pool q) \<and> list_all (pool_used pool) (cvt_q_chain pool q) \<and>
     (dl_count q \<noteq> 0 \<longrightarrow> dl_last q = last (cvt_q_chain pool q) \<and>
        pool_next pool (dl_last q) = OG_INVALID_ID32)"

definition cvt_q_reqs :: "lock_item_pool \<Rightarrow> drc_list \<Rightarrow> drc_req_info list" where
  "cvt_q_reqs pool q = map (\<lambda>i. li_req_info (rp_addr pool ! unat i)) (cvt_q_chain pool q)"

text \<open>
  What an operation on one queue promises to the others: items that are in use and not in its
  chain stay in use and keep their content.
\<close>

definition pool_keeps :: "u32 list \<Rightarrow> 'a drc_res_pool \<Rightarrow> 'a drc_res_pool \<Rightarrow> bool" where
  "pool_keeps own p p' \<longleftrightarrow> rp_item_num p' = rp_item_num p \<and>
     (\<forall>i. pool_used p i \<and> i \<notin> set own \<longrightarrow>
        pool_used p' i \<and> rp_addr p' ! unat i = rp_addr p ! unat i)"

lemma pool_used_lt: "pool_inv p \<Longrightarrow> pool_used p i \<Longrightarrow> unat i < length (rp_addr p)"
  by (simp add: pool_used_def pool_valid_def pool_inv_length)

lemma pool_keeps_chain:
  assumes inv: "pool_inv p" "pool_inv p'" and keeps: "pool_keeps own p p'"
    and ok: "cvt_q_ok p q" and disj: "set (cvt_q_chain p q) \<inter> set own = {}"
  shows "cvt_q_chain p' q = cvt_q_chain p q" "cvt_q_ok p' q" "cvt_q_reqs p' q = cvt_q_reqs p q"
proof -
  have kept: "pool_used p' i" "rp_addr p' ! unat i = rp_addr p ! unat i"
    if "i \<in> set (cvt_q_chain p q)" for i
    using that keeps ok disj by (auto simp: pool_keeps_def cvt_q_ok_def list_all_iff)
  have len: "length (rp_addr p') = length (rp_addr p)"
    using inv keeps by (simp add: pool_keeps_def pool_inv_length)
  have nxt: "pool_next p' i = pool_next p i" if "i \<in> set (cvt_q_chain p q)" for i
    using kept(2) [OF that] len by (simp add: pool_next_def)
  show chain: "cvt_q_chain p' q = cvt_q_chain p q"
    unfolding cvt_q_chain_def by (rule walk_cong) (use nxt in \<open>simp add: cvt_q_chain_def\<close>)
  have "pool_next p' (dl_last q) = pool_next p (dl_last q)" if "dl_count q \<noteq> 0"
    using that ok nxt [of "dl_last q"] last_in_set [of "cvt_q_chain p q"]
    by (auto simp: cvt_q_ok_def cvt_q_chain_def unat_eq_zero)
  then show "cvt_q_ok p' q"
    using ok kept(1) by (auto simp: cvt_q_ok_def chain list_all_iff)
  show "cvt_q_reqs p' q = cvt_q_reqs p q"
    using kept(2) by (simp add: cvt_q_reqs_def chain)
qed

lemma pool_keeps_refl [simp]: "pool_keeps own p p"
  by (simp add: pool_keeps_def)

lemma pool_keeps_trans:
  "pool_keeps own p p' \<Longrightarrow> pool_keeps own p' p'' \<Longrightarrow> pool_keeps own p p''"
  by (auto simp: pool_keeps_def)

lemma pool_keeps_mono: "pool_keeps own p p' \<Longrightarrow> set own \<subseteq> set own' \<Longrightarrow> pool_keeps own' p p'"
  by (auto simp: pool_keeps_def)

subsection \<open>Taking and appending\<close>

lemma cvt_q_pop_ok:
  assumes inv: "pool_inv pool" and ok: "cvt_q_ok pool q" and ne: "dl_count q \<noteq> 0"
  shows "\<exists>item pool' q'. cvt_q_pop pool q = Some (item, pool', q') \<and> pool_inv pool' \<and>
    cvt_q_ok pool' q' \<and> cvt_q_reqs pool q = li_req_info item # cvt_q_reqs pool' q' \<and>
    cvt_q_chain pool q = dl_first q # cvt_q_chain pool' q' \<and>
    pool_keeps (cvt_q_chain pool q) pool pool' \<and> dl_count q' = dl_count q - 1 \<and>
    pool_free pool' = dl_first q # pool_free pool"
proof -
  let ?i = "dl_first q" and ?p' = "pool_push pool (dl_first q)"
  let ?q' = "q\<lparr>dl_first := pool_next pool ?i, dl_count := dl_count q - 1\<rparr>"
  obtain n where n: "unat (dl_count q) = Suc n"
    using ne by (cases "unat (dl_count q)") (auto simp: unat_eq_zero)
  have n': "unat (dl_count q - 1) = n"
    using n by (simp add: word_count)
  have chain: "cvt_q_chain pool q = ?i # walk (pool_next pool) (pool_next pool ?i) n"
    by (simp add: cvt_q_chain_def n)
  have used: "pool_used pool ?i" and ni: "?i \<notin> set (walk (pool_next pool) (pool_next pool ?i) n)"
    using ok chain by (simp_all add: cvt_q_ok_def)
  then have v: "pool_valid pool ?i" "?i \<notin> set (pool_free pool)"
    by (simp_all add: pool_used_def)
  note push = pool_push [OF inv v]
  have il: "unat ?i < length (rp_addr pool)" by (rule pool_used_lt [OF inv used])
  have item: "rp_addr ?p' ! unat j = rp_addr pool ! unat j" if "j \<noteq> ?i" for j
    using that by (simp add: pool_push_def)
  have nxt: "pool_next ?p' j = pool_next pool j" if "j \<noteq> ?i" for j
    using item [OF that] by (simp add: pool_next_def) (simp add: pool_push_def)
  have chain': "cvt_q_chain ?p' ?q' = walk (pool_next pool) (pool_next pool ?i) n"
    unfolding cvt_q_chain_def using ni nxt by (simp add: n') (rule walk_cong, metis)
  have keeps: "pool_keeps (cvt_q_chain pool q) pool ?p'"
    using push item chain by (auto simp: pool_keeps_def pool_used_def pool_push_def)
  have "pool_used ?p' j" if "j \<in> set (cvt_q_chain ?p' ?q')" for j
    using that ok ni push chain chain'
    by (auto simp: cvt_q_ok_def pool_used_def list_all_iff)
  moreover have "dl_last ?q' = last (cvt_q_chain ?p' ?q') \<and> pool_next ?p' (dl_last ?q') = OG_INVALID_ID32"
    if "dl_count ?q' \<noteq> 0"
  proof -
    have "cvt_q_chain ?p' ?q' \<noteq> []"
      using that by (simp add: cvt_q_chain_def unat_eq_zero)
    then have last: "dl_last q = last (cvt_q_chain ?p' ?q')"
      using ok ne chain chain' by (simp add: cvt_q_ok_def)
    then have "dl_last q \<noteq> ?i"
      using ni chain' last_in_set [OF \<open>cvt_q_chain ?p' ?q' \<noteq> []\<close>] by auto
    moreover have "pool_next pool (dl_last q) = OG_INVALID_ID32"
      using ok ne unfolding cvt_q_ok_def by blast
    ultimately show ?thesis
      using last nxt by simp
  qed
  moreover have "distinct (cvt_q_chain ?p' ?q')"
    using ok chain chain' by (simp add: cvt_q_ok_def)
  ultimately have ok': "cvt_q_ok ?p' ?q'"
    unfolding cvt_q_ok_def list_all_iff by blast
  have reqs: "cvt_q_reqs pool q = li_req_info (rp_addr pool ! unat ?i) # cvt_q_reqs ?p' ?q'"
    using chain chain' item ni by (simp add: cvt_q_reqs_def) metis
  have "cvt_q_pop pool q = Some (rp_addr pool ! unat ?i, ?p', ?q')"
    using il put_item [OF inv v(1)] inv
    by (simp add: cvt_q_pop_def Let_def drc_res_pool_free_item_def pool_inv_def pool_next_def)
  then show ?thesis
    using push ok' reqs chain chain' keeps by auto
qed

lemma cvt_q_enqueue_full:
  assumes "pool_inv pool" and "pool_free pool = []"
  shows "cvt_q_enqueue pool q req = Some None"
  using alloc_item_empty [OF assms] by (simp add: cvt_q_enqueue_def)

lemma chain_length_le:
  assumes "pool_inv pool" and "cvt_q_ok pool q"
  shows "length (cvt_q_chain pool q) + length (pool_free pool) \<le> unat (rp_item_num pool)"
proof -
  have "length (cvt_q_chain pool q @ pool_free pool) \<le> unat (rp_item_num pool)"
    by (rule distinct_words_length)
      (use assms in \<open>auto simp: cvt_q_ok_def pool_inv_def pool_used_def pool_valid_def list_all_iff\<close>)
  then show ?thesis by simp
qed

lemma cvt_q_enqueue_ok:
  assumes inv: "pool_inv pool" and ok: "cvt_q_ok pool q" and fr: "pool_free pool = i # is"
  shows "\<exists>pool' q'. cvt_q_enqueue pool q req = Some (Some (pool', q')) \<and> pool_inv pool' \<and>
    cvt_q_ok pool' q' \<and> cvt_q_reqs pool' q' = cvt_q_reqs pool q @ [req] \<and>
    cvt_q_chain pool' q' = cvt_q_chain pool q @ [i] \<and>
    pool_keeps (cvt_q_chain pool q) pool pool' \<and> dl_count q' = dl_count q + 1 \<and>
    pool_free pool' = is"
proof -
  note pop = pool_pop [OF inv fr]
  let ?p1 = "pool_pop pool" and ?c = "cvt_q_chain pool q"
  have i: "i \<notin> set is" "pool_valid pool i" "i \<notin> set ?c"
    using inv fr ok by (auto simp: pool_inv_def cvt_q_ok_def list_all_iff pool_used_def)
  have il: "unat i < length (rp_addr pool)"
    using i(2) by (simp add: pool_valid_def pool_inv_length [OF inv])
  have addr1: "rp_addr ?p1 = rp_addr pool" by (simp add: pool_pop_def)
  let ?it = "(rp_addr pool ! unat i)\<lparr>bh_next := OG_INVALID_ID32, li_req_info := req\<rparr>"
  let ?m1 = "(rp_addr pool)[unat i := ?it]"
  let ?l = "dl_last q"
  define mem where "mem = (if dl_count q = 0 then ?m1 else ?m1[unat ?l := (?m1 ! unat ?l)\<lparr>bh_next := i\<rparr>])"
  define pool' where "pool' = ?p1\<lparr>rp_addr := mem\<rparr>"
  define q' where "q' = q\<lparr>dl_first := (if dl_count q = 0 then i else dl_first q), dl_last := i,
    dl_count := dl_count q + 1\<rparr>"
  have l: "?l \<in> set ?c" "?l = last ?c" "pool_next pool ?l = OG_INVALID_ID32" if "dl_count q \<noteq> 0"
    using that ok last_in_set [of ?c] by (auto simp: cvt_q_ok_def cvt_q_chain_def unat_eq_zero)
  have ll: "unat ?l < length (rp_addr pool)" if "dl_count q \<noteq> 0"
    using l(1) [OF that] ok pool_used_lt [OF inv] by (auto simp: cvt_q_ok_def list_all_iff)
  have enq: "cvt_q_enqueue pool q req = Some (Some (pool', q'))"
    using alloc_item_Cons [OF inv fr] il ll pool_valid_not_invalid [OF i(2)]
    by (auto simp: cvt_q_enqueue_def addr1 set_next_in mem_def pool'_def q'_def)
  have item: "rp_addr pool' ! unat j = (if j = i then ?it
      else if dl_count q \<noteq> 0 \<and> j = ?l then (rp_addr pool ! unat j)\<lparr>bh_next := i\<rparr>
      else rp_addr pool ! unat j)" if "unat j < length (rp_addr pool)" for j
    using that il ll l i(3) by (auto simp: pool'_def mem_def nth_update_word)
  have len: "length (rp_addr pool') = length (rp_addr pool)"
    by (simp add: pool'_def mem_def)
  have free: "pool_free pool' = is" and inv': "pool_inv pool'"
  proof -
    have "bh_next (mem ! unat j) = bh_next (rp_addr ?p1 ! unat j)" if "j \<in> set (pool_free ?p1)" for j
    proof -
      have "j \<noteq> i" "dl_count q \<noteq> 0 \<longrightarrow> j \<noteq> ?l"
        using that pop(2) i(1) l(1) ok fr by (auto simp: cvt_q_ok_def list_all_iff pool_used_def)
      then show ?thesis by (auto simp: mem_def addr1)
    qed
    then show "pool_free pool' = is" "pool_inv pool'"
      using pool_frame [of mem ?p1] pop(1,2) len by (auto simp: pool'_def addr1)
  qed
  have valid': "pool_valid pool' = pool_valid pool"
    using pop(4) by (simp add: fun_eq_iff pool_valid_def pool'_def)
  have used': "pool_used pool' j \<longleftrightarrow> j = i \<or> pool_used pool j" for j
    using fr i by (auto simp: pool_used_def free valid')
  have nxt: "pool_next pool' j = (if j = i then OG_INVALID_ID32
      else if dl_count q \<noteq> 0 \<and> j = ?l then i else pool_next pool j)"
    if "unat j < length (rp_addr pool)" for j
    using item [OF that] that len by (simp add: pool_next_def)
  have cl: "unat j < length (rp_addr pool)" "j \<noteq> i" if "j \<in> set ?c" for j
    using that i(3) ok pool_used_lt [OF inv] by (auto simp: cvt_q_ok_def list_all_iff)
  have cnt: "unat (dl_count q + 1) = Suc (unat (dl_count q))"
    using chain_length_le [OF inv ok] fr unat_u32_le [of "rp_item_num pool"]
    by (simp add: cvt_q_chain_def word_count)
  have chain': "cvt_q_chain pool' q' = ?c @ [i]"
  proof (cases "unat (dl_count q)")
    case 0
    then show ?thesis using cnt by (simp add: cvt_q_chain_def q'_def unat_eq_zero)
  next
    case (Suc m)
    then have ne: "dl_count q \<noteq> 0" by auto
    have c: "walk (pool_next pool) (dl_first q) (Suc m) = ?c"
      using Suc by (simp add: cvt_q_chain_def)
    have "?c = butlast ?c @ [?l]"
      using l [OF ne] by (metis append_butlast_last_id empty_iff empty_set)
    then have "?l \<notin> set (butlast ?c)"
      using ok by (metis cvt_q_ok_def distinct_append disjoint_iff list.set_intros(1))
    then have "pool_next pool' x = pool_next pool x" if "x \<in> set (butlast ?c)" for x
      using that nxt cl in_set_butlastD by metis
    moreover have "pool_next pool' (last ?c) = i"
      using l [OF ne] ne nxt [of ?l] cl [of ?l] by simp
    ultimately have "walk (pool_next pool') (dl_first q) (Suc (Suc m)) = ?c @ [i]"
      using walk_extend [OF c] by blast
    then show ?thesis
      using Suc ne cnt by (simp add: cvt_q_chain_def q'_def)
  qed
  have ok': "cvt_q_ok pool' q'"
    using ok i chain' nxt [OF il] by (auto simp: cvt_q_ok_def used' list_all_iff q'_def)
  have reqs: "cvt_q_reqs pool' q' = cvt_q_reqs pool q @ [req]"
    using item [OF il] item cl by (auto simp: cvt_q_reqs_def chain')
  have keeps: "pool_keeps ?c pool pool'"
    unfolding pool_keeps_def
  proof (intro conjI allI impI)
    show "rp_item_num pool' = rp_item_num pool" by (simp add: pool'_def pool_pop_def)
    fix j assume j: "pool_used pool j \<and> j \<notin> set ?c"
    then have "j \<noteq> i" "dl_count q \<noteq> 0 \<longrightarrow> j \<noteq> ?l" using fr l(1) by (auto simp: pool_used_def)
    then show "pool_used pool' j" "rp_addr pool' ! unat j = rp_addr pool ! unat j"
      using j item pool_used_lt [OF inv] by (auto simp: used')
  qed
  show ?thesis
    using enq inv' ok' reqs chain' keeps free by (auto simp: q'_def)
qed

subsection \<open>The queue interface\<close>

text \<open>Entering a list of requests, and taking a number of them off.\<close>

fun enq_all :: "('s \<Rightarrow> 'r \<Rightarrow> 's option option) \<Rightarrow> 's \<Rightarrow> 'r list \<Rightarrow> 's option option" where
  "enq_all enq s [] = Some (Some s)"
| "enq_all enq s (r # rs) = do {
     s' \<leftarrow> enq s r;
     (case s' of None \<Rightarrow> Some None | Some t \<Rightarrow> enq_all enq t rs)
   }"

fun pop_all :: "('s \<Rightarrow> ('r \<times> 's) option) \<Rightarrow> 's \<Rightarrow> nat \<Rightarrow> ('r list \<times> 's) option" where
  "pop_all pop s 0 = Some ([], s)"
| "pop_all pop s (Suc n) = do {
     (r, t) \<leftarrow> pop s;
     (rs, u) \<leftarrow> pop_all pop t n;
     Some (r # rs, u)
   }"

locale request_fifo =
  fixes ok :: "'s \<Rightarrow> bool"
    and content :: "'s \<Rightarrow> 'r list"
    and room :: "'s \<Rightarrow> nat"
    and enq :: "'s \<Rightarrow> 'r \<Rightarrow> 's option option"
    and pop :: "'s \<Rightarrow> ('r \<times> 's) option"
  assumes enq_full: "ok s \<Longrightarrow> room s = 0 \<Longrightarrow> enq s r = Some None"
    and enq_room: "ok s \<Longrightarrow> 0 < room s \<Longrightarrow> \<exists>t. enq s r = Some (Some t) \<and> ok t \<and>
      content t = content s @ [r] \<and> Suc (room t) = room s"
    and pop_Cons: "ok s \<Longrightarrow> content s = r # rs \<Longrightarrow> \<exists>t. pop s = Some (r, t) \<and> ok t \<and>
      content t = rs \<and> room t = Suc (room s)"
begin

lemma enq_all_ok:
  assumes "ok s" and "length rs \<le> room s"
  shows "\<exists>t. enq_all enq s rs = Some (Some t) \<and> ok t \<and> content t = content s @ rs \<and>
    room t + length rs = room s"
  using assms
proof (induction rs arbitrary: s)
  case Nil
  then show ?case by simp
next
  case (Cons r rs)
  then obtain t where t: "enq s r = Some (Some t)" "ok t" "content t = content s @ [r]"
    "Suc (room t) = room s"
    using enq_room [of s r] by auto
  then show ?case using Cons.IH [of t] Cons.prems by auto
qed

lemma enq_all_full:
  assumes "ok s" and "room s < length rs"
  shows "enq_all enq s rs = Some None"
  using assms
proof (induction rs arbitrary: s)
  case Nil
  then show ?case by simp
next
  case (Cons r rs)
  show ?case
  proof (cases "room s = 0")
    case True
    then show ?thesis using enq_full Cons.prems by simp
  next
    case False
    then obtain t where "enq s r = Some (Some t)" "ok t" "Suc (room t) = room s"
      using enq_room [of s r] Cons.prems by auto
    then show ?thesis using Cons.IH [of t] Cons.prems by simp
  qed
qed

lemma pop_all_ok:
  assumes "ok s" and "content s = rs @ rest"
  shows "\<exists>t. pop_all pop s (length rs) = Some (rs, t) \<and> ok t \<and> content t = rest \<and>
    room t = room s + length rs"
  using assms
proof (induction rs arbitrary: s)
  case Nil
  then show ?case by simp
next
  case (Cons r rs)
  then obtain t where t: "pop s = Some (r, t)" "ok t" "content t = rs @ rest" "room t = Suc (room s)"
    using pop_Cons [of s r "rs @ rest"] by auto
  then show ?case using Cons.IH [of t] by auto
qed

end

definition cvt_enq :: "lock_item_pool \<times> drc_list \<Rightarrow> drc_req_info \<Rightarrow>
    (lock_item_pool \<times> drc_list) option option" where
  "cvt_enq s req_info = cvt_q_enqueue (fst s) (snd s) req_info"

definition cvt_pop :: "lock_item_pool \<times> drc_list \<Rightarrow>
    (drc_req_info \<times> lock_item_pool \<times> drc_list) option" where
  "cvt_pop s = map_option (\<lambda>(item, s'). (li_req_info item, s')) (cvt_q_pop (fst s) (snd s))"

definition cvt_ok :: "lock_item_pool \<times> drc_list \<Rightarrow> bool" where
  "cvt_ok s \<longleftrightarrow> pool_inv (fst s) \<and> cvt_q_ok (fst s) (snd s)"

definition cvt_reqs :: "lock_item_pool \<times> drc_list \<Rightarrow> drc_req_info list" where
  "cvt_reqs s = cvt_q_reqs (fst s) (snd s)"

definition cvt_room :: "lock_item_pool \<times> drc_list \<Rightarrow> nat" where
  "cvt_room s = length (pool_free (fst s))"

lemmas cvt_defs = cvt_enq_def cvt_pop_def cvt_ok_def cvt_reqs_def cvt_room_def

lemma count_0_iff: "dl_count q = 0 \<longleftrightarrow> cvt_q_reqs pool q = []"
  by (simp add: cvt_q_reqs_def cvt_q_chain_def unat_eq_zero)

interpretation cvt_q: request_fifo cvt_ok cvt_reqs cvt_room cvt_enq cvt_pop
proof
  fix s :: "lock_item_pool \<times> drc_list" and r rs
  show "cvt_enq s r = Some None" if "cvt_ok s" "cvt_room s = 0"
    using that cvt_q_enqueue_full by (simp add: cvt_defs)
  show "\<exists>t. cvt_enq s r = Some (Some t) \<and> cvt_ok t \<and> cvt_reqs t = cvt_reqs s @ [r] \<and>
      Suc (cvt_room t) = cvt_room s" if "cvt_ok s" "0 < cvt_room s"
  proof (cases "pool_free (fst s)")
    case Nil
    then show ?thesis using that by (simp add: cvt_room_def)
  next
    case (Cons i "is")
    then show ?thesis
      using cvt_q_enqueue_ok [of "fst s" "snd s" i "is" r] that by (fastforce simp: cvt_defs)
  qed
  show "\<exists>t. cvt_pop s = Some (r, t) \<and> cvt_ok t \<and> cvt_reqs t = rs \<and> cvt_room t = Suc (cvt_room s)"
    if "cvt_ok s" "cvt_reqs s = r # rs"
    using cvt_q_pop_ok [of "fst s" "snd s"] that count_0_iff [of "snd s" "fst s"]
    by (fastforce simp: cvt_defs)
qed

subsection \<open>Properties of the queue\<close>

definition demo_req :: "u8 \<Rightarrow> drc_req_info" where
  "demo_req inst = g_invalid_req_info\<lparr>ri_inst_id := inst, ri_req_mode := DRC_LOCK_EXCLUSIVE\<rparr>"

definition demo_items :: lock_item_pool where
  "demo_items = \<lparr>rp_inited = True, rp_free_list = 0, rp_item_num = 2, rp_used_num = 0,
     rp_item_size = 64, rp_addr = [\<lparr>bh_next = 1, li_req_info = g_invalid_req_info\<rparr>,
       \<lparr>bh_next = OG_INVALID_ID32, li_req_info = g_invalid_req_info\<rparr>], rp_recycle_pos = 0\<rparr>"



end
