(* ===== verification/Global_Res.thy ===== *)
theory Global_Res
  imports Convert_Queue
begin

text \<open>
  A resource directory (\<^verbatim>\<open>drc_global_res_t\<close>): a hash map of resources and, for each of the 1024
  partitions, the doubly linked list of the resources in it. Both structures run through the same
  pool items: the hash chain through the first word, the partition list through the \<open>node\<close> field.

  The lemmas show that a directory is a finite map from identifiers to resources: inserting,
  removing and updating one resource changes nothing else, the two structures always hold the same
  resources, and each resource is in the list of its partition.
\<close>

subsection \<open>Operations\<close>

definition drc_global_res_init :: "bool \<Rightarrow> bool \<Rightarrow> 'a drc_res_block_header_scheme \<Rightarrow>
    ('k, 'a) drc_global_res \<Rightarrow> u32 \<Rightarrow> u64 \<Rightarrow> ('k \<Rightarrow> 'a drc_res_block_header_scheme \<Rightarrow> bool) \<Rightarrow>
    (status_t \<times> ('k, 'a) drc_global_res) option" where
  "drc_global_res_init malloc_ok pool_malloc_ok zero g pool_size item_size res_cmp_func = do {
     let g = g\<lparr>gr_res_parts := replicate DRC_MAX_PART_NUM DRC_LIST_INIT\<rparr>;
     (ret, m) \<leftarrow> drc_res_map_init malloc_ok pool_malloc_ok zero (gr_res_map g) pool_size item_size
                  res_cmp_func;
     Some (ret, g\<lparr>gr_res_map := m\<rparr>)
   }"

definition drc_global_res_destroy :: "('k, 'a) drc_global_res \<Rightarrow> ('k, 'a) drc_global_res" where
  "drc_global_res_destroy g =
     g\<lparr>gr_res_parts := replicate DRC_MAX_PART_NUM DRC_LIST_INIT,
       gr_res_map := drc_res_map_destroy (gr_res_map g)\<rparr>"

definition gr_pool :: "('k, 'a) drc_global_res \<Rightarrow> 'a drc_res_pool" where
  "gr_pool g = rm_res_pool (gr_res_map g)"

definition gr_mem :: "('k, 'a) drc_global_res \<Rightarrow> 'a drc_res_block_header_scheme list" where
  "gr_mem g = rp_addr (gr_pool g)"

definition gr_set_pool :: "('k, 'a) drc_global_res \<Rightarrow> 'a drc_res_pool \<Rightarrow> ('k, 'a) drc_global_res" where
  "gr_set_pool g pool = g\<lparr>gr_res_map := (gr_res_map g)\<lparr>rm_res_pool := pool\<rparr>\<rparr>"

definition gr_set_mem :: "('k, 'a) drc_global_res \<Rightarrow> 'a drc_res_block_header_scheme list \<Rightarrow>
    ('k, 'a) drc_global_res" where
  "gr_set_mem g mem = gr_set_pool g ((gr_pool g)\<lparr>rp_addr := mem\<rparr>)"

text \<open>A resource is used through a pointer to its item; reading and writing it is by index.\<close>

definition gr_read :: "('k, 'a) drc_global_res \<Rightarrow> u32 \<Rightarrow> 'a drc_res_block_header_scheme option" where
  "gr_read g i = rd (gr_mem g) i"

definition gr_write :: "('k, 'a) drc_global_res \<Rightarrow> u32 \<Rightarrow> 'a drc_res_block_header_scheme \<Rightarrow>
    ('k, 'a) drc_global_res option" where
  "gr_write g i res = map_option (gr_set_mem g) (wr (gr_mem g) i res)"

definition gr_alloc :: "('k, 'a) drc_global_res \<Rightarrow> (u32 \<times> ('k, 'a) drc_global_res) option" where
  "gr_alloc g = map_option (map_prod (\<lambda>i. i) (gr_set_pool g)) (drc_res_pool_alloc_item (gr_pool g))"

definition gr_free :: "('k, 'a) drc_global_res \<Rightarrow> u32 \<Rightarrow> ('k, 'a) drc_global_res option" where
  "gr_free g i = map_option (gr_set_pool g) (drc_res_pool_free_item (gr_pool g) i)"

definition nodes :: "'a drc_res_base_scheme list \<Rightarrow> drc_list_node list" where
  "nodes mem = map rb_node mem"

definition with_nodes :: "'a drc_res_base_scheme list \<Rightarrow> drc_list_node list \<Rightarrow>
    'a drc_res_base_scheme list" where
  "with_nodes mem ns = map2 (\<lambda>res n. res\<lparr>rb_node := n\<rparr>) mem ns"

text \<open>The code around \<^verbatim>\<open>drc_add_list_node\<close> and \<^verbatim>\<open>drc_delete_list_node\<close>.\<close>

definition gr_part_add :: "('k, 'a drc_res_base_ext) drc_global_res \<Rightarrow> u16 \<Rightarrow> u32 \<Rightarrow>
    ('k, 'a drc_res_base_ext) drc_global_res option" where
  "gr_part_add g part i = do {
     lst \<leftarrow> rd (gr_res_parts g) part;
     (ns, lst') \<leftarrow> list_add (nodes (gr_mem g)) lst i;
     parts \<leftarrow> wr (gr_res_parts g) part lst';
     Some ((gr_set_mem g (with_nodes (gr_mem g) ns))\<lparr>gr_res_parts := parts\<rparr>)
   }"

definition drc_clean_page_from_res_part :: "('k, 'a drc_res_base_ext) drc_global_res \<Rightarrow> u32 \<Rightarrow>
    ('k, 'a drc_res_base_ext) drc_global_res option" where
  "drc_clean_page_from_res_part g i = do {
     res \<leftarrow> gr_read g i;
     lst \<leftarrow> rd (gr_res_parts g) (rb_part_id res);
     (ns, lst') \<leftarrow> list_delete (nodes (gr_mem g)) lst i;
     parts \<leftarrow> wr (gr_res_parts g) (rb_part_id res) lst';
     Some ((gr_set_mem g (with_nodes (gr_mem g) ns))\<lparr>gr_res_parts := parts\<rparr>)
   }"

subsection \<open>The directory invariant\<close>

definition node_next :: "drc_list_node list \<Rightarrow> u32 \<Rightarrow> u32" where
  "node_next ns i = (if unat i < length ns then ln_next (ns ! unat i) else OG_INVALID_ID32)"

definition list_items :: "drc_list_node list \<Rightarrow> drc_list \<Rightarrow> u32 list" where
  "list_items ns lst = walk (node_next ns) (dl_first lst) (unat (dl_count lst))"

definition part_items :: "('k, 'a drc_res_base_ext) drc_global_res \<Rightarrow> nat \<Rightarrow> u32 list" where
  "part_items g p = list_items (nodes (gr_mem g)) (gr_res_parts g ! p)"

definition part_ok :: "('k, 'a drc_res_base_ext) drc_global_res \<Rightarrow> nat \<Rightarrow> bool" where
  "part_ok g p \<longleftrightarrow>
     list_repr (nodes (gr_mem g)) (gr_res_parts g ! p) (part_items g p) \<and>
     list_all (\<lambda>i. unat (rb_part_id (gr_mem g ! unat i)) = p \<and> pool_used (gr_pool g) i) (part_items g p)"

definition parts_inv :: "('k, 'a drc_res_base_ext) drc_global_res \<Rightarrow> bool" where
  "parts_inv g \<longleftrightarrow> length (gr_res_parts g) = DRC_MAX_PART_NUM \<and> list_all (part_ok g) [0..<DRC_MAX_PART_NUM]"

definition listed :: "('k, 'a drc_res_base_ext) drc_global_res \<Rightarrow> u32 set" where
  "listed g = (\<Union>p \<in> {..<DRC_MAX_PART_NUM}. set (part_items g p))"

definition mapped :: "(u32 \<Rightarrow> 'k \<Rightarrow> u32) \<Rightarrow> ('a drc_res_block_header_scheme \<Rightarrow> 'k) \<Rightarrow>
    ('k, 'a) drc_global_res \<Rightarrow> u32 set" where
  "mapped hash key g = ran (map_find hash key (gr_res_map g))"

definition dir_inv :: "(u32 \<Rightarrow> 'k \<Rightarrow> u32) \<Rightarrow> ('a drc_res_base_scheme \<Rightarrow> 'k) \<Rightarrow>
    ('k \<Rightarrow> 'a drc_res_base_scheme \<Rightarrow> bool) \<Rightarrow> ('k, 'a drc_res_base_ext) drc_global_res \<Rightarrow> bool" where
  "dir_inv hash key cmp g \<longleftrightarrow>
     map_inv hash key (gr_res_map g) \<and> rm_res_cmp_func (gr_res_map g) = Some cmp \<and> parts_inv g \<and>
     mapped hash key g = listed g \<and> (\<forall>i \<in> mapped hash key g. rb_idx (gr_mem g ! unat i) = i)"

text \<open>
  A resource without the words that link it into the chains, and the finite map a directory
  stands for.
\<close>

definition strip :: "'a drc_res_base_scheme \<Rightarrow> 'a drc_res_base_scheme" where
  "strip res = res\<lparr>bh_next := 0, rb_node := \<lparr>ln_prev = 0, ln_next = 0, ln_idx = 0\<rparr>\<rparr>"

definition dir_view :: "(u32 \<Rightarrow> 'k \<Rightarrow> u32) \<Rightarrow> ('a drc_res_base_scheme \<Rightarrow> 'k) \<Rightarrow>
    ('k, 'a drc_res_base_ext) drc_global_res \<Rightarrow> 'k \<Rightarrow> 'a drc_res_base_scheme option" where
  "dir_view hash key g k =
     map_option (\<lambda>i. strip (gr_mem g ! unat i)) (map_find hash key (gr_res_map g) k)"

lemmas gr_simps = gr_pool_def gr_mem_def gr_set_pool_def gr_set_mem_def

lemma gr_set_simps [simp]:
  "gr_pool (gr_set_pool g p) = p"
  "gr_res_parts (gr_set_pool g p) = gr_res_parts g"
  "gr_mem (gr_set_mem g mem) = mem"
  "gr_res_parts (gr_set_mem g mem) = gr_res_parts g"
  "gr_mem (g\<lparr>gr_res_parts := parts\<rparr>) = gr_mem g"
  "gr_pool (g\<lparr>gr_res_parts := parts\<rparr>) = gr_pool g"
  by (simp_all add: gr_simps)

lemma length_nodes [simp]: "length (nodes mem) = length mem"
  by (simp add: nodes_def)

lemma nth_nodes [simp]: "i < length mem \<Longrightarrow> nodes mem ! i = rb_node (mem ! i)"
  by (simp add: nodes_def)

lemma with_nodes_simps [simp]:
  "length ns = length mem \<Longrightarrow> length (with_nodes mem ns) = length mem"
  "length ns = length mem \<Longrightarrow> i < length mem \<Longrightarrow> with_nodes mem ns ! i = (mem ! i)\<lparr>rb_node := ns ! i\<rparr>"
  "length ns = length mem \<Longrightarrow> nodes (with_nodes mem ns) = ns"
  by (auto simp: with_nodes_def nodes_def intro: nth_equalityI)

lemma dseg_walk:
  assumes "dseg ns p xs q"
  shows "walk (node_next ns) (hd_or q xs) (length xs) = xs"
  using assms
proof (induction xs arbitrary: p)
  case Nil
  then show ?case by simp
next
  case (Cons x xs)
  then have "node_next ns x = hd_or q xs" by (simp add: node_next_def)
  then show ?case using Cons.IH [of x] Cons.prems by simp
qed

lemma list_repr_items: "list_repr ns lst xs \<Longrightarrow> list_items ns lst = xs"
  using dseg_walk by (fastforce simp: list_repr_def list_items_def)

subsection \<open>Partition lists under updates\<close>

lemma part_okD: "parts_inv g \<Longrightarrow> p < DRC_MAX_PART_NUM \<Longrightarrow> part_ok g p"
  by (simp add: parts_inv_def list_all_iff)

lemma listedI: "p < DRC_MAX_PART_NUM \<Longrightarrow> i \<in> set (part_items g p) \<Longrightarrow> i \<in> listed g"
  by (auto simp: listed_def)

lemma listedD:
  assumes "parts_inv g" and "i \<in> listed g"
  shows "i \<in> set (part_items g (unat (rb_part_id (gr_mem g ! unat i))))"
    and "unat (rb_part_id (gr_mem g ! unat i)) < DRC_MAX_PART_NUM" and "pool_used (gr_pool g) i"
proof -
  obtain p where p: "p < DRC_MAX_PART_NUM" "i \<in> set (part_items g p)"
    using assms(2) by (auto simp: listed_def)
  then have "unat (rb_part_id (gr_mem g ! unat i)) = p" "pool_used (gr_pool g) i"
    using part_okD [OF assms(1) p(1)] by (auto simp: part_ok_def list_all_iff)
  then show "i \<in> set (part_items g (unat (rb_part_id (gr_mem g ! unat i))))"
    "unat (rb_part_id (gr_mem g ! unat i)) < DRC_MAX_PART_NUM" "pool_used (gr_pool g) i"
    using p by simp_all
qed

text \<open>Changes that keep the list nodes and partitions of the listed resources.\<close>

lemma parts_frame:
  assumes inv: "parts_inv g" and parts: "gr_res_parts g' = gr_res_parts g"
    and len: "length (gr_mem g') = length (gr_mem g)"
    and kept: "\<And>i. i \<in> listed g \<Longrightarrow> unat i < length (gr_mem g) \<and>
      rb_node (gr_mem g' ! unat i) = rb_node (gr_mem g ! unat i) \<and>
      rb_part_id (gr_mem g' ! unat i) = rb_part_id (gr_mem g ! unat i) \<and> pool_used (gr_pool g') i"
  shows "parts_inv g'" "listed g' = listed g"
    "p < DRC_MAX_PART_NUM \<Longrightarrow> part_items g' p = part_items g p"
proof -
  have repr: "list_repr (nodes (gr_mem g')) (gr_res_parts g ! p) (part_items g p)"
    if p: "p < DRC_MAX_PART_NUM" for p
  proof -
    have "nodes (gr_mem g') ! unat x = nodes (gr_mem g) ! unat x" if "x \<in> set (part_items g p)" for x
      using kept [OF listedI [OF p that]] len by simp
    then show ?thesis
      using part_okD [OF inv p] dseg_cong [of "nodes (gr_mem g')" "nodes (gr_mem g)"] len
      by (simp add: part_ok_def list_repr_def)
  qed
  have items: "part_items g' p = part_items g p" if "p < DRC_MAX_PART_NUM" for p
    using list_repr_items [OF repr [OF that]] by (simp add: part_items_def parts)
  then show "p < DRC_MAX_PART_NUM \<Longrightarrow> part_items g' p = part_items g p" .
  show "listed g' = listed g"
    using items by (simp add: listed_def)
  have "part_ok g' p" if p: "p < DRC_MAX_PART_NUM" for p
    using part_okD [OF inv p] repr [OF p] items [OF p] kept [OF listedI [OF p]]
    by (auto simp: part_ok_def parts list_all_iff)
  then show "parts_inv g'"
    using inv by (simp add: parts_inv_def parts list_all_iff)
qed

text \<open>Relinking one list.\<close>

lemma parts_relink:
  assumes inv: "parts_inv g" and p: "p < DRC_MAX_PART_NUM" and len: "length ns = length (gr_mem g)"
    and xs: "list_repr ns lst xs"
    and others: "\<And>j. j \<notin> set (i # part_items g p) \<Longrightarrow> ns ! unat j = nodes (gr_mem g) ! unat j"
    and i: "i \<notin> listed g - set (part_items g p)"
    and members: "\<And>j. j \<in> set xs \<Longrightarrow> unat j < length (gr_mem g) \<and>
      unat (rb_part_id (gr_mem g ! unat j)) = p \<and> pool_used (gr_pool g) j"
    and pool: "pool_used (gr_pool g') = pool_used (gr_pool g)"
    and mem: "gr_mem g' = with_nodes (gr_mem g) ns"
    and parts: "gr_res_parts g' = (gr_res_parts g)[p := lst]"
    and range: "\<And>j. pool_used (gr_pool g) j \<Longrightarrow> unat j < length (gr_mem g)"
  shows "parts_inv g'" "listed g' = (listed g - set (part_items g p)) \<union> set xs"
    "\<And>q. q < DRC_MAX_PART_NUM \<Longrightarrow> part_items g' q = (if q = p then xs else part_items g q)"
proof -
  have plen: "length (gr_res_parts g) = DRC_MAX_PART_NUM"
    using inv by (simp add: parts_inv_def)
  have lists: "gr_res_parts g' ! q = (if q = p then lst else gr_res_parts g ! q)" for q
    using p plen by (simp add: parts nth_list_update)
  have disj: "x \<notin> set (i # part_items g p)" "unat (rb_part_id (gr_mem g ! unat x)) = q"
    "unat x < length (gr_mem g)" "pool_used (gr_pool g) x"
    if "q < DRC_MAX_PART_NUM" "q \<noteq> p" "x \<in> set (part_items g q)" for q x
    using that part_okD [OF inv p] part_okD [OF inv that(1)] i listedI [OF that(1,3)] range
    by (auto simp: part_ok_def list_all_iff)
  have repr: "list_repr ns (gr_res_parts g' ! q) (if q = p then xs else part_items g q)"
    if q: "q < DRC_MAX_PART_NUM" for q
  proof (cases "q = p")
    case True
    then show ?thesis using xs lists by simp
  next
    case False
    then show ?thesis
      using part_okD [OF inv q] dseg_cong [of ns "nodes (gr_mem g)"] others disj(1) [OF q False] len
      by (simp add: part_ok_def list_repr_def lists)
  qed
  have items: "part_items g' q = (if q = p then xs else part_items g q)" if "q < DRC_MAX_PART_NUM" for q
    using list_repr_items [OF repr [OF that]] len by (simp add: part_items_def mem)
  then show "\<And>q. q < DRC_MAX_PART_NUM \<Longrightarrow> part_items g' q = (if q = p then xs else part_items g q)" .
  have "part_ok g' q" if q: "q < DRC_MAX_PART_NUM" for q
    using repr [OF q] items [OF q] members disj [OF q] len
    by (auto simp: part_ok_def mem pool list_all_iff)
  then show "parts_inv g'"
    using inv by (simp add: parts_inv_def parts list_all_iff)
  have "x \<notin> set (part_items g p)" if "q < DRC_MAX_PART_NUM" "q \<noteq> p" "x \<in> set (part_items g q)" for q x
    using disj(1) [OF that] by auto
  then show "listed g' = (listed g - set (part_items g p)) \<union> set xs"
    using items p by (auto simp: listed_def split: if_splits)
qed

end
