(* ===== verification/Res_Directory.thy ===== *)
theory Res_Directory
  imports Global_Res
begin

text \<open>
  A resource directory as a finite map from identifiers to resources. Each step of the code changes
  one of the two structures; the lemmas follow the steps and show that an insertion, a removal or an
  update of one resource changes nothing else, that the hash map and the partition lists hold the
  same resources between operations, and that no pool item is lost: every allocated item is in the
  directory or held by a running handler.
\<close>

subsection \<open>Directory operations\<close>

text \<open>
  A directory is well formed when its map and its lists are, whichever resources they hold;
  between the two steps of an insertion or removal they hold different ones.
\<close>

definition dir_wf :: "(u32 \<Rightarrow> 'k \<Rightarrow> u32) \<Rightarrow> ('a drc_res_base_scheme \<Rightarrow> 'k) \<Rightarrow>
    ('k \<Rightarrow> 'a drc_res_base_scheme \<Rightarrow> bool) \<Rightarrow> ('k, 'a drc_res_base_ext) drc_global_res \<Rightarrow> bool" where
  "dir_wf hash key cmp g \<longleftrightarrow>
     map_inv hash key (gr_res_map g) \<and> rm_res_cmp_func (gr_res_map g) = Some cmp \<and> parts_inv g"

locale directory = keyed_map hash key cmp
  for hash :: "u32 \<Rightarrow> 'k \<Rightarrow> u32" and key :: "'a drc_res_base_scheme \<Rightarrow> 'k" and cmp +
  assumes key_node: "key (res\<lparr>rb_node := n\<rparr>) = key res"
    and key_part: "key (res\<lparr>rb_part_id := p\<rparr>) = key res"
begin

abbreviation wf :: "('k, 'a drc_res_base_ext) drc_global_res \<Rightarrow> bool" where
  "wf \<equiv> dir_wf hash key cmp"

abbreviation dfind :: "('k, 'a drc_res_base_ext) drc_global_res \<Rightarrow> 'k \<Rightarrow> u32 option" where
  "dfind g \<equiv> map_find hash key (gr_res_map g)"

lemma dir_inv_wf: "dir_inv hash key cmp g \<Longrightarrow> wf g"
  by (simp add: dir_inv_def dir_wf_def)

lemma wf_pool: "wf g \<Longrightarrow> pool_inv (gr_pool g)"
  by (simp add: dir_wf_def map_inv_def gr_pool_def)

lemma map_used_pool: "map_used (gr_res_map g) = pool_used (gr_pool g)"
  by (simp add: fun_eq_iff map_used_def pool_used_def gr_pool_def)

lemma map_item_mem: "map_item (gr_res_map g) i = gr_mem g ! unat i"
  by (simp add: map_item_def gr_mem_def gr_pool_def)

lemma wf_used_lt: "wf g \<Longrightarrow> pool_used (gr_pool g) i \<Longrightarrow> unat i < length (gr_mem g)"
  using pool_used_lt [OF wf_pool] by (simp add: gr_mem_def)

lemma find_mapped:
  assumes "wf g"
  shows "dfind g k = Some i \<Longrightarrow> pool_used (gr_pool g) i \<and> key (gr_mem g ! unat i) = k"
    and "i \<in> mapped hash key g \<longleftrightarrow> dfind g (key (gr_mem g ! unat i)) = Some i"
proof -
  have inv: "map_inv hash key (gr_res_map g)"
    using assms by (simp add: dir_wf_def)
  show *: "pool_used (gr_pool g) i \<and> key (gr_mem g ! unat i) = k" if "dfind g k = Some i" for k i
  proof -
    have "i \<in> set (bucket_chain (gr_res_map g) (unat (hash (rm_bucket_num (gr_res_map g)) k)))"
      "key (gr_mem g ! unat i) = k"
      using find_chain [OF inv, of k i] that by (simp_all add: map_item_mem)
    then show ?thesis
      using chain_used(1) [OF inv bucket_in [OF inv]] by (auto simp: map_used_pool)
  qed
  show "i \<in> mapped hash key g \<longleftrightarrow> dfind g (key (gr_mem g ! unat i)) = Some i"
    using * by (auto simp: mapped_def ran_def)
qed

lemma listed_lt: "wf g \<Longrightarrow> i \<in> listed g \<Longrightarrow> unat i < length (gr_mem g)"
  using listedD(3) wf_used_lt by (auto simp: dir_wf_def)

lemma linked_used: "wf g \<Longrightarrow> i \<in> mapped hash key g \<union> listed g \<Longrightarrow> pool_used (gr_pool g) i"
  using find_mapped [of g] listedD(3) [of g i] by (auto simp: dir_wf_def)

text \<open>Changes of the pool that neither structure sees.\<close>

lemma wf_frame:
  assumes wf: "wf g" and pool: "pool_inv pool'" and num: "rp_item_num pool' = rp_item_num (gr_pool g)"
    and kept: "\<And>i. i \<in> mapped hash key g \<Longrightarrow> pool_used pool' i \<and>
      bh_next (rp_addr pool' ! unat i) = bh_next (gr_mem g ! unat i) \<and>
      key (rp_addr pool' ! unat i) = key (gr_mem g ! unat i)"
      "\<And>i. i \<in> listed g \<Longrightarrow> pool_used pool' i \<and>
      rb_node (rp_addr pool' ! unat i) = rb_node (gr_mem g ! unat i) \<and>
      rb_part_id (rp_addr pool' ! unat i) = rb_part_id (gr_mem g ! unat i)"
  shows "wf (gr_set_pool g pool')" "dfind (gr_set_pool g pool') = dfind g"
    "listed (gr_set_pool g pool') = listed g" "mapped hash key (gr_set_pool g pool') = mapped hash key g"
proof -
  let ?m = "gr_res_map g"
  have inv: "map_inv hash key ?m"
    using wf by (simp add: dir_wf_def)
  have chain: "i \<in> mapped hash key g"
    if b: "b < length (rm_buckets ?m)" and i: "i \<in> set (bucket_chain ?m b)" for b i
    using find_chain [OF inv, of "key (map_item ?m i)" i] chain_used(2) [OF inv b i] i
    by (auto simp: mapped_def ran_def)
  have frame: "map_inv hash key (?m\<lparr>rm_res_pool := pool'\<rparr>)"
    "\<And>k. map_find hash key (?m\<lparr>rm_res_pool := pool'\<rparr>) k = map_find hash key ?m k"
    using map_frame [OF inv pool, of] num kept chain bucket_in [OF inv]
    by (auto simp: gr_pool_def map_item_mem pool_used_def)
  have len: "length (rp_addr pool') = length (gr_mem g)"
    using pool_inv_length [OF pool] pool_inv_length [OF wf_pool [OF wf]] num by (simp add: gr_mem_def)
  have parts: "parts_inv (gr_set_pool g pool')" "listed (gr_set_pool g pool') = listed g"
    using parts_frame [of g "gr_set_pool g pool'"] wf kept listed_lt [OF wf] len
    by (auto simp: dir_wf_def gr_mem_def)
  show "listed (gr_set_pool g pool') = listed g" by (rule parts)
  show find: "dfind (gr_set_pool g pool') = dfind g"
    using frame(2) by (simp add: fun_eq_iff gr_set_pool_def)
  then show "mapped hash key (gr_set_pool g pool') = mapped hash key g"
    by (simp add: mapped_def)
  show "wf (gr_set_pool g pool')"
    using wf frame(1) parts(1) by (simp add: dir_wf_def) (simp add: gr_set_pool_def)
qed

text \<open>Allocating an item, writing it while nothing points to it, and giving it back.\<close>

lemma alloc_empty:
  assumes "wf g" and "pool_free (gr_pool g) = []"
  shows "gr_alloc g = Some (OG_INVALID_ID32, g)"
  using alloc_item_empty [OF wf_pool [OF assms(1)] assms(2)] by (simp add: gr_alloc_def gr_simps)

lemma alloc_Cons:
  assumes wf: "wf g" and free: "pool_free (gr_pool g) = i # is"
  shows "\<exists>g'. gr_alloc g = Some (i, g') \<and> wf g' \<and> dfind g' = dfind g \<and> listed g' = listed g \<and>
    mapped hash key g' = mapped hash key g \<and> gr_mem g' = gr_mem g \<and>
    (\<forall>j. pool_used (gr_pool g') j \<longleftrightarrow> pool_used (gr_pool g) j \<or> j = i) \<and> i \<notin> mapped hash key g \<union> listed g \<and> i \<noteq> OG_INVALID_ID32 \<and> pool_free (gr_pool g') = is"
proof -
  note pop = pool_pop [OF wf_pool [OF wf] free]
  let ?g = "gr_set_pool g (pool_pop (gr_pool g))"
  have mem: "rp_addr (pool_pop (gr_pool g)) = gr_mem g"
    by (simp add: pool_pop_def gr_mem_def)
  have used: "pool_used (pool_pop (gr_pool g)) j \<longleftrightarrow> pool_used (gr_pool g) j \<or> j = i" for j
    using pop free wf_pool [OF wf] by (auto simp: pool_used_def pool_inv_def)
  have i: "\<not> pool_used (gr_pool g) i"
    using free by (simp add: pool_used_def)
  have num: "rp_item_num (pool_pop (gr_pool g)) = rp_item_num (gr_pool g)"
    by (simp add: pool_pop_def)
  note frame = wf_frame [OF wf pop(1) num]
  have "gr_alloc g = Some (i, ?g)"
    using alloc_item_Cons [OF wf_pool [OF wf] free] by (simp add: gr_alloc_def)
  moreover have "gr_mem ?g = gr_mem g" by (simp add: gr_mem_def pool_pop_def)
  moreover have "wf ?g" "dfind ?g = dfind g" "listed ?g = listed g" "mapped hash key ?g = mapped hash key g"
    by (rule frame; use linked_used [OF wf] used mem in simp)+
  ultimately show ?thesis
    using used i linked_used [OF wf] pop(2) pool_valid_not_invalid [OF pop(5)] by auto
qed

lemma free_unlinked:
  assumes wf: "wf g" and i: "pool_used (gr_pool g) i" "i \<notin> mapped hash key g \<union> listed g"
  shows "\<exists>g'. gr_free g i = Some g' \<and> wf g' \<and> dfind g' = dfind g \<and> listed g' = listed g \<and>
    mapped hash key g' = mapped hash key g \<and>
    (\<forall>j. j \<noteq> i \<longrightarrow> gr_mem g' ! unat j = gr_mem g ! unat j) \<and>
    (\<forall>j. pool_used (gr_pool g') j \<longleftrightarrow> pool_used (gr_pool g) j \<and> j \<noteq> i)"
proof -
  have v: "pool_valid (gr_pool g) i" "i \<notin> set (pool_free (gr_pool g))"
    using i(1) by (simp_all add: pool_used_def)
  note push = pool_push [OF wf_pool [OF wf] v]
  let ?p = "pool_push (gr_pool g) i" and ?g = "gr_set_pool g (pool_push (gr_pool g) i)"
  have mem: "rp_addr ?p ! unat j = gr_mem g ! unat j" if "j \<noteq> i" for j
    using that by (simp add: pool_push_def gr_mem_def)
  have used: "pool_used ?p j \<longleftrightarrow> pool_used (gr_pool g) j \<and> j \<noteq> i" for j
    using push by (auto simp: pool_used_def)
  have num: "rp_item_num ?p = rp_item_num (gr_pool g)"
    by (simp add: pool_push_def)
  have kept: "pool_used ?p j" "rp_addr ?p ! unat j = gr_mem g ! unat j"
    if "j \<in> mapped hash key g \<union> listed g" for j
    using that i linked_used [OF wf that] used mem [of j] by auto
  have "wf ?g" "dfind ?g = dfind g" "listed ?g = listed g" "mapped hash key ?g = mapped hash key g"
    by (rule wf_frame [OF wf push(1) num]; use kept in simp)+
  moreover have "gr_free g i = Some ?g"
    using put_item [OF wf_pool [OF wf] v(1)] wf_pool [OF wf]
    by (simp add: gr_free_def drc_res_pool_free_item_def pool_inv_def)
  moreover have "gr_mem ?g ! unat j = gr_mem g ! unat j" if "j \<noteq> i" for j
    using mem [OF that] by (simp add: gr_mem_def)
  ultimately show ?thesis using used by auto
qed

lemma write_frame:
  assumes wf: "wf g" and i: "pool_used (gr_pool g) i"
    and same: "i \<in> mapped hash key g \<Longrightarrow>
      bh_next res = bh_next (gr_mem g ! unat i) \<and> key res = key (gr_mem g ! unat i)"
      "i \<in> listed g \<Longrightarrow> rb_node res = rb_node (gr_mem g ! unat i) \<and>
      rb_part_id res = rb_part_id (gr_mem g ! unat i)"
  shows "\<exists>g'. gr_write g i res = Some g' \<and> wf g' \<and> dfind g' = dfind g \<and> listed g' = listed g \<and>
    mapped hash key g' = mapped hash key g \<and> gr_mem g' = (gr_mem g)[unat i := res] \<and>
    pool_free (gr_pool g') = pool_free (gr_pool g) \<and> pool_used (gr_pool g') = pool_used (gr_pool g)"
proof -
  have nf: "i \<notin> set (pool_free (gr_pool g))" and il: "unat i < length (gr_mem g)"
    using i wf_used_lt [OF wf i] by (simp_all add: pool_used_def)
  let ?p = "(gr_pool g)\<lparr>rp_addr := (gr_mem g)[unat i := res]\<rparr>"
  have pool: "pool_inv ?p" "pool_free ?p = pool_free (gr_pool g)"
    using pool_frame_item [OF nf, of res] wf_pool [OF wf] by (simp_all add: gr_mem_def)
  have used: "pool_used ?p = pool_used (gr_pool g)"
    using pool(2) by (simp add: fun_eq_iff pool_used_def pool_valid_def)
  have kept: "pool_used ?p j \<and> bh_next (rp_addr ?p ! unat j) = bh_next (gr_mem g ! unat j) \<and>
      key (rp_addr ?p ! unat j) = key (gr_mem g ! unat j)" if "j \<in> mapped hash key g" for j
    using that linked_used [OF wf, of j] used same(1) il by (auto simp: nth_update_word)
  have kept': "pool_used ?p j \<and> rb_node (rp_addr ?p ! unat j) = rb_node (gr_mem g ! unat j) \<and>
      rb_part_id (rp_addr ?p ! unat j) = rb_part_id (gr_mem g ! unat j)" if "j \<in> listed g" for j
    using that linked_used [OF wf, of j] used same(2) il by (auto simp: nth_update_word)
  have num: "rp_item_num ?p = rp_item_num (gr_pool g)" by simp
  have "wf (gr_set_pool g ?p)" "dfind (gr_set_pool g ?p) = dfind g"
    "listed (gr_set_pool g ?p) = listed g" "mapped hash key (gr_set_pool g ?p) = mapped hash key g"
    by (rule wf_frame [OF wf pool(1) num kept kept'], assumption+)+
  moreover have "gr_write g i res = Some (gr_set_pool g ?p)"
    using il by (simp add: gr_write_def gr_set_mem_def)
  moreover have "gr_mem (gr_set_pool g ?p) = (gr_mem g)[unat i := res]"
    by (simp add: gr_mem_def [of "gr_set_pool g ?p"])
  ultimately show ?thesis
    using used pool by simp
qed

end

definition items_kept :: "('k, 'a drc_res_base_ext) drc_global_res \<Rightarrow>
    ('k, 'a drc_res_base_ext) drc_global_res \<Rightarrow> bool" where
  "items_kept g g' \<longleftrightarrow> pool_free (gr_pool g') = pool_free (gr_pool g) \<and>
     pool_used (gr_pool g') = pool_used (gr_pool g) \<and>
     (\<forall>j. pool_used (gr_pool g) j \<longrightarrow> strip (gr_mem g' ! unat j) = strip (gr_mem g ! unat j))"

context directory
begin

text \<open>
  The two structures change one at a time: a step of the hash map rewrites link words only, a step
  of a partition list rewrites list nodes only.
\<close>

lemma map_step:
  assumes wf: "wf g" and m': "map_inv hash key m'" "rm_res_cmp_func m' = rm_res_cmp_func (gr_res_map g)"
    "pool_free (rm_res_pool m') = pool_free (gr_pool g)"
    "rp_item_num (rm_res_pool m') = rp_item_num (gr_pool g)"
    and items: "\<And>j. \<exists>nx. map_item m' j = (map_item (gr_res_map g) j)\<lparr>bh_next := nx\<rparr>"
  shows "wf (g\<lparr>gr_res_map := m'\<rparr>)" "listed (g\<lparr>gr_res_map := m'\<rparr>) = listed g"
    "pool_used (gr_pool (g\<lparr>gr_res_map := m'\<rparr>)) = pool_used (gr_pool g)"
    "strip (gr_mem (g\<lparr>gr_res_map := m'\<rparr>) ! unat (j :: u32)) = strip (gr_mem g ! unat j)"
    "rb_node (gr_mem (g\<lparr>gr_res_map := m'\<rparr>) ! unat j) = rb_node (gr_mem g ! unat j)"
proof -
  let ?g = "g\<lparr>gr_res_map := m'\<rparr>"
  have same: "rb_node (gr_mem ?g ! unat j) = rb_node (gr_mem g ! unat j)"
    "rb_part_id (gr_mem ?g ! unat j) = rb_part_id (gr_mem g ! unat j)"
    "strip (gr_mem ?g ! unat j) = strip (gr_mem g ! unat j)" for j :: u32
  proof -
    obtain nx where "gr_mem ?g ! unat j = (gr_mem g ! unat j)\<lparr>bh_next := nx\<rparr>"
      using items [of j] by (auto simp: map_item_def gr_mem_def gr_pool_def)
    then show "rb_node (gr_mem ?g ! unat j) = rb_node (gr_mem g ! unat j)"
      "rb_part_id (gr_mem ?g ! unat j) = rb_part_id (gr_mem g ! unat j)"
      "strip (gr_mem ?g ! unat j) = strip (gr_mem g ! unat j)" by (simp_all add: strip_def)
  qed
  show "strip (gr_mem ?g ! unat j) = strip (gr_mem g ! unat j)" by (rule same)
  show "rb_node (gr_mem ?g ! unat j) = rb_node (gr_mem g ! unat j)" by (rule same)
  show used: "pool_used (gr_pool ?g) = pool_used (gr_pool g)"
    using m'(3,4) by (simp add: fun_eq_iff pool_used_def pool_valid_def) (simp add: gr_pool_def)
  have len: "length (gr_mem ?g) = length (gr_mem g)"
    using m'(1,4) wf_pool [OF wf] by (simp add: map_inv_def gr_mem_def pool_inv_def) (simp add: gr_pool_def)
  have parts: "parts_inv ?g \<and> listed ?g = listed g"
    using parts_frame [of g ?g] wf linked_used [OF wf] listed_lt [OF wf] len same used
    by (auto simp: dir_wf_def)
  then show "listed ?g = listed g" by simp
  show "wf ?g" using wf parts m'(1,2) by (simp add: dir_wf_def)
qed

lemma map_add_step:
  assumes wf: "wf g" and i: "pool_used (gr_pool g) i" and k: "key (gr_mem g ! unat i) = k"
    and fresh: "dfind g k = None"
  shows "\<exists>m'. map_add (gr_res_map g) (hash (rm_bucket_num (gr_res_map g)) k) i = Some m' \<and>
    wf (g\<lparr>gr_res_map := m'\<rparr>) \<and> dfind (g\<lparr>gr_res_map := m'\<rparr>) = (dfind g)(k \<mapsto> i) \<and>
    listed (g\<lparr>gr_res_map := m'\<rparr>) = listed g \<and> items_kept g (g\<lparr>gr_res_map := m'\<rparr>) \<and>
    (\<forall>j::u32. rb_node (gr_mem (g\<lparr>gr_res_map := m'\<rparr>) ! unat j) = rb_node (gr_mem g ! unat j))"
proof -
  have inv: "map_inv hash key (gr_res_map g)" and used: "map_used (gr_res_map g) i"
    and key: "key (map_item (gr_res_map g) i) = k"
    using wf i k by (simp_all add: dir_wf_def map_used_pool map_item_mem)
  obtain m' nx where m': "map_add (gr_res_map g) (hash (rm_bucket_num (gr_res_map g)) k) i = Some m'"
    "map_inv hash key m'" "map_find hash key m' = (dfind g)(k := Some i)"
    "rm_res_cmp_func m' = rm_res_cmp_func (gr_res_map g)"
    "pool_free (rm_res_pool m') = pool_free (gr_pool g)"
    "rp_item_num (rm_res_pool m') = rp_item_num (gr_pool g)"
    and items: "\<And>j. map_item m' j = (if j = i then (map_item (gr_res_map g) i)\<lparr>bh_next := nx\<rparr>
      else map_item (gr_res_map g) j)"
    using map_add_ok [OF inv used key fresh] unfolding gr_pool_def by blast
  have ex: "\<exists>nx. map_item m' j = (map_item (gr_res_map g) j)\<lparr>bh_next := nx\<rparr>" for j
    using items [of j] item_next_ex by (cases "j = i") auto
  note step = map_step [OF wf m'(2,4,5,6) ex]
  show ?thesis
    using m'(1,3,5) step by (auto simp: items_kept_def) (simp_all add: gr_pool_def)
qed

lemma map_remove_step:
  assumes wf: "wf g"
  shows "\<exists>m'. drc_res_map_remove (gr_res_map g) (hash (rm_bucket_num (gr_res_map g)) k) k = Some m' \<and>
    wf (g\<lparr>gr_res_map := m'\<rparr>) \<and> dfind (g\<lparr>gr_res_map := m'\<rparr>) = (dfind g)(k := None) \<and>
    listed (g\<lparr>gr_res_map := m'\<rparr>) = listed g \<and> items_kept g (g\<lparr>gr_res_map := m'\<rparr>)"
proof -
  have inv: "map_inv hash key (gr_res_map g)" "rm_res_cmp_func (gr_res_map g) = Some cmp"
    using wf by (simp_all add: dir_wf_def)
  obtain m' where m': "drc_res_map_remove (gr_res_map g) (hash (rm_bucket_num (gr_res_map g)) k) k = Some m'"
    "map_inv hash key m'" "map_find hash key m' = (dfind g)(k := None)"
    "rm_res_cmp_func m' = rm_res_cmp_func (gr_res_map g)"
    "pool_free (rm_res_pool m') = pool_free (gr_pool g)"
    "rp_item_num (rm_res_pool m') = rp_item_num (gr_pool g)"
    and items: "\<And>j. \<exists>nx. map_item m' j = (map_item (gr_res_map g) j)\<lparr>bh_next := nx\<rparr>"
    using map_remove_ok [OF inv, of k] unfolding gr_pool_def by blast
  note step = map_step [OF wf m'(2,4,5,6) items]
  show ?thesis
    using m'(1,3,5) step by (auto simp: items_kept_def) (simp_all add: gr_pool_def)
qed

lemma list_step:
  assumes wf: "wf g" and p: "p < DRC_MAX_PART_NUM" and len: "length ns = length (gr_mem g)"
    and xs: "list_repr ns lst xs"
    and others: "\<And>j. j \<notin> set (i # part_items g p) \<Longrightarrow> ns ! unat j = nodes (gr_mem g) ! unat j"
    and i: "i \<notin> listed g - set (part_items g p)"
    and members: "\<And>j. j \<in> set xs \<Longrightarrow>
      unat (rb_part_id (gr_mem g ! unat j)) = p \<and> pool_used (gr_pool g) j"
    and g': "g' = (gr_set_mem g (with_nodes (gr_mem g) ns))\<lparr>gr_res_parts := (gr_res_parts g)[p := lst]\<rparr>"
  shows "wf g'" "listed g' = (listed g - set (part_items g p)) \<union> set xs" "dfind g' = dfind g"
    "items_kept g g'" "gr_mem g' = with_nodes (gr_mem g) ns"
proof -
  let ?p = "(gr_pool g)\<lparr>rp_addr := with_nodes (gr_mem g) ns\<rparr>"
  have plen: "length (with_nodes (gr_mem g) ns) = length (rp_addr (gr_pool g))"
    using len by (simp add: gr_mem_def)
  have bh: "bh_next (with_nodes (gr_mem g) ns ! unat j) = bh_next (gr_mem g ! unat j)"
    "strip (with_nodes (gr_mem g) ns ! unat j) = strip (gr_mem g ! unat j)"
    "key (with_nodes (gr_mem g) ns ! unat j) = key (gr_mem g ! unat j)"
    if "pool_used (gr_pool g) j \<or> j \<in> set (pool_free (gr_pool g))" for j
  proof -
    have "unat j < length (gr_mem g)"
      using that wf_used_lt [OF wf, of j] wf_pool [OF wf]
      by (auto simp: pool_inv_def gr_mem_def list_all_iff pool_valid_def)
    then show "bh_next (with_nodes (gr_mem g) ns ! unat j) = bh_next (gr_mem g ! unat j)"
      "strip (with_nodes (gr_mem g) ns ! unat j) = strip (gr_mem g ! unat j)"
      "key (with_nodes (gr_mem g) ns ! unat j) = key (gr_mem g ! unat j)"
      using len key_node by (simp_all add: strip_def)
  qed
  have pool: "pool_free ?p = pool_free (gr_pool g)" "pool_inv ?p"
    using pool_frame [OF plen] bh(1) wf_pool [OF wf] by (simp_all add: gr_mem_def)
  have used: "pool_used ?p = pool_used (gr_pool g)"
    by (simp add: fun_eq_iff pool_used_def pool_valid_def pool(1))
  have gp: "gr_pool g' = ?p" by (simp add: g' gr_simps)
  show mem: "gr_mem g' = with_nodes (gr_mem g) ns" by (simp add: g')
  have "parts_inv g" using wf by (simp add: dir_wf_def)
  moreover have "unat j < length (gr_mem g) \<and> unat (rb_part_id (gr_mem g ! unat j)) = p \<and>
      pool_used (gr_pool g) j" if "j \<in> set xs" for j
    using members [OF that] wf_used_lt [OF wf] by simp
  moreover have "pool_used (gr_pool g') = pool_used (gr_pool g)" "gr_res_parts g' = (gr_res_parts g)[p := lst]"
    using used by (simp_all only: gp) (simp add: g')
  ultimately have parts: "parts_inv g'" "listed g' = (listed g - set (part_items g p)) \<union> set xs"
    using parts_relink [OF _ p len xs others i _ _ mem] wf_used_lt [OF wf] by blast+
  show "listed g' = (listed g - set (part_items g p)) \<union> set xs" by (rule parts)
  have map: "gr_res_map g' = (gr_res_map g)\<lparr>rm_res_pool := ?p\<rparr>"
    by (simp add: g' gr_set_mem_def gr_set_pool_def)
  have inv: "map_inv hash key (gr_res_map g)" using wf by (simp add: dir_wf_def)
  have kept: "bh_next (rp_addr ?p ! unat j) = bh_next (map_item (gr_res_map g) j) \<and>
      key (rp_addr ?p ! unat j) = key (map_item (gr_res_map g) j) \<and> j \<notin> set (pool_free ?p)"
    if "b < length (rm_buckets (gr_res_map g))" "j \<in> set (bucket_chain (gr_res_map g) b)" for b j
    using chain_used(1) [OF inv that] bh(1,3) [of j] pool(1)
    by (simp add: map_used_pool map_item_mem) (simp add: pool_used_def)
  have frame: "map_inv hash key (gr_res_map g')" "\<And>k. map_find hash key (gr_res_map g') k = dfind g k"
    using map_frame [OF inv pool(2) _ kept] bucket_in [OF inv] by (simp_all add: map gr_pool_def)
  then show "dfind g' = dfind g" by (simp add: fun_eq_iff)
  show "wf g'" using wf parts(1) frame(1) by (simp add: dir_wf_def map)
  show "items_kept g g'" using bh(2) by (simp add: items_kept_def gp used pool(1) mem)
qed

end

context directory
begin

lemma wf_mem_len: "wf g \<Longrightarrow> length (gr_mem g) \<le> 4294967295"
  using pool_inv_length [OF wf_pool] unat_u32_le by (simp add: gr_mem_def)

lemma part_add_step:
  assumes wf: "wf g" and i: "pool_used (gr_pool g) i" "i \<notin> listed g"
    and part: "rb_part_id (gr_mem g ! unat i) = part" "unat part < DRC_MAX_PART_NUM"
    and idx: "ln_idx (rb_node (gr_mem g ! unat i)) = i"
  shows "\<exists>g'. gr_part_add g part i = Some g' \<and> wf g' \<and> listed g' = insert i (listed g) \<and>
    dfind g' = dfind g \<and> items_kept g g'"
proof -
  let ?p = "unat part" and ?ns = "nodes (gr_mem g)"
  have inv: "parts_inv g" and il: "unat i < length (gr_mem g)"
    using wf wf_used_lt [OF wf i(1)] by (simp_all add: dir_wf_def)
  have ok: "part_ok g ?p" and pl: "length (gr_res_parts g) = DRC_MAX_PART_NUM"
    using part_okD [OF inv part(2)] inv by (simp_all add: parts_inv_def)
  have ip: "i \<notin> set (part_items g ?p)" using i(2) listedI [OF part(2)] by auto
  obtain ns lst where add: "list_add ?ns (gr_res_parts g ! ?p) i = Some (ns, lst)"
    "list_repr ns lst (i # part_items g ?p)" "length ns = length (gr_mem g)"
    "\<And>j. j \<notin> set (i # part_items g ?p) \<Longrightarrow> ns ! unat j = ?ns ! unat j"
    using list_add_repr [of ?ns "gr_res_parts g ! ?p" "part_items g ?p" i] ok ip il idx wf_mem_len [OF wf]
    by (auto simp: part_ok_def)
  have members: "unat (rb_part_id (gr_mem g ! unat j)) = ?p \<and> pool_used (gr_pool g) j"
    if "j \<in> set (i # part_items g ?p)" for j
    using that ok i(1) part(1) by (auto simp: part_ok_def list_all_iff)
  have ni: "i \<notin> listed g - set (part_items g ?p)" using i(2) by simp
  note step = list_step [OF wf part(2) add(3,2,4) ni members refl]
  have "gr_part_add g part i = Some ((gr_set_mem g (with_nodes (gr_mem g) ns))
      \<lparr>gr_res_parts := (gr_res_parts g)[?p := lst]\<rparr>)"
    using part(2) pl add(1) by (simp add: gr_part_add_def)
  moreover have "listed g - set (part_items g ?p) \<union> set (i # part_items g ?p) = insert i (listed g)"
    using listedI [OF part(2)] by auto
  ultimately show ?thesis using step by auto
qed

lemma part_delete_step:
  assumes wf: "wf g" and i: "i \<in> listed g"
  shows "\<exists>g'. drc_clean_page_from_res_part g i = Some g' \<and> wf g' \<and> listed g' = listed g - {i} \<and>
    dfind g' = dfind g \<and> items_kept g g'"
proof -
  let ?part = "rb_part_id (gr_mem g ! unat i)" and ?ns = "nodes (gr_mem g)"
  let ?p = "unat ?part"
  have inv: "parts_inv g" and il: "unat i < length (gr_mem g)"
    using wf listed_lt [OF wf i] by (simp_all add: dir_wf_def)
  note p = listedD(2) [OF inv i]
  have ok: "part_ok g ?p" and pl: "length (gr_res_parts g) = DRC_MAX_PART_NUM"
    using part_okD [OF inv p] inv by (simp_all add: parts_inv_def)
  obtain as bs where xs: "part_items g ?p = as @ i # bs"
    using listedD(1) [OF inv i] by (auto dest: split_list)
  have d: "distinct (as @ i # bs)"
    using ok xs by (simp add: part_ok_def list_repr_def)
  obtain ns lst where del: "list_delete ?ns (gr_res_parts g ! ?p) i = Some (ns, lst)"
    "list_repr ns lst (as @ bs)" "length ns = length (gr_mem g)"
    "\<And>j. j \<notin> set (as @ bs) \<Longrightarrow> ns ! unat j = ?ns ! unat j"
    using list_delete_repr [of ?ns "gr_res_parts g ! ?p" as i bs] ok xs wf_mem_len [OF wf]
    by (auto simp: part_ok_def)
  have others: "ns ! unat j = ?ns ! unat j" if "j \<notin> set (i # part_items g ?p)" for j
    using that del(4) xs by auto
  have members: "unat (rb_part_id (gr_mem g ! unat j)) = ?p \<and> pool_used (gr_pool g) j"
    if "j \<in> set (as @ bs)" for j
    using that ok xs by (auto simp: part_ok_def list_all_iff)
  have ni: "i \<notin> listed g - set (part_items g ?p)" using xs by simp
  note step = list_step [OF wf p del(3,2) others ni members refl]
  have "drc_clean_page_from_res_part g i = Some ((gr_set_mem g (with_nodes (gr_mem g) ns))
      \<lparr>gr_res_parts := (gr_res_parts g)[?p := lst]\<rparr>)"
    using p pl il del(1) by (simp add: drc_clean_page_from_res_part_def gr_read_def)
  moreover have "listed g - set (part_items g ?p) \<union> set (as @ bs) = listed g - {i}"
    using listedI [OF p, of _ g] d xs by auto
  ultimately show ?thesis using step by auto
qed

end

subsection \<open>Directories as finite maps\<close>

text \<open>The accesses of the handlers, by identifier.\<close>

definition gr_lookup :: "(u32 \<Rightarrow> 'k \<Rightarrow> u32) \<Rightarrow> ('k, 'a) drc_global_res \<Rightarrow> 'k \<Rightarrow> u32 option option" where
  "gr_lookup hash g k =
     drc_res_map_lookup (gr_res_map g) (hash (rm_bucket_num (gr_res_map g)) k) k"

definition gr_map_add :: "(u32 \<Rightarrow> 'k \<Rightarrow> u32) \<Rightarrow> ('k, 'a) drc_global_res \<Rightarrow> 'k \<Rightarrow> u32 \<Rightarrow>
    ('k, 'a) drc_global_res option" where
  "gr_map_add hash g k i =
     map_option (\<lambda>m. g\<lparr>gr_res_map := m\<rparr>) (map_add (gr_res_map g) (hash (rm_bucket_num (gr_res_map g)) k) i)"

definition gr_map_remove :: "(u32 \<Rightarrow> 'k \<Rightarrow> u32) \<Rightarrow> ('k, 'a) drc_global_res \<Rightarrow> 'k \<Rightarrow>
    ('k, 'a) drc_global_res option" where
  "gr_map_remove hash g k =
     map_option (\<lambda>m. g\<lparr>gr_res_map := m\<rparr>)
       (drc_res_map_remove (gr_res_map g) (hash (rm_bucket_num (gr_res_map g)) k) k)"

definition gr_set_part :: "('k, 'a drc_res_base_ext) drc_global_res \<Rightarrow> u16 \<Rightarrow> u32 \<Rightarrow>
    ('k, 'a drc_res_base_ext) drc_global_res option" where
  "gr_set_part g part i = do {
     res \<leftarrow> gr_read g i;
     gr_write g i (res\<lparr>rb_part_id := part, rb_node := (rb_node res)\<lparr>ln_idx := i\<rparr>\<rparr>)
   }"

text \<open>
  The directory \<open>g\<close> stands for the finite map \<open>V\<close>, and \<open>H\<close> are the items that are allocated but in
  neither structure, which running handlers hold.
\<close>

definition dir_rep :: "(u32 \<Rightarrow> 'k \<Rightarrow> u32) \<Rightarrow> ('a drc_res_base_scheme \<Rightarrow> 'k) \<Rightarrow>
    ('k \<Rightarrow> 'a drc_res_base_scheme \<Rightarrow> bool) \<Rightarrow> ('k, 'a drc_res_base_ext) drc_global_res \<Rightarrow>
    ('k \<Rightarrow> 'a drc_res_base_scheme option) \<Rightarrow> u32 set \<Rightarrow> bool" where
  "dir_rep hash key cmp g V H \<longleftrightarrow>
     dir_inv hash key cmp g \<and> dir_view hash key g = V \<and>
     (\<forall>i. pool_used (gr_pool g) i \<longleftrightarrow> i \<in> mapped hash key g \<or> i \<in> H) \<and> mapped hash key g \<inter> H = {}"

lemma converting_bh_next [simp]: "rb_converting (res\<lparr>bh_next := nx\<rparr>) = rb_converting res"
  by (cases res) simp

context directory
begin

abbreviation rep :: "('k, 'a drc_res_base_ext) drc_global_res \<Rightarrow>
    ('k \<Rightarrow> 'a drc_res_base_scheme option) \<Rightarrow> u32 set \<Rightarrow> bool" where
  "rep \<equiv> dir_rep hash key cmp"

lemma rep_wf: "rep g V H \<Longrightarrow> wf g"
  by (simp add: dir_rep_def dir_inv_wf)

lemma strip_sel [simp]: "rb_idx (strip res) = rb_idx res" "rb_mode (strip res) = rb_mode res"
  "rb_part_id (strip res) = rb_part_id res" "rb_converting (strip res) = rb_converting res"
  "rb_convert_q (strip res) = rb_convert_q res" "key (strip res) = key res"
  by (simp_all add: strip_def key_node key_next)

text \<open>What a handler learns from the map \<open>V\<close>.\<close>

lemma rep_find:
  assumes "rep g V H"
  shows "dfind g k = map_option rb_idx (V k)"
    and "V k = Some res \<Longrightarrow> dfind g k = Some (rb_idx res) \<and> strip (gr_mem g ! unat (rb_idx res)) = res \<and>
      key res = k \<and> pool_used (gr_pool g) (rb_idx res) \<and> unat (rb_idx res) < length (gr_mem g) \<and>
      rb_idx res \<in> mapped hash key g"
proof -
  have wf: "wf g" by (rule rep_wf [OF assms])
  have V: "V k = map_option (\<lambda>i. strip (gr_mem g ! unat i)) (dfind g k)" for k
    using assms by (auto simp: dir_rep_def dir_view_def)
  have idx: "rb_idx (gr_mem g ! unat i) = i" if "dfind g k = Some i" for k i
    using assms that by (auto simp: dir_rep_def dir_inv_def mapped_def ran_def)
  show find: "dfind g k = map_option rb_idx (V k)"
    using idx [of k] by (auto simp: V option.map_comp comp_def split: option.splits intro: option.map_ident_strong [symmetric])
  assume Vk: "V k = Some res"
  then have f: "dfind g k = Some (rb_idx res)" by (simp add: find)
  then have "strip (gr_mem g ! unat (rb_idx res)) = res" using V [of k] Vk by simp
  moreover note find_mapped(1) [OF wf f]
  moreover have "key (strip (gr_mem g ! unat (rb_idx res))) = key (gr_mem g ! unat (rb_idx res))" by simp
  ultimately show "dfind g k = Some (rb_idx res) \<and> strip (gr_mem g ! unat (rb_idx res)) = res \<and>
      key res = k \<and> pool_used (gr_pool g) (rb_idx res) \<and> unat (rb_idx res) < length (gr_mem g) \<and>
      rb_idx res \<in> mapped hash key g"
    using f wf_used_lt [OF wf] by (auto simp: mapped_def ran_def)
qed

lemma rep_lookup: "rep g V H \<Longrightarrow> gr_lookup hash g k = Some (map_option rb_idx (V k))"
  using lookup_find [of "gr_res_map g" k] rep_find(1) [of g V H k] rep_wf [of g V H]
  by (simp add: gr_lookup_def dir_wf_def)

lemma rep_read:
  assumes "rep g V H" and "V k = Some res"
  shows "\<exists>x. gr_read g (rb_idx res) = Some x \<and> strip x = res"
  using rep_find(2) [OF assms] by (simp add: gr_read_def)

text \<open>Establishing the relation for a new state from the two structures.\<close>

lemma repI:
  assumes "wf g" and "mapped hash key g = listed g"
    and "\<And>i. i \<in> mapped hash key g \<Longrightarrow> rb_idx (gr_mem g ! unat i) = i"
    and "\<And>k. map_option (\<lambda>i. strip (gr_mem g ! unat i)) (dfind g k) = V k"
    and "\<And>i. pool_used (gr_pool g) i \<longleftrightarrow> i \<in> mapped hash key g \<or> i \<in> H" and "mapped hash key g \<inter> H = {}"
  shows "rep g V H"
  using assms by (auto simp: dir_rep_def dir_inv_def dir_wf_def dir_view_def)

lemma rep_same:
  assumes rep: "rep g V H" and "wf g'" "dfind g' = dfind g" "listed g' = listed g"
    and "\<And>j. j \<in> mapped hash key g \<Longrightarrow> strip (gr_mem g' ! unat j) = strip (gr_mem g ! unat j)"
    and "\<And>j. pool_used (gr_pool g') j \<longleftrightarrow> j \<in> mapped hash key g \<or> j \<in> H'" "mapped hash key g \<inter> H' = {}"
  shows "rep g' V H'"
proof (rule repI)
  have m: "mapped hash key g' = mapped hash key g" using assms(3) by (simp add: mapped_def)
  then show "mapped hash key g' = listed g'" "mapped hash key g' \<inter> H' = {}"
    "\<And>i. pool_used (gr_pool g') i \<longleftrightarrow> i \<in> mapped hash key g' \<or> i \<in> H'"
    using assms by (simp_all add: dir_rep_def dir_inv_def)
  show "rb_idx (gr_mem g' ! unat i) = i" if "i \<in> mapped hash key g'" for i
  proof -
    have "rb_idx (strip (gr_mem g' ! unat i)) = rb_idx (strip (gr_mem g ! unat i))"
      using assms(5) [of i] that m by simp
    then show ?thesis using rep that m by (simp add: dir_rep_def dir_inv_def)
  qed
  show "map_option (\<lambda>i. strip (gr_mem g' ! unat i)) (dfind g' k) = V k" for k
  proof -
    have "V k = map_option (\<lambda>i. strip (gr_mem g ! unat i)) (dfind g k)"
      using rep by (auto simp: dir_rep_def dir_view_def)
    also have "\<dots> = map_option (\<lambda>i. strip (gr_mem g' ! unat i)) (dfind g k)"
      using assms(5) [symmetric] by (auto simp: mapped_def ran_def intro!: option.map_cong)
    finally show ?thesis using assms(3) by simp
  qed
qed (rule assms(2))

end

context directory
begin

text \<open>Items held by a handler.\<close>

lemma rep_held: "rep g V H \<Longrightarrow> i \<in> H \<Longrightarrow> pool_used (gr_pool g) i \<and> i \<notin> mapped hash key g \<and> i \<notin> listed g"
  by (auto simp: dir_rep_def dir_inv_def)

lemma rep_alloc:
  assumes rep: "rep g V H"
  shows "gr_alloc g = Some (OG_INVALID_ID32, g) \<or>
    (\<exists>i g'. gr_alloc g = Some (i, g') \<and> i \<noteq> OG_INVALID_ID32 \<and> i \<notin> H \<and> rep g' V (insert i H))"
proof (cases "pool_free (gr_pool g)")
  case Nil
  then show ?thesis using alloc_empty [OF rep_wf [OF rep]] by simp
next
  case (Cons i "is")
  obtain g' where g': "gr_alloc g = Some (i, g')" "wf g'" "dfind g' = dfind g" "listed g' = listed g"
    "gr_mem g' = gr_mem g" "i \<notin> mapped hash key g" "i \<noteq> OG_INVALID_ID32"
    "\<And>j. pool_used (gr_pool g') j \<longleftrightarrow> pool_used (gr_pool g) j \<or> j = i"
    using alloc_Cons [OF rep_wf [OF rep] Cons] by blast
  have "\<not> pool_used (gr_pool g) i" using Cons by (simp add: pool_used_def)
  then have "i \<notin> H" using rep_held [OF rep] by blast
  moreover have "rep g' V (insert i H)"
    by (rule rep_same [OF rep g'(2-4)]) (use rep g' in \<open>auto simp: dir_rep_def\<close>)
  ultimately show ?thesis using g'(1,7) by blast
qed

lemma rep_free:
  assumes rep: "rep g V H" and i: "i \<in> H"
  shows "\<exists>g'. gr_free g i = Some g' \<and> rep g' V (H - {i})"
proof -
  note held = rep_held [OF rep i]
  obtain g' where g': "gr_free g i = Some g'" "wf g'" "dfind g' = dfind g" "listed g' = listed g"
    "\<And>j. j \<noteq> i \<Longrightarrow> gr_mem g' ! unat j = gr_mem g ! unat j"
    "\<And>j. pool_used (gr_pool g') j \<longleftrightarrow> pool_used (gr_pool g) j \<and> j \<noteq> i"
    using free_unlinked [OF rep_wf [OF rep], of i] held by auto
  have "rep g' V (H - {i})"
    by (rule rep_same [OF rep g'(2-4)])
      (use rep g' held in \<open>auto simp: dir_rep_def intro!: arg_cong [where f = strip]\<close>)
  then show ?thesis using g'(1) by blast
qed

lemma rep_write_held:
  assumes rep: "rep g V H" and i: "i \<in> H"
  shows "\<exists>g'. gr_write g i res = Some g' \<and> rep g' V H \<and> gr_mem g' = (gr_mem g)[unat i := res]"
proof -
  note held = rep_held [OF rep i]
  obtain g' where g': "gr_write g i res = Some g'" "wf g'" "dfind g' = dfind g" "listed g' = listed g"
    "gr_mem g' = (gr_mem g)[unat i := res]" "pool_used (gr_pool g') = pool_used (gr_pool g)"
    using write_frame [OF rep_wf [OF rep], of i res] held by auto
  have "strip (gr_mem g' ! unat j) = strip (gr_mem g ! unat j)" if "j \<in> mapped hash key g" for j
    using that held by (cases "j = i") (simp_all add: g'(5))
  then have "rep g' V H"
    by (rule rep_same [OF rep g'(2-4)]) (use rep g'(6) in \<open>auto simp: dir_rep_def\<close>)
  then show ?thesis using g'(1,5) by blast
qed

lemma rep_read_held: "rep g V H \<Longrightarrow> i \<in> H \<Longrightarrow> \<exists>x. gr_read g i = Some x"
  using rep_held wf_used_lt [OF rep_wf] by (simp add: gr_read_def)

text \<open>Updating a resource of the directory.\<close>

lemma rep_write:
  assumes rep: "rep g V H" and V: "V k = Some res" and x: "gr_read g (rb_idx res) = Some x"
    and y: "bh_next y = bh_next x" "rb_node y = rb_node x" "rb_part_id y = rb_part_id x"
      "rb_idx y = rb_idx x" "key y = key x"
  shows "\<exists>g'. gr_write g (rb_idx res) y = Some g' \<and> rep g' (V(k \<mapsto> strip y)) H"
proof -
  let ?i = "rb_idx res"
  note res = rep_find(2) [OF rep V]
  have x': "x = gr_mem g ! unat ?i" and xr: "strip x = res"
    using x res by (simp_all add: gr_read_def rd_eq_Some)
  have kx: "key x = k" "rb_idx x = ?i" using res xr by auto
  obtain g' where g': "gr_write g ?i y = Some g'" "wf g'" "dfind g' = dfind g" "listed g' = listed g"
    "gr_mem g' = (gr_mem g)[unat ?i := y]" "pool_used (gr_pool g') = pool_used (gr_pool g)"
    using write_frame [OF rep_wf [OF rep], of ?i y] res y x' by auto
  have item: "gr_mem g' ! unat j = (if j = ?i then y else gr_mem g ! unat j)" for j
    using res by (auto simp: g'(5) nth_update_word)
  have m: "mapped hash key g' = mapped hash key g" using g'(3) by (simp add: mapped_def)
  have only: "k' = k" if "dfind g k' = Some ?i" for k'
    using find_mapped(1) [OF rep_wf [OF rep] that] kx(1) x' by simp
  have view: "V k' = map_option (\<lambda>i. strip (gr_mem g ! unat i)) (dfind g k')" for k'
    using rep by (auto simp: dir_rep_def dir_view_def)
  have "rep g' (V(k \<mapsto> strip y)) H"
  proof (rule repI [OF g'(2)])
    show "map_option (\<lambda>i. strip (gr_mem g' ! unat i)) (dfind g' k') = (V(k \<mapsto> strip y)) k'" for k'
      using only [of k'] view [of k'] res item g'(3) by (cases "dfind g k'") (auto split: if_splits)
  qed (use rep g' m item y kx in \<open>auto simp: dir_rep_def dir_inv_def\<close>)
  then show ?thesis using g'(1) by blast
qed

end

lemma strip_part: "strip (res\<lparr>rb_part_id := p\<rparr>) = (strip res)\<lparr>rb_part_id := p\<rparr>"
  by (simp add: strip_def)

lemma strip_eq_idx: "strip x = strip y \<Longrightarrow> rb_idx x = rb_idx y"
  by (drule arg_cong [where f = rb_idx]) (simp add: strip_def)

context directory
begin

lemma kept_strip: "items_kept g g' \<Longrightarrow> pool_used (gr_pool g) j \<Longrightarrow>
    strip (gr_mem g' ! unat j) = strip (gr_mem g ! unat j)"
  by (simp add: items_kept_def)

lemma kept_used: "items_kept g g' \<Longrightarrow> pool_used (gr_pool g') = pool_used (gr_pool g)"
  by (simp add: items_kept_def)

text \<open>
  Inserting the item \<open>i\<close>: first into the hash map, which is the state \<open>g2\<close> in which it can still be
  taken back, then into the list of its partition.
\<close>

lemma rep_map_add:
  assumes rep: "rep g V H" and i: "i \<in> H" and k: "key res = k" "V k = None" and idx: "rb_idx res = i"
  shows "\<exists>g1 g2 g3. gr_write g i res = Some g1 \<and> gr_map_add hash g1 k i = Some g2 \<and>
    gr_set_part g2 part i = Some g3 \<and> wf g3 \<and> dfind g3 = (dfind g)(k \<mapsto> i) \<and> listed g3 = listed g \<and>
    (\<forall>j. j \<noteq> i \<longrightarrow> pool_used (gr_pool g) j \<longrightarrow> strip (gr_mem g3 ! unat j) = strip (gr_mem g ! unat j)) \<and>
    strip (gr_mem g3 ! unat i) = strip (res\<lparr>rb_part_id := part\<rparr>) \<and>
    ln_idx (rb_node (gr_mem g3 ! unat i)) = i \<and> pool_used (gr_pool g3) = pool_used (gr_pool g)"
proof -
  note held = rep_held [OF rep i]
  obtain g1 where g1: "gr_write g i res = Some g1" "wf g1" "dfind g1 = dfind g" "listed g1 = listed g"
    "gr_mem g1 = (gr_mem g)[unat i := res]" "pool_used (gr_pool g1) = pool_used (gr_pool g)"
    using write_frame [OF rep_wf [OF rep], of i res] held by auto
  have item: "gr_mem g1 ! unat j = (if j = i then res else gr_mem g ! unat j)" for j
    using wf_used_lt [OF rep_wf [OF rep]] held by (auto simp: g1(5) nth_update_word)
  have "dfind g1 k = None" using rep_find(1) [OF rep, of k] k(2) g1(3) by simp
  then obtain m where m: "map_add (gr_res_map g1) (hash (rm_bucket_num (gr_res_map g1)) k) i = Some m"
    "wf (g1\<lparr>gr_res_map := m\<rparr>)" "dfind (g1\<lparr>gr_res_map := m\<rparr>) = (dfind g1)(k \<mapsto> i)"
    "listed (g1\<lparr>gr_res_map := m\<rparr>) = listed g1" "items_kept g1 (g1\<lparr>gr_res_map := m\<rparr>)"
    using map_add_step [OF g1(2), of i k] held g1(6) item k(1) by auto
  let ?g2 = "g1\<lparr>gr_res_map := m\<rparr>"
  let ?x = "gr_mem ?g2 ! unat i"
  have used2: "pool_used (gr_pool ?g2) i" using kept_used [OF m(5)] held g1(6) by simp
  have s2: "strip ?x = strip res" using kept_strip [OF m(5), of i] held g1(6) item by simp
  let ?y = "?x\<lparr>rb_part_id := part, rb_node := (rb_node ?x)\<lparr>ln_idx := i\<rparr>\<rparr>"
  obtain g3 where g3: "gr_write ?g2 i ?y = Some g3" "wf g3" "dfind g3 = dfind ?g2" "listed g3 = listed ?g2"
    "gr_mem g3 = (gr_mem ?g2)[unat i := ?y]" "pool_used (gr_pool g3) = pool_used (gr_pool ?g2)"
    using write_frame [OF m(2) used2, of ?y] held m(4) g1(4) by (auto simp: key_part key_node)
  have lt: "unat i < length (gr_mem ?g2)" by (rule wf_used_lt [OF m(2) used2])
  have item3: "gr_mem g3 ! unat j = (if j = i then ?y else gr_mem ?g2 ! unat j)" for j
    using lt by (auto simp: g3(5) nth_update_word)
  have "strip ?y = (strip ?x)\<lparr>rb_part_id := part\<rparr>" by (simp add: strip_def)
  then have "strip (gr_mem g3 ! unat i) = strip (res\<lparr>rb_part_id := part\<rparr>)"
    using s2 item3 by (simp add: strip_part)
  moreover have "strip (gr_mem g3 ! unat j) = strip (gr_mem g ! unat j)"
    if "j \<noteq> i" "pool_used (gr_pool g) j" for j
    using that kept_strip [OF m(5), of j] g1(6) item item3 by simp
  moreover have "gr_map_add hash g1 k i = Some ?g2" "gr_set_part ?g2 part i = Some g3"
    using m(1) lt g3(1) by (simp_all add: gr_map_add_def gr_set_part_def gr_read_def)
  ultimately show ?thesis
    using g1 g3 m item3 kept_used [OF m(5)] by auto
qed

lemma rep_insert:
  assumes rep: "rep g V H" and i: "i \<in> H" and k: "key res = k" "V k = None" and idx: "rb_idx res = i"
    and part: "unat part < DRC_MAX_PART_NUM"
  shows "\<exists>g1 g2 g3 g4 g5. gr_write g i res = Some g1 \<and> gr_map_add hash g1 k i = Some g2 \<and>
    gr_set_part g2 part i = Some g3 \<and>
    gr_part_add g3 part i = Some g4 \<and> rep g4 (V(k \<mapsto> strip (res\<lparr>rb_part_id := part\<rparr>))) (H - {i}) \<and>
    gr_map_remove hash g3 k = Some g5 \<and> rep g5 V H"
proof -
  note held = rep_held [OF rep i]
  obtain g1 g2 g3 where g: "gr_write g i res = Some g1" "gr_map_add hash g1 k i = Some g2"
    "gr_set_part g2 part i = Some g3" "wf g3" "dfind g3 = (dfind g)(k \<mapsto> i)" "listed g3 = listed g"
    and others: "\<And>j. j \<noteq> i \<Longrightarrow> pool_used (gr_pool g) j \<Longrightarrow> strip (gr_mem g3 ! unat j) = strip (gr_mem g ! unat j)"
    and new: "strip (gr_mem g3 ! unat i) = strip (res\<lparr>rb_part_id := part\<rparr>)"
    and node: "ln_idx (rb_node (gr_mem g3 ! unat i)) = i"
    and used: "pool_used (gr_pool g3) = pool_used (gr_pool g)"
    using rep_map_add [OF rep i k idx, of part] by blast
  have find: "dfind g k = None" using rep_find(1) [OF rep, of k] k(2) by simp
  have "rb_part_id (strip (gr_mem g3 ! unat i)) = part" by (simp only: new) simp
  then have p3: "rb_part_id (gr_mem g3 ! unat i) = part" by simp
  obtain g4 where g4: "gr_part_add g3 part i = Some g4" "wf g4" "listed g4 = insert i (listed g3)"
    "dfind g4 = dfind g3" "items_kept g3 g4"
    using part_add_step [OF g(4), of i part] held used p3 part node g(6) by auto
  have m4: "mapped hash key g4 = insert i (mapped hash key g)"
    using g4(4) g(5) find by (simp add: mapped_def)
  have item4: "strip (gr_mem g4 ! unat j) = (if j = i then strip (res\<lparr>rb_part_id := part\<rparr>)
      else strip (gr_mem g ! unat j))" if "pool_used (gr_pool g) j" for j
    using that kept_strip [OF g4(5), of j] used new others [of j] by simp
  have linked: "pool_used (gr_pool g) j \<and> j \<noteq> i" if "j \<in> mapped hash key g" for j
    using linked_used [OF rep_wf [OF rep], of j] that held by auto
  have idx4: "rb_idx (gr_mem g4 ! unat j) = j" if "j \<in> mapped hash key g4" for j
  proof -
    have "strip (gr_mem g4 ! unat j) = strip (if j = i then res\<lparr>rb_part_id := part\<rparr> else gr_mem g ! unat j)"
      using that m4 item4 [of j] held linked [of j] by auto
    then have "rb_idx (gr_mem g4 ! unat j) = rb_idx (if j = i then res\<lparr>rb_part_id := part\<rparr> else gr_mem g ! unat j)"
      by (rule strip_eq_idx)
    then show ?thesis using that m4 idx rep by (auto simp: dir_rep_def dir_inv_def)
  qed
  have "rep g4 (V(k \<mapsto> strip (res\<lparr>rb_part_id := part\<rparr>))) (H - {i})"
  proof (rule repI [OF g4(2)])
    fix k'
    have view: "V k' = map_option (\<lambda>i. strip (gr_mem g ! unat i)) (dfind g k')"
      using rep by (auto simp: dir_rep_def dir_view_def)
    show "map_option (\<lambda>i. strip (gr_mem g4 ! unat i)) (dfind g4 k') =
        (V(k \<mapsto> strip (res\<lparr>rb_part_id := part\<rparr>))) k'"
    proof (cases "dfind g k'")
      case None
      then show ?thesis using view item4 [of i] held g(5) g4(4) by simp
    next
      case (Some j)
      then have "j \<in> mapped hash key g" by (auto simp: mapped_def ran_def)
      then show ?thesis
        using view item4 [of i] item4 [of j] held g(5) g4(4) linked [of j] Some by simp
    qed
  qed (use rep idx4 m4 g4(3) g(6) used kept_used [OF g4(5)] i in \<open>auto simp: dir_rep_def dir_inv_def\<close>)
  moreover obtain g5 where "gr_map_remove hash g3 k = Some g5" "rep g5 V H"
  proof -
    obtain m where m: "drc_res_map_remove (gr_res_map g3) (hash (rm_bucket_num (gr_res_map g3)) k) k = Some m"
      "wf (g3\<lparr>gr_res_map := m\<rparr>)" "dfind (g3\<lparr>gr_res_map := m\<rparr>) = (dfind g3)(k := None)"
      "listed (g3\<lparr>gr_res_map := m\<rparr>) = listed g3" "items_kept g3 (g3\<lparr>gr_res_map := m\<rparr>)"
      using map_remove_step [OF g(4), of k] by blast
    have "rep (g3\<lparr>gr_res_map := m\<rparr>) V H"
    proof (rule rep_same [OF rep m(2)])
      show "dfind (g3\<lparr>gr_res_map := m\<rparr>) = dfind g" using m(3) g(5) find by auto
    qed (use m g(6) rep kept_used [OF m(5)] kept_strip [OF m(5)] used others linked in
        \<open>auto simp: dir_rep_def\<close>)
    then show ?thesis using that m(1) by (simp add: gr_map_remove_def)
  qed
  ultimately show ?thesis using g g4 by blast
qed

end

lemma bucket_num_pos: "0 < unat (n * 2 + 1 :: u32)"
proof -
  have "odd (n * 2 + 1)" by simp
  then have "n * 2 + 1 \<noteq> 0" by (metis even_zero)
  then show ?thesis by (simp add: unat_gt_0)
qed

lemma init_eq:
  assumes "\<not> rm_inited (gr_res_map g)"
    and "drc_res_pool_init True zero (gr_pool g) item_size pool_size = Some (OG_SUCCESS, q)"
  shows "drc_global_res_init True True zero g pool_size item_size cmp =
    Some (OG_SUCCESS, g\<lparr>gr_res_parts := replicate DRC_MAX_PART_NUM DRC_LIST_INIT,
      gr_res_map := (gr_res_map g)\<lparr>rm_bucket_num := pool_size * 2 + 1,
        rm_buckets := replicate (unat (pool_size * 2 + 1)) \<lparr>bk_count = 0, bk_first = 0\<rparr>, rm_res_pool := q,
        rm_res_cmp_func := Some cmp, rm_inited := True\<rparr>\<rparr>)"
proof -
  have "drc_res_map_init True True zero (gr_res_map g) pool_size item_size cmp =
    Some (OG_SUCCESS, (gr_res_map g)\<lparr>rm_bucket_num := pool_size * 2 + 1,
        rm_buckets := replicate (unat (pool_size * 2 + 1)) \<lparr>bk_count = 0, bk_first = 0\<rparr>, rm_res_pool := q,
        rm_res_cmp_func := Some cmp, rm_inited := True\<rparr>)"
    unfolding drc_res_map_init_def Let_def using assms by (simp add: gr_pool_def del: replicate_Suc)
  then show ?thesis by (simp add: drc_global_res_init_def Let_def)
qed

context directory
begin

text \<open>
  Taking a resource out of both structures, in either order. The item is then held by the handler,
  which clears and frees it.
\<close>

lemma rep_removed:
  assumes rep: "rep g V H" and V: "V k = Some res"
    and g': "wf g'" "dfind g' = (dfind g)(k := None)" "listed g' = listed g - {rb_idx res}"
    and items: "pool_used (gr_pool g') = pool_used (gr_pool g)"
      "\<And>j. pool_used (gr_pool g) j \<Longrightarrow> strip (gr_mem g' ! unat j) = strip (gr_mem g ! unat j)"
  shows "rep g' (V(k := None)) (insert (rb_idx res) H)"
proof -
  note res = rep_find(2) [OF rep V]
  have wf: "wf g" by (rule rep_wf [OF rep])
  have only: "k' = k" if "dfind g k' = Some (rb_idx res)" for k'
    using find_mapped(1) [OF wf that] find_mapped(1) [OF wf, of k "rb_idx res"] res by simp
  have m': "mapped hash key g' = mapped hash key g - {rb_idx res}"
  proof -
    have "(\<exists>k'. k' \<noteq> k \<and> dfind g k' = Some j) \<longleftrightarrow> (\<exists>k'. dfind g k' = Some j) \<and> j \<noteq> rb_idx res" for j
      using only res by (metis option.inject)
    then show ?thesis unfolding mapped_def ran_def g'(2) by auto
  qed
  have linked: "pool_used (gr_pool g) j" if "j \<in> mapped hash key g" for j
    using linked_used [OF wf] that by simp
  show ?thesis
  proof (rule repI [OF g'(1)])
    fix k'
    have view: "V k' = map_option (\<lambda>i. strip (gr_mem g ! unat i)) (dfind g k')"
      using rep by (auto simp: dir_rep_def dir_view_def)
    show "map_option (\<lambda>i. strip (gr_mem g' ! unat i)) (dfind g' k') = (V(k := None)) k'"
    proof (cases "dfind g k'")
      case None
      then show ?thesis using view g'(2) by simp
    next
      case (Some j)
      then have "j \<in> mapped hash key g" by (auto simp: mapped_def ran_def)
      then show ?thesis using view g'(2) Some items(2) [OF linked] by simp
    qed
  next
    fix j assume j: "j \<in> mapped hash key g'"
    then show "rb_idx (gr_mem g' ! unat j) = j"
      using m' rep strip_eq_idx [OF items(2) [OF linked]] by (auto simp: dir_rep_def dir_inv_def)
  next
    show "mapped hash key g' = listed g'" "mapped hash key g' \<inter> insert (rb_idx res) H = {}"
      using rep m' g'(3) by (auto simp: dir_rep_def dir_inv_def)
    show "pool_used (gr_pool g') j \<longleftrightarrow> j \<in> mapped hash key g' \<or> j \<in> insert (rb_idx res) H" for j
      using rep m' items(1) res by (auto simp: dir_rep_def dir_inv_def)
  qed
qed

lemma rep_remove_list_map:
  assumes rep: "rep g V H" and V: "V k = Some res"
  shows "\<exists>g1 g2. drc_clean_page_from_res_part g (rb_idx res) = Some g1 \<and>
    gr_map_remove hash g1 k = Some g2 \<and> rep g2 (V(k := None)) (insert (rb_idx res) H)"
proof -
  note res = rep_find(2) [OF rep V]
  have wf: "wf g" and l: "rb_idx res \<in> listed g"
    using rep_wf [OF rep] rep res by (simp_all add: dir_rep_def dir_inv_def)
  obtain g1 where g1: "drc_clean_page_from_res_part g (rb_idx res) = Some g1" "wf g1"
    "listed g1 = listed g - {rb_idx res}" "dfind g1 = dfind g" "items_kept g g1"
    using part_delete_step [OF wf l] by blast
  obtain m where m: "drc_res_map_remove (gr_res_map g1) (hash (rm_bucket_num (gr_res_map g1)) k) k = Some m"
    "wf (g1\<lparr>gr_res_map := m\<rparr>)" "dfind (g1\<lparr>gr_res_map := m\<rparr>) = (dfind g1)(k := None)"
    "listed (g1\<lparr>gr_res_map := m\<rparr>) = listed g1" "items_kept g1 (g1\<lparr>gr_res_map := m\<rparr>)"
    using map_remove_step [OF g1(2), of k] by blast
  have "rep (g1\<lparr>gr_res_map := m\<rparr>) (V(k := None)) (insert (rb_idx res) H)"
    by (rule rep_removed [OF rep V m(2)])
      (use g1 m kept_used [OF g1(5)] kept_used [OF m(5)] kept_strip [OF g1(5)] kept_strip [OF m(5)] in simp_all)
  then show ?thesis using g1(1) m(1) by (simp add: gr_map_remove_def)
qed

lemma rep_remove_map_list:
  assumes rep: "rep g V H" and V: "V k = Some res"
  shows "\<exists>g1 g2. gr_map_remove hash g k = Some g1 \<and>
    drc_clean_page_from_res_part g1 (rb_idx res) = Some g2 \<and>
    rep g2 (V(k := None)) (insert (rb_idx res) H)"
proof -
  note res = rep_find(2) [OF rep V]
  obtain m where m: "drc_res_map_remove (gr_res_map g) (hash (rm_bucket_num (gr_res_map g)) k) k = Some m"
    "wf (g\<lparr>gr_res_map := m\<rparr>)" "dfind (g\<lparr>gr_res_map := m\<rparr>) = (dfind g)(k := None)"
    "listed (g\<lparr>gr_res_map := m\<rparr>) = listed g" "items_kept g (g\<lparr>gr_res_map := m\<rparr>)"
    using map_remove_step [OF rep_wf [OF rep], of k] by blast
  have "rb_idx res \<in> listed (g\<lparr>gr_res_map := m\<rparr>)"
    using m(4) rep res by (simp add: dir_rep_def dir_inv_def)
  then obtain g2 where g2: "drc_clean_page_from_res_part (g\<lparr>gr_res_map := m\<rparr>) (rb_idx res) = Some g2" "wf g2"
    "listed g2 = listed (g\<lparr>gr_res_map := m\<rparr>) - {rb_idx res}" "dfind g2 = dfind (g\<lparr>gr_res_map := m\<rparr>)"
    "items_kept (g\<lparr>gr_res_map := m\<rparr>) g2"
    using part_delete_step [OF m(2)] by blast
  have "rep g2 (V(k := None)) (insert (rb_idx res) H)"
    by (rule rep_removed [OF rep V g2(2)])
      (use g2 m kept_used [OF g2(5)] kept_used [OF m(5)] kept_strip [OF g2(5)] kept_strip [OF m(5)] in simp_all)
  then show ?thesis using g2(1) m(1) by (simp add: gr_map_remove_def)
qed

text \<open>In a directory with no resource every lookup fails; this is its state after initialisation.\<close>

lemma rep_init:
  assumes "\<not> rm_inited (gr_res_map g)" "\<not> rp_inited (gr_pool g)" "4 \<le> item_size" "0 < unat pool_size"
    and "unat item_size * unat pool_size < 2 ^ 64"
  shows "\<exists>g'. drc_global_res_init True True zero g pool_size item_size cmp = Some (OG_SUCCESS, g') \<and>
    rep g' (\<lambda>_. None) {}"
proof -
  obtain q where q: "drc_res_pool_init True zero (gr_pool g) item_size pool_size = Some (OG_SUCCESS, q)"
    "pool_inv q" "pool_free q = map of_nat [0..<unat pool_size]" "rp_item_num q = pool_size"
    using init_ok [OF assms(2-5)] by blast
  define n where "n = pool_size * 2 + 1"
  define m where "m = (gr_res_map g)\<lparr>rm_bucket_num := n,
    rm_buckets := replicate (unat n) \<lparr>bk_count = 0, bk_first = 0\<rparr>, rm_res_pool := q,
    rm_res_cmp_func := Some cmp, rm_inited := True\<rparr>"
  define g' where "g' = g\<lparr>gr_res_parts := replicate DRC_MAX_PART_NUM DRC_LIST_INIT, gr_res_map := m\<rparr>"
  have sel: "gr_res_map g' = m" "gr_pool g' = q" "gr_res_parts g' = replicate DRC_MAX_PART_NUM DRC_LIST_INIT"
    "rm_inited m" "rm_res_pool m = q" "rm_bucket_num m = n" "rm_res_cmp_func m = Some cmp"
    "rm_buckets m = replicate (unat n) \<lparr>bk_count = 0, bk_first = 0\<rparr>"
    by (simp_all add: g'_def m_def gr_pool_def)
  have n: "0 < unat n" unfolding n_def by (rule bucket_num_pos)
  have chain: "bucket_chain m b = []" if "b < unat n" for b
    using that by (simp add: bucket_chain_def sel)
  have inv: "map_inv hash key m"
    using q(2) n chain by (simp add: map_inv_def list_all_iff bucket_ok_def sel)
  have find: "dfind g' = Map.empty"
    using chain hash_range [OF n] by (simp add: fun_eq_iff map_find_def sel)
  have items: "part_items g' p = []" if "p < DRC_MAX_PART_NUM" for p
    using that by (simp add: part_items_def list_items_def DRC_LIST_INIT_def sel)
  have parts: "parts_inv g'"
    using items by (simp add: parts_inv_def list_all_iff part_ok_def list_repr_def sel DRC_LIST_INIT_def)
  have m0: "mapped hash key g' = {}" by (simp add: mapped_def find)
  have unused: "\<not> pool_used q i" for i
  proof
    assume "pool_used q i"
    then have "unat i \<in> {0..<unat pool_size}" "i \<notin> of_nat ` {0..<unat pool_size}"
      using q(3,4) by (simp_all add: pool_used_def pool_valid_def)
    moreover have "i = of_nat (unat i)" by simp
    ultimately show False by blast
  qed
  have "rep g' Map.empty {}"
    by (rule repI) (use parts inv items unused find in \<open>simp_all add: dir_wf_def sel m0 listed_def\<close>)
  moreover have "drc_global_res_init True True zero g pool_size item_size cmp = Some (OG_SUCCESS, g')"
    using init_eq [OF assms(1) q(1), of cmp] by (simp only: g'_def m_def n_def)
  ultimately show ?thesis by (intro exI conjI)
qed

end

interpretation page_dir: directory page_hash br_page_id is_same_page
  by unfold_locales simp_all

interpretation lock_dir: directory "lock_hash promote" mr_res_id is_same_lock
  by unfold_locales simp_all

end
