(* ===== verification/Drc_Ctx.thy ===== *)
theory Drc_Ctx
  imports Res_Directory
begin

text \<open>
  The state of the resource catalogue of one instance (\<^verbatim>\<open>drc_res_ctx_t\<close>): the lock item pool, the
  directories of the pages and of the locks this instance is the master of, the counters the
  handlers keep, and the error messages they send. The other fields of the structure have their own
  theories: the maps of local locks and transactions, and the partition manager.

  Code that runs under the spin lock of a bucket is one step. Where a handler releases its locks and
  takes them again, it takes as an argument the function that stands for what other threads do
  to the catalogue in between.
\<close>

datatype drc_stat_type = R_PO_TOTAL | R_PO_CONVETED | R_PO_FIRST | R_PO_TRY | R_PO_CVTING_TOTAL
  | R_PO_CVTING_CURR | R_PO_CVTQ_TOTAL | R_PO_CVTQ_CURR | R_PO_CONFLICT_TOTAL

text \<open>An error message, by the instance and session it goes to and the sequence number it answers.\<close>

record mes_error =
  me_inst :: u8
  me_sid :: u16
  me_rsn :: u32

record drc_res_ctx =
  rc_lock_item_pool :: lock_item_pool
  rc_global_buf_res :: buf_directory
  rc_global_lock_res :: lock_directory
  rc_stat_info :: "drc_stat_type \<Rightarrow> u64"
  rc_converting_page_cnt :: u32
  rc_clean_page_cnt :: u64
  rc_clean_lock_cnt :: u64
  rc_clean_convert_cnt :: u64
  rc_sent :: "mes_error list"

definition stat_inc :: "drc_stat_type \<Rightarrow> drc_res_ctx \<Rightarrow> drc_res_ctx" where
  "stat_inc t c = c\<lparr>rc_stat_info := (rc_stat_info c)(t := rc_stat_info c t + 1)\<rparr>"

definition stat_dec :: "drc_stat_type \<Rightarrow> drc_res_ctx \<Rightarrow> drc_res_ctx" where
  "stat_dec t c = c\<lparr>rc_stat_info := (rc_stat_info c)(t := rc_stat_info c t - 1)\<rparr>"

definition error_to :: "drc_req_info \<Rightarrow> mes_error" where
  "error_to req = \<lparr>me_inst = ri_inst_id req, me_sid = ri_inst_sid req, me_rsn = ri_rsn req\<rparr>"

definition mes_send_error_msg :: "drc_req_info \<Rightarrow> drc_res_ctx \<Rightarrow> drc_res_ctx" where
  "mes_send_error_msg req c = c\<lparr>rc_sent := rc_sent c @ [error_to req]\<rparr>"

subsection \<open>Access to the two directories\<close>

definition buf_find :: "drc_res_ctx \<Rightarrow> page_id \<Rightarrow> u32 option option" where
  "buf_find c pagid = gr_lookup page_hash (rc_global_buf_res c) pagid"

definition buf_get :: "drc_res_ctx \<Rightarrow> u32 \<Rightarrow> drc_buf_res option" where
  "buf_get c i = gr_read (rc_global_buf_res c) i"

definition buf_put :: "drc_res_ctx \<Rightarrow> u32 \<Rightarrow> drc_buf_res \<Rightarrow> drc_res_ctx option" where
  "buf_put c i res = do {
     g \<leftarrow> gr_write (rc_global_buf_res c) i res;
     Some (c\<lparr>rc_global_buf_res := g\<rparr>)
   }"

definition buf_alloc :: "drc_res_ctx \<Rightarrow> (u32 \<times> drc_res_ctx) option" where
  "buf_alloc c = do {
     (i, g) \<leftarrow> gr_alloc (rc_global_buf_res c);
     Some (i, c\<lparr>rc_global_buf_res := g\<rparr>)
   }"

definition buf_free :: "drc_res_ctx \<Rightarrow> u32 \<Rightarrow> drc_res_ctx option" where
  "buf_free c i = do {
     g \<leftarrow> gr_free (rc_global_buf_res c) i;
     Some (c\<lparr>rc_global_buf_res := g\<rparr>)
   }"

definition lock_find :: "(u8 \<Rightarrow> u32) \<Rightarrow> drc_res_ctx \<Rightarrow> drid \<Rightarrow> u32 option option" where
  "lock_find promote c lock_id = gr_lookup (lock_hash promote) (rc_global_lock_res c) lock_id"

definition lock_get :: "drc_res_ctx \<Rightarrow> u32 \<Rightarrow> drc_master_res option" where
  "lock_get c i = gr_read (rc_global_lock_res c) i"

definition lock_put :: "drc_res_ctx \<Rightarrow> u32 \<Rightarrow> drc_master_res \<Rightarrow> drc_res_ctx option" where
  "lock_put c i res = do {
     g \<leftarrow> gr_write (rc_global_lock_res c) i res;
     Some (c\<lparr>rc_global_lock_res := g\<rparr>)
   }"

text \<open>A structure after \<^verbatim>\<open>memset_s\<close> with zero.\<close>

definition zero_req_info :: drc_req_info where
  "zero_req_info = \<lparr>ri_inst_id = 0, ri_req_mode = DRC_LOCK_NULL, ri_curr_mode = DRC_LOCK_NULL,
     ri_req_owner_result = 0, ri_inst_sid = 0, ri_rsn = 0, ri_req_time = 0, ri_req_version = 0,
     ri_lsn = 0, ri_release_timeout_ticks = 0\<rparr>"

definition zero_buf_res :: drc_buf_res where
  "zero_buf_res = \<lparr>bh_next = 0, rb_idx = 0, rb_mode = DRC_LOCK_NULL, rb_part_id = 0,
     rb_converting = \<lparr>bh_next = 0, li_req_info = zero_req_info\<rparr>,
     rb_convert_q = \<lparr>dl_first = 0, dl_last = 0, dl_count = 0\<rparr>,
     rb_node = \<lparr>ln_prev = 0, ln_next = 0, ln_idx = 0\<rparr>,
     br_claimed_owner = 0, br_latest_edp = 0, br_pending = DRC_RES_INVALID_ACTION,
     br_latest_edp_lsn = 0, br_page_id = \<lparr>pg_page = 0, pg_file = 0\<rparr>, br_is_used = False,
     br_edp_map = 0, br_lsn = 0, br_readonly_copies = 0\<rparr>"

definition zero_master_res :: drc_master_res where
  "zero_master_res = \<lparr>bh_next = 0, rb_idx = 0, rb_mode = DRC_LOCK_NULL, rb_part_id = 0,
     rb_converting = \<lparr>bh_next = 0, li_req_info = zero_req_info\<rparr>,
     rb_convert_q = \<lparr>dl_first = 0, dl_last = 0, dl_count = 0\<rparr>,
     rb_node = \<lparr>ln_prev = 0, ln_next = 0, ln_idx = 0\<rparr>,
     mr_res_id = \<lparr>dr_key1 = 0, dr_key2 = 0, dr_key3 = 0, dr_key4 = 0\<rparr>, mr_granted_map = 0\<rparr>"

subsection \<open>Converting requests\<close>

text \<open>Reading and changing the request that is being converted.\<close>

definition cvt_req :: "'a drc_res_base_scheme \<Rightarrow> drc_req_info" where
  "cvt_req res = li_req_info (rb_converting res)"

definition set_cvt_req :: "drc_req_info \<Rightarrow> 'a drc_res_base_scheme \<Rightarrow> 'a drc_res_base_scheme" where
  "set_cvt_req req res = res\<lparr>rb_converting := (rb_converting res)\<lparr>li_req_info := req\<rparr>\<rparr>"

subsection \<open>Cleaning a convert queue\<close>

text \<open>
  The loop of \<^verbatim>\<open>drc_clean_convert_q\<close>: every request is dropped, and its sender is told if it is not
  the failed instance.
\<close>

fun drc_clean_convert_items :: "u8 \<Rightarrow> drc_res_ctx \<Rightarrow> u32 \<Rightarrow> nat \<Rightarrow> drc_res_ctx option" where
  "drc_clean_convert_items inst_id c item_id 0 = Some c"
| "drc_clean_convert_items inst_id c item_id (Suc n) = do {
     item \<leftarrow> rd (rp_addr (rc_lock_item_pool c)) item_id;
     let temp_item_id = bh_next item;
     let c = (if ri_inst_id (li_req_info item) \<noteq> inst_id
              then mes_send_error_msg (li_req_info item) c else c);
     pool \<leftarrow> drc_res_pool_free_item (rc_lock_item_pool c) item_id;
     drc_clean_convert_items inst_id (c\<lparr>rc_lock_item_pool := pool\<rparr>) temp_item_id n
   }"

definition drc_clean_convert_q :: "u8 \<Rightarrow> drc_list \<Rightarrow> drc_res_ctx \<Rightarrow> (drc_list \<times> drc_res_ctx) option" where
  "drc_clean_convert_q inst_id convert_q c =
     (if dl_count convert_q = 0 then Some (convert_q, c)
      else do {
        let count = dl_count convert_q;
        c \<leftarrow> drc_clean_convert_items inst_id c (dl_first convert_q) (unat count);
        let c = c\<lparr>rc_clean_convert_cnt := rc_clean_convert_cnt c + ucast count\<rparr>;
        Some (DRC_LIST_INIT, c)
      })"

end
