(* ===== verification/Drc_Page.thy ===== *)
theory Drc_Page
  imports Drc_Ctx
begin

text \<open>
  Ownership of pages on their master: the page routines of \<^verbatim>\<open>cluster/dtc_drc.c\<close>. An instance asks the
  master for a page (\<^verbatim>\<open>drc_request_page_owner\<close>), gets it from the current owner, and claims it
  (\<^verbatim>\<open>drc_claim_page_owner\<close>), which lets the next waiting request convert. Pages are given back by
  release and recycling, and cleaned up after an instance has failed.

  A routine that works on one resource takes and returns its value; the handlers read the resource
  from the directory, call the routine and write it back. Everything else a routine changes is in
  the context it takes and returns. Calls into other modules are arguments: whether input and output
  are stopped (\<^verbatim>\<open>DRC_STOP_DCS_IO_FOR_REFORMING\<close>), whether the page can be read
  (\<^verbatim>\<open>dtc_dcs_readable\<close>), the clock, the results of the invalidation messages, and the local buffer.
\<close>

subsection \<open>Structures\<close>

record cvt_info =
  ci_owner_id :: u8
  ci_req_id :: u8
  ci_req_sid :: u16
  ci_req_rsn :: u32
  ci_pageid :: page_id
  ci_req_mode :: drc_lock_mode
  ci_curr_mode :: drc_lock_mode
  ci_readonly_copies :: u64
  ci_req_version :: u64
  ci_lsn :: u64

record claim_info =
  cl_new_id :: u8
  cl_inst_sid :: u16
  cl_page_id :: page_id
  cl_lsn :: u64
  cl_has_edp :: bool
  cl_mode :: drc_lock_mode

record drc_req_owner_result =
  rr_type :: drc_req_owner_result_type
  rr_action :: drc_res_action
  rr_curr_owner_id :: u8
  rr_is_retry :: bool
  rr_req_mode :: drc_lock_mode
  rr_readonly_copies :: u64

record drc_edp_info =
  ei_edp_map :: u64
  ei_lsn :: u64
  ei_readonly_copies :: u64
  ei_latest_edp :: u8

subsection \<open>Resources without an owner\<close>

definition drc_select_one_instance_from_readonly_copy :: "u64 \<Rightarrow> u8" where
  "drc_select_one_instance_from_readonly_copy readonly_copy =
     (case find (drc_bitmap64_exist readonly_copy) (map of_nat [0..<OG_MAX_INSTANCES]) of
        Some index \<Rightarrow> index | None \<Rightarrow> OG_INVALID_ID8)"

definition drc_clean_buf_res :: "drc_buf_res \<Rightarrow> drc_buf_res option" where
  "drc_clean_buf_res buf_res = do {
     knl_panic (br_claimed_owner buf_res = OG_INVALID_ID8);
     if br_readonly_copies buf_res \<noteq> 0 then do {
       let owner = drc_select_one_instance_from_readonly_copy (br_readonly_copies buf_res);
       knl_panic (rb_mode buf_res = DRC_LOCK_SHARE);
       Some (buf_res\<lparr>br_claimed_owner := owner, br_pending := DRC_RES_SHARE_ACTION,
               br_readonly_copies := drc_bitmap64_clear (br_readonly_copies buf_res) owner\<rparr>)
     }
     else if br_edp_map buf_res \<noteq> 0 then do {
       knl_panic (br_latest_edp buf_res \<noteq> OG_INVALID_ID8);
       knl_panic (rb_mode buf_res \<noteq> DRC_LOCK_SHARE);
       Some (buf_res\<lparr>br_claimed_owner := br_latest_edp buf_res, br_pending := DRC_RES_EXCLUSIVE_ACTION\<rparr>)
     }
     else Some buf_res
   }"

text \<open>\<open>recover_done\<close> is \<^verbatim>\<open>g_rc_ctx->status >= REFORM_RECOVER_DONE\<close>.\<close>

definition drc_get_page_owner_id :: "bool \<Rightarrow> bool \<Rightarrow> drc_res_ctx \<Rightarrow> page_id \<Rightarrow>
    (status_t \<times> u8 \<times> drc_res_action option \<times> drc_res_ctx) option" where
  "drc_get_page_owner_id recover_done partial_recover c pagid = do {
     found \<leftarrow> buf_find c pagid;
     (case found of
        None \<Rightarrow> Some (OG_ERROR, OG_INVALID_ID8, None, c)
      | Some i \<Rightarrow> do {
          buf_res \<leftarrow> buf_get c i;
          buf_res \<leftarrow> (if br_claimed_owner buf_res = OG_INVALID_ID8 \<and> recover_done
                     then do { knl_panic (\<not> partial_recover); drc_clean_buf_res buf_res }
                     else Some buf_res);
          c \<leftarrow> buf_put c i buf_res;
          Some (OG_SUCCESS, br_claimed_owner buf_res, Some (br_pending buf_res), c)
        })
   }"

subsection \<open>Claims\<close>

definition drc_check_new_req :: "drc_req_info \<Rightarrow> drc_buf_res \<Rightarrow> drc_res_ctx \<Rightarrow> status_t \<times> drc_res_ctx" where
  "drc_check_new_req req_info buf_res c =
     (if ri_inst_id (cvt_req buf_res) = br_claimed_owner buf_res \<and>
         (rb_mode buf_res = DRC_LOCK_SHARE \<and> ri_req_mode (cvt_req buf_res) = DRC_LOCK_EXCLUSIVE) \<and>
         ri_inst_id req_info \<noteq> br_claimed_owner buf_res \<and>
         drc_bitmap64_exist (br_readonly_copies buf_res) (ri_inst_id req_info)
      then (OG_ERROR, stat_inc R_PO_CONFLICT_TOTAL c)
      else if ri_inst_id req_info = br_claimed_owner buf_res \<and>
              ri_inst_id req_info \<noteq> ri_inst_id (cvt_req buf_res)
      then (OG_ERROR, stat_inc R_PO_CONFLICT_TOTAL c)
      else (OG_SUCCESS, c))"

definition drc_claim_new_page_owner :: "claim_info \<Rightarrow> drc_buf_res \<Rightarrow> drc_res_ctx \<Rightarrow>
    (drc_buf_res \<times> drc_res_ctx) option" where
  "drc_claim_new_page_owner claim buf_res c = do {
     let cur_owner = br_claimed_owner buf_res;
     knl_panic (ri_req_mode (cvt_req buf_res) = cl_mode claim);
     knl_panic (br_pending buf_res = DRC_RES_INVALID_ACTION \<or> br_pending buf_res = DRC_RES_SHARE_ACTION \<or>
                br_pending buf_res = DRC_RES_EXCLUSIVE_ACTION);
     let buf_res = buf_res\<lparr>br_pending := DRC_RES_INVALID_ACTION\<rparr>;
     if cl_mode claim \<le> rb_mode buf_res \<and> br_claimed_owner buf_res = cl_new_id claim
     then Some (buf_res, c)
     else do {
       (buf_res, c) \<leftarrow>
         (if cl_mode claim = DRC_LOCK_SHARE then do {
            knl_panic (br_claimed_owner buf_res \<noteq> OG_INVALID_ID8);
            Some (buf_res\<lparr>rb_mode := DRC_LOCK_SHARE,
                    br_readonly_copies := drc_bitmap64_set (br_readonly_copies buf_res) (cl_new_id claim)\<rparr>, c)
          }
          else do {
            let buf_res = buf_res\<lparr>br_claimed_owner := cl_new_id claim, rb_mode := cl_mode claim,
                  br_readonly_copies := 0,
                  br_edp_map := drc_bitmap64_clear (br_edp_map buf_res) (cl_new_id claim)\<rparr>;
            let c = stat_inc R_PO_CONVETED c;
            if cl_has_edp claim then do {
              knl_panic (cl_mode claim = DRC_LOCK_EXCLUSIVE);
              knl_panic (cl_lsn claim \<noteq> 0);
              Some (buf_res\<lparr>br_edp_map := drc_bitmap64_set (br_edp_map buf_res) cur_owner,
                      br_latest_edp := cur_owner, br_latest_edp_lsn := cl_lsn claim\<rparr>, c)
            }
            else Some (buf_res, c)
          });
       if cl_lsn claim > 0 then do {
         knl_panic (cl_lsn claim \<ge> br_lsn buf_res);
         Some (buf_res\<lparr>br_lsn := cl_lsn claim\<rparr>, c)
       }
       else Some (buf_res, c)
     }
   }"

text \<open>The result is the item taken off the queue without being freed, or \<open>OG_INVALID_ID32\<close>.\<close>

definition drc_check_first_req_in_convert_queue :: "drc_buf_res \<Rightarrow> drc_res_ctx \<Rightarrow>
    (u32 \<times> drc_buf_res \<times> drc_res_ctx) option" where
  "drc_check_first_req_in_convert_queue buf_res c =
     (if dl_count (rb_convert_q buf_res) \<noteq> 0 then do {
        let lock_item_id = dl_first (rb_convert_q buf_res);
        lock_item \<leftarrow> rd (rp_addr (rc_lock_item_pool c)) lock_item_id;
        let (ret, c) = drc_check_new_req (li_req_info lock_item) buf_res c;
        if ret \<noteq> OG_SUCCESS
        then Some (lock_item_id,
               buf_res\<lparr>rb_convert_q := (rb_convert_q buf_res)\<lparr>dl_first := bh_next lock_item,
                         dl_count := dl_count (rb_convert_q buf_res) - 1\<rparr>\<rparr>, c)
        else Some (OG_INVALID_ID32, buf_res, c)
      }
      else Some (OG_INVALID_ID32, buf_res, c))"

definition DCS_WAIT_MSG_TIMEOUT :: int where
  "DCS_WAIT_MSG_TIMEOUT = 3600000"

definition MICROSECS_PER_MILLISEC :: int where
  "MICROSECS_PER_MILLISEC = 1000"

definition req_expired :: "int \<Rightarrow> drc_req_info \<Rightarrow> bool" where
  "req_expired now req \<longleftrightarrow> ri_req_time req + DCS_WAIT_MSG_TIMEOUT * MICROSECS_PER_MILLISEC \<le> now"

text \<open>
  The loop of \<^verbatim>\<open>drc_convert_next_request\<close>, which ends with the queue empty (\<open>True\<close>) or with the next
  request in \<open>converting\<close>; \<open>n\<close> is the number of waiting requests and \<open>now n\<close> the clock read then.
\<close>

fun drc_convert_loop :: "(nat \<Rightarrow> int) \<Rightarrow> drc_buf_res \<Rightarrow> drc_res_ctx \<Rightarrow> nat \<Rightarrow>
    (bool \<times> drc_buf_res \<times> drc_res_ctx) option" where
  "drc_convert_loop now buf_res c 0 =
     Some (True, set_cvt_req ((cvt_req buf_res)\<lparr>ri_inst_id := OG_INVALID_ID8,
             ri_req_mode := DRC_LOCK_NULL, ri_inst_sid := OG_INVALID_ID16\<rparr>) buf_res,
           stat_dec R_PO_CVTING_CURR c)"
| "drc_convert_loop now buf_res c (Suc n) = do {
     knl_panic (dl_first (rb_convert_q buf_res) \<noteq> OG_INVALID_ID32);
     (lock_item, pool, q) \<leftarrow> cvt_q_pop (rc_lock_item_pool c) (rb_convert_q buf_res);
     let buf_res = buf_res\<lparr>rb_convert_q := q, rb_converting := lock_item\<rparr>;
     let c = c\<lparr>rc_lock_item_pool := pool\<rparr>;
     if req_expired (now n) (cvt_req buf_res)
     then drc_convert_loop now buf_res (mes_send_error_msg (cvt_req buf_res) c) n
     else Some (False, buf_res, c)
   }"

definition drc_convert_next_request :: "(nat \<Rightarrow> int) \<Rightarrow> drc_buf_res \<Rightarrow> cvt_info \<Rightarrow> drc_res_ctx \<Rightarrow>
    (u32 \<times> drc_buf_res \<times> cvt_info \<times> drc_res_ctx) option" where
  "drc_convert_next_request now buf_res cvt c = do {
     let cvt = cvt\<lparr>ci_readonly_copies := 0, ci_pageid := br_page_id buf_res,
                   ci_owner_id := br_claimed_owner buf_res\<rparr>;
     (empty, buf_res, c) \<leftarrow> drc_convert_loop now buf_res c (unat (dl_count (rb_convert_q buf_res)));
     if empty then Some (OG_INVALID_ID32, buf_res, cvt, c)
     else do {
       let req = cvt_req buf_res;
       let readonly_copies = drc_bitmap64_clear (drc_bitmap64_clear (br_readonly_copies buf_res)
             (ri_inst_id req)) (br_claimed_owner buf_res);
       let cvt = cvt\<lparr>ci_req_id := ri_inst_id req, ci_req_sid := ri_inst_sid req, ci_req_rsn := ri_rsn req,
                     ci_req_mode := ri_req_mode req, ci_curr_mode := ri_curr_mode req,
                     ci_req_version := ri_req_version req, ci_lsn := ri_lsn req,
                     ci_pageid := br_page_id buf_res, ci_owner_id := br_claimed_owner buf_res,
                     ci_readonly_copies := readonly_copies\<rparr>;
       (item_id, buf_res, c) \<leftarrow> drc_check_first_req_in_convert_queue buf_res (stat_dec R_PO_CVTQ_CURR c);
       Some (item_id, buf_res, cvt, c)
     }
   }"

definition drc_is_retry_request :: "drc_req_info \<Rightarrow> drc_req_info \<Rightarrow> bool" where
  "drc_is_retry_request l_val r_val \<longleftrightarrow>
     ri_inst_id l_val = ri_inst_id r_val \<and> ri_req_mode l_val \<noteq> ri_curr_mode r_val"

definition drc_is_same_claim_request :: "drc_req_info \<Rightarrow> claim_info \<Rightarrow> bool" where
  "drc_is_same_claim_request converting_req claim \<longleftrightarrow>
     ri_inst_id converting_req = cl_new_id claim \<and> ri_inst_sid converting_req = cl_inst_sid claim \<and>
     ri_req_mode converting_req = cl_mode claim"

definition drc_claim_info_is_invalid :: "claim_info \<Rightarrow> drc_buf_res \<Rightarrow> bool" where
  "drc_claim_info_is_invalid claim buf_res \<longleftrightarrow>
     (if cl_mode claim = DRC_LOCK_SHARE then br_claimed_owner buf_res = OG_INVALID_ID8
      else cl_has_edp claim \<and> \<not> (cl_mode claim = DRC_LOCK_EXCLUSIVE \<and> cl_lsn claim \<noteq> 0)) \<or>
     (cl_lsn claim > 0 \<and> cl_lsn claim < br_lsn buf_res)"

text \<open>
  The handler of a claim. Between its three locked sections run \<open>others1\<close> and \<open>others2\<close>; \<open>invalidate\<close> is
  the result of \<^verbatim>\<open>dcs_invalidate_readonly_copy\<close> for the given copies.
\<close>

definition drc_claim_page_owner_locked :: "(nat \<Rightarrow> int) \<Rightarrow> claim_info \<Rightarrow> cvt_info \<Rightarrow> drc_res_ctx \<Rightarrow>
    ((u32 \<times> u32) option \<times> cvt_info \<times> drc_res_ctx) option" where
  "drc_claim_page_owner_locked now claim cvt c = do {
     let cvt = cvt\<lparr>ci_req_id := OG_INVALID_ID8\<rparr>;
     found \<leftarrow> buf_find c (cl_page_id claim);
     (case found of
        None \<Rightarrow> Some (None, cvt, c)
      | Some i \<Rightarrow> do {
          buf_res \<leftarrow> buf_get c i;
          if ri_inst_id (cvt_req buf_res) = OG_INVALID_ID8 then Some (None, cvt, c)
          else if \<not> drc_is_same_claim_request (cvt_req buf_res) claim then Some (None, cvt, c)
          else if drc_claim_info_is_invalid claim buf_res then Some (None, cvt, c)
          else do {
            (buf_res, c) \<leftarrow> drc_claim_new_page_owner claim buf_res c;
            (conflict_req_id, buf_res, cvt, c) \<leftarrow> drc_convert_next_request now buf_res cvt c;
            c \<leftarrow> buf_put c i buf_res;
            Some (Some (i, conflict_req_id), cvt, c)
          }
        })
   }"

definition drc_claim_reject_conflict :: "u32 \<Rightarrow> drc_res_ctx \<Rightarrow> drc_res_ctx option" where
  "drc_claim_reject_conflict conflict_req_id c =
     (if conflict_req_id \<noteq> OG_INVALID_ID32 then do {
        lock_item \<leftarrow> rd (rp_addr (rc_lock_item_pool c)) conflict_req_id;
        let c = mes_send_error_msg (li_req_info lock_item) c;
        pool \<leftarrow> drc_res_pool_free_item (rc_lock_item_pool c) conflict_req_id;
        Some (c\<lparr>rc_lock_item_pool := pool\<rparr>)
      }
      else Some c)"

definition drc_clear_readonly_copies :: "u32 \<Rightarrow> drc_res_ctx \<Rightarrow> drc_res_ctx option" where
  "drc_clear_readonly_copies i c = do {
     buf_res \<leftarrow> buf_get c i;
     buf_put c i (buf_res\<lparr>br_readonly_copies := 0\<rparr>)
   }"

definition drc_claim_page_owner :: "(nat \<Rightarrow> int) \<Rightarrow> (u64 \<Rightarrow> status_t) \<Rightarrow> (drc_res_ctx \<Rightarrow> drc_res_ctx) \<Rightarrow>
    (drc_res_ctx \<Rightarrow> drc_res_ctx) \<Rightarrow> claim_info \<Rightarrow> cvt_info \<Rightarrow> drc_res_ctx \<Rightarrow>
    (cvt_info \<times> drc_res_ctx) option" where
  "drc_claim_page_owner now invalidate others1 others2 claim cvt c = do {
     (claimed, cvt, c) \<leftarrow> drc_claim_page_owner_locked now claim cvt c;
     (case claimed of
        None \<Rightarrow> Some (cvt, c)
      | Some (i, conflict_req_id) \<Rightarrow> do {
          c \<leftarrow> drc_claim_reject_conflict conflict_req_id (others1 c);
          if ci_req_id cvt \<noteq> OG_INVALID_ID8 \<and> ci_readonly_copies cvt \<noteq> 0 \<and>
             ci_req_mode cvt = DRC_LOCK_EXCLUSIVE \<and> invalidate (ci_readonly_copies cvt) = OG_SUCCESS
          then do {
            c \<leftarrow> drc_clear_readonly_copies i (others2 c);
            Some (cvt, c)
          }
          else Some (cvt, c)
        })
   }"

subsection \<open>Requests\<close>

partial_function (option) drc_search_item_by_reqid :: "drc_lock_item list \<Rightarrow> drc_req_info \<Rightarrow> u32 \<Rightarrow>
    u32 option option" where
  "drc_search_item_by_reqid mem req_info item_id =
     (if item_id = OG_INVALID_ID32 then Some None
      else Option.bind (rd mem item_id) (\<lambda>item.
        if drc_is_retry_request (li_req_info item) req_info then Some (Some item_id)
        else drc_search_item_by_reqid mem req_info (bh_next item)))"

text \<open>Entering a request in the queue, or in place of an earlier one of its instance, \<open>found\<close>.\<close>

definition drc_enter_request :: "drc_req_info \<Rightarrow> drc_buf_res \<Rightarrow> drc_res_ctx \<Rightarrow> u32 option \<Rightarrow>
    (status_t \<times> bool \<times> bool \<times> drc_req_info \<times> drc_buf_res \<times> drc_res_ctx) option" where
  "drc_enter_request req_info buf_res c found = (case found of
     Some item_id \<Rightarrow> do {
       item \<leftarrow> rd (rp_addr (rc_lock_item_pool c)) item_id;
       if ri_lsn (li_req_info item) \<noteq> ri_lsn req_info
       then Some (OG_ERROR, False, False, req_info, buf_res, c)
       else do {
         mem \<leftarrow> wr (rp_addr (rc_lock_item_pool c)) item_id (item\<lparr>li_req_info := req_info\<rparr>);
         Some (OG_SUCCESS, False, False, req_info, buf_res,
               c\<lparr>rc_lock_item_pool := (rc_lock_item_pool c)\<lparr>rp_addr := mem\<rparr>\<rparr>)
       }
     }
   | None \<Rightarrow> do {
       entered \<leftarrow> cvt_q_enqueue (rc_lock_item_pool c) (rb_convert_q buf_res) req_info;
       (case entered of
          None \<Rightarrow> Some (OG_ERROR, False, False, req_info, buf_res, c)
        | Some (pool, q) \<Rightarrow>
            Some (OG_SUCCESS, False, False, req_info, buf_res\<lparr>rb_convert_q := q\<rparr>,
                  stat_inc R_PO_CVTQ_CURR (stat_inc R_PO_CVTQ_TOTAL (c\<lparr>rc_lock_item_pool := pool\<rparr>))))
     })"

text \<open>The result is the status, whether the request converts, whether it is a retry, and the request.\<close>

definition drc_keep_requester_wait :: "drc_req_info \<Rightarrow> bool \<Rightarrow> drc_buf_res \<Rightarrow> drc_res_ctx \<Rightarrow>
    (status_t \<times> bool \<times> bool \<times> drc_req_info \<times> drc_buf_res \<times> drc_res_ctx) option" where
  "drc_keep_requester_wait req_info is_try buf_res c =
     (if ri_inst_id (cvt_req buf_res) = OG_INVALID_ID8 then
        (if is_try \<and> (br_claimed_owner buf_res \<noteq> ri_inst_id req_info \<or> br_readonly_copies buf_res \<noteq> 0)
         then Some (OG_SUCCESS, False, False, req_info, buf_res, c)
         else do {
           knl_panic (dl_count (rb_convert_q buf_res) = 0);
           let buf_res = buf_res\<lparr>rb_converting := \<lparr>bh_next = OG_INVALID_ID32, li_req_info = req_info\<rparr>\<rparr>;
           Some (OG_SUCCESS, True, False, req_info, buf_res,
                 stat_inc R_PO_CVTING_CURR (stat_inc R_PO_CVTING_TOTAL c))
         })
      else if is_try then Some (OG_SUCCESS, False, False, req_info, buf_res, c)
      else let (ret, c) = drc_check_new_req req_info buf_res c in
        if ret \<noteq> OG_SUCCESS then Some (ret, False, False, req_info, buf_res, c)
        else if drc_is_retry_request (cvt_req buf_res) req_info then
          (if ri_req_time (cvt_req buf_res) \<le> ri_req_time req_info then
             let req_info = req_info\<lparr>ri_req_mode := max (ri_req_mode (cvt_req buf_res)) (ri_req_mode req_info)\<rparr> in
             Some (OG_SUCCESS, True, True, req_info, set_cvt_req req_info buf_res,
                   c\<lparr>rc_converting_page_cnt := rc_converting_page_cnt c + 1\<rparr>)
           else Some (OG_ERROR, False, False, req_info, buf_res, c))
        else do {
          found \<leftarrow> (if dl_count (rb_convert_q buf_res) > 0
                    then drc_search_item_by_reqid (rp_addr (rc_lock_item_pool c)) req_info
                           (dl_first (rb_convert_q buf_res))
                    else Some None);
          drc_enter_request req_info buf_res c found
        })"

subsection \<open>Removal and recycling\<close>

definition drc_clean_page_owner_internal :: "drc_res_ctx \<Rightarrow> u32 \<Rightarrow> drc_res_ctx option" where
  "drc_clean_page_owner_internal c i = do {
     buf_res \<leftarrow> buf_get c i;
     g \<leftarrow> gr_map_remove page_hash (rc_global_buf_res c) (br_page_id buf_res);
     g \<leftarrow> drc_clean_page_from_res_part g i;
     g \<leftarrow> gr_write g i zero_buf_res;
     Some (c\<lparr>rc_global_buf_res := g\<rparr>)
   }"

definition buf_res_is_recyclable :: "drc_buf_res \<Rightarrow> bool" where
  "buf_res_is_recyclable buf_res \<longleftrightarrow>
     ri_inst_id (cvt_req buf_res) = OG_INVALID_ID8 \<and> br_claimed_owner buf_res \<noteq> OG_INVALID_ID8"

text \<open>
  Recycling one page at the request of its owner. \<open>invalidate\<close> is the result of the two invalidation
  messages for the given copies and owner, and \<open>others\<close> runs while they are under way.
\<close>

definition drc_buf_res_recycle_mark :: "bool \<Rightarrow> u8 \<Rightarrow> int \<Rightarrow> page_id \<Rightarrow> drc_res_ctx \<Rightarrow>
    (u32 option \<times> drc_res_ctx) option" where
  "drc_buf_res_recycle_mark in_remaster inst_id time page_id c =
     (if in_remaster then Some (None, c)
      else do {
        found \<leftarrow> buf_find c page_id;
        (case found of
           None \<Rightarrow> Some (None, c)
         | Some i \<Rightarrow> do {
             buf_res \<leftarrow> buf_get c i;
             if br_claimed_owner buf_res \<noteq> inst_id then Some (None, c)
             else if br_pending buf_res \<noteq> DRC_RES_INVALID_ACTION \<or> \<not> br_is_used buf_res then Some (None, c)
             else if ri_req_time (cvt_req buf_res) \<ge> time then Some (None, c)
             else if buf_res_is_recyclable buf_res then do {
               c \<leftarrow> buf_put c i (buf_res\<lparr>br_pending := DRC_RES_PENDING_ACTION\<rparr>);
               Some (Some i, c)
             }
             else Some (None, c)
           })
      })"

definition drc_buf_res_recycle_finish :: "status_t \<Rightarrow> page_id \<Rightarrow> u32 \<Rightarrow> drc_res_ctx \<Rightarrow> drc_res_ctx option"
  where
  "drc_buf_res_recycle_finish ret page_id i c = do {
     found \<leftarrow> buf_find c page_id;
     (case found of
        None \<Rightarrow> Some c
      | Some _ \<Rightarrow> do {
          buf_res \<leftarrow> buf_get c i;
          if ret \<noteq> OG_SUCCESS then buf_put c i (buf_res\<lparr>br_pending := DRC_RES_INVALID_ACTION\<rparr>)
          else do {
            let idx = rb_idx buf_res;
            c \<leftarrow> buf_put c i (buf_res\<lparr>br_readonly_copies := 0, br_pending := DRC_RES_INVALID_ACTION\<rparr>);
            c \<leftarrow> drc_clean_page_owner_internal c i;
            if idx \<noteq> OG_INVALID_ID32 then buf_free c idx else Some c
          }
        })
   }"

definition drc_buf_res_recycle :: "u32 \<Rightarrow> bool \<Rightarrow> (u64 \<Rightarrow> u8 \<Rightarrow> status_t) \<Rightarrow> (drc_res_ctx \<Rightarrow> drc_res_ctx) \<Rightarrow>
    u32 \<Rightarrow> int \<Rightarrow> page_id \<Rightarrow> drc_res_ctx \<Rightarrow> drc_res_ctx option" where
  "drc_buf_res_recycle node_count in_remaster invalidate others inst_id time page_id c =
     (if unat inst_id \<ge> OG_MAX_INSTANCES then Some c
      else if IS_INVALID_PAGID page_id \<or> inst_id \<ge> node_count then Some c
      else do {
        (marked, c) \<leftarrow> drc_buf_res_recycle_mark in_remaster (ucast inst_id) time page_id c;
        (case marked of
           None \<Rightarrow> Some c
         | Some i \<Rightarrow> do {
             buf_res \<leftarrow> buf_get c i;
             let ret = invalidate (br_readonly_copies buf_res) (br_claimed_owner buf_res);
             drc_buf_res_recycle_finish ret page_id i (others c)
           })
      })"

text \<open>
  The scan of \<^verbatim>\<open>drc_recycle_items\<close>. The arguments of round \<open>i\<close>: whether a remaster is in progress at the
  two checks, the result of the invalidations and what other threads do meanwhile.
\<close>

record recycle_env =
  ry_now :: int
  ry_remaster1 :: "nat \<Rightarrow> bool"
  ry_remaster2 :: "nat \<Rightarrow> bool"
  ry_invalidate :: "nat \<Rightarrow> status_t"
  ry_others :: "nat \<Rightarrow> drc_res_ctx \<Rightarrow> drc_res_ctx"

definition BUF_RES_RECYCLE_WINDOW :: int where
  "BUF_RES_RECYCLE_WINDOW = 60000000"

definition BUF_RES_IS_OLD :: "drc_buf_res \<Rightarrow> int \<Rightarrow> bool" where
  "BUF_RES_IS_OLD buf_res now \<longleftrightarrow> now - ri_req_time (cvt_req buf_res) > BUF_RES_RECYCLE_WINDOW"

text \<open>What a round does with the resource at \<open>pos\<close>: go on, stop the scan, or take the item.\<close>

datatype recycle_step = Recycle_continue | Recycle_break | Recycle_taken u32

definition drc_recycle_advance :: "drc_res_ctx \<Rightarrow> (u32 \<times> drc_res_ctx) option" where
  "drc_recycle_advance c = do {
     let g = rc_global_buf_res c;
     knl_panic (rp_item_num (gr_pool g) \<noteq> 0);
     let pos = (rp_recycle_pos (gr_pool g) + 1) mod rp_item_num (gr_pool g);
     Some (pos, c\<lparr>rc_global_buf_res := gr_set_pool g ((gr_pool g)\<lparr>rp_recycle_pos := pos\<rparr>)\<rparr>)
   }"

text \<open>The end of a round, with the locks taken again: \<open>buf_res\<close> is the resource when it was marked.\<close>

definition drc_recycle_relocked :: "recycle_env \<Rightarrow> nat \<Rightarrow> u32 \<Rightarrow> drc_buf_res \<Rightarrow> drc_res_ctx \<Rightarrow>
    (recycle_step \<times> drc_res_ctx) option" where
  "drc_recycle_relocked e i pos buf_res c = do {
     found \<leftarrow> buf_find c (br_page_id buf_res);
     if found = None then Some (Recycle_continue, c)
     else do {
       res \<leftarrow> buf_get c pos;
       if ry_remaster2 e i then do {
         c \<leftarrow> buf_put c pos (res\<lparr>br_pending := DRC_RES_INVALID_ACTION\<rparr>);
         Some (Recycle_break, c)
       }
       else if \<not> br_is_used res \<or> br_page_id res \<noteq> br_page_id buf_res then Some (Recycle_continue, c)
       else do {
         knl_panic (br_pending res = DRC_RES_PENDING_ACTION \<and> buf_res_is_recyclable res \<and>
           br_readonly_copies res = br_readonly_copies buf_res \<and>
           br_claimed_owner res = br_claimed_owner buf_res);
         let res = res\<lparr>br_pending := DRC_RES_INVALID_ACTION\<rparr>;
         if ry_invalidate e i \<noteq> OG_SUCCESS then do {
           c \<leftarrow> buf_put c pos res;
           Some (Recycle_continue, c)
         }
         else do {
           c \<leftarrow> buf_put c pos (res\<lparr>br_readonly_copies := 0\<rparr>);
           c \<leftarrow> drc_clean_page_owner_internal c pos;
           Some (Recycle_taken (rb_idx res), c)
         }
       }
     }
   }"

definition drc_recycle_one :: "recycle_env \<Rightarrow> nat \<Rightarrow> u32 \<Rightarrow> drc_res_ctx \<Rightarrow>
    (recycle_step \<times> drc_res_ctx) option" where
  "drc_recycle_one e i pos c = do {
     buf_res \<leftarrow> buf_get c pos;
     if \<not> BUF_RES_IS_OLD buf_res (ry_now e) \<or> \<not> buf_res_is_recyclable buf_res then Some (Recycle_continue, c)
     else if br_pending buf_res \<noteq> DRC_RES_INVALID_ACTION \<or> \<not> br_is_used buf_res then Some (Recycle_continue, c)
     else if ry_remaster1 e i then Some (Recycle_break, c)
     else do {
       c \<leftarrow> buf_put c pos (buf_res\<lparr>br_pending := DRC_RES_PENDING_ACTION\<rparr>);
       drc_recycle_relocked e i pos buf_res (ry_others e i c)
     }
   }"

fun drc_recycle_scan :: "recycle_env \<Rightarrow> bool \<Rightarrow> nat \<Rightarrow> nat \<Rightarrow> u32 \<Rightarrow> drc_res_ctx \<Rightarrow> (u32 \<times> drc_res_ctx) option"
  where
  "drc_recycle_scan e is_batch i 0 idx c = (if is_batch then Some (idx, c) else buf_alloc c)"
| "drc_recycle_scan e is_batch i (Suc n) idx c = do {
     (pos, c) \<leftarrow> drc_recycle_advance c;
     (idx, c) \<leftarrow> (if \<not> is_batch \<and> rp_free_list (gr_pool (rc_global_buf_res c)) \<noteq> OG_INVALID_ID32
                 then buf_alloc c else Some (idx, c));
     if \<not> is_batch \<and> idx \<noteq> OG_INVALID_ID32 then Some (idx, c)
     else do {
       (step, c) \<leftarrow> drc_recycle_one e i pos c;
       (case step of
          Recycle_continue \<Rightarrow> drc_recycle_scan e is_batch (Suc i) n idx c
        | Recycle_break \<Rightarrow> (if is_batch then Some (idx, c) else buf_alloc c)
        | Recycle_taken idx \<Rightarrow>
            (if \<not> is_batch then Some (idx, c)
             else do {
               c \<leftarrow> buf_free c idx;
               drc_recycle_scan e is_batch (Suc i) n idx c
             }))
     }
   }"

definition drc_recycle_items :: "recycle_env \<Rightarrow> bool \<Rightarrow> drc_res_ctx \<Rightarrow> (u32 \<times> drc_res_ctx) option" where
  "drc_recycle_items e is_batch c =
     drc_recycle_scan e is_batch 0
       (if is_batch then 1024 else unat (rp_item_num (gr_pool (rc_global_buf_res c)))) OG_INVALID_ID32 c"

subsection \<open>The request handler\<close>

text \<open>
  The arguments of the handler: \<open>readable\<close> at the start, the three checks for a reform in progress, and
  the condition for repairing a page without an owner (\<open>recover\<close>); \<open>others1\<close> runs before an item is
  allocated, \<open>others2\<close> before the locks are taken again, and \<open>others3\<close> during the invalidation.
\<close>

record request_env =
  rq_ext_pages :: u32
  rq_readable :: bool
  rq_stop1 :: bool
  rq_stop2 :: bool
  rq_stop3 :: bool
  rq_recover :: bool
  rq_recycle :: recycle_env
  rq_invalidate :: "u64 \<Rightarrow> status_t"
  rq_others1 :: "drc_res_ctx \<Rightarrow> drc_res_ctx"
  rq_others2 :: "drc_res_ctx \<Rightarrow> drc_res_ctx"
  rq_others3 :: "drc_res_ctx \<Rightarrow> drc_res_ctx"

text \<open>
  The request for a page with an owner: it converts or waits. The flag of the result says that the
  request converts, so that the read-only copies may have to be invalidated.
\<close>

definition drc_request_wait :: "drc_req_info \<Rightarrow> bool \<Rightarrow> drc_req_owner_result \<Rightarrow> u32 \<Rightarrow> drc_buf_res \<Rightarrow>
    drc_res_ctx \<Rightarrow> (status_t \<times> bool \<times> drc_req_info \<times> drc_req_owner_result \<times> drc_res_ctx) option" where
  "drc_request_wait req_info is_try result i buf_res c = do {
     (ret, can_cvt, is_retry, req_info, buf_res, c) \<leftarrow>
       drc_keep_requester_wait req_info is_try buf_res c;
     if ret \<noteq> OG_SUCCESS then do {
       c \<leftarrow> buf_put c i buf_res;
       Some (OG_ERROR, False, req_info, result, c)
     }
     else do {
       let (result, buf_res, c) =
         (if can_cvt then
            let typ = (if br_claimed_owner buf_res = ri_inst_id req_info
                       then DRC_REQ_OWNER_ALREADY_OWNER else DRC_REQ_OWNER_CONVERTING);
                readonly_copies = drc_bitmap64_clear (drc_bitmap64_clear (br_readonly_copies buf_res)
                  (ri_inst_id req_info)) (br_claimed_owner buf_res)
            in (result\<lparr>rr_type := typ, rr_is_retry := is_retry,
                  rr_curr_owner_id := br_claimed_owner buf_res,
                  rr_readonly_copies := readonly_copies, rr_action := br_pending buf_res,
                  rr_req_mode := ri_req_mode req_info\<rparr>,
                set_cvt_req ((cvt_req buf_res)\<lparr>ri_req_owner_result := owner_result_num typ\<rparr>) buf_res,
                stat_inc R_PO_CONVETED c)
          else (result\<lparr>rr_type := DRC_REQ_OWNER_WAITING, rr_curr_owner_id := br_claimed_owner buf_res\<rparr>,
                buf_res, c));
       knl_panic (\<not> is_try \<or> rr_type result \<noteq> DRC_REQ_OWNER_CONVERTING);
       c \<leftarrow> buf_put c i buf_res;
       Some (OG_SUCCESS, can_cvt, req_info, result, c)
     }
   }"

text \<open>The code after the label \<^verbatim>\<open>allocated\<close> up to the release of the locks.\<close>

definition drc_request_allocated :: "request_env \<Rightarrow> drc_req_info \<Rightarrow> bool \<Rightarrow> drc_req_owner_result \<Rightarrow> u32 \<Rightarrow>
    drc_res_ctx \<Rightarrow> (status_t \<times> bool \<times> drc_req_info \<times> drc_req_owner_result \<times> drc_res_ctx) option" where
  "drc_request_allocated e req_info is_try result i c = do {
     buf_res \<leftarrow> buf_get c i;
     if br_pending buf_res = DRC_RES_PENDING_ACTION then Some (OG_ERROR, False, req_info, result, c)
     else if br_claimed_owner buf_res = OG_INVALID_ID8 \<and> \<not> rq_recover e
     then Some (OG_ERROR, False, req_info, result, c)
     else do {
       buf_res \<leftarrow> (if br_claimed_owner buf_res = OG_INVALID_ID8 then drc_clean_buf_res buf_res
                   else Some buf_res);
       if br_claimed_owner buf_res = OG_INVALID_ID8 then do {
         let result = result\<lparr>rr_type := DRC_REQ_OWNER_GRANTED, rr_curr_owner_id := ri_inst_id req_info\<rparr>;
         let buf_res = set_cvt_req ((cvt_req buf_res)
               \<lparr>ri_req_owner_result := owner_result_num (rr_type result)\<rparr>)
               (buf_res\<lparr>br_claimed_owner := ri_inst_id req_info, rb_mode := ri_req_mode req_info\<rparr>);
         c \<leftarrow> buf_put c i buf_res;
         Some (OG_SUCCESS, False, req_info, result, c)
       }
       else drc_request_wait req_info is_try result i buf_res c
     }
   }"

text \<open>Entering a page that is not in the directory, in the allocated item \<open>idx\<close>.\<close>

definition new_buf_res :: "drc_req_info \<Rightarrow> page_id \<Rightarrow> u32 \<Rightarrow> drc_buf_res \<Rightarrow> drc_buf_res" where
  "new_buf_res req_info pagid idx buf_res = buf_res\<lparr>
     br_claimed_owner := ri_inst_id req_info, br_page_id := pagid, rb_idx := idx, br_is_used := True,
     rb_mode := ri_req_mode req_info, br_latest_edp := OG_INVALID_ID8, br_latest_edp_lsn := 0,
     br_lsn := 0, br_readonly_copies := 0, br_edp_map := 0,
     rb_converting := \<lparr>bh_next = OG_INVALID_ID32,
       li_req_info = g_invalid_req_info\<lparr>ri_req_time := ri_req_time req_info\<rparr>\<rparr>,
     br_pending := DRC_RES_INVALID_ACTION, rb_convert_q := DRC_LIST_INIT\<rparr>"

definition drc_request_create :: "request_env \<Rightarrow> page_id \<Rightarrow> drc_req_info \<Rightarrow> drc_req_owner_result \<Rightarrow> u32 \<Rightarrow>
    drc_res_ctx \<Rightarrow> (status_t \<times> drc_req_owner_result \<times> drc_res_ctx) option" where
  "drc_request_create e pagid req_info result idx c = do {
     let part_id = ucast (drc_page_partid (rq_ext_pages e) pagid);
     buf_res \<leftarrow> buf_get c idx;
     g \<leftarrow> gr_write (rc_global_buf_res c) idx (new_buf_res req_info pagid idx buf_res);
     g \<leftarrow> gr_map_add page_hash g pagid idx;
     g \<leftarrow> gr_set_part g part_id idx;
     if rq_stop3 e then do {
       g \<leftarrow> gr_map_remove page_hash g pagid;
       g \<leftarrow> gr_write g idx zero_buf_res;
       g \<leftarrow> gr_free g idx;
       Some (OG_ERROR, result, c\<lparr>rc_global_buf_res := g\<rparr>)
     }
     else do {
       g \<leftarrow> gr_part_add g part_id idx;
       Some (OG_SUCCESS, result\<lparr>rr_type := DRC_REQ_OWNER_GRANTED, rr_curr_owner_id := ri_inst_id req_info,
               rr_readonly_copies := 0\<rparr>, stat_inc R_PO_FIRST (c\<lparr>rc_global_buf_res := g\<rparr>))
     }
   }"

text \<open>The invalidation at the end of the handler, with the locks released.\<close>

definition drc_request_invalidate :: "request_env \<Rightarrow> bool \<Rightarrow> drc_req_info \<Rightarrow> drc_req_owner_result \<Rightarrow> u32 \<Rightarrow>
    drc_res_ctx \<Rightarrow> (status_t \<times> drc_res_ctx) option" where
  "drc_request_invalidate e can_cvt req_info result i c =
     (if can_cvt \<and> rr_readonly_copies result \<noteq> 0 \<and> ri_req_mode req_info = DRC_LOCK_EXCLUSIVE
      then if rq_invalidate e (rr_readonly_copies result) = OG_SUCCESS
        then do {
          c \<leftarrow> drc_clear_readonly_copies i (rq_others3 e c);
          Some (OG_SUCCESS, c)
        }
        else Some (OG_ERROR, rq_others3 e c)
      else Some (OG_SUCCESS, c))"

definition drc_request_existing :: "request_env \<Rightarrow> drc_req_info \<Rightarrow> bool \<Rightarrow> drc_req_owner_result \<Rightarrow> u32 \<Rightarrow>
    u32 option \<Rightarrow> drc_res_ctx \<Rightarrow>
    (status_t \<times> drc_req_info \<times> drc_req_owner_result \<times> drc_res_ctx) option" where
  "drc_request_existing e req_info is_try result i free_slot c = do {
     (ret, can_cvt, req_info, result, c) \<leftarrow> drc_request_allocated e req_info is_try result i c;
     (ret, c) \<leftarrow> (if ret \<noteq> OG_SUCCESS then Some (ret, c)
                 else drc_request_invalidate e can_cvt req_info result i c);
     c \<leftarrow> (case free_slot of None \<Rightarrow> Some c | Some idx \<Rightarrow> buf_free c idx);
     Some (ret, req_info, result, c)
   }"

text \<open>
  The code after the label \<^verbatim>\<open>not_found_free_one\<close>: an item is allocated or recycled for a page that was
  not in the directory, and the directory is searched again under the locks.
\<close>

definition drc_request_item :: "request_env \<Rightarrow> drc_res_ctx \<Rightarrow> (u32 \<times> drc_res_ctx) option" where
  "drc_request_item e c = do {
     (idx, c) \<leftarrow> buf_alloc c;
     if idx = OG_INVALID_ID32 then drc_recycle_items (rq_recycle e) False c else Some (idx, c)
   }"

definition drc_request_relocked :: "request_env \<Rightarrow> page_id \<Rightarrow> drc_req_info \<Rightarrow> bool \<Rightarrow>
    drc_req_owner_result \<Rightarrow> u32 \<Rightarrow> drc_res_ctx \<Rightarrow>
    (status_t \<times> drc_req_info \<times> drc_req_owner_result \<times> drc_res_ctx) option" where
  "drc_request_relocked e pagid req_info is_try result idx c = do {
     found \<leftarrow> buf_find c pagid;
     (case found of
        Some i \<Rightarrow> drc_request_existing e req_info is_try result i (Some idx) c
      | None \<Rightarrow>
          if rq_stop2 e then do {
            c \<leftarrow> buf_free c idx;
            Some (OG_ERROR, req_info, result, c)
          }
          else do {
            (ret, result, c) \<leftarrow> drc_request_create e pagid req_info result idx c;
            Some (ret, req_info, result, c)
          })
   }"

definition drc_request_page_owner :: "request_env \<Rightarrow> page_id \<Rightarrow> drc_req_info \<Rightarrow> bool \<Rightarrow>
    drc_req_owner_result \<Rightarrow> drc_res_ctx \<Rightarrow>
    (status_t \<times> drc_req_info \<times> drc_req_owner_result \<times> drc_res_ctx) option" where
  "drc_request_page_owner e pagid req_info is_try result c = do {
     let result = result\<lparr>rr_type := DRC_REQ_OWNER_INVALID, rr_action := DRC_RES_INVALID_ACTION,
           rr_is_retry := False, rr_req_mode := ri_req_mode req_info\<rparr>;
     let req_info = req_info\<lparr>ri_req_owner_result := owner_result_num DRC_REQ_OWNER_WAITING\<rparr>;
     if unat (ri_inst_id req_info) \<ge> OG_MAX_INSTANCES \<or> IS_INVALID_PAGID pagid
     then Some (OG_ERROR, req_info, result, c)
     else if \<not> rq_readable e then Some (OG_ERROR, req_info, result, c)
     else if rq_stop1 e then Some (OG_ERROR, req_info, result, c)
     else do {
       found \<leftarrow> buf_find c pagid;
       let c = stat_inc R_PO_TOTAL c;
       (case found of
          Some i \<Rightarrow> drc_request_existing e req_info is_try result i None c
        | None \<Rightarrow> do {
            (idx, c) \<leftarrow> drc_request_item e (rq_others1 e c);
            if idx = OG_INVALID_ID32 then Some (OG_ERROR, req_info, result, c)
            else drc_request_relocked e pagid req_info is_try result idx (rq_others2 e c)
          })
     }
   }"

subsection \<open>Release and earlier dirty pages\<close>

text \<open>The result is the value of \<open>released\<close>; a page that is not in the directory is a panic.\<close>

definition drc_release_page_owner :: "u8 \<Rightarrow> page_id \<Rightarrow> drc_res_ctx \<Rightarrow> (bool \<times> drc_res_ctx) option" where
  "drc_release_page_owner old_id pagid c = do {
     found \<leftarrow> buf_find c pagid;
     (case found of
        None \<Rightarrow> None
      | Some i \<Rightarrow> do {
          buf_res \<leftarrow> buf_get c i;
          if old_id \<noteq> br_claimed_owner buf_res
          then Some (old_id \<noteq> ri_inst_id (cvt_req buf_res), c)
          else if ri_inst_id (cvt_req buf_res) \<noteq> OG_INVALID_ID8 \<or> br_edp_map buf_res \<noteq> 0
          then Some (False, c)
          else do {
            g \<leftarrow> drc_clean_page_from_res_part (rc_global_buf_res c) i;
            g \<leftarrow> gr_map_remove page_hash g pagid;
            let idx = rb_idx buf_res;
            g \<leftarrow> gr_write g i zero_buf_res;
            g \<leftarrow> gr_free g idx;
            Some (True, c\<lparr>rc_global_buf_res := g\<rparr>)
          }
        })
   }"

definition drc_get_edp_info :: "drc_res_ctx \<Rightarrow> page_id \<Rightarrow> drc_edp_info option option" where
  "drc_get_edp_info c pagid = do {
     found \<leftarrow> buf_find c pagid;
     (case found of
        None \<Rightarrow> Some None
      | Some i \<Rightarrow> do {
          buf_res \<leftarrow> buf_get c i;
          Some (Some \<lparr>ei_edp_map = br_edp_map buf_res, ei_lsn = br_lsn buf_res,
                      ei_readonly_copies = br_readonly_copies buf_res,
                      ei_latest_edp = br_latest_edp buf_res\<rparr>)
        })
   }"

definition drc_clean_edp_info :: "page_id \<Rightarrow> u64 \<Rightarrow> drc_res_ctx \<Rightarrow> (status_t \<times> drc_res_ctx) option" where
  "drc_clean_edp_info page_id lsn c = do {
     found \<leftarrow> buf_find c page_id;
     (case found of
        None \<Rightarrow> Some (OG_ERROR, c)
      | Some i \<Rightarrow> do {
          buf_res \<leftarrow> buf_get c i;
          c \<leftarrow> (if lsn \<ge> br_lsn buf_res
               then buf_put c i (buf_res\<lparr>br_edp_map := 0, br_latest_edp := OG_INVALID_ID8,
                      br_latest_edp_lsn := 0\<rparr>)
               else Some c);
          Some (OG_SUCCESS, c)
        })
   }"

subsection \<open>Cleaning after a failed instance\<close>

definition drc_init_page_converting :: "drc_buf_res \<Rightarrow> drc_buf_res" where
  "drc_init_page_converting buf_res =
     buf_res\<lparr>rb_converting := \<lparr>bh_next = OG_INVALID_ID32, li_req_info = g_invalid_req_info\<rparr>\<rparr>"

text \<open>The fields of the local buffer control (\<^verbatim>\<open>buf_ctrl_t\<close>) of a page that the master looks at.\<close>

record buf_ctrl =
  bc_lock_mode :: drc_lock_mode
  bc_is_edp :: bool
  bc_lsn :: u64

definition drc_revert_converting_page_abort_owner :: "u8 \<Rightarrow> buf_ctrl option \<Rightarrow> drc_buf_res \<Rightarrow> drc_buf_res"
  where
  "drc_revert_converting_page_abort_owner self ctrl buf_res =
     (case ctrl of
        None \<Rightarrow> buf_res
      | Some ctrl \<Rightarrow>
          let buf_res = buf_res\<lparr>rb_mode := bc_lock_mode ctrl\<rparr>;
              buf_res = (if bc_lock_mode ctrl = DRC_LOCK_NULL
                then buf_res\<lparr>br_readonly_copies := drc_bitmap64_clear (br_readonly_copies buf_res) self,
                       br_claimed_owner := OG_INVALID_ID8\<rparr>
                else buf_res)
          in if bc_is_edp ctrl
             then buf_res\<lparr>br_edp_map := drc_bitmap64_set (br_edp_map buf_res) self, br_latest_edp := self,
                    br_latest_edp_lsn := bc_lsn ctrl\<rparr>
             else buf_res)"

definition drc_revert_converting_page_non_abort_owner :: "buf_ctrl option \<Rightarrow> drc_buf_res \<Rightarrow> drc_res_ctx \<Rightarrow>
    drc_buf_res \<times> drc_res_ctx" where
  "drc_revert_converting_page_non_abort_owner ctrl buf_res c =
     (let (buf_res, c) = (case ctrl of
        None \<Rightarrow> (buf_res, c)
      | Some ctrl \<Rightarrow>
          (if bc_lock_mode ctrl = DRC_LOCK_NULL then (buf_res, mes_send_error_msg (cvt_req buf_res) c)
           else if bc_lock_mode ctrl = DRC_LOCK_EXCLUSIVE
           then (buf_res\<lparr>br_claimed_owner := ri_inst_id (cvt_req buf_res)\<rparr>, c)
           else (buf_res, c)))
      in (drc_init_page_converting buf_res, c))"

definition drc_clean_page_converting :: "u8 \<Rightarrow> u8 \<Rightarrow> (page_id \<Rightarrow> buf_ctrl option) \<Rightarrow> drc_buf_res \<Rightarrow>
    drc_res_ctx \<Rightarrow> (drc_buf_res \<times> drc_res_ctx) option" where
  "drc_clean_page_converting self inst_id ctrls buf_res c =
     (if ri_inst_id (cvt_req buf_res) = inst_id then do {
        (buf_res, c) \<leftarrow>
          (if dl_count (rb_convert_q buf_res) = 0 then Some (drc_init_page_converting buf_res, c)
           else do {
             (item, pool, q) \<leftarrow> cvt_q_pop (rc_lock_item_pool c) (rb_convert_q buf_res);
             let q = (if dl_count q = 0 then DRC_LIST_INIT else q);
             Some (buf_res\<lparr>rb_converting := item, rb_convert_q := q\<rparr>, c\<lparr>rc_lock_item_pool := pool\<rparr>)
           });
        Some (drc_revert_converting_page_abort_owner self (ctrls (br_page_id buf_res)) buf_res, c)
      }
      else if ri_inst_id (cvt_req buf_res) \<noteq> OG_INVALID_ID8
      then Some (drc_revert_converting_page_non_abort_owner (ctrls (br_page_id buf_res)) buf_res c)
      else Some (buf_res, c))"

text \<open>What \<^verbatim>\<open>drc_clean_page_owner_by_part\<close> does with one resource, up to the decision to remove it.\<close>

definition drc_clean_page_res :: "u8 \<Rightarrow> u8 \<Rightarrow> (page_id \<Rightarrow> buf_ctrl option) \<Rightarrow> drc_buf_res \<Rightarrow> drc_res_ctx \<Rightarrow>
    (bool \<times> drc_buf_res \<times> drc_res_ctx) option" where
  "drc_clean_page_res self inst_id ctrls buf_res c = do {
     (q, c) \<leftarrow> drc_clean_convert_q inst_id (rb_convert_q buf_res) c;
     (buf_res, c) \<leftarrow> drc_clean_page_converting self inst_id ctrls (buf_res\<lparr>rb_convert_q := q\<rparr>) c;
     let buf_res = buf_res\<lparr>br_edp_map := drc_bitmap64_clear (br_edp_map buf_res) inst_id,
           br_readonly_copies := br_readonly_copies buf_res AND NOT (push_bit (unat inst_id) 1)\<rparr>;
     let buf_res = (if br_latest_edp buf_res = inst_id
           then buf_res\<lparr>br_latest_edp := OG_INVALID_ID8, br_latest_edp_lsn := 0\<rparr> else buf_res);
     if br_claimed_owner buf_res \<noteq> OG_INVALID_ID8 \<and> br_claimed_owner buf_res \<noteq> inst_id
     then Some (False, buf_res, c)
     else do {
       let buf_res = buf_res\<lparr>br_claimed_owner := OG_INVALID_ID8, br_pending := DRC_RES_INVALID_ACTION\<rparr>;
       Some (\<not> (br_readonly_copies buf_res \<noteq> 0 \<or> br_edp_map buf_res \<noteq> 0), buf_res, c)
     }
   }"

text \<open>
  The loop over the list of a partition: \<open>failed i\<close> says that the remaster has failed when round \<open>i\<close>
  starts, and the result is the list of the removed items, in order.
\<close>

fun drc_clean_page_list :: "u8 \<Rightarrow> u8 \<Rightarrow> (page_id \<Rightarrow> buf_ctrl option) \<Rightarrow> (nat \<Rightarrow> bool) \<Rightarrow> nat \<Rightarrow> nat \<Rightarrow> u32 \<Rightarrow>
    drc_res_ctx \<Rightarrow> (u32 list \<times> drc_res_ctx) option" where
  "drc_clean_page_list self inst_id ctrls failed i 0 buf_idx c = Some ([], c)"
| "drc_clean_page_list self inst_id ctrls failed i (Suc n) buf_idx c =
     (if failed i then Some ([], c)
      else do {
        buf_res \<leftarrow> buf_get c buf_idx;
        let nxt = ln_next (rb_node buf_res);
        (remove, buf_res, c) \<leftarrow> drc_clean_page_res self inst_id ctrls buf_res c;
        c \<leftarrow> buf_put c buf_idx buf_res;
        c \<leftarrow> (if remove then drc_clean_page_owner_internal c buf_idx else Some c);
        (ids, c) \<leftarrow> drc_clean_page_list self inst_id ctrls failed (Suc i) n nxt c;
        Some (if remove then rb_idx buf_res # ids else ids, c)
      })"

definition drc_clean_page_owner_by_part :: "u8 \<Rightarrow> u8 \<Rightarrow> (page_id \<Rightarrow> buf_ctrl option) \<Rightarrow> (nat \<Rightarrow> bool) \<Rightarrow> bool \<Rightarrow>
    u16 \<Rightarrow> drc_res_ctx \<Rightarrow> drc_res_ctx option" where
  "drc_clean_page_owner_by_part self inst_id ctrls failed malloc_ok part c =
     (if \<not> malloc_ok then Some c
      else do {
        part_list \<leftarrow> rd (gr_res_parts (rc_global_buf_res c)) part;
        (ids, c) \<leftarrow> drc_clean_page_list self inst_id ctrls failed 0 (unat (dl_count part_list))
                     (dl_first part_list) c;
        pool \<leftarrow> drc_res_pool_free_batch_item (gr_pool (rc_global_buf_res c)) ids;
        Some (c\<lparr>rc_global_buf_res := gr_set_pool (rc_global_buf_res c) pool,
               rc_clean_page_cnt := rc_clean_page_cnt c + of_nat (length ids)\<rparr>)
      })"

end
