(* ===== verification/Convert_Queues.thy ===== *)
theory Convert_Queues
  imports Drc_Page
begin

text \<open>
  The convert queues of all resources together. The queues of the pages and of the locks live in the
  one lock item pool; the lemmas say what the queue operations do to the queue of one resource, and
  that they leave the others alone.
\<close>

text \<open>
  All queues of a family share one pool. \<open>Q\<close> gives the header of the queue of each resource, and \<open>F\<close>
  are the items that are in no queue but still allocated. The queues are well formed, share no
  item, and together with \<open>F\<close> account for every allocated item.
\<close>

definition queues_ok :: "lock_item_pool \<Rightarrow> ('i \<Rightarrow> drc_list option) \<Rightarrow> u32 set \<Rightarrow> bool" where
  "queues_ok pool Q F \<longleftrightarrow>
     pool_inv pool \<and> (\<forall>k q. Q k = Some q \<longrightarrow> cvt_q_ok pool q \<and> set (cvt_q_chain pool q) \<inter> F = {}) \<and>
     (\<forall>k k' q q'. Q k = Some q \<longrightarrow> Q k' = Some q' \<longrightarrow> k \<noteq> k' \<longrightarrow>
        set (cvt_q_chain pool q) \<inter> set (cvt_q_chain pool q') = {}) \<and>
     (\<forall>i. pool_used pool i \<longleftrightarrow> i \<in> F \<or> (\<exists>k q. Q k = Some q \<and> i \<in> set (cvt_q_chain pool q)))"

definition q_reqs :: "lock_item_pool \<Rightarrow> ('i \<Rightarrow> drc_list option) \<Rightarrow> 'i \<Rightarrow> drc_req_info list option" where
  "q_reqs pool Q k = map_option (cvt_q_reqs pool) (Q k)"

lemma queues_okD:
  assumes "queues_ok pool Q F"
  shows "pool_inv pool" "Q k = Some q \<Longrightarrow> cvt_q_ok pool q" "Q k = Some q \<Longrightarrow> set (cvt_q_chain pool q) \<inter> F = {}"
    "Q k = Some q \<Longrightarrow> Q k' = Some q' \<Longrightarrow> k \<noteq> k' \<Longrightarrow>
       set (cvt_q_chain pool q) \<inter> set (cvt_q_chain pool q') = {}"
    "pool_used pool i \<longleftrightarrow> i \<in> F \<or> (\<exists>k q. Q k = Some q \<and> i \<in> set (cvt_q_chain pool q))"
  using assms unfolding queues_ok_def by blast+

text \<open>A step that changes the queue of one resource, and items outside all queues.\<close>

lemma queues_other:
  assumes "queues_ok pool Q F" and "Q k = Some q" and "k' \<noteq> k" "Q k' = Some p" "i \<in> set (cvt_q_chain pool p)"
  shows "pool_used pool i \<and> i \<notin> set (cvt_q_chain pool q) \<union> F"
  using queues_okD(3) [OF assms(1,4)] queues_okD(4) [OF assms(1,4,2,3)] queues_okD(5) [OF assms(1), of i] assms(4,5)
  by blast

lemma queues_step:
  assumes ok: "queues_ok pool Q F" and k: "Q k = Some q"
    and pool': "pool_inv pool'" "pool_keeps own pool pool'"
    and own: "set own \<subseteq> set (cvt_q_chain pool q) \<union> F"
    and q': "cvt_q_ok pool' q'" "set (cvt_q_chain pool' q') \<inter> F' = {}"
    and new: "\<And>i. i \<in> set (cvt_q_chain pool' q') \<union> F' \<Longrightarrow>
      i \<in> set (cvt_q_chain pool q) \<union> F \<or> \<not> pool_used pool i"
    and used: "\<And>i. pool_used pool' i \<longleftrightarrow> i \<in> set (cvt_q_chain pool' q') \<union> F' \<or>
      (pool_used pool i \<and> i \<notin> set (cvt_q_chain pool q) \<union> F)"
  shows "queues_ok pool' (Q(k \<mapsto> q')) F' \<and>
    q_reqs pool' (Q(k \<mapsto> q')) = (q_reqs pool Q)(k \<mapsto> cvt_q_reqs pool' q')"
proof -
  note D = queues_okD [OF ok]
  have kept: "cvt_q_chain pool' p = cvt_q_chain pool p \<and> cvt_q_ok pool' p \<and> cvt_q_reqs pool' p = cvt_q_reqs pool p"
    if "k' \<noteq> k" "Q k' = Some p" for k' p
  proof -
    have "set (cvt_q_chain pool p) \<inter> set own = {}"
      using own queues_other [OF ok k that] by blast
    then show ?thesis using pool_keeps_chain [OF D(1) pool'(1,2) D(2) [OF that(2)]] by blast
  qed
  have apart: "(set (cvt_q_chain pool' q') \<union> F') \<inter> set (cvt_q_chain pool' p) = {}"
    if "k' \<noteq> k" "Q k' = Some p" for k' p
    unfolding kept [OF that, THEN conjunct1] using new queues_other [OF ok k that] by blast
  have reqs: "q_reqs pool' (Q(k \<mapsto> q')) = (q_reqs pool Q)(k \<mapsto> cvt_q_reqs pool' q')"
    using kept by (auto simp: fun_eq_iff q_reqs_def intro!: option.map_cong)
  have "queues_ok pool' (Q(k \<mapsto> q')) F'"
    unfolding queues_ok_def
  proof (intro conjI allI impI)
    fix k1 k2 p1 p2
    assume a: "(Q(k \<mapsto> q')) k1 = Some p1" "(Q(k \<mapsto> q')) k2 = Some p2" "k1 \<noteq> k2"
    then show "set (cvt_q_chain pool' p1) \<inter> set (cvt_q_chain pool' p2) = {}"
      using kept [of k1 p1] kept [of k2 p2] apart [of k1 p1] apart [of k2 p2] D(4) [of k1 p1 k2 p2]
      by (auto split: if_splits)
  next
    fix i
    have "(\<exists>k' p. (Q(k \<mapsto> q')) k' = Some p \<and> i \<in> set (cvt_q_chain pool' p)) \<longleftrightarrow>
        i \<in> set (cvt_q_chain pool' q') \<or> (\<exists>k' p. k' \<noteq> k \<and> Q k' = Some p \<and> i \<in> set (cvt_q_chain pool p))"
    proof -
      have "(Q(k \<mapsto> q')) k' = Some p \<and> i \<in> set (cvt_q_chain pool' p) \<longleftrightarrow>
          k' = k \<and> p = q' \<and> i \<in> set (cvt_q_chain pool' q') \<or>
          k' \<noteq> k \<and> Q k' = Some p \<and> i \<in> set (cvt_q_chain pool p)" for k' p
        using kept [of k' p] by auto
      then show ?thesis by blast
    qed
    moreover have "(\<exists>k' p. k' \<noteq> k \<and> Q k' = Some p \<and> i \<in> set (cvt_q_chain pool p)) \<longleftrightarrow>
        pool_used pool i \<and> i \<notin> set (cvt_q_chain pool q) \<union> F"
    proof
      assume "\<exists>k' p. k' \<noteq> k \<and> Q k' = Some p \<and> i \<in> set (cvt_q_chain pool p)"
      then show "pool_used pool i \<and> i \<notin> set (cvt_q_chain pool q) \<union> F"
        using queues_other [OF ok k] by blast
    next
      assume i: "pool_used pool i \<and> i \<notin> set (cvt_q_chain pool q) \<union> F"
      then obtain k' p where p: "Q k' = Some p" "i \<in> set (cvt_q_chain pool p)"
        using D(5) [of i] by blast
      then have "k' \<noteq> k" using i k by auto
      then show "\<exists>k' p. k' \<noteq> k \<and> Q k' = Some p \<and> i \<in> set (cvt_q_chain pool p)" using p by blast
    qed
    ultimately show "pool_used pool' i \<longleftrightarrow> i \<in> F' \<or>
        (\<exists>k' p. (Q(k \<mapsto> q')) k' = Some p \<and> i \<in> set (cvt_q_chain pool' p))"
      using used [of i] by blast
  next
    fix k' p assume "(Q(k \<mapsto> q')) k' = Some p"
    then show "cvt_q_ok pool' p" "set (cvt_q_chain pool' p) \<inter> F' = {}"
      using q' kept [of k' p] apart [of k' p] by (auto split: if_splits)
  qed (rule pool')
  then show ?thesis using reqs by simp
qed

lemma chain_used_q: "queues_ok pool Q F \<Longrightarrow> Q k = Some q \<Longrightarrow> i \<in> set (cvt_q_chain pool q) \<Longrightarrow> pool_used pool i"
  using queues_okD(5) by blast

lemma held_used_q: "queues_ok pool Q F \<Longrightarrow> i \<in> F \<Longrightarrow> pool_used pool i"
  using queues_okD(5) by blast

lemma queues_enqueue:
  assumes ok: "queues_ok pool Q F" and k: "Q k = Some q"
  shows "cvt_q_enqueue pool q req = Some None \<or>
    (\<exists>pool' q'. cvt_q_enqueue pool q req = Some (Some (pool', q')) \<and> queues_ok pool' (Q(k \<mapsto> q')) F \<and>
       q_reqs pool' (Q(k \<mapsto> q')) = (q_reqs pool Q)(k \<mapsto> cvt_q_reqs pool q @ [req]))"
proof (cases "pool_free pool")
  case Nil
  then show ?thesis using cvt_q_enqueue_full queues_okD(1) [OF ok] by blast
next
  case (Cons i "is")
  note D = queues_okD [OF ok]
  obtain pool' q' where e: "cvt_q_enqueue pool q req = Some (Some (pool', q'))" "pool_inv pool'"
    "cvt_q_ok pool' q'" "cvt_q_reqs pool' q' = cvt_q_reqs pool q @ [req]"
    "cvt_q_chain pool' q' = cvt_q_chain pool q @ [i]" "pool_keeps (cvt_q_chain pool q) pool pool'"
    "pool_free pool' = is"
    using cvt_q_enqueue_ok [OF D(1) D(2) [OF k] Cons] by blast
  have unused: "\<not> pool_used pool i" "pool_valid pool i" "i \<notin> set is"
    using Cons D(1) by (auto simp: pool_used_def pool_inv_def)
  have iF: "i \<notin> F" and iQ: "\<And>k' p. Q k' = Some p \<Longrightarrow> i \<notin> set (cvt_q_chain pool p)"
    using unused(1) D(5) by blast+
  have valid: "pool_valid pool' j \<longleftrightarrow> pool_valid pool j" for j
    using e(6) by (simp add: pool_keeps_def pool_valid_def)
  have used: "pool_used pool' j \<longleftrightarrow> j = i \<or> pool_used pool j" for j
    using Cons e(7) unused by (auto simp: pool_used_def valid)
  have "queues_ok pool' (Q(k \<mapsto> q')) F \<and> q_reqs pool' (Q(k \<mapsto> q')) = (q_reqs pool Q)(k \<mapsto> cvt_q_reqs pool' q')"
    by (rule queues_step [OF ok k e(2,6) _ e(3)])
      (use e(5) iF unused D(3) [OF k] chain_used_q [OF ok k] used held_used_q [OF ok] in auto)
  then show ?thesis using e by auto
qed

lemma queues_pop:
  assumes ok: "queues_ok pool Q F" and k: "Q k = Some q" and ne: "dl_count q \<noteq> 0"
  shows "\<exists>item pool' q'. cvt_q_pop pool q = Some (item, pool', q') \<and> queues_ok pool' (Q(k \<mapsto> q')) F \<and>
    cvt_q_reqs pool q = li_req_info item # cvt_q_reqs pool' q' \<and>
    q_reqs pool' (Q(k \<mapsto> q')) = (q_reqs pool Q)(k \<mapsto> cvt_q_reqs pool' q') \<and>
    dl_count q' = dl_count q - 1 \<and> dl_first q \<noteq> OG_INVALID_ID32"
proof -
  note D = queues_okD [OF ok]
  obtain item pool' q' where e: "cvt_q_pop pool q = Some (item, pool', q')" "pool_inv pool'"
    "cvt_q_ok pool' q'" "cvt_q_reqs pool q = li_req_info item # cvt_q_reqs pool' q'"
    "cvt_q_chain pool q = dl_first q # cvt_q_chain pool' q'" "pool_keeps (cvt_q_chain pool q) pool pool'"
    "pool_free pool' = dl_first q # pool_free pool" "dl_count q' = dl_count q - 1"
    using cvt_q_pop_ok [OF D(1) D(2) [OF k] ne] by blast
  have valid: "pool_valid pool' j \<longleftrightarrow> pool_valid pool j" for j
    using e(6) by (simp add: pool_keeps_def pool_valid_def)
  have d: "dl_first q \<notin> set (cvt_q_chain pool' q')" and f: "pool_used pool (dl_first q)"
    using D(2) [OF k] e(5) by (simp_all add: cvt_q_ok_def)
  have used: "pool_used pool' j \<longleftrightarrow> j \<noteq> dl_first q \<and> pool_used pool j" for j
    using e(7) by (auto simp: pool_used_def valid)
  have "queues_ok pool' (Q(k \<mapsto> q')) F \<and> q_reqs pool' (Q(k \<mapsto> q')) = (q_reqs pool Q)(k \<mapsto> cvt_q_reqs pool' q')"
    by (rule queues_step [OF ok k e(2,6) _ e(3)])
      (use e(5) d f D(3) [OF k] chain_used_q [OF ok k] used held_used_q [OF ok] in auto)
  then show ?thesis using e f pool_valid_not_invalid by (auto simp: pool_used_def)
qed

text \<open>Taking the first item off without giving it back to the pool, and giving it back later.\<close>

lemma queues_detach:
  assumes ok: "queues_ok pool Q F" and k: "Q k = Some q" and ne: "dl_count q \<noteq> 0"
  shows "\<exists>item. rd (rp_addr pool) (dl_first q) = Some item \<and> dl_first q \<noteq> OG_INVALID_ID32 \<and>
    (\<exists>rs. cvt_q_reqs pool q = li_req_info item # rs \<and>
      queues_ok pool (Q(k \<mapsto> q\<lparr>dl_first := bh_next item, dl_count := dl_count q - 1\<rparr>)) (insert (dl_first q) F) \<and>
      q_reqs pool (Q(k \<mapsto> q\<lparr>dl_first := bh_next item, dl_count := dl_count q - 1\<rparr>)) =
        (q_reqs pool Q)(k \<mapsto> rs))"
proof -
  note D = queues_okD [OF ok]
  let ?i = "dl_first q"
  obtain n where n: "unat (dl_count q) = Suc n" "unat (dl_count q - 1) = n"
    using ne by (cases "unat (dl_count q)") (auto simp: unat_eq_zero word_count)
  let ?q = "q\<lparr>dl_first := bh_next (rp_addr pool ! unat ?i), dl_count := dl_count q - 1\<rparr>"
  have i: "pool_used pool ?i" using D(2) [OF k] n by (simp add: cvt_q_ok_def cvt_q_chain_def)
  have lt: "unat ?i < length (rp_addr pool)" by (rule pool_used_lt [OF D(1) i])
  then have chain: "cvt_q_chain pool q = ?i # cvt_q_chain pool ?q"
    using n by (simp add: cvt_q_chain_def pool_next_def)
  have last: "dl_last q = last (cvt_q_chain pool q) \<and> pool_next pool (dl_last q) = OG_INVALID_ID32"
    using D(2) [OF k] ne unfolding cvt_q_ok_def by blast
  have "cvt_q_chain pool ?q \<noteq> []" if "dl_count ?q \<noteq> 0"
    using that by (simp add: cvt_q_chain_def unat_eq_zero)
  then have qok: "cvt_q_ok pool ?q"
    using D(2) [OF k] chain last by (auto simp: cvt_q_ok_def)
  have ni: "?i \<notin> set (cvt_q_chain pool ?q)" using D(2) [OF k] chain by (simp add: cvt_q_ok_def)
  have "queues_ok pool (Q(k \<mapsto> ?q)) (insert ?i F) \<and>
      q_reqs pool (Q(k \<mapsto> ?q)) = (q_reqs pool Q)(k \<mapsto> cvt_q_reqs pool ?q)"
    by (rule queues_step [OF ok k D(1) pool_keeps_refl [of "[]"] _ qok])
      (use chain ni D(3) [OF k] chain_used_q [OF ok k] held_used_q [OF ok] i in auto)
  moreover have "cvt_q_reqs pool q = li_req_info (rp_addr pool ! unat ?i) # cvt_q_reqs pool ?q"
    by (simp add: cvt_q_reqs_def chain)
  ultimately show ?thesis using lt i pool_valid_not_invalid by (auto simp: pool_used_def)
qed

lemma queues_free:
  assumes ok: "queues_ok pool Q F" and i: "i \<in> F"
  shows "\<exists>pool'. drc_res_pool_free_item pool i = Some pool' \<and> queues_ok pool' Q (F - {i}) \<and>
    q_reqs pool' Q = q_reqs pool Q"
proof -
  note D = queues_okD [OF ok]
  have v: "pool_valid pool i" "i \<notin> set (pool_free pool)"
    using D(5) [of i] i by (auto simp: pool_used_def)
  note push = pool_push [OF D(1) v]
  let ?p = "pool_push pool i"
  have keeps: "pool_keeps [i] pool ?p"
    using push by (auto simp: pool_keeps_def pool_used_def) (simp_all add: pool_push_def)
  have out: "i \<notin> set (cvt_q_chain pool q)" if "Q k = Some q" for k q
    using D(3) [OF that] i by blast
  have kept: "cvt_q_chain ?p q = cvt_q_chain pool q" "cvt_q_ok ?p q" "cvt_q_reqs ?p q = cvt_q_reqs pool q"
    if "Q k = Some q" for k q
    using pool_keeps_chain [OF D(1) push(1) keeps D(2) [OF that]] out [OF that] by simp_all
  have used: "pool_used ?p j \<longleftrightarrow> pool_used pool j \<and> j \<noteq> i" for j
    using push by (auto simp: pool_used_def)
  have "queues_ok ?p Q (F - {i})"
    unfolding queues_ok_def
  proof (intro conjI allI impI)
    fix j
    have "(\<exists>k q. Q k = Some q \<and> j \<in> set (cvt_q_chain ?p q)) \<longleftrightarrow>
        (\<exists>k q. Q k = Some q \<and> j \<in> set (cvt_q_chain pool q))"
      using kept(1) by metis
    then show "pool_used ?p j \<longleftrightarrow> j \<in> F - {i} \<or> (\<exists>k q. Q k = Some q \<and> j \<in> set (cvt_q_chain ?p q))"
      using used [of j] D(5) [of j] out by blast
  next
    fix k q assume "Q k = Some q"
    then show "cvt_q_ok ?p q" "set (cvt_q_chain ?p q) \<inter> (F - {i}) = {}"
      using kept(1,2) [of k q] D(3) [of k q] by auto
  next
    fix k k' q q' assume "Q k = Some q" "Q k' = Some q'" "k \<noteq> k'"
    then show "set (cvt_q_chain ?p q) \<inter> set (cvt_q_chain ?p q') = {}"
      using kept(1) [of k q] kept(1) [of k' q'] D(4) [of k q k' q'] by simp
  qed (rule push(1))
  moreover have "q_reqs ?p Q = q_reqs pool Q"
    using kept(3) by (auto simp: fun_eq_iff q_reqs_def intro!: option.map_cong)
  moreover have "drc_res_pool_free_item pool i = Some ?p"
    using put_item [OF D(1) v(1)] D(1) by (simp add: drc_res_pool_free_item_def pool_inv_def)
  ultimately show ?thesis by blast
qed

lemma empty_q [simp]: "dl_count q = 0 \<Longrightarrow> cvt_q_chain pool q = []" "dl_count q = 0 \<Longrightarrow> cvt_q_reqs pool q = []"
  "dl_count q = 0 \<Longrightarrow> cvt_q_ok pool q"
  by (simp_all add: cvt_q_chain_def cvt_q_reqs_def cvt_q_ok_def)

text \<open>A resource with an empty queue enters, leaves, or gets another empty queue.\<close>

lemma queues_empty:
  assumes ok: "queues_ok pool Q F" and old: "\<And>q. Q k = Some q \<Longrightarrow> dl_count q = 0"
    and new: "\<And>q. q' = Some q \<Longrightarrow> dl_count q = 0"
  shows "queues_ok pool (Q(k := q')) F"
    and "q_reqs pool (Q(k := q')) = (q_reqs pool Q)(k := map_option (\<lambda>_. []) q')"
proof -
  note D = queues_okD [OF ok]
  have same: "(Q(k := q')) k' = Some p \<and> i \<in> set (cvt_q_chain pool p) \<longleftrightarrow>
      Q k' = Some p \<and> i \<in> set (cvt_q_chain pool p)" for k' p i
    using old new by (cases "k' = k") fastforce+
  show "queues_ok pool (Q(k := q')) F"
    unfolding queues_ok_def
  proof (intro conjI allI impI)
    show "pool_used pool i \<longleftrightarrow> i \<in> F \<or> (\<exists>k' p. (Q(k := q')) k' = Some p \<and> i \<in> set (cvt_q_chain pool p))" for i
      unfolding same by (rule D(5))
  next
    fix k1 p1 assume a: "(Q(k := q')) k1 = Some p1"
    then show "cvt_q_ok pool p1" using new D(2) [of k1 p1] by (auto split: if_splits)
    show "set (cvt_q_chain pool p1) \<inter> F = {}" using a new D(3) [of k1 p1] by (auto split: if_splits)
    fix k2 p2 assume b: "(Q(k := q')) k2 = Some p2" "k1 \<noteq> k2"
    then show "set (cvt_q_chain pool p1) \<inter> set (cvt_q_chain pool p2) = {}"
      using a new D(4) [of k1 p1 k2 p2] by (auto split: if_splits)
  qed (rule D(1))
  show "q_reqs pool (Q(k := q')) = (q_reqs pool Q)(k := map_option (\<lambda>_. []) q')"
    using new by (auto simp: fun_eq_iff q_reqs_def intro!: option.map_cong)
qed

text \<open>Looking for a request of the same instance, and replacing its content.\<close>

lemma search_find:
  assumes "\<And>i. i \<in> set (walk (pool_next pool) p n) \<Longrightarrow> unat i < length (rp_addr pool) \<and> i \<noteq> OG_INVALID_ID32"
    and "walk_end (pool_next pool) p n = OG_INVALID_ID32"
  shows "drc_search_item_by_reqid (rp_addr pool) req p =
    Some (find (\<lambda>i. drc_is_retry_request (li_req_info (rp_addr pool ! unat i)) req) (walk (pool_next pool) p n))"
  using assms
proof (induction n arbitrary: p)
  case 0
  then show ?case by (simp add: drc_search_item_by_reqid.simps)
next
  case (Suc n)
  have p: "unat p < length (rp_addr pool)" "p \<noteq> OG_INVALID_ID32" using Suc.prems(1) by auto
  have nx: "pool_next pool p = bh_next (rp_addr pool ! unat p)" using p by (simp add: pool_next_def)
  have "drc_search_item_by_reqid (rp_addr pool) req (pool_next pool p) =
    Some (find (\<lambda>i. drc_is_retry_request (li_req_info (rp_addr pool ! unat i)) req)
      (walk (pool_next pool) (pool_next pool p) n))"
    by (rule Suc.IH) (use Suc.prems in simp_all)
  then show ?case
    using p nx by (subst drc_search_item_by_reqid.simps) simp
qed

lemma chain_end:
  assumes "cvt_q_ok pool q" and "dl_count q \<noteq> 0"
  shows "walk_end (pool_next pool) (dl_first q) (unat (dl_count q)) = OG_INVALID_ID32"
proof -
  obtain n where n: "unat (dl_count q) = Suc n"
    using assms(2) by (cases "unat (dl_count q)") (auto simp: unat_eq_zero)
  have "dl_last q = last (cvt_q_chain pool q)" "pool_next pool (dl_last q) = OG_INVALID_ID32"
    using assms unfolding cvt_q_ok_def by blast+
  moreover have "last (cvt_q_chain pool q) = walk_end (pool_next pool) (dl_first q) n"
    using last_walk [of "Suc n" "pool_next pool" "dl_first q"] by (simp only: cvt_q_chain_def n) simp
  ultimately show ?thesis by (simp only: n walk_end_snoc)
qed

lemma queues_search:
  assumes ok: "queues_ok pool Q F" and k: "Q k = Some q" and ne: "dl_count q \<noteq> 0"
  shows "drc_search_item_by_reqid (rp_addr pool) req (dl_first q) =
    Some (find (\<lambda>i. drc_is_retry_request (li_req_info (rp_addr pool ! unat i)) req) (cvt_q_chain pool q))"
  unfolding cvt_q_chain_def
proof (rule search_find)
  note D = queues_okD [OF ok]
  show "walk_end (pool_next pool) (dl_first q) (unat (dl_count q)) = OG_INVALID_ID32"
    by (rule chain_end [OF D(2) [OF k] ne])
  fix i assume "i \<in> set (walk (pool_next pool) (dl_first q) (unat (dl_count q)))"
  then have "pool_used pool i" using chain_used_q [OF ok k] by (simp add: cvt_q_chain_def)
  then show "unat i < length (rp_addr pool) \<and> i \<noteq> OG_INVALID_ID32"
    using pool_used_lt [OF D(1)] pool_valid_not_invalid by (auto simp: pool_used_def)
qed

lemma queues_replace:
  assumes ok: "queues_ok pool Q F" and k: "Q k = Some q" and n: "n < length (cvt_q_chain pool q)"
    and i: "i = cvt_q_chain pool q ! n"
    and pool': "pool' = pool\<lparr>rp_addr := (rp_addr pool)[unat i := (rp_addr pool ! unat i)\<lparr>li_req_info := req\<rparr>]\<rparr>"
  shows "unat i < length (rp_addr pool)" "queues_ok pool' Q F"
    "q_reqs pool' Q = (q_reqs pool Q)(k \<mapsto> (cvt_q_reqs pool q)[n := req])"
proof -
  note D = queues_okD [OF ok]
  have used: "pool_used pool i" using chain_used_q [OF ok k] i n by simp
  then show lt: "unat i < length (rp_addr pool)" by (rule pool_used_lt [OF D(1)])
  have free: "pool_free pool' = pool_free pool" and inv: "pool_inv pool'"
    using pool_frame_item [of i pool] used D(1) by (simp_all add: pool' pool_used_def)
  have used': "pool_used pool' = pool_used pool"
    by (simp add: fun_eq_iff pool_used_def pool_valid_def free) (simp add: pool')
  have nx: "pool_next pool' = pool_next pool"
    using lt by (auto simp: fun_eq_iff pool_next_def pool' nth_update_word)
  have chain: "cvt_q_chain pool' = cvt_q_chain pool" by (simp add: fun_eq_iff cvt_q_chain_def nx)
  have qok: "cvt_q_ok pool' = cvt_q_ok pool" by (simp add: fun_eq_iff cvt_q_ok_def chain used' nx)
  show "queues_ok pool' Q F"
    using ok inv by (simp add: queues_ok_def chain qok used')
  have reqs: "cvt_q_reqs pool' p = cvt_q_reqs pool p" if "i \<notin> set (cvt_q_chain pool p)" for p
    using that lt by (auto simp: cvt_q_reqs_def chain) (auto simp: pool' nth_update_word)
  have "cvt_q_reqs pool' q = (cvt_q_reqs pool q)[n := req]"
  proof (rule nth_equalityI)
    fix m assume "m < length (cvt_q_reqs pool' q)"
    then have m: "m < length (cvt_q_chain pool q)" by (simp add: cvt_q_reqs_def chain)
    have "distinct (cvt_q_chain pool q)" using D(2) [OF k] by (simp add: cvt_q_ok_def)
    then have "i = cvt_q_chain pool q ! m \<longleftrightarrow> n = m" using i m n nth_eq_iff_index_eq by blast
    moreover have "rp_addr pool' ! unat j = (if i = j then (rp_addr pool ! unat i)\<lparr>li_req_info := req\<rparr>
        else rp_addr pool ! unat j)" for j
      using lt by (simp add: pool' nth_update_word)
    ultimately show "cvt_q_reqs pool' q ! m = (cvt_q_reqs pool q)[n := req] ! m"
      using m n by (simp add: cvt_q_reqs_def chain nth_list_update)
  qed (simp add: cvt_q_reqs_def chain)
  moreover have "i \<notin> set (cvt_q_chain pool p)" if "k' \<noteq> k" "Q k' = Some p" for k' p
    using queues_other [OF ok k that] i n by force
  ultimately show "q_reqs pool' Q = (q_reqs pool Q)(k \<mapsto> (cvt_q_reqs pool q)[n := req])"
    using reqs k by (auto simp: fun_eq_iff q_reqs_def intro!: option.map_cong)
qed

text \<open>Cleaning a queue.\<close>

lemma clean_items:
  assumes "queues_ok (rc_lock_item_pool c) Q F" and "Q k = Some q" and "unat (dl_count q) = n"
  shows "\<exists>c'. drc_clean_convert_items inst c (dl_first q) n = Some c' \<and>
    queues_ok (rc_lock_item_pool c') (Q(k \<mapsto> DRC_LIST_INIT)) F \<and>
    q_reqs (rc_lock_item_pool c') (Q(k \<mapsto> DRC_LIST_INIT)) = (q_reqs (rc_lock_item_pool c) Q)(k \<mapsto> []) \<and>
    c' = c\<lparr>rc_lock_item_pool := rc_lock_item_pool c', rc_sent := rc_sent c @
      map error_to (filter (\<lambda>r. ri_inst_id r \<noteq> inst) (cvt_q_reqs (rc_lock_item_pool c) q))\<rparr>"
  using assms
proof (induction n arbitrary: c Q q)
  case 0
  then have c0: "dl_count q = 0" by (simp add: unat_eq_zero)
  have "dl_count p = 0" if "Q k = Some p" for p using that c0 0(2) by simp
  moreover have "dl_count p = 0" if "Some DRC_LIST_INIT = Some p" for p using that by (auto simp: DRC_LIST_INIT_def)
  ultimately show ?case
    using queues_empty [OF 0(1), of k "Some DRC_LIST_INIT"] c0 by (simp del: fun_upd_apply)
next
  case (Suc n)
  let ?pool = "rc_lock_item_pool c" and ?i = "dl_first q"
  have ne: "dl_count q \<noteq> 0" using Suc.prems(3) by auto
  obtain item pool' q' where pop: "cvt_q_pop ?pool q = Some (item, pool', q')"
    "queues_ok pool' (Q(k \<mapsto> q')) F" "cvt_q_reqs ?pool q = li_req_info item # cvt_q_reqs pool' q'"
    "q_reqs pool' (Q(k \<mapsto> q')) = (q_reqs ?pool Q)(k \<mapsto> cvt_q_reqs pool' q')" "dl_count q' = dl_count q - 1"
    using queues_pop [OF Suc.prems(1,2) ne] by blast
  have item: "rd (rp_addr ?pool) ?i = Some item" "drc_res_pool_free_item ?pool ?i = Some pool'"
    "dl_first q' = bh_next item"
    using pop(1) by (auto simp: cvt_q_pop_def Let_def split: Option.bind_splits)
  let ?c = "(if ri_inst_id (li_req_info item) \<noteq> inst then mes_send_error_msg (li_req_info item) c else c)
    \<lparr>rc_lock_item_pool := pool'\<rparr>"
  have n: "unat (dl_count q') = n" using Suc.prems(3) pop(5) by (simp add: word_count)
  obtain c' where c': "drc_clean_convert_items inst ?c (dl_first q') n = Some c'"
    "queues_ok (rc_lock_item_pool c') (Q(k \<mapsto> DRC_LIST_INIT)) F"
    "q_reqs (rc_lock_item_pool c') (Q(k \<mapsto> DRC_LIST_INIT)) = (q_reqs pool' (Q(k \<mapsto> q')))(k \<mapsto> [])"
    "c' = ?c\<lparr>rc_lock_item_pool := rc_lock_item_pool c', rc_sent := rc_sent ?c @
      map error_to (filter (\<lambda>r. ri_inst_id r \<noteq> inst) (cvt_q_reqs pool' q'))\<rparr>"
    using Suc.IH [of ?c "Q(k \<mapsto> q')" q', OF _ fun_upd_same n] pop(2)
    by (auto simp del: fun_upd_apply)
  have "drc_clean_convert_items inst c ?i (Suc n) = Some c'"
    using item c'(1) by (cases "ri_inst_id (li_req_info item) = inst") (simp_all add: mes_send_error_msg_def)
  moreover have "c' = c\<lparr>rc_lock_item_pool := rc_lock_item_pool c', rc_sent := rc_sent c @
      map error_to (filter (\<lambda>r. ri_inst_id r \<noteq> inst) (cvt_q_reqs ?pool q))\<rparr>"
    by (subst c'(4)) (simp add: mes_send_error_msg_def pop(3))
  moreover have "q_reqs (rc_lock_item_pool c') (Q(k \<mapsto> DRC_LIST_INIT)) = (q_reqs ?pool Q)(k \<mapsto> [])"
    using c'(3) pop(4) by simp
  ultimately show ?case using c'(2) by blast
qed

end
