(* ===== verification/Page_Inv.thy ===== *)
theory Page_Inv
  imports Convert_Queues
begin

text \<open>
  The invariant of the catalogue, and the routines that work on one page. The catalogue is well
  formed when both directories stand for finite maps of resources, the convert queues of all these
  resources share the lock item pool without overlap, and every page and every lock is in a
  consistent state (\<open>page_ok\<close>, \<open>lock_ok\<close>).

  \<open>page_at\<close> is the state in the middle of a handler that has read a page: the lemmas on claims show
  what happens to the page and to its queue, and that no panic and no access outside the pools occurs.
\<close>

subsection \<open>The contents of a pool\<close>

text \<open>
  The items of a pool without their links, allocated or not. Only writing a resource changes them.
\<close>

definition contents :: "('k, 'a drc_res_base_ext) drc_global_res \<Rightarrow> 'a drc_res_base_scheme list" where
  "contents g = map strip (gr_mem g)"

lemma strip_node [simp]: "strip (res\<lparr>rb_node := n\<rparr>) = strip res"
  by (simp add: strip_def)

lemma strip_next [simp]: "strip (res\<lparr>bh_next := n\<rparr>) = strip res"
  by (simp add: strip_def)

lemma strip_strip [simp]: "strip (strip res) = strip res"
  by (simp add: strip_def)

lemma strip_set_next: "set_next mem i n = Some mem' \<Longrightarrow> map strip mem' = map strip mem"
  by (auto simp: set_next_def rd_def wr_def map_update list_update_same_conv split: if_splits)

lemma strip_unlink: "map_unlink cmp mem bucket k pre idx n = Some (mem', bucket') \<Longrightarrow>
    map strip mem' = map strip mem"
  by (induction n arbitrary: pre idx)
    (auto dest: strip_set_next split: Option.bind_splits if_splits option.splits)

lemma contents_write: "gr_write g i y = Some g' \<Longrightarrow> contents g' = (contents g)[unat i := strip y]"
  by (auto simp: gr_write_def wr_def contents_def map_update split: if_splits)

lemma contents_alloc: "gr_alloc g = Some (i, g') \<Longrightarrow> contents g' = contents g"
  by (auto simp: gr_alloc_def drc_res_pool_alloc_item_def contents_def gr_simps Let_def
      split: if_splits Option.bind_splits)

lemma contents_free: "gr_free g i = Some g' \<Longrightarrow> contents g' = contents g"
  by (auto simp: gr_free_def drc_res_pool_free_item_def drc_res_pool_put_def contents_def gr_simps
      dest: strip_set_next split: if_splits Option.bind_splits)

lemma contents_map_add: "gr_map_add hash g k i = Some g' \<Longrightarrow> contents g' = contents g"
  by (auto simp: gr_map_add_def map_add_def contents_def gr_simps Let_def
      dest: strip_set_next split: prod.splits Option.bind_splits)

lemma contents_map_remove: "gr_map_remove hash g k = Some g' \<Longrightarrow> contents g' = contents g"
  by (auto simp: gr_map_remove_def drc_res_map_remove_def contents_def gr_simps
      split: if_splits Option.bind_splits) (rule strip_unlink, assumption)

lemma contents_nodes: "length ns = length (gr_mem g) \<Longrightarrow>
    contents ((gr_set_mem g (with_nodes (gr_mem g) ns))\<lparr>gr_res_parts := parts\<rparr>) = contents g"
  by (auto simp: contents_def intro: nth_equalityI)

lemma contents_set_part:
  assumes "gr_set_part g part i = Some g'"
  shows "contents g' = (contents g)[unat i := (contents g ! unat i)\<lparr>rb_part_id := part\<rparr>]"
proof -
  obtain res where r: "gr_read g i = Some res"
    "gr_write g i (res\<lparr>rb_part_id := part, rb_node := (rb_node res)\<lparr>ln_idx := i\<rparr>\<rparr>) = Some g'"
    using assms by (auto simp: gr_set_part_def split: Option.bind_splits)
  have "strip (res\<lparr>rb_part_id := part, rb_node := (rb_node res)\<lparr>ln_idx := i\<rparr>\<rparr>) = (strip res)\<lparr>rb_part_id := part\<rparr>"
    by (simp add: strip_def)
  then show ?thesis
    using contents_write [OF r(2)] r(1) by (auto simp: gr_read_def rd_def contents_def split: if_splits)
qed

lemma contents_part_add: "gr_part_add g part i = Some g' \<Longrightarrow> contents g' = contents g"
  by (auto simp: gr_part_add_def list_add_def wr_def intro!: contents_nodes
      split: if_splits Option.bind_splits option.splits)

lemma contents_part_delete: "drc_clean_page_from_res_part g i = Some g' \<Longrightarrow> contents g' = contents g"
  by (auto simp: drc_clean_page_from_res_part_def list_delete_def put_neighbour_def wr_def intro!: contents_nodes
      split: if_splits Option.bind_splits option.splits prod.splits)

lemmas contents_simps = contents_write contents_alloc contents_free contents_map_add contents_map_remove
  contents_set_part contents_part_add contents_part_delete

subsection \<open>The invariant of the catalogue\<close>

definition converting :: "'a drc_res_base_scheme \<Rightarrow> bool" where
  "converting res \<longleftrightarrow> ri_inst_id (cvt_req res) \<noteq> OG_INVALID_ID8"

definition req_ok :: "drc_req_info \<Rightarrow> bool" where
  "req_ok req \<longleftrightarrow> inst_ok (ri_inst_id req) \<and> ri_req_mode req \<noteq> DRC_LOCK_NULL"

text \<open>
  A page with the requests \<open>rs\<close> in its queue. An exclusive owner is the only one with a copy, the owner
  is not among the holders of read-only copies, requests wait only behind one that is converting,
  and a page is marked as being recycled only while it has an owner and nobody wants it. A page
  that lost its owner has no request, and what is left of it (copies, or earlier dirty pages) says
  who can become the owner.
\<close>

definition page_ok :: "drc_buf_res \<Rightarrow> drc_req_info list \<Rightarrow> bool" where
  "page_ok b rs \<longleftrightarrow>
     br_is_used b \<and> list_all req_ok rs \<and> (if converting b then req_ok (cvt_req b) else rs = []) \<and>
     (rb_mode b = DRC_LOCK_EXCLUSIVE \<longrightarrow> br_readonly_copies b = 0) \<and>
     (br_pending b = DRC_RES_PENDING_ACTION \<longrightarrow> \<not> converting b \<and> br_claimed_owner b \<noteq> OG_INVALID_ID8) \<and>
     br_pending b \<noteq> DRC_RES_CLEAN_EDP_ACTION \<and>
     (if br_claimed_owner b = OG_INVALID_ID8
      then \<not> converting b \<and> (br_readonly_copies b \<noteq> 0 \<longrightarrow> rb_mode b = DRC_LOCK_SHARE) \<and>
        (br_readonly_copies b = 0 \<and> br_edp_map b \<noteq> 0 \<longrightarrow>
           inst_ok (br_latest_edp b) \<and> rb_mode b = DRC_LOCK_EXCLUSIVE)
      else inst_ok (br_claimed_owner b) \<and> rb_mode b \<noteq> DRC_LOCK_NULL \<and>
        br_claimed_owner b \<notin> insts (br_readonly_copies b))"

text \<open>
  A lock with the requests \<open>rs\<close> in its queue: a lock without a mode has no holder, and an exclusive lock
  has at most one. A lock may keep the mode of its last holder (\<^verbatim>\<open>drc_recycle_dls_master\<close>).
\<close>

definition lock_ok :: "drc_master_res \<Rightarrow> drc_req_info list \<Rightarrow> bool" where
  "lock_ok m rs \<longleftrightarrow>
     list_all req_ok rs \<and> (if converting m then req_ok (cvt_req m) else rs = []) \<and>
     (rb_mode m = DRC_LOCK_NULL \<longrightarrow> mr_granted_map m = 0) \<and>
     (rb_mode m = DRC_LOCK_EXCLUSIVE \<longrightarrow> (\<exists>i. insts (mr_granted_map m) \<subseteq> {i}))"

definition cvt_queues :: "(page_id \<Rightarrow> drc_buf_res option) \<Rightarrow> (drid \<Rightarrow> drc_master_res option) \<Rightarrow>
    page_id + drid \<Rightarrow> drc_list option" where
  "cvt_queues V W k = (case k of Inl p \<Rightarrow> map_option rb_convert_q (V p) | Inr l \<Rightarrow> map_option rb_convert_q (W l))"

text \<open>The page pool has items, and every item that is marked as used is the resource of its page.\<close>

definition used_ok :: "drc_buf_res list \<Rightarrow> (page_id \<Rightarrow> drc_buf_res option) \<Rightarrow> bool" where
  "used_ok bs V \<longleftrightarrow> bs \<noteq> [] \<and> (\<forall>j < length bs. br_is_used (bs ! j) \<longrightarrow>
     V (br_page_id (bs ! j)) = Some (bs ! j) \<and> unat (rb_idx (bs ! j)) = j)"

text \<open>
  The catalogue \<open>c\<close> holds the pages \<open>V\<close> and the locks \<open>W\<close>; handlers hold the page items \<open>H\<close>, the lock
  resources \<open>G\<close> and the lock items \<open>F\<close>.
\<close>

definition ctx_rep :: "(u8 \<Rightarrow> u32) \<Rightarrow> drc_res_ctx \<Rightarrow> (page_id \<Rightarrow> drc_buf_res option) \<Rightarrow>
    (drid \<Rightarrow> drc_master_res option) \<Rightarrow> u32 set \<Rightarrow> u32 set \<Rightarrow> u32 set \<Rightarrow> bool" where
  "ctx_rep promote c V W H G F \<longleftrightarrow>
     dir_rep page_hash br_page_id is_same_page (rc_global_buf_res c) V H \<and>
     used_ok (contents (rc_global_buf_res c)) V \<and>
     dir_rep (lock_hash promote) mr_res_id is_same_lock (rc_global_lock_res c) W G \<and>
     queues_ok (rc_lock_item_pool c) (cvt_queues V W) F"

definition ctx_ok :: "(u8 \<Rightarrow> u32) \<Rightarrow> drc_res_ctx \<Rightarrow> (page_id \<Rightarrow> drc_buf_res option) \<Rightarrow>
    (drid \<Rightarrow> drc_master_res option) \<Rightarrow> u32 set \<Rightarrow> u32 set \<Rightarrow> u32 set \<Rightarrow> bool" where
  "ctx_ok promote c V W H G F \<longleftrightarrow> ctx_rep promote c V W H G F \<and>
     (\<forall>p b. V p = Some b \<longrightarrow> page_ok b (cvt_q_reqs (rc_lock_item_pool c) (rb_convert_q b))) \<and>
     (\<forall>l m. W l = Some m \<longrightarrow> lock_ok m (cvt_q_reqs (rc_lock_item_pool c) (rb_convert_q m)))"

text \<open>Pages without and with an owner.\<close>

lemma page_ok_orphan:
  assumes "br_claimed_owner b = OG_INVALID_ID8"
  shows "page_ok b rs \<longleftrightarrow> br_is_used b \<and> \<not> converting b \<and> rs = [] \<and>
    br_pending b \<noteq> DRC_RES_PENDING_ACTION \<and> br_pending b \<noteq> DRC_RES_CLEAN_EDP_ACTION \<and>
    (br_readonly_copies b \<noteq> 0 \<longrightarrow> rb_mode b = DRC_LOCK_SHARE) \<and>
    (br_readonly_copies b = 0 \<and> br_edp_map b \<noteq> 0 \<longrightarrow> inst_ok (br_latest_edp b) \<and> rb_mode b = DRC_LOCK_EXCLUSIVE)"
  unfolding page_ok_def assms by (cases "converting b"; cases "rb_mode b"; cases rs) (simp_all, blast)

lemma page_ok_owned:
  assumes "br_claimed_owner b \<noteq> OG_INVALID_ID8"
  shows "page_ok b rs \<longleftrightarrow> br_is_used b \<and> list_all req_ok rs \<and>
    (converting b \<longrightarrow> req_ok (cvt_req b) \<and> br_pending b \<noteq> DRC_RES_PENDING_ACTION) \<and> (\<not> converting b \<longrightarrow> rs = []) \<and>
    br_pending b \<noteq> DRC_RES_CLEAN_EDP_ACTION \<and> (rb_mode b = DRC_LOCK_EXCLUSIVE \<longrightarrow> br_readonly_copies b = 0) \<and>
    inst_ok (br_claimed_owner b) \<and> rb_mode b \<noteq> DRC_LOCK_NULL \<and> br_claimed_owner b \<notin> insts (br_readonly_copies b)"
  unfolding page_ok_def using assms by (cases "converting b") (simp_all, blast+)

lemma cvt_queues_upd [simp]:
  "cvt_queues (V(p := x)) W = (cvt_queues V W)(Inl p := map_option rb_convert_q x)"
  "cvt_queues V (W(l := y)) = (cvt_queues V W)(Inr l := map_option rb_convert_q y)"
  by (auto simp: fun_eq_iff cvt_queues_def split: sum.splits)

lemma cvt_queues_sel [simp]:
  "cvt_queues V W (Inl p) = map_option rb_convert_q (V p)"
  "cvt_queues V W (Inr l) = map_option rb_convert_q (W l)"
  by (simp_all add: cvt_queues_def)

text \<open>Finding and reading a page.\<close>

lemma strip_buf [simp]: "br_claimed_owner (strip b) = br_claimed_owner b" "br_latest_edp (strip b) = br_latest_edp b"
  "br_pending (strip b) = br_pending b" "br_latest_edp_lsn (strip b) = br_latest_edp_lsn b"
  "br_page_id (strip b) = br_page_id b" "br_is_used (strip b) = br_is_used b"
  "br_edp_map (strip b) = br_edp_map b" "br_lsn (strip b) = br_lsn b"
  "br_readonly_copies (strip b) = br_readonly_copies b"
  by (simp_all add: strip_def)

lemma strip_base [simp]: "rb_idx (strip res) = rb_idx res" "rb_mode (strip res) = rb_mode res"
  "rb_part_id (strip res) = rb_part_id res" "rb_converting (strip res) = rb_converting res"
  "rb_convert_q (strip res) = rb_convert_q res"
  by (simp_all add: strip_def)

lemma strip_lock [simp]: "mr_res_id (strip m) = mr_res_id m" "mr_granted_map (strip m) = mr_granted_map m"
  by (simp_all add: strip_def)

lemma strip_cvt [simp]: "cvt_req (strip res) = cvt_req res" "converting (strip res) = converting res"
  by (simp_all add: cvt_req_def converting_def)

lemma page_ok_strip [simp]: "page_ok (strip b) = page_ok b"
  by (simp add: fun_eq_iff page_ok_def)

lemma lock_ok_strip [simp]: "lock_ok (strip m) = lock_ok m"
  by (simp add: fun_eq_iff lock_ok_def)

lemma ctx_repD:
  assumes "ctx_rep promote c V W H G F"
  shows "page_dir.rep (rc_global_buf_res c) V H" "used_ok (contents (rc_global_buf_res c)) V"
    "lock_dir.rep promote (rc_global_lock_res c) W G" "queues_ok (rc_lock_item_pool c) (cvt_queues V W) F"
  using assms by (simp_all add: ctx_rep_def)

lemma buf_find_rep: "ctx_rep promote c V W H G F \<Longrightarrow> buf_find c p = Some (map_option rb_idx (V p))"
  by (simp add: buf_find_def page_dir.rep_lookup [OF ctx_repD(1)])

lemma buf_get_rep:
  assumes "ctx_rep promote c V W H G F" and "V p = Some b"
  shows "\<exists>x. buf_get c (rb_idx b) = Some x \<and> strip x = b"
  using page_dir.rep_read [OF ctx_repD(1) [OF assms(1)] assms(2)] by (simp add: buf_get_def)

lemma page_key: "ctx_rep promote c V W H G F \<Longrightarrow> V p = Some b \<Longrightarrow> br_page_id b = p"
  using page_dir.rep_find(2) [OF ctx_repD(1)] by blast

subsection \<open>Working on one page\<close>

text \<open>
  A handler reads a resource, works on it and writes it back. Meanwhile the queue of the resource is
  the one of the value \<open>b\<close> the handler works on, and everything else is as in the directory.
\<close>

definition links :: "drc_buf_res \<Rightarrow> u32 \<times> drc_list_node \<times> u16 \<times> u32 \<times> page_id" where
  "links b = (bh_next b, rb_node b, rb_part_id b, rb_idx b, br_page_id b)"

definition page_at :: "(u8 \<Rightarrow> u32) \<Rightarrow> drc_res_ctx \<Rightarrow> page_id \<Rightarrow> drc_buf_res \<Rightarrow> (page_id \<Rightarrow> drc_buf_res option) \<Rightarrow>
    (drid \<Rightarrow> drc_master_res option) \<Rightarrow> u32 set \<Rightarrow> u32 set \<Rightarrow> u32 set \<Rightarrow> bool" where
  "page_at promote c p b V W H G F \<longleftrightarrow>
     (\<exists>x. buf_get c (rb_idx b) = Some x \<and> links x = links b \<and> V p = Some (strip x)) \<and>
     dir_rep page_hash br_page_id is_same_page (rc_global_buf_res c) V H \<and>
     used_ok (contents (rc_global_buf_res c)) V \<and>
     dir_rep (lock_hash promote) mr_res_id is_same_lock (rc_global_lock_res c) W G \<and>
     queues_ok (rc_lock_item_pool c) ((cvt_queues V W)(Inl p \<mapsto> rb_convert_q b)) F \<and>
     (\<forall>p' b'. p' \<noteq> p \<longrightarrow> V p' = Some b' \<longrightarrow> page_ok b' (cvt_q_reqs (rc_lock_item_pool c) (rb_convert_q b'))) \<and>
     (\<forall>l m. W l = Some m \<longrightarrow> lock_ok m (cvt_q_reqs (rc_lock_item_pool c) (rb_convert_q m)))"

abbreviation waiting :: "drc_res_ctx \<Rightarrow> 'a drc_res_base_scheme \<Rightarrow> drc_req_info list" where
  "waiting c res \<equiv> cvt_q_reqs (rc_lock_item_pool c) (rb_convert_q res)"

lemma page_at_start:
  assumes ok: "ctx_ok promote c V W H G F" and V: "V p = Some b0"
  shows "\<exists>b. buf_get c (rb_idx b0) = Some b \<and> strip b = b0 \<and> rb_idx b = rb_idx b0 \<and>
    page_at promote c p b V W H G F \<and> page_ok b (waiting c b)"
proof -
  have rep: "ctx_rep promote c V W H G F" using ok by (simp add: ctx_ok_def)
  obtain b where b: "buf_get c (rb_idx b0) = Some b" "strip b = b0"
    using buf_get_rep [OF rep V] by blast
  have q: "rb_convert_q b = rb_convert_q b0" "rb_idx b = rb_idx b0" "page_ok b = page_ok b0"
    using b(2) by auto
  have "(cvt_queues V W)(Inl p \<mapsto> rb_convert_q b) = cvt_queues V W"
    using V q by (simp add: fun_upd_idem)
  then have "page_at promote c p b V W H G F"
    using ok b q V by (simp add: page_at_def ctx_ok_def ctx_rep_def)
  moreover have "page_ok b (waiting c b)"
    using ok V q by (simp add: ctx_ok_def)
  ultimately show ?thesis using b q by blast
qed

lemma used_ok_update:
  assumes "used_ok bs V" and "V p = Some (bs ! i)" "i < length bs" and "br_page_id b = p" "unat (rb_idx b) = i"
    and "unat (rb_idx (bs ! i)) = i"
  shows "used_ok (bs[i := b]) (V(p \<mapsto> b))"
  unfolding used_ok_def
proof (intro conjI [of "bs[i := b] \<noteq> []"] allI impI)
  show "bs[i := b] \<noteq> []" using assms(1) by (simp add: used_ok_def)
  fix j assume j: "j < length (bs[i := b])" "br_is_used (bs[i := b] ! j)"
  show "(V(p \<mapsto> b)) (br_page_id (bs[i := b] ! j)) = Some (bs[i := b] ! j) \<and> unat (rb_idx (bs[i := b] ! j)) = j"
  proof (cases "j = i")
    case True
    then show ?thesis using assms by simp
  next
    case False
    then have v: "V (br_page_id (bs ! j)) = Some (bs ! j)" "unat (rb_idx (bs ! j)) = j"
      using j assms(1) by (simp_all add: used_ok_def)
    then have "br_page_id (bs ! j) \<noteq> p" using assms(2,6) False by auto
    then show ?thesis using v False by simp
  qed
qed

lemma page_at_put:
  assumes at: "page_at promote c p b V W H G F" and ok: "page_ok b (waiting c b)"
  shows "\<exists>g'. buf_put c (rb_idx b) b = Some (c\<lparr>rc_global_buf_res := g'\<rparr>) \<and>
    ctx_ok promote (c\<lparr>rc_global_buf_res := g'\<rparr>) (V(p \<mapsto> strip b)) W H G F"
proof -
  let ?g = "rc_global_buf_res c"
  obtain x where x: "buf_get c (rb_idx b) = Some x" "links x = links b" "V p = Some (strip x)"
    using at by (auto simp: page_at_def)
  have rep: "page_dir.rep ?g V H" and used: "used_ok (contents ?g) V"
    using at by (simp_all add: page_at_def)
  have l: "bh_next b = bh_next x" "rb_node b = rb_node x" "rb_part_id b = rb_part_id x"
    "rb_idx b = rb_idx x" "br_page_id b = br_page_id x"
    using x(2) by (simp_all add: links_def)
  obtain g' where g': "gr_write ?g (rb_idx b) b = Some g'" "page_dir.rep g' (V(p \<mapsto> strip b)) H"
    using page_dir.rep_write [OF rep x(3), of x b] x(1) l by (auto simp: buf_get_def)
  have p: "br_page_id b = p" using page_dir.rep_find(2) [OF rep x(3)] l by simp
  have i: "unat (rb_idx b) < length (contents ?g)" "contents ?g ! unat (rb_idx b) = strip x"
    using x(1) by (auto simp: buf_get_def gr_read_def rd_def contents_def split: if_splits)
  have "used_ok (contents g') (V(p \<mapsto> strip b))"
    using used_ok_update [OF used, of p "unat (rb_idx b)" "strip b"] i x(3) l p contents_write [OF g'(1)] by simp
  then have "ctx_rep promote (c\<lparr>rc_global_buf_res := g'\<rparr>) (V(p \<mapsto> strip b)) W H G F"
    using at g'(2) by (simp add: ctx_rep_def page_at_def)
  moreover have "page_ok b' (waiting c b')" if "(V(p \<mapsto> strip b)) p' = Some b'" for p' b'
    using that ok at by (auto simp: page_at_def split: if_splits)
  moreover have "lock_ok m (waiting c m)" if "W l = Some m" for l m
    using that at by (simp add: page_at_def)
  ultimately have "ctx_ok promote (c\<lparr>rc_global_buf_res := g'\<rparr>) (V(p \<mapsto> strip b)) W H G F"
    by (simp add: ctx_ok_def)
  then show ?thesis using g'(1) by (auto simp: buf_put_def)
qed

text \<open>Steps that leave the directories alone, with and without a change of the queue.\<close>

definition same_dirs :: "drc_res_ctx \<Rightarrow> drc_res_ctx \<Rightarrow> bool" where
  "same_dirs c c' \<longleftrightarrow> rc_global_buf_res c' = rc_global_buf_res c \<and> rc_global_lock_res c' = rc_global_lock_res c"

definition same_stores :: "drc_res_ctx \<Rightarrow> drc_res_ctx \<Rightarrow> bool" where
  "same_stores c c' \<longleftrightarrow> same_dirs c c' \<and> rc_lock_item_pool c' = rc_lock_item_pool c"

lemma page_at_cong:
  assumes "page_at promote c p b V W H G F" and "same_stores c c'"
    and "rb_convert_q b' = rb_convert_q b" "links b' = links b"
  shows "page_at promote c' p b' V W H G F"
proof -
  have "rb_idx b' = rb_idx b" using assms(4) by (simp add: links_def)
  then show ?thesis using assms by (simp add: page_at_def same_stores_def same_dirs_def buf_get_def)
qed

lemma page_at_queue:
  assumes at: "page_at promote c p b V W H G F" and dirs: "same_dirs c c'" and l: "links b' = links b"
    and ok: "queues_ok (rc_lock_item_pool c') ((cvt_queues V W)(Inl p \<mapsto> rb_convert_q b')) F'"
    and reqs: "q_reqs (rc_lock_item_pool c') ((cvt_queues V W)(Inl p \<mapsto> rb_convert_q b')) =
      (q_reqs (rc_lock_item_pool c) ((cvt_queues V W)(Inl p \<mapsto> rb_convert_q b)))(Inl p \<mapsto> rs)"
  shows "page_at promote c' p b' V W H G F' \<and> waiting c' b' = rs"
proof -
  have idx: "rb_idx b' = rb_idx b" using l by (simp add: links_def)
  have "q_reqs (rc_lock_item_pool c') ((cvt_queues V W)(Inl p \<mapsto> rb_convert_q b')) (Inl p) = Some rs"
    by (simp add: reqs)
  then have "waiting c' b' = rs" by (simp add: q_reqs_def)
  moreover have "waiting c' b1 = waiting c b1" if "p1 \<noteq> p" "V p1 = Some b1" for p1 b1
    using fun_cong [OF reqs, of "Inl p1"] that by (simp add: q_reqs_def)
  moreover have "waiting c' m = waiting c m" if "W l1 = Some m" for l1 m
    using fun_cong [OF reqs, of "Inr l1"] that by (simp add: q_reqs_def)
  ultimately show ?thesis
    using at dirs ok idx l by (simp add: page_at_def same_dirs_def buf_get_def)
qed

lemma page_at_queues:
  assumes "page_at promote c p b V W H G F"
  shows "queues_ok (rc_lock_item_pool c) ((cvt_queues V W)(Inl p \<mapsto> rb_convert_q b)) F"
  using assms by (simp add: page_at_def)

lemma waiting_length: "length (waiting c b) = unat (dl_count (rb_convert_q b))"
  by (simp add: cvt_q_reqs_def cvt_q_chain_def)

lemma page_at_pop:
  assumes at: "page_at promote c p b V W H G F" and ne: "waiting c b = r # rs"
  shows "\<exists>item pool q. cvt_q_pop (rc_lock_item_pool c) (rb_convert_q b) = Some (item, pool, q) \<and>
    li_req_info item = r \<and> dl_first (rb_convert_q b) \<noteq> OG_INVALID_ID32 \<and> unat (dl_count q) = length rs \<and>
    (\<forall>c' b'. same_dirs c c' \<longrightarrow> rc_lock_item_pool c' = pool \<longrightarrow> links b' = links b \<longrightarrow> rb_convert_q b' = q \<longrightarrow>
       page_at promote c' p b' V W H G F \<and> waiting c' b' = rs)"
proof -
  let ?Q = "(cvt_queues V W)(Inl p \<mapsto> rb_convert_q b)"
  have n: "dl_count (rb_convert_q b) \<noteq> 0" using ne by (auto simp: cvt_q_reqs_def cvt_q_chain_def)
  obtain item pool q where i: "cvt_q_pop (rc_lock_item_pool c) (rb_convert_q b) = Some (item, pool, q)"
    "queues_ok pool (?Q(Inl p \<mapsto> q)) F" "waiting c b = li_req_info item # cvt_q_reqs pool q"
    "q_reqs pool (?Q(Inl p \<mapsto> q)) = (q_reqs (rc_lock_item_pool c) ?Q)(Inl p \<mapsto> cvt_q_reqs pool q)"
    "dl_first (rb_convert_q b) \<noteq> OG_INVALID_ID32"
    using queues_pop [OF page_at_queues [OF at] fun_upd_same n] by blast
  have rs: "cvt_q_reqs pool q = rs" "li_req_info item = r" using i(3) ne by simp_all
  then have "unat (dl_count q) = length rs" by (auto simp: cvt_q_reqs_def cvt_q_chain_def)
  moreover have "page_at promote c' p b' V W H G F \<and> waiting c' b' = rs"
    if "same_dirs c c'" "rc_lock_item_pool c' = pool" "links b' = links b" "rb_convert_q b' = q" for c' b'
    using page_at_queue [OF at that(1,3), of F rs] that i(2,4) rs by simp
  ultimately show ?thesis using i(1,5) rs by blast
qed

subsection \<open>Claims\<close>

lemma req_okD: "req_ok req \<Longrightarrow> inst_ok (ri_inst_id req) \<and> ri_inst_id req \<noteq> OG_INVALID_ID8"
  by (auto simp: req_ok_def)

lemma stores_refl [simp]: "same_stores c c" "same_dirs c c"
  by (simp_all add: same_stores_def same_dirs_def)

lemma stores_stat [simp]: "same_stores c (stat_inc t c')  = same_stores c c'" "same_stores c (stat_dec t c') = same_stores c c'"
  "same_dirs c (stat_inc t c') = same_dirs c c'" "same_dirs c (stat_dec t c') = same_dirs c c'"
  "same_dirs c (mes_send_error_msg r c') = same_dirs c c'" "same_dirs c (c'\<lparr>rc_lock_item_pool := pool\<rparr>) = same_dirs c c'"
  by (simp_all add: same_stores_def same_dirs_def stat_inc_def stat_dec_def mes_send_error_msg_def)

lemma stat_sel [simp]: "rc_sent (stat_inc t c) = rc_sent c" "rc_sent (stat_dec t c) = rc_sent c"
  "rc_lock_item_pool (stat_inc t c) = rc_lock_item_pool c" "rc_lock_item_pool (stat_dec t c) = rc_lock_item_pool c"
  "rc_lock_item_pool (mes_send_error_msg r c) = rc_lock_item_pool c"
  "rc_sent (mes_send_error_msg r c) = rc_sent c @ [error_to r]"
  by (simp_all add: stat_inc_def stat_dec_def mes_send_error_msg_def)

lemma stores_trans: "same_stores c c' \<Longrightarrow> same_stores c' c'' \<Longrightarrow> same_stores c c''"
  "same_dirs c c' \<Longrightarrow> same_dirs c' c'' \<Longrightarrow> same_dirs c c''" "same_stores c c' \<Longrightarrow> same_dirs c c'"
  by (simp_all add: same_stores_def same_dirs_def)

lemma page_ok_owner:
  assumes "page_ok b rs" and "converting b \<or> br_claimed_owner b \<noteq> OG_INVALID_ID8"
  shows "br_claimed_owner b \<noteq> OG_INVALID_ID8" "inst_ok (br_claimed_owner b)" "rb_mode b \<noteq> DRC_LOCK_NULL"
    "br_claimed_owner b \<notin> insts (br_readonly_copies b)"
  using assms unfolding page_ok_def by presburger+

lemma page_ok_pending:
  assumes "page_ok b rs" and "converting b"
  shows "br_pending b = DRC_RES_INVALID_ACTION \<or> br_pending b = DRC_RES_SHARE_ACTION \<or>
      br_pending b = DRC_RES_EXCLUSIVE_ACTION"
  using assms by (cases "br_pending b") (simp_all add: page_ok_def)

lemma claim_new_ok:
  assumes ok: "page_ok b rs" and cvt: "converting b" and same: "drc_is_same_claim_request (cvt_req b) claim"
    and valid: "\<not> drc_claim_info_is_invalid claim b"
  shows "\<exists>b' c'. drc_claim_new_page_owner claim b c = Some (b', c') \<and> same_stores c c' \<and> rc_sent c' = rc_sent c \<and>
    links b' = links b \<and> rb_convert_q b' = rb_convert_q b \<and> rb_converting b' = rb_converting b \<and> page_ok b' rs \<and>
    br_claimed_owner b' \<noteq> OG_INVALID_ID8 \<and> br_pending b' = DRC_RES_INVALID_ACTION \<and>
    (if cl_mode claim = DRC_LOCK_EXCLUSIVE
     then br_claimed_owner b' = cl_new_id claim \<and> rb_mode b' = DRC_LOCK_EXCLUSIVE \<and> br_readonly_copies b' = 0
     else br_claimed_owner b' = br_claimed_owner b \<and> cl_new_id claim \<in> insert (br_claimed_owner b') (insts (br_readonly_copies b')))"
proof -
  have m: "cl_mode claim = ri_req_mode (cvt_req b)" "cl_new_id claim = ri_inst_id (cvt_req b)"
    using same by (simp_all add: drc_is_same_claim_request_def)
  have r: "req_ok (cvt_req b)" using ok cvt by (simp add: page_ok_def)
  have inst: "inst_ok (cl_new_id claim)" "cl_mode claim \<noteq> DRC_LOCK_NULL" "cl_new_id claim \<noteq> OG_INVALID_ID8"
    using req_okD [OF r] r m by (auto simp: req_ok_def)
  have o: "br_claimed_owner b \<noteq> OG_INVALID_ID8" "inst_ok (br_claimed_owner b)" "rb_mode b \<noteq> DRC_LOCK_NULL"
    "br_claimed_owner b \<notin> insts (br_readonly_copies b)"
    using page_ok_owner [OF ok] cvt by simp_all
  have pend: "br_pending b = DRC_RES_INVALID_ACTION \<or> br_pending b = DRC_RES_SHARE_ACTION \<or>
      br_pending b = DRC_RES_EXCLUSIVE_ACTION"
    by (rule page_ok_pending [OF ok cvt])
  show ?thesis
    using m inst o pend valid ok cvt r
    by (cases "cl_mode claim"; cases "rb_mode b")
      (auto simp: drc_claim_new_page_owner_def drc_claim_info_is_invalid_def Let_def links_def page_ok_def
        converting_def cvt_req_def knl_panic_def mode_order not_less split: if_splits)
qed

lemma bh_next_converting [simp]: "bh_next (res\<lparr>rb_converting := item\<rparr>) = bh_next res"
  by (cases res) simp

text \<open>
  The request that converts next: the first in the queue that has not expired. The requests before it
  are dropped, and their senders are told.
\<close>

fun next_unexpired :: "(nat \<Rightarrow> int) \<Rightarrow> drc_req_info list \<Rightarrow> drc_req_info list \<times> drc_req_info list" where
  "next_unexpired now [] = ([], [])"
| "next_unexpired now (r # rs) =
     (if req_expired (now (length rs)) r then apfst (Cons r) (next_unexpired now rs) else ([], r # rs))"

lemma page_ok_next:
  assumes "page_ok b rs" and "converting b" and "req_ok (li_req_info item)" and "list_all req_ok rs'"
  shows "page_ok (b\<lparr>rb_convert_q := q, rb_converting := item\<rparr>) rs'"
    "converting (b\<lparr>rb_convert_q := q, rb_converting := item\<rparr>)"
  using assms req_okD [OF assms(3)] page_ok_owner [OF assms(1)]
  by (simp_all add: page_ok_def converting_def cvt_req_def)

lemma page_ok_idle:
  assumes "page_ok b rs" and "br_pending b \<noteq> DRC_RES_PENDING_ACTION" "br_claimed_owner b \<noteq> OG_INVALID_ID8"
    and "ri_inst_id req = OG_INVALID_ID8"
  shows "page_ok (set_cvt_req req b) []" "\<not> converting (set_cvt_req req b)"
  using assms page_ok_owner [OF assms(1)] by (simp_all add: page_ok_def converting_def cvt_req_def set_cvt_req_def)

definition same_page :: "drc_buf_res \<Rightarrow> drc_buf_res \<Rightarrow> bool" where
  "same_page b b' \<longleftrightarrow> (\<exists>item q. b' = b\<lparr>rb_convert_q := q, rb_converting := item\<rparr>)"

lemma same_page_sel:
  assumes "same_page b b'"
  shows "links b' = links b" "br_claimed_owner b' = br_claimed_owner b" "rb_mode b' = rb_mode b"
    "br_readonly_copies b' = br_readonly_copies b" "br_edp_map b' = br_edp_map b" "br_pending b' = br_pending b"
    "br_page_id b' = br_page_id b" "br_lsn b' = br_lsn b" "br_latest_edp b' = br_latest_edp b" "rb_idx b' = rb_idx b"
  using assms by (auto simp: same_page_def links_def)

lemma same_page_next: "same_page (b\<lparr>rb_convert_q := q, rb_converting := item\<rparr>) b' \<Longrightarrow> same_page b b'"
  by (auto simp: same_page_def)

lemma same_page_set: "same_page b (set_cvt_req req b)" "same_page b (b\<lparr>rb_convert_q := q, rb_converting := item\<rparr>)"
  "same_page b b"
proof -
  show "same_page b (set_cvt_req req b)"
    unfolding same_page_def set_cvt_req_def
    by (rule exI [of _ "(rb_converting b)\<lparr>li_req_info := req\<rparr>"], rule exI [of _ "rb_convert_q b"]) simp
  show "same_page b b"
    unfolding same_page_def by (rule exI [of _ "rb_converting b"], rule exI [of _ "rb_convert_q b"]) simp
qed (auto simp: same_page_def)

lemma convert_loop_ok:
  assumes "page_at promote c p b V W H G F" and "waiting c b = rs" and "page_ok b rs" and "converting b"
  shows "\<exists>e b' c'. drc_convert_loop now b c (length rs) = Some (e, b', c') \<and> page_at promote c' p b' V W H G F \<and>
    page_ok b' (waiting c' b') \<and> same_page b b' \<and>
    rc_sent c' = rc_sent c @ map error_to (fst (next_unexpired now rs)) \<and>
    (case snd (next_unexpired now rs) of
       [] \<Rightarrow> e \<and> \<not> converting b' \<and> waiting c' b' = []
     | r # rs' \<Rightarrow> \<not> e \<and> converting b' \<and> cvt_req b' = r \<and> waiting c' b' = rs')"
  using assms
proof (induction rs arbitrary: c b)
  case Nil
  let ?b = "set_cvt_req ((cvt_req b)\<lparr>ri_inst_id := OG_INVALID_ID8,
             ri_req_mode := DRC_LOCK_NULL, ri_inst_sid := OG_INVALID_ID16\<rparr>) b"
  have pend: "br_pending b \<noteq> DRC_RES_PENDING_ACTION"
    using Nil.prems(3,4) by (auto simp: page_ok_def)
  have idle: "page_ok ?b []" "\<not> converting ?b"
    using page_ok_idle [OF Nil.prems(3) pend] page_ok_owner [OF Nil.prems(3)] Nil.prems(4) by simp_all
  have q: "rb_convert_q ?b = rb_convert_q b" "links ?b = links b" "same_page b ?b"
    by (simp_all add: same_page_set) (simp_all add: set_cvt_req_def links_def)
  then have "waiting (stat_dec R_PO_CVTING_CURR c) ?b = []" using Nil.prems(2) by simp
  moreover have "page_at promote (stat_dec R_PO_CVTING_CURR c) p ?b V W H G F"
    by (rule page_at_cong [OF Nil.prems(1)]) (simp_all add: q)
  ultimately show ?case using idle q by auto
next
  case (Cons r rs)
  obtain item pool q where pop: "cvt_q_pop (rc_lock_item_pool c) (rb_convert_q b) = Some (item, pool, q)"
    "li_req_info item = r" "dl_first (rb_convert_q b) \<noteq> OG_INVALID_ID32"
    and at: "\<And>c' b'. same_dirs c c' \<Longrightarrow> rc_lock_item_pool c' = pool \<Longrightarrow> links b' = links b \<Longrightarrow>
       rb_convert_q b' = q \<Longrightarrow> page_at promote c' p b' V W H G F \<and> waiting c' b' = rs"
    using page_at_pop [OF Cons.prems(1,2)] by blast
  let ?b = "b\<lparr>rb_convert_q := q, rb_converting := item\<rparr>" and ?c = "c\<lparr>rc_lock_item_pool := pool\<rparr>"
  have reqs: "list_all req_ok (r # rs)" using Cons.prems(3) by (simp add: page_ok_def)
  have ok: "page_ok ?b rs" "converting ?b"
    using page_ok_next [OF Cons.prems(3,4), of item rs q] pop(2) reqs by simp_all
  have l: "links ?b = links b" "cvt_req ?b = r" "same_page b ?b"
    using pop(2) by (simp_all add: same_page_set links_def cvt_req_def)
  show ?case
  proof (cases "req_expired (now (length rs)) r")
    case True
    let ?c' = "mes_send_error_msg r ?c"
    have at': "page_at promote ?c' p ?b V W H G F \<and> waiting ?c' ?b = rs"
      by (rule at) (simp_all add: l)
    have loop: "drc_convert_loop now b c (length (r # rs)) = drc_convert_loop now ?b ?c' (length rs)"
      using pop l(2) True by (simp add: Let_def knl_panic_def)
    show ?thesis
      unfolding loop using Cons.IH [OF at' [THEN conjunct1] at' [THEN conjunct2] ok] True same_page_next
      by fastforce
  next
    case False
    have at': "page_at promote ?c p ?b V W H G F \<and> waiting ?c ?b = rs"
      by (rule at) (simp_all add: l)
    have "drc_convert_loop now b c (length (r # rs)) = Some (False, ?b, ?c)"
      using pop l(2) False by (simp add: Let_def knl_panic_def)
    then show ?thesis using at' ok l False by auto
  qed
qed

text \<open>A request that conflicts with the one that converts: both could wait for each other.\<close>

definition conflicts :: "drc_req_info \<Rightarrow> drc_buf_res \<Rightarrow> bool" where
  "conflicts req b \<longleftrightarrow>
     (ri_inst_id (cvt_req b) = br_claimed_owner b \<and> rb_mode b = DRC_LOCK_SHARE \<and>
        ri_req_mode (cvt_req b) = DRC_LOCK_EXCLUSIVE \<and> ri_inst_id req \<in> insts (br_readonly_copies b)) \<or>
     (ri_inst_id req = br_claimed_owner b \<and> ri_inst_id (cvt_req b) \<noteq> br_claimed_owner b)"

lemma check_new_req:
  assumes "page_ok b rs" and "converting b"
  shows "\<exists>c'. drc_check_new_req req b c = (if conflicts req b then OG_ERROR else OG_SUCCESS, c') \<and>
    same_stores c c' \<and> rc_sent c' = rc_sent c"
  using page_ok_owner [OF assms(1)] assms(2)
  by (auto simp: drc_check_new_req_def conflicts_def exist_insts)

lemma page_at_detach:
  assumes at: "page_at promote c p b V W H G F" and ne: "waiting c b = r # rs"
  shows "\<exists>item. rd (rp_addr (rc_lock_item_pool c)) (dl_first (rb_convert_q b)) = Some item \<and>
    li_req_info item = r \<and> dl_first (rb_convert_q b) \<noteq> OG_INVALID_ID32 \<and> dl_first (rb_convert_q b) \<notin> F \<and>
    (\<forall>c' b'. same_stores c c' \<longrightarrow> links b' = links b \<longrightarrow>
       rb_convert_q b' = (rb_convert_q b)\<lparr>dl_first := bh_next item, dl_count := dl_count (rb_convert_q b) - 1\<rparr> \<longrightarrow>
       page_at promote c' p b' V W H G (insert (dl_first (rb_convert_q b)) F) \<and> waiting c' b' = rs)"
proof -
  let ?Q = "(cvt_queues V W)(Inl p \<mapsto> rb_convert_q b)" and ?q = "rb_convert_q b"
  have n: "dl_count ?q \<noteq> 0" using ne by (auto simp: cvt_q_reqs_def cvt_q_chain_def)
  obtain item rs' where i: "rd (rp_addr (rc_lock_item_pool c)) (dl_first ?q) = Some item"
    "dl_first ?q \<noteq> OG_INVALID_ID32" "waiting c b = li_req_info item # rs'"
    "queues_ok (rc_lock_item_pool c) (?Q(Inl p \<mapsto> ?q\<lparr>dl_first := bh_next item, dl_count := dl_count ?q - 1\<rparr>))
       (insert (dl_first ?q) F)"
    "q_reqs (rc_lock_item_pool c) (?Q(Inl p \<mapsto> ?q\<lparr>dl_first := bh_next item, dl_count := dl_count ?q - 1\<rparr>)) =
        (q_reqs (rc_lock_item_pool c) ?Q)(Inl p \<mapsto> rs')"
    using queues_detach [OF page_at_queues [OF at] fun_upd_same n] by blast
  have "page_at promote c' p b' V W H G (insert (dl_first ?q) F) \<and> waiting c' b' = rs"
    if "same_stores c c'" "links b' = links b"
      "rb_convert_q b' = ?q\<lparr>dl_first := bh_next item, dl_count := dl_count ?q - 1\<rparr>" for c' b'
  proof -
    have "rc_lock_item_pool c' = rc_lock_item_pool c" "same_dirs c c'"
      using that(1) by (simp_all add: same_stores_def)
    then show ?thesis
      using page_at_queue [OF at _ that(2), of c' "insert (dl_first ?q) F" rs'] that i ne by simp
  qed
  moreover have "dl_first ?q \<notin> F"
  proof -
    obtain n where "unat (dl_count ?q) = Suc n"
      using n by (cases "unat (dl_count ?q)") (auto simp: unat_eq_zero)
    then have "dl_first ?q \<in> set (cvt_q_chain (rc_lock_item_pool c) ?q)" by (simp add: cvt_q_chain_def)
    then show ?thesis using queues_okD(3) [OF page_at_queues [OF at] fun_upd_same] by blast
  qed
  ultimately show ?thesis using i ne by auto
qed

lemma check_first_ok:
  assumes at: "page_at promote c p b V W H G F" and w: "waiting c b = rs" and ok: "page_ok b rs" and cvt: "converting b"
  shows "\<exists>i b' c'. drc_check_first_req_in_convert_queue b c = Some (i, b', c') \<and> same_dirs c c' \<and>
    rc_sent c' = rc_sent c \<and> same_page b b' \<and> rb_converting b' = rb_converting b \<and> page_ok b' (waiting c' b') \<and>
    (case rs of r # rs' \<Rightarrow> if conflicts r b
       then i \<noteq> OG_INVALID_ID32 \<and> i \<notin> F \<and> waiting c' b' = rs' \<and> page_at promote c' p b' V W H G (insert i F) \<and>
         (\<exists>item. rd (rp_addr (rc_lock_item_pool c')) i = Some item \<and> li_req_info item = r)
       else i = OG_INVALID_ID32 \<and> waiting c' b' = rs \<and> page_at promote c' p b' V W H G F
     | [] \<Rightarrow> i = OG_INVALID_ID32 \<and> waiting c' b' = rs \<and> page_at promote c' p b' V W H G F)"
proof (cases rs)
  case Nil
  then have "dl_count (rb_convert_q b) = 0" using w by (auto simp: cvt_q_reqs_def cvt_q_chain_def unat_eq_zero)
  then show ?thesis using Nil at ok w by (simp add: drc_check_first_req_in_convert_queue_def same_page_set)
next
  case (Cons r rs')
  let ?q = "rb_convert_q b"
  obtain item where i: "rd (rp_addr (rc_lock_item_pool c)) (dl_first ?q) = Some item" "li_req_info item = r"
 "dl_first ?q \<noteq> OG_INVALID_ID32"
    "dl_first ?q \<notin> F"
    and at': "\<And>c' b'. same_stores c c' \<Longrightarrow> links b' = links b \<Longrightarrow>
       rb_convert_q b' = ?q\<lparr>dl_first := bh_next item, dl_count := dl_count ?q - 1\<rparr> \<Longrightarrow>
       page_at promote c' p b' V W H G (insert (dl_first ?q) F) \<and> waiting c' b' = rs'"
    using page_at_detach [OF at w [unfolded Cons]] by blast
  have n: "dl_count ?q \<noteq> 0" using w Cons by (auto simp: cvt_q_reqs_def cvt_q_chain_def)
  obtain c1 where c1: "drc_check_new_req r b c = (if conflicts r b then OG_ERROR else OG_SUCCESS, c1)"
    "same_stores c c1" "rc_sent c1 = rc_sent c"
    using check_new_req [OF ok cvt, of r c] by blast
  have pool: "rc_lock_item_pool c1 = rc_lock_item_pool c" "same_dirs c c1"
    using c1(2) by (simp_all add: same_stores_def)
  let ?b = "b\<lparr>rb_convert_q := ?q\<lparr>dl_first := bh_next item, dl_count := dl_count ?q - 1\<rparr>\<rparr>"
  have b: "links ?b = links b" "same_page b ?b" "rb_converting ?b = rb_converting b"
    using same_page_set(2) [where q = "rb_convert_q ?b" and item = "rb_converting b" and b = b] by (simp_all add: links_def)
  show ?thesis
  proof (cases "conflicts r b")
    case True
    have "req_ok (li_req_info (rb_converting b))" "list_all req_ok rs'"
      using ok cvt Cons by (simp_all add: page_ok_def cvt_req_def)
    from page_ok_next(1) [OF ok cvt this, of "rb_convert_q ?b"] have "page_ok ?b rs'" by simp
    then show ?thesis
      using i n c1 pool True Cons b at' [OF c1(2) b(1)]
      by (simp add: drc_check_first_req_in_convert_queue_def)
  next
    case False
    then show ?thesis
      using i n c1 pool Cons ok w page_at_cong [OF at c1(2)]
      by (simp add: drc_check_first_req_in_convert_queue_def same_page_set)
  qed
qed

text \<open>What \<^verbatim>\<open>cvt_info\<close> tells the caller about the request that converts next.\<close>

definition cvt_for :: "drc_buf_res \<Rightarrow> cvt_info \<Rightarrow> bool" where
  "cvt_for b cvt \<longleftrightarrow> ci_req_id cvt = ri_inst_id (cvt_req b) \<and> ci_req_sid cvt = ri_inst_sid (cvt_req b) \<and>
     ci_req_rsn cvt = ri_rsn (cvt_req b) \<and> ci_req_mode cvt = ri_req_mode (cvt_req b) \<and>
     ci_pageid cvt = br_page_id b \<and> ci_owner_id cvt = br_claimed_owner b \<and>
     insts (ci_readonly_copies cvt) =
       insts (br_readonly_copies b) - {ri_inst_id (cvt_req b), br_claimed_owner b}"

text \<open>
  How the queue \<open>rs\<close> of a page moves on: expired requests are dropped, the next one converts, and one
  that conflicts with it is taken off (\<open>conflict\<close>).
\<close>

definition moves_on :: "(nat \<Rightarrow> int) \<Rightarrow> drc_req_info list \<Rightarrow> drc_buf_res \<Rightarrow> drc_req_info list \<Rightarrow>
    drc_req_info option \<Rightarrow> bool" where
  "moves_on now rs b rs' conflict \<longleftrightarrow>
     (case snd (next_unexpired now rs) of
        [] \<Rightarrow> \<not> converting b \<and> rs' = [] \<and> conflict = None
      | r # ts \<Rightarrow> converting b \<and> cvt_req b = r \<and>
          (case ts of [] \<Rightarrow> rs' = [] \<and> conflict = None
           | r' # ts' \<Rightarrow> if conflicts r' b then rs' = ts' \<and> conflict = Some r' else rs' = ts \<and> conflict = None))"

definition item_req :: "drc_res_ctx \<Rightarrow> u32 \<Rightarrow> drc_req_info option" where
  "item_req c i = (if i = OG_INVALID_ID32 then None
     else map_option li_req_info (rd (rp_addr (rc_lock_item_pool c)) i))"

lemma conflicts_cong: "same_page b b' \<Longrightarrow> cvt_req b' = cvt_req b \<Longrightarrow> conflicts r b' = conflicts r b"
  by (simp add: conflicts_def same_page_sel)

lemma same_page_trans: "same_page b b' \<Longrightarrow> same_page b' b'' \<Longrightarrow> same_page b b''"
  by (auto simp: same_page_def [of b b'] dest: same_page_next)

lemma convert_next_ok:
  assumes at: "page_at promote c p b V W H G F" and w: "waiting c b = rs" and ok: "page_ok b rs" and cvt: "converting b"
  shows "\<exists>i b' ci' c'. drc_convert_next_request now b ci c = Some (i, b', ci', c') \<and> same_page b b' \<and>
    page_at promote c' p b' V W H G (if i = OG_INVALID_ID32 then F else insert i F) \<and>
    (i \<noteq> OG_INVALID_ID32 \<longrightarrow> i \<notin> F) \<and> page_ok b' (waiting c' b') \<and>
    rc_sent c' = rc_sent c @ map error_to (fst (next_unexpired now rs)) \<and>
    (if converting b' then cvt_for b' ci' else ci_req_id ci' = ci_req_id ci) \<and>
    moves_on now rs b' (waiting c' b') (item_req c' i)"
proof -
  have n: "unat (dl_count (rb_convert_q b)) = length rs" using w waiting_length by metis
  obtain e b1 c1 where loop: "drc_convert_loop now b c (length rs) = Some (e, b1, c1)"
    "page_at promote c1 p b1 V W H G F" "page_ok b1 (waiting c1 b1)" "same_page b b1"
    "rc_sent c1 = rc_sent c @ map error_to (fst (next_unexpired now rs))"
    and nxt: "case snd (next_unexpired now rs) of
       [] \<Rightarrow> e \<and> \<not> converting b1 \<and> waiting c1 b1 = []
     | r # rs' \<Rightarrow> \<not> e \<and> converting b1 \<and> cvt_req b1 = r \<and> waiting c1 b1 = rs'"
    using convert_loop_ok [OF at w ok cvt, of now] by blast
  show ?thesis
  proof (cases "snd (next_unexpired now rs)")
    case Nil
    then show ?thesis
      using loop nxt n by (simp add: drc_convert_next_request_def moves_on_def item_req_def)
  next
    case (Cons r ts)
    then have c1: "\<not> e" "converting b1" "cvt_req b1 = r" "waiting c1 b1 = ts" using nxt by simp_all
    let ?c1 = "stat_dec R_PO_CVTQ_CURR c1"
    have at1: "page_at promote ?c1 p b1 V W H G F" by (rule page_at_cong [OF loop(2)]) simp_all
    obtain i b2 c2 where f: "drc_check_first_req_in_convert_queue b1 ?c1 = Some (i, b2, c2)" "same_dirs ?c1 c2"
      "rc_sent c2 = rc_sent ?c1" "same_page b1 b2" "rb_converting b2 = rb_converting b1" "page_ok b2 (waiting c2 b2)"
      and conf: "case ts of r # rs' \<Rightarrow> if conflicts r b1
       then i \<noteq> OG_INVALID_ID32 \<and> i \<notin> F \<and> waiting c2 b2 = rs' \<and> page_at promote c2 p b2 V W H G (insert i F) \<and>
         (\<exists>item. rd (rp_addr (rc_lock_item_pool c2)) i = Some item \<and> li_req_info item = r)
       else i = OG_INVALID_ID32 \<and> waiting c2 b2 = ts \<and> page_at promote c2 p b2 V W H G F
     | [] \<Rightarrow> i = OG_INVALID_ID32 \<and> waiting c2 b2 = ts \<and> page_at promote c2 p b2 V W H G F"
      using check_first_ok [OF at1, of ts] c1 loop(3) by auto
    have cv: "converting b2" "cvt_req b2 = r" using f(5) c1 by (simp_all add: converting_def cvt_req_def)
    have con: "conflicts r' b2 = conflicts r' b1" for r'
      using conflicts_cong [OF f(4)] cv c1 by simp
    have at2: "page_at promote c2 p b2 V W H G (if i = OG_INVALID_ID32 then F else insert i F)"
      "i \<noteq> OG_INVALID_ID32 \<Longrightarrow> i \<notin> F"
      "moves_on now rs b2 (waiting c2 b2) (item_req c2 i)"
      using conf cv con Cons by (auto simp: moves_on_def item_req_def split: list.splits if_splits)
    have r: "drc_convert_next_request now b ci c = Some (i, b2,
        ci\<lparr>ci_readonly_copies := drc_bitmap64_clear (drc_bitmap64_clear (br_readonly_copies b1) (ri_inst_id r)) (br_claimed_owner b1),
          ci_pageid := br_page_id b1, ci_owner_id := br_claimed_owner b1,
          ci_req_id := ri_inst_id r, ci_req_sid := ri_inst_sid r, ci_req_rsn := ri_rsn r,
          ci_req_mode := ri_req_mode r, ci_curr_mode := ri_curr_mode r,
          ci_req_version := ri_req_version r, ci_lsn := ri_lsn r\<rparr>, c2)"
      using loop(1) c1 f(1) n by (simp add: drc_convert_next_request_def Let_def)
    show ?thesis
      using r at2 f loop(4,5) cv same_page_trans [OF loop(4) f(4)] same_page_sel [OF f(4)]
      by (auto simp: cvt_for_def)
  qed
qed

end
