(* ===== verification/Page_Protocol.thy ===== *)
theory Page_Protocol
  imports Page_Inv
begin

text \<open>
  The handlers of the page protocol as a whole: every handler ends without a panic and keeps the
  invariant of the catalogue, also when other threads run between its locked sections, as long as
  these keep the invariant themselves. The lemmas on each handler also say what becomes of the page.
\<close>

subsection \<open>The invariant and what other threads keep\<close>

definition buf_view :: "drc_res_ctx \<Rightarrow> page_id \<Rightarrow> drc_buf_res option" where
  "buf_view c = dir_view page_hash br_page_id (rc_global_buf_res c)"

definition lock_view :: "(u8 \<Rightarrow> u32) \<Rightarrow> drc_res_ctx \<Rightarrow> drid \<Rightarrow> drc_master_res option" where
  "lock_view promote c = dir_view (lock_hash promote) mr_res_id (rc_global_lock_res c)"

definition ctx_inv :: "(u8 \<Rightarrow> u32) \<Rightarrow> drc_res_ctx \<Rightarrow> u32 set \<Rightarrow> u32 set \<Rightarrow> u32 set \<Rightarrow> bool" where
  "ctx_inv promote c H G F \<longleftrightarrow> ctx_ok promote c (buf_view c) (lock_view promote c) H G F"

lemma ctx_okD:
  assumes "ctx_ok promote c V W H G F"
  shows "ctx_inv promote c H G F" "buf_view c = V" "lock_view promote c = W"
  using assms by (simp_all add: ctx_inv_def ctx_ok_def ctx_rep_def dir_rep_def buf_view_def lock_view_def)

text \<open>
  What a handler relies on while it has released its locks: the other threads keep the invariant,
  whatever the handlers hold, and a page with a converting request stays where it is.
\<close>

definition keeps_inv :: "(u8 \<Rightarrow> u32) \<Rightarrow> (drc_res_ctx \<Rightarrow> drc_res_ctx) \<Rightarrow> bool" where
  "keeps_inv promote f \<longleftrightarrow> (\<forall>c H G F. ctx_inv promote c H G F \<longrightarrow> ctx_inv promote (f c) H G F)"

definition keeps_converting :: "page_id \<Rightarrow> (drc_res_ctx \<Rightarrow> drc_res_ctx) \<Rightarrow> bool" where
  "keeps_converting p f \<longleftrightarrow> (\<forall>c b. buf_view c p = Some b \<and> converting b \<longrightarrow>
     (\<exists>b'. buf_view (f c) p = Some b' \<and> rb_idx b' = rb_idx b \<and> converting b'))"

lemma keeps_id [simp]: "keeps_inv promote (\<lambda>c. c)" "keeps_converting p (\<lambda>c. c)"
  by (simp_all add: keeps_inv_def keeps_converting_def)

lemma ctx_ok_pool:
  assumes ok: "ctx_ok promote c V W H G F" and dirs: "same_dirs c c'"
    and pool: "queues_ok (rc_lock_item_pool c') (cvt_queues V W) F'"
      "q_reqs (rc_lock_item_pool c') (cvt_queues V W) = q_reqs (rc_lock_item_pool c) (cvt_queues V W)"
  shows "ctx_ok promote c' V W H G F'"
proof -
  have "waiting c' b = waiting c b" if "V p = Some b" for p b
    using fun_cong [OF pool(2), of "Inl p"] that by (simp add: q_reqs_def)
  moreover have "waiting c' m = waiting c m" if "W l = Some m" for l m
    using fun_cong [OF pool(2), of "Inr l"] that by (simp add: q_reqs_def)
  ultimately show ?thesis
    using ok dirs pool(1) by (simp add: ctx_ok_def ctx_rep_def same_dirs_def)
qed

lemma ctx_ok_cong: "ctx_ok promote c V W H G F \<Longrightarrow> same_stores c c' \<Longrightarrow> ctx_ok promote c' V W H G F"
  by (rule ctx_ok_pool) (auto simp: same_stores_def ctx_ok_def ctx_rep_def)

lemma ctx_inv_cong:
  assumes "ctx_inv promote c H G F" and "same_stores c c'"
  shows "ctx_inv promote c' H G F" "buf_view c' = buf_view c" "lock_view promote c' = lock_view promote c"
  using ctx_okD [OF ctx_ok_cong [OF assms(1) [unfolded ctx_inv_def] assms(2)]] by simp_all

subsection \<open>Claims\<close>

definition accepts :: "claim_info \<Rightarrow> drc_buf_res \<Rightarrow> bool" where
  "accepts claim b \<longleftrightarrow> converting b \<and> drc_is_same_claim_request (cvt_req b) claim \<and>
     \<not> drc_claim_info_is_invalid claim b"

text \<open>The page after a claim that is accepted.\<close>

definition claimed :: "claim_info \<Rightarrow> drc_buf_res \<Rightarrow> drc_buf_res \<Rightarrow> bool" where
  "claimed claim b b' \<longleftrightarrow>
     br_pending b' = DRC_RES_INVALID_ACTION \<and>
     (if cl_mode claim = DRC_LOCK_EXCLUSIVE
      then br_claimed_owner b' = cl_new_id claim \<and> rb_mode b' = DRC_LOCK_EXCLUSIVE \<and> br_readonly_copies b' = 0
      else br_claimed_owner b' = br_claimed_owner b \<and>
        cl_new_id claim \<in> insert (br_claimed_owner b') (insts (br_readonly_copies b')))"

lemma moves_on_strip [simp]: "moves_on now rs (strip b) = moves_on now rs b" "cvt_for (strip b) = cvt_for b"
  by (auto simp: fun_eq_iff moves_on_def conflicts_def cvt_for_def split: list.splits)

lemma claim_locked_refused:
  assumes ok: "ctx_ok promote c V W H G F" and no: "\<And>b. V (cl_page_id claim) = Some b \<Longrightarrow> \<not> accepts claim b"
  shows "drc_claim_page_owner_locked now claim ci c = Some (None, ci\<lparr>ci_req_id := OG_INVALID_ID8\<rparr>, c)"
proof (cases "V (cl_page_id claim)")
  case None
  then show ?thesis
    using buf_find_rep [of promote c V W H G F "cl_page_id claim"] ok
    by (simp add: drc_claim_page_owner_locked_def Let_def ctx_ok_def)
next
  case (Some b0)
  obtain b where b: "buf_get c (rb_idx b0) = Some b" "strip b = b0"
    using page_at_start [OF ok Some] by blast
  have "accepts claim b = accepts claim b0"
    using b(2) by (auto simp: accepts_def drc_claim_info_is_invalid_def)
  then have "\<not> accepts claim b" using no [OF Some] by simp
  then show ?thesis
    using buf_find_rep [of promote c V W H G F "cl_page_id claim"] ok Some b
    by (auto simp: drc_claim_page_owner_locked_def Let_def ctx_ok_def accepts_def converting_def)
qed

lemma claim_locked_accepted:
  assumes ok: "ctx_ok promote c V W H G F" and V: "V (cl_page_id claim) = Some b0" and acc: "accepts claim b0"
  shows "\<exists>i ci' c' b'. drc_claim_page_owner_locked now claim ci c = Some (Some (rb_idx b0, i), ci', c') \<and>
    ctx_ok promote c' (V(cl_page_id claim \<mapsto> b')) W H G (if i = OG_INVALID_ID32 then F else insert i F) \<and>
    (i \<noteq> OG_INVALID_ID32 \<longrightarrow> i \<notin> F) \<and> rb_idx b' = rb_idx b0 \<and> claimed claim b0 b' \<and>
    rc_sent c' = rc_sent c @ map error_to (fst (next_unexpired now (waiting c b0))) \<and>
    (if converting b' then cvt_for b' ci' else ci_req_id ci' = OG_INVALID_ID8) \<and>
    moves_on now (waiting c b0) b' (waiting c' b') (item_req c' i)"
proof -
  let ?p = "cl_page_id claim"
  obtain b where b: "buf_get c (rb_idx b0) = Some b" "strip b = b0" "rb_idx b = rb_idx b0"
    "page_at promote c ?p b V W H G F" "page_ok b (waiting c b)"
    using page_at_start [OF ok V] by blast
  have w: "waiting c b = waiting c b0" and acc': "accepts claim b" and own: "br_claimed_owner b = br_claimed_owner b0"
    using b(2) acc by (auto simp: accepts_def drc_claim_info_is_invalid_def)
  then have cvt: "converting b" "drc_is_same_claim_request (cvt_req b) claim" "\<not> drc_claim_info_is_invalid claim b"
    by (simp_all add: accepts_def)
  obtain b1 c1 where n: "drc_claim_new_page_owner claim b c = Some (b1, c1)" "same_stores c c1" "rc_sent c1 = rc_sent c"
    "links b1 = links b" "rb_convert_q b1 = rb_convert_q b" "rb_converting b1 = rb_converting b"
    "page_ok b1 (waiting c b)" "claimed claim b b1"
    using claim_new_ok [OF b(5) cvt, of c] unfolding claimed_def by blast
  have w1: "waiting c1 b1 = waiting c b0" using n(2,5) w by (simp add: same_stores_def)
  have at1: "page_at promote c1 ?p b1 V W H G F" by (rule page_at_cong [OF b(4) n(2,5,4)])
  have cvt1: "converting b1" using n(6) cvt(1) by (simp add: converting_def cvt_req_def)
  let ?ci = "ci\<lparr>ci_req_id := OG_INVALID_ID8\<rparr>"
  obtain i b2 ci2 c2 where x: "drc_convert_next_request now b1 ?ci c1 = Some (i, b2, ci2, c2)"
    "same_page b1 b2" "page_at promote c2 ?p b2 V W H G (if i = OG_INVALID_ID32 then F else insert i F)"
    "i \<noteq> OG_INVALID_ID32 \<Longrightarrow> i \<notin> F" "page_ok b2 (waiting c2 b2)" "rc_sent c2 = rc_sent c1 @ map error_to (fst (next_unexpired now (waiting c b0)))"
    "if converting b2 then cvt_for b2 ci2 else ci_req_id ci2 = ci_req_id ?ci"
    "moves_on now (waiting c b0) b2 (waiting c2 b2) (item_req c2 i)"
    using convert_next_ok [OF at1 w1 n(7) [unfolded w] cvt1, of now ?ci] by blast
  have idx: "rb_idx b2 = rb_idx b0" using same_page_sel(10) [OF x(2)] n(4) b(3) by (simp add: links_def)
  obtain g where g: "buf_put c2 (rb_idx b2) b2 = Some (c2\<lparr>rc_global_buf_res := g\<rparr>)"
    "ctx_ok promote (c2\<lparr>rc_global_buf_res := g\<rparr>) (V(?p \<mapsto> strip b2)) W H G (if i = OG_INVALID_ID32 then F else insert i F)"
    using page_at_put [OF x(3,5)] by blast
  have "drc_claim_page_owner_locked now claim ci c = Some (Some (rb_idx b0, i), ci2, c2\<lparr>rc_global_buf_res := g\<rparr>)"
    using buf_find_rep [of promote c V W H G F ?p] ok V b(1) cvt n(1) x(1) g(1) idx
    by (simp add: drc_claim_page_owner_locked_def Let_def ctx_ok_def converting_def)
  moreover have "claimed claim b0 (strip b2)"
    using n(8) same_page_sel [OF x(2)] own by (auto simp: claimed_def split: if_splits)
  moreover have "item_req (c2\<lparr>rc_global_buf_res := g\<rparr>) i = item_req c2 i"
    by (simp add: item_req_def)
  ultimately show ?thesis
    using g(2) x(4,6-8) n(3) idx
    by (intro exI [of _ i] exI [of _ ci2] exI [of _ "c2\<lparr>rc_global_buf_res := g\<rparr>"] exI [of _ "strip b2"]) simp
qed

lemma reject_ok:
  assumes ok: "ctx_ok promote c V W H G F" and i: "i = OG_INVALID_ID32 \<or> i \<in> F"
  shows "\<exists>c'. drc_claim_reject_conflict i c = Some c' \<and> same_dirs c c' \<and>
    ctx_ok promote c' V W H G (if i = OG_INVALID_ID32 then F else F - {i}) \<and>
    rc_sent c' = rc_sent c @ (case item_req c i of None \<Rightarrow> [] | Some r \<Rightarrow> [error_to r])"
proof (cases "i = OG_INVALID_ID32")
  case True
  then show ?thesis using ok by (simp add: drc_claim_reject_conflict_def item_req_def)
next
  case False
  have q: "queues_ok (rc_lock_item_pool c) (cvt_queues V W) F" using ok by (simp add: ctx_ok_def ctx_rep_def)
  obtain pool where f: "drc_res_pool_free_item (rc_lock_item_pool c) i = Some pool"
    "queues_ok pool (cvt_queues V W) (F - {i})" "q_reqs pool (cvt_queues V W) = q_reqs (rc_lock_item_pool c) (cvt_queues V W)"
    using queues_free [OF q] i False by blast
  have "unat i < length (rp_addr (rc_lock_item_pool c))"
    using pool_used_lt [OF queues_okD(1) [OF q]] held_used_q [OF q] i False by blast
  then obtain item where item: "rd (rp_addr (rc_lock_item_pool c)) i = Some item" by simp
  let ?c = "(mes_send_error_msg (li_req_info item) c)\<lparr>rc_lock_item_pool := pool\<rparr>"
  have "ctx_ok promote ?c V W H G (F - {i})"
    by (rule ctx_ok_pool [OF ok]) (use f in simp_all)
  then show ?thesis
    using False item f(1) by (auto simp: drc_claim_reject_conflict_def item_req_def Let_def)
qed

lemma cvt_req_upd [simp]:
  "cvt_req (b\<lparr>br_claimed_owner := x0\<rparr>) = cvt_req b"
  "cvt_req (b\<lparr>br_latest_edp := x1\<rparr>) = cvt_req b"
  "cvt_req (b\<lparr>br_pending := x2\<rparr>) = cvt_req b"
  "cvt_req (b\<lparr>br_latest_edp_lsn := x3\<rparr>) = cvt_req b"
  "cvt_req (b\<lparr>br_page_id := x4\<rparr>) = cvt_req b"
  "cvt_req (b\<lparr>br_is_used := x5\<rparr>) = cvt_req b"
  "cvt_req (b\<lparr>br_edp_map := x6\<rparr>) = cvt_req b"
  "cvt_req (b\<lparr>br_lsn := x7\<rparr>) = cvt_req b"
  "cvt_req (b\<lparr>br_readonly_copies := x8\<rparr>) = cvt_req b"
  "cvt_req (res\<lparr>rb_mode := x9\<rparr>) = cvt_req res"
  "cvt_req (res\<lparr>rb_convert_q := x10\<rparr>) = cvt_req res"
  "cvt_req (res\<lparr>rb_idx := x11\<rparr>) = cvt_req res"
  "cvt_req (res\<lparr>rb_part_id := x12\<rparr>) = cvt_req res"
  "cvt_req (res\<lparr>rb_node := x13\<rparr>) = cvt_req res"
  by (simp_all add: cvt_req_def)

lemma converting_upd [simp]:
  "converting (b\<lparr>br_claimed_owner := x0\<rparr>) = converting b"
  "converting (b\<lparr>br_latest_edp := x1\<rparr>) = converting b"
  "converting (b\<lparr>br_pending := x2\<rparr>) = converting b"
  "converting (b\<lparr>br_latest_edp_lsn := x3\<rparr>) = converting b"
  "converting (b\<lparr>br_page_id := x4\<rparr>) = converting b"
  "converting (b\<lparr>br_is_used := x5\<rparr>) = converting b"
  "converting (b\<lparr>br_edp_map := x6\<rparr>) = converting b"
  "converting (b\<lparr>br_lsn := x7\<rparr>) = converting b"
  "converting (b\<lparr>br_readonly_copies := x8\<rparr>) = converting b"
  "converting (res\<lparr>rb_mode := x9\<rparr>) = converting res"
  "converting (res\<lparr>rb_convert_q := x10\<rparr>) = converting res"
  "converting (res\<lparr>rb_idx := x11\<rparr>) = converting res"
  "converting (res\<lparr>rb_part_id := x12\<rparr>) = converting res"
  "converting (res\<lparr>rb_node := x13\<rparr>) = converting res"
  by (simp_all add: converting_def)

lemma page_ok_clear: "page_ok b rs \<Longrightarrow> br_claimed_owner b \<noteq> OG_INVALID_ID8 \<Longrightarrow> page_ok (b\<lparr>br_readonly_copies := 0\<rparr>) rs"
  by (simp add: page_ok_def)

lemma clear_ok:
  assumes ok: "ctx_ok promote c V W H G F" and V: "V p = Some b0" and own: "br_claimed_owner b0 \<noteq> OG_INVALID_ID8"
  shows "\<exists>g. drc_clear_readonly_copies (rb_idx b0) c = Some (c\<lparr>rc_global_buf_res := g\<rparr>) \<and>
    ctx_ok promote (c\<lparr>rc_global_buf_res := g\<rparr>) (V(p \<mapsto> b0\<lparr>br_readonly_copies := 0\<rparr>)) W H G F"
proof -
  obtain b where b: "buf_get c (rb_idx b0) = Some b" "strip b = b0" "rb_idx b = rb_idx b0"
    "page_at promote c p b V W H G F" "page_ok b (waiting c b)"
    using page_at_start [OF ok V] by blast
  let ?b = "b\<lparr>br_readonly_copies := 0\<rparr>"
  have at: "page_at promote c p ?b V W H G F"
    by (rule page_at_cong [OF b(4)]) (simp_all add: links_def)
  have "page_ok ?b (waiting c ?b)" using page_ok_clear [OF b(5)] own b(2) by auto
  then obtain g where "buf_put c (rb_idx ?b) ?b = Some (c\<lparr>rc_global_buf_res := g\<rparr>)"
    "ctx_ok promote (c\<lparr>rc_global_buf_res := g\<rparr>) (V(p \<mapsto> strip ?b)) W H G F"
    using page_at_put [OF at] by blast
  moreover have "strip ?b = b0\<lparr>br_readonly_copies := 0\<rparr>" using b(2) by (auto simp: strip_def)
  ultimately show ?thesis
    using b by (intro exI [of _ g]) (simp add: drc_clear_readonly_copies_def)
qed

lemma converting_owner:
  assumes "ctx_ok promote c V W H G F" "V p = Some b" "converting b"
  shows "br_claimed_owner b \<noteq> OG_INVALID_ID8"
  using assms page_ok_owner(1) by (auto simp: ctx_ok_def)

text \<open>The whole handler.\<close>

lemma claim_ok:
  assumes inv: "ctx_inv promote c H G F" and o1: "keeps_inv promote others1" "keeps_converting (cl_page_id claim) others1"
    and o2: "keeps_inv promote others2" "keeps_converting (cl_page_id claim) others2"
  shows "\<exists>ci' c'. drc_claim_page_owner now invalidate others1 others2 claim ci c = Some (ci', c') \<and> ctx_inv promote c' H G F"
proof (cases "\<exists>b. buf_view c (cl_page_id claim) = Some b \<and> accepts claim b")
  case False
  then have "drc_claim_page_owner_locked now claim ci c = Some (None, ci\<lparr>ci_req_id := OG_INVALID_ID8\<rparr>, c)"
    using claim_locked_refused [OF inv [unfolded ctx_inv_def]] by blast
  then show ?thesis using inv by (simp add: drc_claim_page_owner_def)
next
  case True
  let ?p = "cl_page_id claim"
  obtain b0 where b0: "buf_view c ?p = Some b0" "accepts claim b0" using True by blast
  obtain i ci1 c1 b1 where l: "drc_claim_page_owner_locked now claim ci c = Some (Some (rb_idx b0, i), ci1, c1)"
    "ctx_ok promote c1 ((buf_view c)(?p \<mapsto> b1)) (lock_view promote c) H G (if i = OG_INVALID_ID32 then F else insert i F)"
    "i \<noteq> OG_INVALID_ID32 \<longrightarrow> i \<notin> F" "rb_idx b1 = rb_idx b0"
    "if converting b1 then cvt_for b1 ci1 else ci_req_id ci1 = OG_INVALID_ID8"
    using claim_locked_accepted [OF inv [unfolded ctx_inv_def] b0, of now ci] by blast
  let ?F = "if i = OG_INVALID_ID32 then F else insert i F"
  let ?c1 = "others1 c1"
  have inv1: "ctx_inv promote ?c1 H G ?F" using ctx_okD(1) [OF l(2)] o1(1) by (simp add: keeps_inv_def)
  have b1: "buf_view c1 ?p = Some b1" using ctx_okD(2) [OF l(2)] by simp
  have iF: "i = OG_INVALID_ID32 \<or> i \<in> ?F" by simp
  obtain c2 where c2: "drc_claim_reject_conflict i ?c1 = Some c2" "same_dirs ?c1 c2"
    "ctx_ok promote c2 (buf_view ?c1) (lock_view promote ?c1) H G (if i = OG_INVALID_ID32 then ?F else ?F - {i})"
    using reject_ok [OF inv1 [unfolded ctx_inv_def] iF] by blast
  have F: "(if i = OG_INVALID_ID32 then ?F else ?F - {i}) = F" using l(3) by simp
  have inv2: "ctx_inv promote c2 H G F" using ctx_okD(1) [OF c2(3)] F by simp
  show ?thesis
  proof (cases "ci_req_id ci1 \<noteq> OG_INVALID_ID8 \<and> ci_readonly_copies ci1 \<noteq> 0 \<and>
             ci_req_mode ci1 = DRC_LOCK_EXCLUSIVE \<and> invalidate (ci_readonly_copies ci1) = OG_SUCCESS")
    case False
    then show ?thesis using l(1) c2(1) inv2 by (auto simp: drc_claim_page_owner_def)
  next
    case cond: True
    then have "converting b1" using l(5) by (auto split: if_splits)
    then obtain b2 where b2: "buf_view c2 ?p = Some b2" "rb_idx b2 = rb_idx b1" "converting b2"
      using o1(2) b1 ctx_okD(2) [OF c2(3)] unfolding keeps_converting_def by metis
    then obtain b3 where b3: "buf_view (others2 c2) ?p = Some b3" "rb_idx b3 = rb_idx b2" "converting b3"
      using o2(2) unfolding keeps_converting_def by blast
    have inv3: "ctx_inv promote (others2 c2) H G F" using inv2 o2(1) by (simp add: keeps_inv_def)
    note ok3 = inv3 [unfolded ctx_inv_def]
    obtain g where g: "drc_clear_readonly_copies (rb_idx b3) (others2 c2) = Some ((others2 c2)\<lparr>rc_global_buf_res := g\<rparr>)"
      "ctx_ok promote ((others2 c2)\<lparr>rc_global_buf_res := g\<rparr>) ((buf_view (others2 c2))(?p \<mapsto> b3\<lparr>br_readonly_copies := 0\<rparr>))
         (lock_view promote (others2 c2)) H G F"
      using clear_ok [OF ok3 b3(1) converting_owner [OF ok3 b3(1,3)]] by blast
    then show ?thesis
      using l(1,4) c2(1) cond b2(2) b3(2) ctx_okD(1) [OF g(2)] by (simp add: drc_claim_page_owner_def)
  qed
qed

subsection \<open>Requests\<close>

lemma page_at_enqueue:
  assumes at: "page_at promote c p b V W H G F"
  shows "cvt_q_enqueue (rc_lock_item_pool c) (rb_convert_q b) req = Some None \<or>
    (\<exists>pool q. cvt_q_enqueue (rc_lock_item_pool c) (rb_convert_q b) req = Some (Some (pool, q)) \<and>
       (\<forall>c' b'. same_dirs c c' \<longrightarrow> rc_lock_item_pool c' = pool \<longrightarrow> links b' = links b \<longrightarrow> rb_convert_q b' = q \<longrightarrow>
          page_at promote c' p b' V W H G F \<and> waiting c' b' = waiting c b @ [req]))"
proof -
  let ?Q = "(cvt_queues V W)(Inl p \<mapsto> rb_convert_q b)"
  consider "cvt_q_enqueue (rc_lock_item_pool c) (rb_convert_q b) req = Some None"
    | pool q where "cvt_q_enqueue (rc_lock_item_pool c) (rb_convert_q b) req = Some (Some (pool, q))"
      "queues_ok pool (?Q(Inl p \<mapsto> q)) F"
      "q_reqs pool (?Q(Inl p \<mapsto> q)) = (q_reqs (rc_lock_item_pool c) ?Q)(Inl p \<mapsto> waiting c b @ [req])"
    using queues_enqueue [OF page_at_queues [OF at] fun_upd_same, of req] by blast
  then show ?thesis
  proof cases
    case 2
    have "page_at promote c' p b' V W H G F \<and> waiting c' b' = waiting c b @ [req]"
      if "same_dirs c c'" "rc_lock_item_pool c' = pool" "links b' = links b" "rb_convert_q b' = q" for c' b'
      using page_at_queue [OF at that(1,3), of F "waiting c b @ [req]"] that 2 by simp
    then show ?thesis using 2 by blast
  qed simp
qed

lemma page_at_search:
  assumes at: "page_at promote c p b V W H G F" and ne: "dl_count (rb_convert_q b) \<noteq> 0"
  shows "drc_search_item_by_reqid (rp_addr (rc_lock_item_pool c)) req (dl_first (rb_convert_q b)) = Some None \<or>
    (\<exists>i n item. drc_search_item_by_reqid (rp_addr (rc_lock_item_pool c)) req (dl_first (rb_convert_q b)) = Some (Some i) \<and>
       rd (rp_addr (rc_lock_item_pool c)) i = Some item \<and> n < length (waiting c b) \<and> waiting c b ! n = li_req_info item \<and>
       drc_is_retry_request (li_req_info item) req \<and>
       wr (rp_addr (rc_lock_item_pool c)) i (item\<lparr>li_req_info := req\<rparr>) \<noteq> None \<and>
       (\<forall>mem c'. wr (rp_addr (rc_lock_item_pool c)) i (item\<lparr>li_req_info := req\<rparr>) = Some mem \<longrightarrow> same_dirs c c' \<longrightarrow>
          rc_lock_item_pool c' = (rc_lock_item_pool c)\<lparr>rp_addr := mem\<rparr> \<longrightarrow>
          page_at promote c' p b V W H G F \<and> waiting c' b = (waiting c b)[n := req]))"
proof -
  let ?Q = "(cvt_queues V W)(Inl p \<mapsto> rb_convert_q b)" and ?pool = "rc_lock_item_pool c"
  let ?chain = "cvt_q_chain ?pool (rb_convert_q b)"
  let ?P = "\<lambda>i. drc_is_retry_request (li_req_info (rp_addr ?pool ! unat i)) req"
  note q = page_at_queues [OF at]
  have s: "drc_search_item_by_reqid (rp_addr ?pool) req (dl_first (rb_convert_q b)) = Some (find ?P ?chain)"
    by (rule queues_search [OF q fun_upd_same ne])
  show ?thesis
  proof (cases "find ?P ?chain")
    case None
    then show ?thesis using s by simp
  next
    case (Some i)
    then obtain n where n: "n < length ?chain" "?P i" "i = ?chain ! n"
      by (auto simp: find_Some_iff)
    note r1 = queues_replace(1) [OF q fun_upd_same n(1,3) refl]
    note r = queues_replace(2,3) [OF q fun_upd_same n(1,3) refl, of req]
    let ?item = "rp_addr ?pool ! unat i"
    have lt: "rd (rp_addr ?pool) i = Some ?item" using r1 by simp
    have wn: "n < length (waiting c b)" "waiting c b ! n = li_req_info ?item"
      using n by (simp_all add: cvt_q_reqs_def)
    have "page_at promote c' p b V W H G F \<and> waiting c' b = (waiting c b)[n := req]"
      if "wr (rp_addr ?pool) i (?item\<lparr>li_req_info := req\<rparr>) = Some mem" "same_dirs c c'"
        "rc_lock_item_pool c' = ?pool\<lparr>rp_addr := mem\<rparr>" for mem c'
    proof -
      have m: "mem = (rp_addr ?pool)[unat i := ?item\<lparr>li_req_info := req\<rparr>]"
        using that(1) r1 by (simp add: wr_def)
      show ?thesis
        using page_at_queue [OF at that(2) refl, of F "(waiting c b)[n := req]"] r that(3) m by (simp del: fun_upd_apply)
    qed
    then show ?thesis using s Some lt wn n(2) r1 by (auto simp: wr_def)
  qed
qed

lemma page_ok_cvt:
  assumes "page_ok b rs" and "converting b" and "req_ok req"
  shows "page_ok (set_cvt_req req b) rs" "converting (set_cvt_req req b)"
  using assms req_okD [OF assms(3)] page_ok_owner [OF assms(1)]
  by (simp_all add: page_ok_def converting_def cvt_req_def set_cvt_req_def)

lemma page_ok_first:
  assumes "page_ok b []" and "br_pending b \<noteq> DRC_RES_PENDING_ACTION" "br_claimed_owner b \<noteq> OG_INVALID_ID8"
    and "req_ok (li_req_info item)"
  shows "page_ok (b\<lparr>rb_converting := item\<rparr>) []" "converting (b\<lparr>rb_converting := item\<rparr>)"
  using assms req_okD [OF assms(4)] page_ok_owner [OF assms(1)]
  by (simp_all add: page_ok_def converting_def cvt_req_def)

lemma page_ok_queue [simp]: "page_ok (b\<lparr>rb_convert_q := q\<rparr>) = page_ok b"
  by (simp add: fun_eq_iff page_ok_def)

lemma page_ok_waiting: "page_ok b rs \<Longrightarrow> converting b \<Longrightarrow> list_all req_ok rs' \<Longrightarrow> page_ok b rs'"
  unfolding page_ok_def by presburger

lemma req_ok_max: "req_ok req \<Longrightarrow> req_ok (req\<lparr>ri_req_mode := max m (ri_req_mode req)\<rparr>)"
  by (cases m; cases "ri_req_mode req") (simp_all add: req_ok_def max_def mode_order)

text \<open>
  The outcome of \<^verbatim>\<open>drc_keep_requester_wait\<close>: the request converts, or it fails and nothing changes, or it is
  only an attempt that leaves no trace, or it waits: at the end of the queue, or in place of an earlier request of its instance.
\<close>

definition kept_waiting :: "drc_req_info \<Rightarrow> drc_req_info list \<Rightarrow> drc_req_info list \<Rightarrow> bool" where
  "kept_waiting req rs rs' \<longleftrightarrow>
     rs' = rs @ [req] \<or> (\<exists>n < length rs. ri_inst_id (rs ! n) = ri_inst_id req \<and> rs' = rs[n := req])"

text \<open>
  A request converts when no other one does, or again when it is a retry: then it keeps the stronger mode.
\<close>

definition retried :: "drc_req_info \<Rightarrow> drc_buf_res \<Rightarrow> drc_req_info \<Rightarrow> bool" where
  "retried req b req' \<longleftrightarrow> (if converting b
     then drc_is_retry_request (cvt_req b) req \<and> req' = req\<lparr>ri_req_mode := max (ri_req_mode (cvt_req b)) (ri_req_mode req)\<rparr>
     else req' = req)"

definition wait_result :: "(u8 \<Rightarrow> u32) \<Rightarrow> drc_res_ctx \<Rightarrow> page_id \<Rightarrow> drc_buf_res \<Rightarrow> (page_id \<Rightarrow> drc_buf_res option) \<Rightarrow>
    (drid \<Rightarrow> drc_master_res option) \<Rightarrow> u32 set \<Rightarrow> u32 set \<Rightarrow> u32 set \<Rightarrow> drc_req_info \<Rightarrow> bool \<Rightarrow>
    status_t \<times> bool \<times> bool \<times> drc_req_info \<times> drc_buf_res \<times> drc_res_ctx \<Rightarrow> bool" where
  "wait_result promote c p b V W H G F req is_try = (\<lambda>(ret, can_cvt, is_retry, req', b', c').
     same_dirs c c' \<and> rc_sent c' = rc_sent c \<and> same_page b b' \<and> page_at promote c' p b' V W H G F \<and>
     page_ok b' (waiting c' b') \<and> ri_inst_id req' = ri_inst_id req \<and> req_ok req' \<and>
     (if ret \<noteq> OG_SUCCESS then \<not> can_cvt \<and> b' = b \<and> waiting c' b' = waiting c b \<and> converting b
      else if can_cvt then converting b' \<and> cvt_req b' = req' \<and> retried req b req' \<and> waiting c' b' = waiting c b \<and>
        (is_try \<longrightarrow> br_claimed_owner b' = ri_inst_id req)
      else if is_try then b' = b \<and> waiting c' b' = waiting c b
      else converting b \<and> rb_converting b' = rb_converting b \<and> kept_waiting req (waiting c b) (waiting c' b')))"

lemma wait_same:
  assumes "page_at promote c p b V W H G F" and "page_ok b (waiting c b)" and "req_ok req"
    and "same_stores c c'" "rc_sent c' = rc_sent c" and "ret \<noteq> OG_SUCCESS \<and> converting b \<or> ret = OG_SUCCESS \<and> is_try"
  shows "wait_result promote c p b V W H G F req is_try (ret, False, retry, req, b, c')"
  using assms page_at_cong [OF assms(1,4)]
  by (auto simp: wait_result_def same_page_set same_stores_def)

lemma wait_converts:
  assumes "page_at promote c p b V W H G F" and "same_stores c c'" "rc_sent c' = rc_sent c"
    and "page_ok b' (waiting c b)" "converting b'" "cvt_req b' = req'" "same_page b b'" "rb_convert_q b' = rb_convert_q b"
    and "req_ok req'" "retried req b req'" "ri_inst_id req' = ri_inst_id req" and "is_try \<Longrightarrow> br_claimed_owner b = ri_inst_id req"
  shows "wait_result promote c p b V W H G F req is_try (OG_SUCCESS, True, retry, req', b', c')"
  using assms page_at_cong [OF assms(1,2,8) same_page_sel(1) [OF assms(7)]] same_page_sel(2) [OF assms(7)]
  by (simp add: wait_result_def same_stores_def)

lemma keep_wait_idle:
  assumes at: "page_at promote c p b V W H G F" and ok: "page_ok b (waiting c b)" and req: "req_ok req"
    and own: "br_claimed_owner b \<noteq> OG_INVALID_ID8" and pend: "br_pending b \<noteq> DRC_RES_PENDING_ACTION"
    and idle: "\<not> converting b"
  shows "\<exists>r. drc_keep_requester_wait req is_try b c = Some r \<and> wait_result promote c p b V W H G F req is_try r"
proof -
  have w: "waiting c b = []" using ok idle by (simp add: page_ok_def)
  have n: "dl_count (rb_convert_q b) = 0" using w by (auto simp: cvt_q_reqs_def cvt_q_chain_def unat_eq_zero)
  let ?item = "\<lparr>bh_next = OG_INVALID_ID32, li_req_info = req\<rparr>"
  let ?c = "stat_inc R_PO_CVTING_CURR (stat_inc R_PO_CVTING_TOTAL c)"
  show ?thesis
  proof (cases "is_try \<and> (br_claimed_owner b \<noteq> ri_inst_id req \<or> br_readonly_copies b \<noteq> 0)")
    case True
    then have "drc_keep_requester_wait req is_try b c = Some (OG_SUCCESS, False, False, req, b, c)"
      using idle by (simp add: drc_keep_requester_wait_def converting_def)
    then show ?thesis using wait_same [OF at ok req, of c OG_SUCCESS is_try False] True by simp
  next
    case False
    then have "drc_keep_requester_wait req is_try b c =
        Some (OG_SUCCESS, True, False, req, b\<lparr>rb_converting := ?item\<rparr>, ?c)"
      using idle n by (simp add: drc_keep_requester_wait_def converting_def knl_panic_def Let_def)
    moreover have "wait_result promote c p b V W H G F req is_try
        (OG_SUCCESS, True, False, req, b\<lparr>rb_converting := ?item\<rparr>, ?c)"
      by (rule wait_converts [OF at])
        (use page_ok_first [OF ok [unfolded w] pend own, of ?item] False req
          same_page_set(2) [where b = b and q = "rb_convert_q b" and item = ?item] w in
          \<open>auto simp: cvt_req_def retried_def idle\<close>)
    ultimately show ?thesis by blast
  qed
qed

lemma wait_queued:
  assumes "page_at promote c' p b' V W H G F" and "waiting c' b' = rs'"
    and "page_ok b (waiting c b)" "converting b" "req_ok req" and "same_dirs c c'" "rc_sent c' = rc_sent c"
    and "b' = b\<lparr>rb_convert_q := q\<rparr>" and "kept_waiting req (waiting c b) rs'"
  shows "wait_result promote c p b V W H G F req False (OG_SUCCESS, False, False, req, b', c')"
proof -
  have "list_all req_ok rs'"
    using assms(3,5,9) by (auto simp: page_ok_def kept_waiting_def list_all_iff dest!: set_update_subset_insert [THEN subsetD])
  then have "page_ok b' rs'" using page_ok_waiting [OF assms(3,4)] assms(8) by simp
  then show ?thesis
    using assms same_page_set(2) [where b = b and q = q and item = "rb_converting b"] by (simp add: wait_result_def)
qed

lemma set_cvt_sel [simp]: "cvt_req (set_cvt_req r res) = r" "rb_convert_q (set_cvt_req r res) = rb_convert_q res"
  by (simp_all add: set_cvt_req_def cvt_req_def)

lemma enter_new:
  assumes at: "page_at promote c p b V W H G F" and ok: "page_ok b (waiting c b)" and req: "req_ok req"
    and busy: "converting b" and c1: "same_stores c c1" "rc_sent c1 = rc_sent c"
  shows "\<exists>r. drc_enter_request req b c1 None = Some r \<and> wait_result promote c p b V W H G F req False r"
proof -
  have pool: "rc_lock_item_pool c1 = rc_lock_item_pool c" "same_dirs c c1" using c1(1) by (simp_all add: same_stores_def)
  consider "cvt_q_enqueue (rc_lock_item_pool c) (rb_convert_q b) req = Some None"
    | pool q where "cvt_q_enqueue (rc_lock_item_pool c) (rb_convert_q b) req = Some (Some (pool, q))"
      "\<And>c' b'. same_dirs c c' \<Longrightarrow> rc_lock_item_pool c' = pool \<Longrightarrow> links b' = links b \<Longrightarrow> rb_convert_q b' = q \<Longrightarrow>
        page_at promote c' p b' V W H G F \<and> waiting c' b' = waiting c b @ [req]"
    using page_at_enqueue [OF at, of req] by blast
  then show ?thesis
  proof cases
    case 1
    then show ?thesis
      using wait_same [OF at ok req c1, of OG_ERROR False False] busy pool by (auto simp: drc_enter_request_def)
  next
    case 2
    let ?c = "stat_inc R_PO_CVTQ_CURR (stat_inc R_PO_CVTQ_TOTAL (c1\<lparr>rc_lock_item_pool := pool\<rparr>))"
    have "page_at promote ?c p (b\<lparr>rb_convert_q := q\<rparr>) V W H G F \<and> waiting ?c (b\<lparr>rb_convert_q := q\<rparr>) = waiting c b @ [req]"
      by (rule 2(2)) (use pool in \<open>simp_all add: links_def\<close>)
    then have "wait_result promote c p b V W H G F req False (OG_SUCCESS, False, False, req, b\<lparr>rb_convert_q := q\<rparr>, ?c)"
      by (intro wait_queued) (use ok busy req pool c1 in \<open>auto simp: kept_waiting_def\<close>)
    then show ?thesis using 2(1) pool by (auto simp: drc_enter_request_def)
  qed
qed

lemma enter_found:
  assumes at: "page_at promote c p b V W H G F" and ok: "page_ok b (waiting c b)" and req: "req_ok req"
    and busy: "converting b" and c1: "same_stores c c1" "rc_sent c1 = rc_sent c"
    and ne: "dl_count (rb_convert_q b) \<noteq> 0"
  shows "\<exists>found r. drc_search_item_by_reqid (rp_addr (rc_lock_item_pool c)) req (dl_first (rb_convert_q b)) = Some found \<and>
    drc_enter_request req b c1 found = Some r \<and> wait_result promote c p b V W H G F req False r"
  using page_at_search [OF at ne, of req]
proof (elim disjE exE conjE)
  assume "drc_search_item_by_reqid (rp_addr (rc_lock_item_pool c)) req (dl_first (rb_convert_q b)) = Some None"
  then show ?thesis using enter_new [OF at ok req busy c1] by blast
next
  let ?pool = "rc_lock_item_pool c"
  fix i n item
  assume f: "drc_search_item_by_reqid (rp_addr ?pool) req (dl_first (rb_convert_q b)) = Some (Some i)"
    "rd (rp_addr ?pool) i = Some item" "n < length (waiting c b)" "waiting c b ! n = li_req_info item"
    "drc_is_retry_request (li_req_info item) req"
    "wr (rp_addr ?pool) i (item\<lparr>li_req_info := req\<rparr>) \<noteq> None"
    "\<forall>mem c'. wr (rp_addr ?pool) i (item\<lparr>li_req_info := req\<rparr>) = Some mem \<longrightarrow> same_dirs c c' \<longrightarrow>
      rc_lock_item_pool c' = ?pool\<lparr>rp_addr := mem\<rparr> \<longrightarrow>
      page_at promote c' p b V W H G F \<and> waiting c' b = (waiting c b)[n := req]"
  have pool: "rc_lock_item_pool c1 = ?pool" "same_dirs c c1" using c1(1) by (simp_all add: same_stores_def)
  obtain mem where mem: "wr (rp_addr ?pool) i (item\<lparr>li_req_info := req\<rparr>) = Some mem" using f(6) by blast
  let ?c = "c1\<lparr>rc_lock_item_pool := ?pool\<lparr>rp_addr := mem\<rparr>\<rparr>"
  have "same_dirs c ?c" "rc_lock_item_pool ?c = ?pool\<lparr>rp_addr := mem\<rparr>" using pool by simp_all
  then have at': "page_at promote ?c p b V W H G F" "waiting ?c b = (waiting c b)[n := req]"
    using f(7) mem by blast+
  have "wait_result promote c p b V W H G F req False (OG_SUCCESS, False, False, req, b, ?c)"
    by (rule wait_queued [OF at' ok busy req, of "rb_convert_q b"])
      (use f pool c1 in \<open>auto simp: kept_waiting_def drc_is_retry_request_def\<close>)
  then show ?thesis
    using f(1,2) mem pool busy wait_same [OF at ok req c1, of OG_ERROR False False] by (auto simp: drc_enter_request_def)
qed

lemma keep_wait_busy:
  assumes at: "page_at promote c p b V W H G F" and ok: "page_ok b (waiting c b)" and req: "req_ok req"
    and busy: "converting b"
  shows "\<exists>r. drc_keep_requester_wait req is_try b c = Some r \<and> wait_result promote c p b V W H G F req is_try r"
proof (cases is_try)
  case True
  then have "drc_keep_requester_wait req is_try b c = Some (OG_SUCCESS, False, False, req, b, c)"
    using busy by (simp add: drc_keep_requester_wait_def converting_def)
  then show ?thesis using wait_same [OF at ok req, of c OG_SUCCESS is_try False] True by simp
next
  case no_try: False
  let ?pool = "rc_lock_item_pool c" and ?q = "rb_convert_q b"
  obtain c1 where c1: "drc_check_new_req req b c = (if conflicts req b then OG_ERROR else OG_SUCCESS, c1)"
    "same_stores c c1" "rc_sent c1 = rc_sent c"
    using check_new_req [OF ok busy, of req c] by blast
  have pool: "rc_lock_item_pool c1 = ?pool" using c1(2) by (simp add: same_stores_def)
  have fail: "wait_result promote c p b V W H G F req is_try (OG_ERROR, False, False, req, b, c1)"
    using wait_same [OF at ok req c1(2,3), of OG_ERROR is_try False] busy by simp
  consider (conflict) "conflicts req b" | (retry) "\<not> conflicts req b" "drc_is_retry_request (cvt_req b) req"
    | (new) "\<not> conflicts req b" "\<not> drc_is_retry_request (cvt_req b) req" by blast
  then show ?thesis
  proof cases
    case conflict
    then have "drc_keep_requester_wait req is_try b c = Some (OG_ERROR, False, False, req, b, c1)"
      using busy no_try c1(1) by (simp add: drc_keep_requester_wait_def converting_def)
    then show ?thesis using fail by auto
  next
    case retry
    let ?req = "req\<lparr>ri_req_mode := max (ri_req_mode (cvt_req b)) (ri_req_mode req)\<rparr>"
    let ?c = "c1\<lparr>rc_converting_page_cnt := rc_converting_page_cnt c1 + 1\<rparr>"
    have s: "same_stores c ?c" "rc_sent ?c = rc_sent c" using c1 by (simp_all add: same_stores_def same_dirs_def)
    have "wait_result promote c p b V W H G F req is_try (OG_SUCCESS, True, True, ?req, set_cvt_req ?req b, ?c)"
      by (rule wait_converts [OF at s])
        (use page_ok_cvt [OF ok busy req_ok_max [OF req]] req_ok_max [OF req] no_try busy retry in \<open>auto simp: same_page_set retried_def\<close>)
    then show ?thesis
      using busy no_try c1(1) retry fail by (auto simp: drc_keep_requester_wait_def converting_def Let_def)
  next
    case new
    have "drc_keep_requester_wait req is_try b c = Option.bind
        (if dl_count ?q > 0 then drc_search_item_by_reqid (rp_addr ?pool) req (dl_first ?q) else Some None)
        (drc_enter_request req b c1)"
      using busy no_try c1(1) new pool by (simp add: drc_keep_requester_wait_def converting_def)
    then show ?thesis
      using enter_new [OF at ok req busy c1(2,3)] enter_found [OF at ok req busy c1(2,3)] no_try
      by (cases "dl_count ?q = 0") (auto simp: word_greater_zero_iff)
  qed
qed

end
