(* ===== verification/Page_Request.thy ===== *)
theory Page_Request
  imports Page_Protocol
begin

text \<open>
  Requests for a page on its master: a page that is in the directory is granted, converts or makes the
  request wait; a page that is not in the directory is entered in a free item of the pool. The
  lemmas here are on the locked sections of \<^verbatim>\<open>drc_request_page_owner\<close>, on the items of the page pool and
  on the removal of a page.
\<close>

text \<open>A page that lost its owner gets a new one, or is granted.\<close>

lemma select_ok:
  assumes "ro \<noteq> 0"
  shows "drc_select_one_instance_from_readonly_copy ro \<in> insts ro"
proof -
  let ?l = "map of_nat [0..<OG_MAX_INSTANCES] :: u8 list"
  obtain n where n: "n \<in> insts ro" using assms insts_empty_iff by auto
  have "n = of_nat (unat n)" by simp
  moreover have "unat n < OG_MAX_INSTANCES" using insts_ok [OF n] by (simp add: inst_ok_def)
  ultimately have m: "n \<in> set ?l" by (metis atLeastLessThan_upt atLeast0LessThan image_eqI lessThan_iff set_map)
  then obtain m where f: "find (drc_bitmap64_exist ro) ?l = Some m"
    using n by (cases "find (drc_bitmap64_exist ro) ?l") (auto simp: find_None_iff exist_insts)
  then have "m \<in> insts ro" by (auto simp: find_Some_iff exist_insts)
  then show ?thesis by (simp add: drc_select_one_instance_from_readonly_copy_def f)
qed

lemma clean_buf_res_ok:
  assumes ok: "page_ok b rs" and own: "br_claimed_owner b = OG_INVALID_ID8"
  shows "\<exists>b'. drc_clean_buf_res b = Some b' \<and> page_ok b' rs \<and> links b' = links b \<and> rb_convert_q b' = rb_convert_q b \<and>
    rb_converting b' = rb_converting b \<and> br_pending b' \<noteq> DRC_RES_PENDING_ACTION \<and>
    (if br_readonly_copies b \<noteq> 0 then br_claimed_owner b' \<in> insts (br_readonly_copies b) \<and>
       insts (br_readonly_copies b') = insts (br_readonly_copies b) - {br_claimed_owner b'}
     else if br_edp_map b \<noteq> 0 then br_claimed_owner b' = br_latest_edp b \<and> br_readonly_copies b' = 0
     else b' = b)"
proof -
  have f: "\<not> converting b" "rs = []" "br_is_used b" "br_pending b \<noteq> DRC_RES_PENDING_ACTION"
    "br_readonly_copies b \<noteq> 0 \<longrightarrow> rb_mode b = DRC_LOCK_SHARE"
    "br_readonly_copies b = 0 \<and> br_edp_map b \<noteq> 0 \<longrightarrow> inst_ok (br_latest_edp b) \<and> rb_mode b = DRC_LOCK_EXCLUSIVE"
    using ok own by (simp_all add: page_ok_orphan)
  consider "br_readonly_copies b \<noteq> 0" | "br_readonly_copies b = 0" "br_edp_map b \<noteq> 0"
    | "br_readonly_copies b = 0" "br_edp_map b = 0" by blast
  then show ?thesis
  proof cases
    case 1
    note sel = select_ok [OF 1] insts_ok [OF select_ok [OF 1]]
    then show ?thesis using 1 f own
      by (auto simp: drc_clean_buf_res_def knl_panic_def Let_def page_ok_def links_def)
  next
    case 2
    then show ?thesis using f own
      by (auto simp: drc_clean_buf_res_def knl_panic_def page_ok_def links_def)
  next
    case 3
    then show ?thesis using f own ok by (auto simp: drc_clean_buf_res_def knl_panic_def)
  qed
qed

lemma page_ok_result [simp]:
  "page_ok (set_cvt_req ((cvt_req b)\<lparr>ri_req_owner_result := n\<rparr>) b) rs = page_ok b rs"
  by (simp add: page_ok_def converting_def cvt_req_def set_cvt_req_def req_ok_def)

lemma page_ok_granted:
  assumes "page_ok b rs" "br_claimed_owner b = OG_INVALID_ID8" "br_readonly_copies b = 0" and "req_ok req"
  shows "page_ok (b\<lparr>br_claimed_owner := ri_inst_id req, rb_mode := ri_req_mode req\<rparr>) rs"
proof -
  have "\<not> converting b" "rs = []" "br_is_used b" "br_pending b \<noteq> DRC_RES_PENDING_ACTION"
    "br_pending b \<noteq> DRC_RES_CLEAN_EDP_ACTION"
    using assms by (simp_all add: page_ok_orphan)
  then show ?thesis using assms(3,4) req_okD [OF assms(4)] by (simp add: page_ok_def req_ok_def)
qed

text \<open>
  The outcome of a request for a page that is in the directory. A granted page had no owner and nothing
  left of it; a request that converts is the one recorded in the page, with the owner to ask and the
  read-only copies to invalidate; a request that waits is in the queue.
\<close>

definition now_converts :: "drc_req_info \<Rightarrow> drc_req_owner_result \<Rightarrow> drc_buf_res \<Rightarrow> drc_buf_res \<Rightarrow> bool" where
  "now_converts req res b b' \<longleftrightarrow> converting b' \<and> (\<exists>req'. retried req b req' \<and>
     cvt_req b' = req'\<lparr>ri_req_owner_result := owner_result_num (rr_type res)\<rparr>)"

definition request_outcome :: "drc_req_info \<Rightarrow> bool \<Rightarrow> drc_req_owner_result \<Rightarrow> drc_buf_res \<Rightarrow> drc_req_info list \<Rightarrow>
    drc_buf_res \<Rightarrow> drc_req_info list \<Rightarrow> bool" where
  "request_outcome req is_try res b rs b' rs' \<longleftrightarrow>
     (case rr_type res of
        DRC_REQ_OWNER_GRANTED \<Rightarrow> br_claimed_owner b = OG_INVALID_ID8 \<and> br_readonly_copies b = 0 \<and> br_edp_map b = 0 \<and>
          br_claimed_owner b' = ri_inst_id req \<and> rb_mode b' = ri_req_mode req \<and> rr_curr_owner_id res = ri_inst_id req
      | DRC_REQ_OWNER_ALREADY_OWNER \<Rightarrow> now_converts req res b b' \<and>
          br_claimed_owner b' = ri_inst_id req
      | DRC_REQ_OWNER_CONVERTING \<Rightarrow> \<not> is_try \<and> now_converts req res b b' \<and>
          br_claimed_owner b' \<noteq> ri_inst_id req \<and> rr_curr_owner_id res = br_claimed_owner b' \<and>
          insts (rr_readonly_copies res) = insts (br_readonly_copies b') - {ri_inst_id req, br_claimed_owner b'}
      | DRC_REQ_OWNER_WAITING \<Rightarrow> rr_curr_owner_id res = br_claimed_owner b' \<and> br_claimed_owner b' \<noteq> OG_INVALID_ID8 \<and>
          (if is_try then rs' = rs else converting b' \<and> cvt_req b' = cvt_req b \<and> kept_waiting req rs rs')
      | _ \<Rightarrow> False)"

text \<open>What a request leaves as it is: the owner, the mode and the copies of a page that has an owner.\<close>

definition owner_kept :: "drc_buf_res \<Rightarrow> drc_buf_res \<Rightarrow> bool" where
  "owner_kept b b' \<longleftrightarrow> br_claimed_owner b = OG_INVALID_ID8 \<or>
     br_claimed_owner b' = br_claimed_owner b \<and> rb_mode b' = rb_mode b \<and> br_readonly_copies b' = br_readonly_copies b"

definition alloc_result :: "(u8 \<Rightarrow> u32) \<Rightarrow> drc_res_ctx \<Rightarrow> page_id \<Rightarrow> drc_buf_res \<Rightarrow> (page_id \<Rightarrow> drc_buf_res option) \<Rightarrow>
    (drid \<Rightarrow> drc_master_res option) \<Rightarrow> u32 set \<Rightarrow> u32 set \<Rightarrow> u32 set \<Rightarrow> drc_req_info \<Rightarrow> bool \<Rightarrow>
    status_t \<times> bool \<times> drc_req_info \<times> drc_req_owner_result \<times> drc_res_ctx \<Rightarrow> bool" where
  "alloc_result promote c p b V W H G F req is_try = (\<lambda>(ret, can_cvt, req', res, c').
     \<exists>b'. ctx_ok promote c' (V(p \<mapsto> b')) W H G F \<and> rb_idx b' = rb_idx b \<and> owner_kept b b' \<and> rc_sent c' = rc_sent c \<and>
       ri_inst_id req' = ri_inst_id req \<and> (can_cvt \<longrightarrow> converting b') \<and>
       (if ret = OG_SUCCESS then request_outcome req is_try res b (waiting c b) b' (waiting c' b')
        else \<not> can_cvt \<and> waiting c' b' = waiting c b \<and>
          (br_pending b = DRC_RES_PENDING_ACTION \<or> br_claimed_owner b = OG_INVALID_ID8 \<or> converting b)))"

lemma alloc_unchanged:
  assumes "ctx_ok promote c V W H G F" and "V p = Some b"
    and "br_pending b = DRC_RES_PENDING_ACTION \<or> br_claimed_owner b = OG_INVALID_ID8"
  shows "alloc_result promote c p b V W H G F req is_try (OG_ERROR, False, req, res, c)"
  using assms by (auto simp: alloc_result_def owner_kept_def fun_upd_idem intro!: exI [of _ b])

lemma alloc_put:
  assumes at: "page_at promote c1 p b1 V W H G F" and ok: "page_ok b1 (waiting c1 b1)"
    and idx: "rb_idx b1 = rb_idx b" and sent: "rc_sent c1 = rc_sent c" and req: "ri_inst_id req' = ri_inst_id req"
    and cvt: "can_cvt \<Longrightarrow> converting b1"
    and res: "if ret = OG_SUCCESS then request_outcome req is_try res b (waiting c b) b1 (waiting c1 b1)
      else \<not> can_cvt \<and> waiting c1 b1 = waiting c b \<and>
        (br_pending b = DRC_RES_PENDING_ACTION \<or> br_claimed_owner b = OG_INVALID_ID8 \<or> converting b)"
    and kept: "owner_kept b b1"
  shows "\<exists>c'. buf_put c1 (rb_idx b) b1 = Some c' \<and>
    alloc_result promote c p b V W H G F req is_try (ret, can_cvt, req', res, c')"
proof -
  obtain g where g: "buf_put c1 (rb_idx b1) b1 = Some (c1\<lparr>rc_global_buf_res := g\<rparr>)"
    "ctx_ok promote (c1\<lparr>rc_global_buf_res := g\<rparr>) (V(p \<mapsto> strip b1)) W H G F"
    using page_at_put [OF at ok] by blast
  have s: "request_outcome req is_try res b rs (strip b1) rs' = request_outcome req is_try res b rs b1 rs'" for rs rs'
    by (cases "rr_type res") (simp_all add: request_outcome_def now_converts_def)
  have k: "owner_kept b (strip b1)" using kept by (simp add: owner_kept_def)
  have "alloc_result promote c p b V W H G F req is_try (ret, can_cvt, req', res, c1\<lparr>rc_global_buf_res := g\<rparr>)"
    unfolding alloc_result_def prod.case
    by (rule exI [of _ "strip b1"]) (use g(2) idx sent req cvt res s k in simp)
  then show ?thesis using g(1) idx by auto
qed

lemma request_waiting_ok:
  assumes at: "page_at promote c p b V W H G F" and ok: "page_ok b (waiting c b)" and req: "req_ok req"
    and own: "br_claimed_owner b \<noteq> OG_INVALID_ID8" and pend: "br_pending b \<noteq> DRC_RES_PENDING_ACTION"
    and b0: "rb_idx b = rb_idx b0" "waiting c b = waiting c b0" "cvt_req b = cvt_req b0" and kept0: "owner_kept b0 b"
  shows "\<exists>r. drc_request_wait req is_try result (rb_idx b0) b c = Some r \<and>
    alloc_result promote c p b0 V W H G F req is_try r"
proof -
  obtain ret can_cvt retry req' b1 c1 where k: "drc_keep_requester_wait req is_try b c = Some (ret, can_cvt, retry, req', b1, c1)"
    and res: "wait_result promote c p b V W H G F req is_try (ret, can_cvt, retry, req', b1, c1)"
    using keep_wait_idle [OF at ok req own pend] keep_wait_busy [OF at ok req] by (metis prod_cases6)
  have w: "rc_sent c1 = rc_sent c" "same_page b b1" "page_at promote c1 p b1 V W H G F" "page_ok b1 (waiting c1 b1)"
    "ri_inst_id req' = ri_inst_id req"
    using res by (simp_all add: wait_result_def)
  note sel = same_page_sel [OF w(2)]
  have kept: "owner_kept b0 b1" using kept0 sel by (auto simp: owner_kept_def)
  have cv: "converting b = converting b0" using b0(3) by (simp add: converting_def)
  consider (err) "ret \<noteq> OG_SUCCESS" | (cvt) "ret = OG_SUCCESS" can_cvt | (wait) "ret = OG_SUCCESS" "\<not> can_cvt" by blast
  then show ?thesis
  proof cases
    case err
    have "\<exists>c'. buf_put c1 (rb_idx b0) b1 = Some c' \<and>
        alloc_result promote c p b0 V W H G F req is_try (OG_ERROR, False, req', result, c')"
      by (rule alloc_put [OF w(3,4)]) (use res err w sel b0 kept cv in \<open>auto simp: wait_result_def\<close>)
    then show ?thesis using k err by (auto simp: drc_request_wait_def)
  next
    case wait
    let ?res = "result\<lparr>rr_type := DRC_REQ_OWNER_WAITING, rr_curr_owner_id := br_claimed_owner b1\<rparr>"
    have "cvt_req b1 = cvt_req b" if "\<not> is_try" "rb_converting b1 = rb_converting b" using that by (simp add: cvt_req_def)
    moreover have "converting b1 = converting b" if "\<not> is_try" "rb_converting b1 = rb_converting b"
      using that by (simp add: cvt_req_def converting_def)
    ultimately have "\<exists>c'. buf_put c1 (rb_idx b0) b1 = Some c' \<and>
        alloc_result promote c p b0 V W H G F req is_try (OG_SUCCESS, False, req', ?res, c')"
      by (intro alloc_put [OF w(3,4)])
        (use res wait w sel b0 own kept in \<open>auto simp: wait_result_def request_outcome_def split: if_splits\<close>)
    then show ?thesis using k wait by (auto simp: drc_request_wait_def knl_panic_def)
  next
    case cvt
    let ?kind = "if br_claimed_owner b1 = ri_inst_id req' then DRC_REQ_OWNER_ALREADY_OWNER else DRC_REQ_OWNER_CONVERTING"
    let ?b = "set_cvt_req ((cvt_req b1)\<lparr>ri_req_owner_result := owner_result_num ?kind\<rparr>) b1"
    let ?c = "stat_inc R_PO_CONVETED c1"
    let ?res = "result\<lparr>rr_type := ?kind, rr_is_retry := retry, rr_curr_owner_id := br_claimed_owner b1,
      rr_readonly_copies := drc_bitmap64_clear (drc_bitmap64_clear (br_readonly_copies b1) (ri_inst_id req')) (br_claimed_owner b1),
      rr_action := br_pending b1, rr_req_mode := ri_req_mode req'\<rparr>"
    have c: "converting b1" "cvt_req b1 = req'" "waiting c1 b1 = waiting c b" "is_try \<Longrightarrow> br_claimed_owner b1 = ri_inst_id req"
      "retried req b0 req'"
      using res cvt cv b0(3) unfolding wait_result_def retried_def by auto
    have b: "links ?b = links b1" "rb_convert_q ?b = rb_convert_q b1" "br_claimed_owner ?b = br_claimed_owner b1"
      "br_readonly_copies ?b = br_readonly_copies b1" "rb_idx ?b = rb_idx b1" "converting ?b" "ri_inst_id (cvt_req ?b) = ri_inst_id req"
      using c w(5) by (simp_all add: set_cvt_req_def links_def converting_def cvt_req_def)
    have at': "page_at promote ?c p ?b V W H G F" by (rule page_at_cong [OF w(3)]) (simp_all add: b)
    have ok': "page_ok ?b (waiting ?c ?b)" using w(4) b(2) by simp
    have out: "request_outcome req is_try ?res b0 (waiting c b0) ?b (waiting ?c ?b)"
      using b c(2,4,5) w(5) by (auto simp: request_outcome_def now_converts_def)
    have kb: "owner_kept b0 ?b" using kept by (simp add: owner_kept_def set_cvt_req_def)
    have "\<exists>c'. buf_put ?c (rb_idx b0) ?b = Some c' \<and>
        alloc_result promote c p b0 V W H G F req is_try (OG_SUCCESS, True, req', ?res, c')"
      by (rule alloc_put [OF at' ok']) (use b out w sel b0 kb in simp_all)
    then show ?thesis using k cvt c(4) w(5) by (auto simp: drc_request_wait_def knl_panic_def Let_def)
  qed
qed

lemma request_allocated_ok:
  assumes ok: "ctx_ok promote c V W H G F" and V: "V p = Some b0" and req: "req_ok req"
  shows "\<exists>r. drc_request_allocated e req is_try result (rb_idx b0) c = Some r \<and>
    alloc_result promote c p b0 V W H G F req is_try r"
proof -
  obtain b where b: "buf_get c (rb_idx b0) = Some b" "strip b = b0" "rb_idx b = rb_idx b0"
    "page_at promote c p b V W H G F" "page_ok b (waiting c b)"
    using page_at_start [OF ok V] by blast
  have s: "waiting c b = waiting c b0" "cvt_req b = cvt_req b0" "br_claimed_owner b = br_claimed_owner b0"
    "br_pending b = br_pending b0" "br_readonly_copies b = br_readonly_copies b0" "br_edp_map b = br_edp_map b0"
    using b(2) by auto
  have kept: "owner_kept b0 b" using b(2) by (auto simp: owner_kept_def)
  consider (refuse) "br_pending b = DRC_RES_PENDING_ACTION \<or> br_claimed_owner b = OG_INVALID_ID8 \<and> \<not> rq_recover e"
    | (owned) "br_pending b \<noteq> DRC_RES_PENDING_ACTION" "br_claimed_owner b \<noteq> OG_INVALID_ID8"
    | (orphan) "br_pending b \<noteq> DRC_RES_PENDING_ACTION" "br_claimed_owner b = OG_INVALID_ID8" "rq_recover e" by blast
  then show ?thesis
  proof cases
    case refuse
    then show ?thesis using alloc_unchanged [OF ok V] b(1) s by (auto simp: drc_request_allocated_def)
  next
    case owned
    then show ?thesis
      using request_waiting_ok [OF b(4,5) req owned(2,1) b(3) s(1,2)] b(1) kept by (simp add: drc_request_allocated_def)
  next
    case orphan
    obtain b1 where b1: "drc_clean_buf_res b = Some b1" "page_ok b1 (waiting c b)" "links b1 = links b"
      "rb_convert_q b1 = rb_convert_q b" "rb_converting b1 = rb_converting b" "br_pending b1 \<noteq> DRC_RES_PENDING_ACTION"
      and left: "if br_readonly_copies b \<noteq> 0 then br_claimed_owner b1 \<in> insts (br_readonly_copies b) \<and>
         insts (br_readonly_copies b1) = insts (br_readonly_copies b) - {br_claimed_owner b1}
       else if br_edp_map b \<noteq> 0 then br_claimed_owner b1 = br_latest_edp b \<and> br_readonly_copies b1 = 0
       else b1 = b"
      using clean_buf_res_ok [OF b(5) orphan(2)] by blast
    have orph: "owner_kept b0 x" for x using orphan(2) s(3) by (simp add: owner_kept_def)
    have at1: "page_at promote c p b1 V W H G F" by (rule page_at_cong [OF b(4) _ b1(4,3)]) simp
    have s1: "rb_idx b1 = rb_idx b0" "waiting c b1 = waiting c b0" "cvt_req b1 = cvt_req b0"
      using b1(3-5) s b(3) by (simp_all add: links_def cvt_req_def)
    show ?thesis
    proof (cases "br_claimed_owner b1 = OG_INVALID_ID8")
      case False
      then show ?thesis
        using request_waiting_ok [OF at1 _ req False b1(6) s1] orph b1(1,2) b(1) orphan s s1 by (simp add: drc_request_allocated_def)
    next
      case True
      have e: "b1 = b" "br_readonly_copies b = 0" "br_edp_map b = 0"
        using left True b(5) orphan(2) insts_ok [of OG_INVALID_ID8 "br_readonly_copies b"]
        by (auto simp: page_ok_orphan split: if_splits)
      let ?res = "result\<lparr>rr_type := DRC_REQ_OWNER_GRANTED, rr_curr_owner_id := ri_inst_id req\<rparr>"
      let ?b1 = "b\<lparr>br_claimed_owner := ri_inst_id req, rb_mode := ri_req_mode req\<rparr>"
      let ?b = "set_cvt_req ((cvt_req b)\<lparr>ri_req_owner_result := owner_result_num (rr_type ?res)\<rparr>) ?b1"
      have "page_ok ?b1 (waiting c b)" by (rule page_ok_granted [OF b(5) orphan(2) e(2) req])
      then have "page_ok ?b (waiting c ?b)" using page_ok_result [where b = ?b1] by simp
      moreover have "page_at promote c p ?b V W H G F"
        by (rule page_at_cong [OF b(4)]) (simp_all add: links_def set_cvt_req_def)
      moreover have "request_outcome req is_try ?res b0 (waiting c b0) ?b (waiting c ?b)"
        using orphan(2) e s by (simp add: request_outcome_def set_cvt_req_def)
      ultimately have "\<exists>c'. buf_put c (rb_idx b0) ?b = Some c' \<and>
          alloc_result promote c p b0 V W H G F req is_try (OG_SUCCESS, False, req, ?res, c')"
        by (intro alloc_put) (use b(3) orph in \<open>simp_all add: set_cvt_req_def\<close>)
      then show ?thesis
        using b1(1) b(1) orphan e by (auto simp: drc_request_allocated_def Let_def)
    qed
  qed
qed

subsection \<open>Items of the page pool\<close>

lemma ctx_ok_buf:
  assumes ok: "ctx_ok promote c V W H G F" and g: "page_dir.rep g V H'" and "used_ok (contents g) V"
  shows "ctx_ok promote (c\<lparr>rc_global_buf_res := g\<rparr>) V W H' G F"
  using assms by (simp add: ctx_ok_def ctx_rep_def)

lemma buf_alloc_ok:
  assumes ok: "ctx_ok promote c V W H G F"
  shows "buf_alloc c = Some (OG_INVALID_ID32, c) \<or>
    (\<exists>i g. buf_alloc c = Some (i, c\<lparr>rc_global_buf_res := g\<rparr>) \<and> i \<noteq> OG_INVALID_ID32 \<and> i \<notin> H \<and>
       ctx_ok promote (c\<lparr>rc_global_buf_res := g\<rparr>) V W (insert i H) G F)"
proof -
  have rep: "page_dir.rep (rc_global_buf_res c) V H" and used: "used_ok (contents (rc_global_buf_res c)) V"
    using ok by (simp_all add: ctx_ok_def ctx_rep_def)
  show ?thesis
    using page_dir.rep_alloc [OF rep]
  proof (elim disjE exE conjE)
    assume "gr_alloc (rc_global_buf_res c) = Some (OG_INVALID_ID32, rc_global_buf_res c)"
    then show ?thesis by (simp add: buf_alloc_def)
  next
    fix i g assume g: "gr_alloc (rc_global_buf_res c) = Some (i, g)" "i \<noteq> OG_INVALID_ID32" "i \<notin> H"
      "page_dir.rep g V (insert i H)"
    then have "ctx_ok promote (c\<lparr>rc_global_buf_res := g\<rparr>) V W (insert i H) G F"
      using ctx_ok_buf [OF ok g(4)] contents_alloc [OF g(1)] used by simp
    then show ?thesis using g by (auto simp: buf_alloc_def)
  qed
qed

lemma buf_free_ok:
  assumes ok: "ctx_ok promote c V W H G F" and i: "i \<in> H"
  shows "\<exists>g. buf_free c i = Some (c\<lparr>rc_global_buf_res := g\<rparr>) \<and> ctx_ok promote (c\<lparr>rc_global_buf_res := g\<rparr>) V W (H - {i}) G F"
proof -
  have rep: "page_dir.rep (rc_global_buf_res c) V H" and used: "used_ok (contents (rc_global_buf_res c)) V"
    using ok by (simp_all add: ctx_ok_def ctx_rep_def)
  obtain g where g: "gr_free (rc_global_buf_res c) i = Some g" "page_dir.rep g V (H - {i})"
    using page_dir.rep_free [OF rep i] by blast
  then have "ctx_ok promote (c\<lparr>rc_global_buf_res := g\<rparr>) V W (H - {i}) G F"
    using ctx_ok_buf [OF ok g(2)] contents_free [OF g(1)] used by simp
  then show ?thesis using g(1) by (auto simp: buf_free_def)
qed

lemma used_ok_other:
  assumes "used_ok bs V" and "\<not> br_is_used b"
  shows "used_ok (bs[i := b]) V"
  unfolding used_ok_def
proof (intro conjI [of "bs[i := b] \<noteq> []"] allI impI)
  show "bs[i := b] \<noteq> []" using assms(1) by (simp add: used_ok_def)
  fix j assume j: "j < length (bs[i := b])" "br_is_used (bs[i := b] ! j)"
  then have "j \<noteq> i" using assms(2) by auto
  then show "V (br_page_id (bs[i := b] ! j)) = Some (bs[i := b] ! j) \<and> unat (rb_idx (bs[i := b] ! j)) = j"
    using assms(1) j by (simp add: used_ok_def)
qed

lemma used_ok_insert:
  assumes used: "used_ok bs V" and "V p = None" "br_page_id b = p" "unat (rb_idx b) = i"
  shows "used_ok (bs[i := b]) (V(p \<mapsto> b))"
  unfolding used_ok_def
proof (intro conjI [of "bs[i := b] \<noteq> []"] allI impI)
  show "bs[i := b] \<noteq> []" using used by (simp add: used_ok_def)
  fix j assume j: "j < length (bs[i := b])" "br_is_used (bs[i := b] ! j)"
  show "(V(p \<mapsto> b)) (br_page_id (bs[i := b] ! j)) = Some (bs[i := b] ! j) \<and> unat (rb_idx (bs[i := b] ! j)) = j"
  proof (cases "j = i")
    case True
    then show ?thesis using assms j by simp
  next
    case False
    then have v: "V (br_page_id (bs ! j)) = Some (bs ! j)" "unat (rb_idx (bs ! j)) = j"
      using j used by (simp_all add: used_ok_def)
    then have "br_page_id (bs ! j) \<noteq> p" using assms(2) by auto
    then show ?thesis using v False by simp
  qed
qed

lemma used_ok_remove:
  assumes used: "used_ok bs V" and "V p = Some b" "\<not> br_is_used z"
  shows "used_ok (bs[unat (rb_idx b) := z]) (V(p := None))"
  unfolding used_ok_def
proof (intro conjI [of "bs[unat (rb_idx b) := z] \<noteq> []"] allI impI)
  show "bs[unat (rb_idx b) := z] \<noteq> []" using used by (simp add: used_ok_def)
  let ?i = "unat (rb_idx b)"
  fix j assume j: "j < length (bs[?i := z])" "br_is_used (bs[?i := z] ! j)"
  then have ne: "j \<noteq> ?i" using assms(3) by auto
  then have v: "V (br_page_id (bs ! j)) = Some (bs ! j)" "unat (rb_idx (bs ! j)) = j"
    using j used by (simp_all add: used_ok_def)
  then have "br_page_id (bs ! j) \<noteq> p" using assms(2) ne by auto
  then show "(V(p := None)) (br_page_id (bs[?i := z] ! j)) = Some (bs[?i := z] ! j) \<and> unat (rb_idx (bs[?i := z] ! j)) = j"
    using v ne by simp
qed

text \<open>Entering and removing a page.\<close>

lemma ctx_ok_insert:
  assumes ok: "ctx_ok promote c V W H G F" and V: "V p = None" and g: "page_dir.rep g (V(p \<mapsto> b)) H'"
    and used: "used_ok (contents g) (V(p \<mapsto> b))" and b: "dl_count (rb_convert_q b) = 0" "page_ok b []"
  shows "ctx_ok promote (c\<lparr>rc_global_buf_res := g\<rparr>) (V(p \<mapsto> b)) W H' G F"
proof -
  have "queues_ok (rc_lock_item_pool c) ((cvt_queues V W)(Inl p := Some (rb_convert_q b))) F"
    by (rule queues_empty(1)) (use ok V b in \<open>auto simp: ctx_ok_def ctx_rep_def\<close>)
  then have "ctx_rep promote (c\<lparr>rc_global_buf_res := g\<rparr>) (V(p \<mapsto> b)) W H' G F"
    using ok g used by (simp add: ctx_ok_def ctx_rep_def)
  then show ?thesis using ok b by (auto simp: ctx_ok_def)
qed

lemma ctx_ok_remove:
  assumes ok: "ctx_ok promote c V W H G F" and V: "V p = Some b" "\<not> converting b" and g: "page_dir.rep g (V(p := None)) H'"
    and used: "used_ok (contents g) (V(p := None))"
  shows "ctx_ok promote (c\<lparr>rc_global_buf_res := g\<rparr>) (V(p := None)) W H' G F"
proof -
  have "waiting c b = []" using ok V by (auto simp: ctx_ok_def page_ok_def)
  then have "dl_count (rb_convert_q b) = 0" by (auto simp: cvt_q_reqs_def cvt_q_chain_def unat_eq_zero)
  then have "queues_ok (rc_lock_item_pool c) ((cvt_queues V W)(Inl p := None)) F"
    by (intro queues_empty(1)) (use ok V in \<open>auto simp: ctx_ok_def ctx_rep_def\<close>)
  then have "ctx_rep promote (c\<lparr>rc_global_buf_res := g\<rparr>) (V(p := None)) W H' G F"
    using ok g used by (simp add: ctx_ok_def ctx_rep_def)
  then show ?thesis using ok by (auto simp: ctx_ok_def)
qed

lemma partid_lt: "unat (ucast (drc_page_partid ext p) :: u16) < DRC_MAX_PART_NUM"
proof -
  have "unat (w mod 1024 :: u32) < 1024" for w using hash_lt [of 1024 w] by simp
  then have "unat (drc_page_partid ext p) < 1024"
    by (simp add: drc_page_partid_def cm_hash_uint32_def Let_def)
  then show ?thesis by (simp add: unsigned_ucast_eq take_bit_nat_eq_self DRC_MAX_PART_NUM_def)
qed

lemma strip_new: "strip ((new_buf_res req p i x)\<lparr>rb_part_id := q\<rparr>) = new_buf_res req p i ((strip x)\<lparr>rb_part_id := q\<rparr>)"
  by (simp add: new_buf_res_def strip_def)

definition fresh_page :: "drc_req_info \<Rightarrow> page_id \<Rightarrow> drc_buf_res \<Rightarrow> bool" where
  "fresh_page req p b \<longleftrightarrow> br_page_id b = p \<and> br_claimed_owner b = ri_inst_id req \<and> rb_mode b = ri_req_mode req \<and>
     br_readonly_copies b = 0 \<and> br_edp_map b = 0 \<and> \<not> converting b \<and> dl_count (rb_convert_q b) = 0 \<and>
     br_pending b = DRC_RES_INVALID_ACTION"

lemma new_buf_res_ok:
  assumes "req_ok req"
  shows "page_ok (new_buf_res req p i x) []" "fresh_page req p (new_buf_res req p i x)"
proof -
  have c: "\<not> converting (new_buf_res req p i x)"
    by (simp add: new_buf_res_def converting_def cvt_req_def g_invalid_req_info_def)
  have o: "br_claimed_owner (new_buf_res req p i x) \<noteq> OG_INVALID_ID8"
    using req_okD [OF assms] by (simp add: new_buf_res_def)
  show "page_ok (new_buf_res req p i x) []"
    using c assms unfolding page_ok_owned [OF o] by (simp add: new_buf_res_def req_ok_def)
  show "fresh_page req p (new_buf_res req p i x)"
    using c by (simp add: fresh_page_def) (simp add: new_buf_res_def DRC_LIST_INIT_def)
qed

lemma request_create_ok:
  assumes ok: "ctx_ok promote c V W H G F" and V: "V p = None" and i: "i \<in> H" and req: "req_ok req"
  shows "\<exists>res c'. drc_request_create e p req result i c = Some (if rq_stop3 e then OG_ERROR else OG_SUCCESS, res, c') \<and>
    rc_sent c' = rc_sent c \<and>
    (if rq_stop3 e then ctx_ok promote c' V W (H - {i}) G F
     else rr_type res = DRC_REQ_OWNER_GRANTED \<and> rr_curr_owner_id res = ri_inst_id req \<and>
       (\<exists>b. ctx_ok promote c' (V(p \<mapsto> b)) W (H - {i}) G F \<and> fresh_page req p b))"
proof -
  let ?g = "rc_global_buf_res c"
  define part :: u16 where "part = ucast (drc_page_partid (rq_ext_pages e) p)"
  have rep: "page_dir.rep ?g V H" and used: "used_ok (contents ?g) V"
    using ok by (simp_all add: ctx_ok_def ctx_rep_def)
  obtain x where x: "gr_read ?g i = Some x" using page_dir.rep_read_held [OF rep i] by blast
  define res where "res = new_buf_res req p i x"
  define b where "b = strip (res\<lparr>rb_part_id := part\<rparr>)"
  have r: "br_page_id res = p" "rb_idx res = i" by (simp_all add: res_def new_buf_res_def)
  obtain g1 g2 g3 g4 g5 where g: "gr_write ?g i res = Some g1" "gr_map_add page_hash g1 p i = Some g2"
    "gr_set_part g2 part i = Some g3" "gr_part_add g3 part i = Some g4" "page_dir.rep g4 (V(p \<mapsto> b)) (H - {i})"
    "gr_map_remove page_hash g3 p = Some g5" "page_dir.rep g5 V H"
    using page_dir.rep_insert [OF rep i r(1) V r(2), of part] partid_lt unfolding part_def b_def by blast
  have len: "unat i < length (contents ?g)"
    using x by (auto simp: gr_read_def rd_def contents_def split: if_splits)
  have c3: "contents g3 = (contents ?g)[unat i := b]"
    using contents_write [OF g(1)] contents_map_add [OF g(2)] contents_set_part [OF g(3)] len
    by (simp add: b_def strip_part)
  have bn: "b = new_buf_res req p i ((strip x)\<lparr>rb_part_id := part\<rparr>)" by (simp add: b_def res_def strip_new)
  have b: "page_ok b []" "fresh_page req p b" "br_page_id b = p" "rb_idx b = i"
    using new_buf_res_ok [OF req] r unfolding bn by (simp_all add: new_buf_res_def)
  show ?thesis
  proof (cases "rq_stop3 e")
    case False
    have "used_ok (contents g4) (V(p \<mapsto> b))"
      using used_ok_insert [OF used V b(3)] b(4) c3 contents_part_add [OF g(4)] by simp
    then have "ctx_ok promote (c\<lparr>rc_global_buf_res := g4\<rparr>) (V(p \<mapsto> b)) W (H - {i}) G F"
      using ctx_ok_insert [OF ok V g(5)] b by (simp add: fresh_page_def)
    from ctx_ok_cong [OF this, of "stat_inc R_PO_FIRST (c\<lparr>rc_global_buf_res := g4\<rparr>)"]
    have "ctx_ok promote (stat_inc R_PO_FIRST (c\<lparr>rc_global_buf_res := g4\<rparr>)) (V(p \<mapsto> b)) W (H - {i}) G F" by simp
    then show ?thesis
      using False x g b(2) by (auto simp: drc_request_create_def buf_get_def Let_def res_def part_def)
  next
    case True
    obtain g6 where g6: "gr_write g5 i zero_buf_res = Some g6" "page_dir.rep g6 V H"
      using page_dir.rep_write_held [OF g(7) i] by blast
    obtain g7 where g7: "gr_free g6 i = Some g7" "page_dir.rep g7 V (H - {i})"
      using page_dir.rep_free [OF g6(2) i] by blast
    have "contents g7 = (contents ?g)[unat i := strip zero_buf_res]"
      using c3 contents_map_remove [OF g(6)] contents_write [OF g6(1)] contents_free [OF g7(1)] by simp
    then have "used_ok (contents g7) V" using used_ok_other [OF used] by (simp add: zero_buf_res_def)
    then have "ctx_ok promote (c\<lparr>rc_global_buf_res := g7\<rparr>) V W (H - {i}) G F" by (rule ctx_ok_buf [OF ok g7(2)])
    then show ?thesis
      using True x g g6 g7 by (auto simp: drc_request_create_def buf_get_def Let_def res_def part_def)
  qed
qed

lemma page_removed_ok:
  assumes ok: "ctx_ok promote c V W H G F" and V: "V p = Some b" "\<not> converting b"
  shows "\<exists>g. drc_clean_page_owner_internal c (rb_idx b) = Some (c\<lparr>rc_global_buf_res := g\<rparr>) \<and>
    ctx_ok promote (c\<lparr>rc_global_buf_res := g\<rparr>) (V(p := None)) W (insert (rb_idx b) H) G F"
proof -
  let ?g = "rc_global_buf_res c" and ?i = "rb_idx b"
  have rep: "page_dir.rep ?g V H" and used: "used_ok (contents ?g) V"
    using ok by (simp_all add: ctx_ok_def ctx_rep_def)
  obtain x where x: "buf_get c ?i = Some x" "strip x = b" using page_at_start [OF ok V(1)] by blast
  have p: "br_page_id x = p" using page_dir.rep_find(2) [OF rep V(1)] x(2) by auto
  obtain g1 g2 where g: "gr_map_remove page_hash ?g p = Some g1" "drc_clean_page_from_res_part g1 ?i = Some g2"
    "page_dir.rep g2 (V(p := None)) (insert ?i H)"
    using page_dir.rep_remove_map_list [OF rep V(1)] by blast
  obtain g3 where g3: "gr_write g2 ?i zero_buf_res = Some g3" "page_dir.rep g3 (V(p := None)) (insert ?i H)"
    using page_dir.rep_write_held [OF g(3)] by blast
  have "contents g3 = (contents ?g)[unat ?i := strip zero_buf_res]"
    using contents_map_remove [OF g(1)] contents_part_delete [OF g(2)] contents_write [OF g3(1)] by simp
  then have "used_ok (contents g3) (V(p := None))"
    using used_ok_remove [OF used V(1)] by (simp add: zero_buf_res_def)
  then have "ctx_ok promote (c\<lparr>rc_global_buf_res := g3\<rparr>) (V(p := None)) W (insert ?i H) G F"
    by (rule ctx_ok_remove [OF ok V g3(2)])
  then show ?thesis using x(1) p g g3 by (auto simp: drc_clean_page_owner_internal_def)
qed

end
