(* ===== verification/Page_Recycle.thy ===== *)
theory Page_Recycle
  imports Page_Request
begin

text \<open>
  Recycling of pages on their master: \<^verbatim>\<open>drc_recycle_items\<close>, which looks for a page nobody wants when
  the pool has no free item, and \<^verbatim>\<open>drc_buf_res_recycle\<close>, which the owner of a page asks for. A page is
  marked before the locks are released for the invalidation messages, and the mark keeps requests away.
\<close>

subsection \<open>The position of the recycler\<close>

lemma pool_inv_recycle_pos [simp]:
  "pool_inv (pool\<lparr>rp_recycle_pos := n\<rparr>) = pool_inv pool"
  "pool_used (pool\<lparr>rp_recycle_pos := n\<rparr>) = pool_used pool"
proof -
  have n: "pool_next (pool\<lparr>rp_recycle_pos := n\<rparr>) = pool_next pool" by (simp add: fun_eq_iff pool_next_def)
  have f: "pool_free (pool\<lparr>rp_recycle_pos := n\<rparr>) = pool_free pool" "pool_valid (pool\<lparr>rp_recycle_pos := n\<rparr>) = pool_valid pool"
    by (simp_all add: fun_eq_iff pool_free_def pool_free_num_def pool_valid_def n)
  show "pool_inv (pool\<lparr>rp_recycle_pos := n\<rparr>) = pool_inv pool"
    by (simp add: pool_inv_def f n pool_free_num_def)
  show "pool_used (pool\<lparr>rp_recycle_pos := n\<rparr>) = pool_used pool"
    by (simp add: fun_eq_iff pool_used_def f)
qed

lemma rep_recycle_pos:
  assumes rep: "page_dir.rep g V H"
  shows "page_dir.rep (gr_set_pool g ((gr_pool g)\<lparr>rp_recycle_pos := n\<rparr>)) V H"
proof -
  let ?pool = "(gr_pool g)\<lparr>rp_recycle_pos := n\<rparr>"
  note wf = page_dir.rep_wf [OF rep]
  have mem: "rp_addr ?pool = gr_mem g" by (simp add: gr_mem_def)
  have used: "pool_used ?pool = pool_used (gr_pool g)" by simp
  have frame: "page_dir.wf (gr_set_pool g ?pool)" "page_dir.dfind (gr_set_pool g ?pool) = page_dir.dfind g"
    "listed (gr_set_pool g ?pool) = listed g"
    by (rule page_dir.wf_frame [OF wf]; use page_dir.linked_used [OF wf] used mem page_dir.wf_pool [OF wf] in simp)+
  have m: "gr_mem (gr_set_pool g ?pool) = gr_mem g" by (simp add: gr_mem_def)
  show ?thesis
    by (rule page_dir.rep_same [OF rep frame]) (use rep m used in \<open>auto simp: dir_rep_def\<close>)
qed

lemma recycle_advance_ok:
  assumes ok: "ctx_ok promote c V W H G F"
  shows "\<exists>pos g. drc_recycle_advance c = Some (pos, c\<lparr>rc_global_buf_res := g\<rparr>) \<and>
    ctx_ok promote (c\<lparr>rc_global_buf_res := g\<rparr>) V W H G F \<and> unat pos < length (contents g)"
proof -
  let ?g = "rc_global_buf_res c"
  define pos where "pos = (rp_recycle_pos (gr_pool ?g) + 1) mod rp_item_num (gr_pool ?g)"
  let ?g' = "gr_set_pool ?g ((gr_pool ?g)\<lparr>rp_recycle_pos := pos\<rparr>)"
  have rep: "page_dir.rep ?g V H" and used: "used_ok (contents ?g) V"
    using ok by (simp_all add: ctx_ok_def ctx_rep_def)
  have con: "contents ?g' = contents ?g" by (simp add: contents_def gr_mem_def)
  have len: "length (contents ?g) = unat (rp_item_num (gr_pool ?g))"
    using pool_inv_length [OF page_dir.wf_pool [OF page_dir.rep_wf [OF rep]]] by (simp add: contents_def gr_mem_def)
  then have pos0: "0 < unat (rp_item_num (gr_pool ?g))" using used by (simp add: used_ok_def flip: len)
  then have ne: "rp_item_num (gr_pool ?g) \<noteq> 0" by auto
  have "unat pos < unat (rp_item_num (gr_pool ?g))" unfolding pos_def by (rule hash_lt [OF pos0])
  moreover have "ctx_ok promote (c\<lparr>rc_global_buf_res := ?g'\<rparr>) V W H G F"
    by (rule ctx_ok_buf [OF ok rep_recycle_pos [OF rep]]) (use used con in simp)
  moreover have "drc_recycle_advance c = Some (pos, c\<lparr>rc_global_buf_res := ?g'\<rparr>)"
    using ne by (simp add: drc_recycle_advance_def knl_panic_def pos_def Let_def)
  ultimately show ?thesis using con len by auto
qed

subsection \<open>Changing one page\<close>

lemma buf_find_ok: "ctx_ok promote c V W H G F \<Longrightarrow> buf_find c p = Some (map_option rb_idx (V p))"
  unfolding ctx_ok_def by (blast intro: buf_find_rep)

lemma page_modify:
  assumes ok: "ctx_ok promote c V W H G F" and V: "V p = Some b0" and get: "buf_get c (rb_idx b0) = Some b"
    and b': "links b' = links b" "rb_convert_q b' = rb_convert_q b" "page_ok b' (waiting c b0)"
  shows "\<exists>g. buf_put c (rb_idx b0) b' = Some (c\<lparr>rc_global_buf_res := g\<rparr>) \<and>
    ctx_ok promote (c\<lparr>rc_global_buf_res := g\<rparr>) (V(p \<mapsto> strip b')) W H G F"
proof -
  obtain x where x: "buf_get c (rb_idx b0) = Some x" "strip x = b0" "rb_idx x = rb_idx b0"
    "page_at promote c p x V W H G F"
    using page_at_start [OF ok V] by blast
  have "x = b" using x(1) get by simp
  then have at: "page_at promote c p b' V W H G F" and idx: "rb_idx b' = rb_idx b0" and q: "rb_convert_q b' = rb_convert_q b0"
    using page_at_cong [OF x(4) _ b'(2) [folded \<open>x = b\<close>] b'(1) [folded \<open>x = b\<close>], of c] x(2,3) b'(1,2) by (auto simp: links_def)
  show ?thesis using page_at_put [OF at] b'(3) idx q by simp
qed

lemma page_not_held: "ctx_ok promote c V W H G F \<Longrightarrow> V p = Some b \<Longrightarrow> rb_idx b \<notin> H \<and> rb_idx b \<noteq> OG_INVALID_ID32"
proof -
  assume ok: "ctx_ok promote c V W H G F" and V: "V p = Some b"
  have rep: "page_dir.rep (rc_global_buf_res c) V H" using ok by (simp add: ctx_ok_def ctx_rep_def)
  have "rb_idx b \<in> mapped page_hash br_page_id (rc_global_buf_res c)" "pool_used (gr_pool (rc_global_buf_res c)) (rb_idx b)"
    using page_dir.rep_find(2) [OF rep V] by simp_all
  moreover have "pool_valid (gr_pool (rc_global_buf_res c)) (rb_idx b)"
    using calculation(2) by (simp add: pool_used_def)
  ultimately show ?thesis
    using rep pool_valid_not_invalid by (auto simp: dir_rep_def)
qed

lemma page_ok_mark:
  assumes "page_ok b rs" "\<not> converting b" "br_claimed_owner b \<noteq> OG_INVALID_ID8"
  shows "page_ok (b\<lparr>br_pending := DRC_RES_PENDING_ACTION\<rparr>) rs"
  using assms by (simp add: page_ok_owned)

lemma page_ok_unmark:
  assumes "page_ok b rs" "br_claimed_owner b \<noteq> OG_INVALID_ID8"
  shows "page_ok (b\<lparr>br_pending := DRC_RES_INVALID_ACTION\<rparr>) rs" "page_ok (b\<lparr>br_readonly_copies := 0, br_pending := DRC_RES_INVALID_ACTION\<rparr>) rs"
    "page_ok (b\<lparr>br_pending := DRC_RES_INVALID_ACTION, br_readonly_copies := 0\<rparr>) rs"
  using assms by (simp_all add: page_ok_owned)

lemma links_upd [simp]:
  "links (b\<lparr>br_pending := x\<rparr>) = links b" "links (b\<lparr>br_readonly_copies := y\<rparr>) = links b"
  "links (b\<lparr>br_edp_map := z\<rparr>) = links b" "links (b\<lparr>br_latest_edp := u\<rparr>) = links b"
  "links (b\<lparr>br_latest_edp_lsn := v\<rparr>) = links b" "links (b\<lparr>br_claimed_owner := w\<rparr>) = links b"
  by (simp_all add: links_def)

subsection \<open>Recycling\<close>

text \<open>
  A page that is marked as being recycled gets no request and no claim. What the recycler relies on while
  it has released its locks: the page stays marked and keeps its owner and copies, unless it is removed.
\<close>

definition keeps_pending :: "page_id \<Rightarrow> (drc_res_ctx \<Rightarrow> drc_res_ctx) \<Rightarrow> bool" where
  "keeps_pending p f \<longleftrightarrow> (\<forall>c b. buf_view c p = Some b \<and> br_pending b = DRC_RES_PENDING_ACTION \<longrightarrow>
     (case buf_view (f c) p of None \<Rightarrow> True
      | Some b' \<Rightarrow> rb_idx b' = rb_idx b \<and> br_pending b' = DRC_RES_PENDING_ACTION \<and>
          br_claimed_owner b' = br_claimed_owner b \<and> br_readonly_copies b' = br_readonly_copies b))"

lemma keeps_pending_id [simp]: "keeps_pending p (\<lambda>c. c)"
  by (simp add: keeps_pending_def)

lemma pending_owned:
  assumes "page_ok b rs" and "br_pending b = DRC_RES_PENDING_ACTION"
  shows "\<not> converting b" "br_claimed_owner b \<noteq> OG_INVALID_ID8" "br_is_used b" "buf_res_is_recyclable b"
  using assms by (simp_all add: page_ok_def converting_def buf_res_is_recyclable_def)

lemma buf_put_get: "buf_put c i b = Some c' \<Longrightarrow> buf_get c' i = Some b"
  by (auto simp: buf_put_def buf_get_def gr_write_def gr_read_def rd_def wr_def split: if_splits)

text \<open>Taking the page out after the invalidation.\<close>

lemma recycle_remove_ok:
  assumes ok: "ctx_ok promote c V W H G F" and V: "V p = Some b0" and pend: "br_pending b0 = DRC_RES_PENDING_ACTION"
    and get: "buf_get c (rb_idx b0) = Some b" and b': "b' = b\<lparr>br_readonly_copies := 0, br_pending := DRC_RES_INVALID_ACTION\<rparr>"
  shows "\<exists>c1 c2. buf_put c (rb_idx b0) b' = Some c1 \<and> drc_clean_page_owner_internal c1 (rb_idx b0) = Some c2 \<and>
    ctx_ok promote c2 (V(p := None)) W (insert (rb_idx b0) H) G F"
proof -
  have b: "strip b = b0" using page_at_start [OF ok V] get by auto
  have "page_ok b0 (waiting c b0)" using ok V by (simp add: ctx_ok_def)
  then have ok0: "page_ok b (waiting c b0)" using b by auto
  have "br_pending b = DRC_RES_PENDING_ACTION" using b pend by auto
  note own = pending_owned [OF ok0 this]
  have ok': "page_ok b' (waiting c b0)" unfolding b' by (rule page_ok_unmark(2) [OF ok0 own(2)])
  obtain g where g: "buf_put c (rb_idx b0) b' = Some (c\<lparr>rc_global_buf_res := g\<rparr>)"
    "ctx_ok promote (c\<lparr>rc_global_buf_res := g\<rparr>) (V(p \<mapsto> strip b')) W H G F"
    using page_modify [OF ok V get _ _ ok'] b' by auto
  have i: "rb_idx (strip b') = rb_idx b0" "\<not> converting (strip b')" using b b' own(1) by auto
  have u: "(V(p \<mapsto> strip b')) p = Some (strip b')" by simp
  obtain g2 where "drc_clean_page_owner_internal (c\<lparr>rc_global_buf_res := g\<rparr>) (rb_idx b0) = Some (c\<lparr>rc_global_buf_res := g2\<rparr>)"
    "ctx_ok promote (c\<lparr>rc_global_buf_res := g2\<rparr>) (V(p := None)) W (insert (rb_idx b0) H) G F"
    using page_removed_ok [OF g(2) u i(2)] unfolding i(1) fun_upd_upd by auto
  then show ?thesis using g(1) by blast
qed

lemma recycle_unmark_ok:
  assumes ok: "ctx_ok promote c V W H G F" and V: "V p = Some b0" and pend: "br_pending b0 = DRC_RES_PENDING_ACTION"
    and get: "buf_get c (rb_idx b0) = Some b"
  shows "\<exists>c1. buf_put c (rb_idx b0) (b\<lparr>br_pending := DRC_RES_INVALID_ACTION\<rparr>) = Some c1 \<and> ctx_inv promote c1 H G F"
proof -
  have b: "strip b = b0" using page_at_start [OF ok V] get by auto
  have "page_ok b0 (waiting c b0)" using ok V by (simp add: ctx_ok_def)
  then have ok0: "page_ok b (waiting c b0)" using b by auto
  have "br_pending b = DRC_RES_PENDING_ACTION" using b pend by auto
  note own = pending_owned [OF ok0 this]
  show ?thesis
    using page_modify [OF ok V get _ _ page_ok_unmark(1) [OF ok0 own(2)]] ctx_okD(1) by fastforce
qed

text \<open>Marking a page, and what the recycler finds when it has its locks again.\<close>

lemma recycle_mark_ok:
  assumes ok: "ctx_ok promote c V W H G F" and V: "V p = Some b0" and get: "buf_get c (rb_idx b0) = Some b"
    and r: "buf_res_is_recyclable b" and o: "keeps_inv promote f" "keeps_pending p f"
  shows "\<exists>c1. buf_put c (rb_idx b0) (b\<lparr>br_pending := DRC_RES_PENDING_ACTION\<rparr>) = Some c1 \<and> ctx_inv promote (f c1) H G F \<and>
    buf_get c1 (rb_idx b0) = Some (b\<lparr>br_pending := DRC_RES_PENDING_ACTION\<rparr>) \<and>
    (case buf_view (f c1) p of None \<Rightarrow> True
     | Some b' \<Rightarrow> rb_idx b' = rb_idx b0 \<and> br_pending b' = DRC_RES_PENDING_ACTION \<and>
         br_claimed_owner b' = br_claimed_owner b \<and> br_readonly_copies b' = br_readonly_copies b)"
proof -
  have b: "strip b = b0" using page_at_start [OF ok V] get by auto
  have "page_ok b0 (waiting c b0)" using ok V by (simp add: ctx_ok_def)
  then have ok0: "page_ok b (waiting c b0)" using b by auto
  let ?b = "b\<lparr>br_pending := DRC_RES_PENDING_ACTION\<rparr>"
  have ok': "page_ok ?b (waiting c b0)"
    by (rule page_ok_mark [OF ok0]) (use r in \<open>simp_all add: buf_res_is_recyclable_def converting_def\<close>)
  obtain g where g: "buf_put c (rb_idx b0) ?b = Some (c\<lparr>rc_global_buf_res := g\<rparr>)"
    "ctx_ok promote (c\<lparr>rc_global_buf_res := g\<rparr>) (V(p \<mapsto> strip ?b)) W H G F"
    using page_modify [OF ok V get _ _ ok'] by auto
  let ?c = "c\<lparr>rc_global_buf_res := g\<rparr>"
  have v: "buf_view ?c p = Some (strip ?b)" using ctx_okD(2) [OF g(2)] by simp
  have "rb_idx (strip ?b) = rb_idx b0" using b by auto
  moreover have "buf_get ?c (rb_idx b0) = Some ?b"
    by (rule buf_put_get [OF g(1)])
  moreover have "ctx_inv promote (f ?c) H G F" using ctx_okD(1) [OF g(2)] o(1) by (simp add: keeps_inv_def)
  moreover note o(2) [unfolded keeps_pending_def, rule_format, of ?c "strip ?b"]
  ultimately show ?thesis
    using g(1) v by (intro exI [of _ ?c]) (simp split: option.splits)
qed

lemma recycle_relocked_ok:
  assumes ok: "ctx_ok promote c V W H G F" and V: "V (br_page_id b) = Some b1" "rb_idx b1 = pos"
    and pend: "br_pending b1 = DRC_RES_PENDING_ACTION" "br_claimed_owner b1 = br_claimed_owner b"
      "br_readonly_copies b1 = br_readonly_copies b"
  shows "\<exists>step c'. drc_recycle_relocked e i pos b c = Some (step, c') \<and>
    (case step of Recycle_taken idx \<Rightarrow> idx \<notin> H \<and> idx \<noteq> OG_INVALID_ID32 \<and> ctx_inv promote c' (insert idx H) G F
     | _ \<Rightarrow> ctx_inv promote c' H G F)"
proof -
  obtain x where x: "buf_get c pos = Some x" "strip x = b1" "page_ok x (waiting c x)"
    using page_at_start [OF ok V(1)] V(2) by blast
  have key: "br_page_id b1 = br_page_id b" using page_key [of promote c V W H G F "br_page_id b"] ok V(1) by (simp add: ctx_ok_def)
  have s: "br_pending x = DRC_RES_PENDING_ACTION" "br_claimed_owner x = br_claimed_owner b" "rb_idx x = pos"
    "br_readonly_copies x = br_readonly_copies b" "br_page_id x = br_page_id b"
    using x(2) pend V(2) key by auto
  note own = pending_owned [OF x(3) s(1)]
  have find: "buf_find c (br_page_id b) = Some (Some pos)"
    using buf_find_ok [OF ok] V by simp
  have get: "buf_get c (rb_idx b1) = Some x" using x(1) V(2) by simp
  obtain c1 where c1: "buf_put c pos (x\<lparr>br_pending := DRC_RES_INVALID_ACTION\<rparr>) = Some c1" "ctx_inv promote c1 H G F"
    using recycle_unmark_ok [OF ok V(1) pend(1) get] V(2) by auto
  have comm: "x\<lparr>br_pending := DRC_RES_INVALID_ACTION, br_readonly_copies := 0\<rparr> =
      x\<lparr>br_readonly_copies := 0, br_pending := DRC_RES_INVALID_ACTION\<rparr>" by simp
  obtain c2 c3 where c2: "buf_put c pos (x\<lparr>br_pending := DRC_RES_INVALID_ACTION, br_readonly_copies := 0\<rparr>) = Some c2"
    "drc_clean_page_owner_internal c2 pos = Some c3" "ctx_inv promote c3 (insert pos H) G F"
    using recycle_remove_ok [OF ok V(1) pend(1) get refl] ctx_okD(1) unfolding V(2) comm by blast
  show ?thesis
    using find x(1) c1 c2 s own page_not_held [OF ok V(1)] V(2)
    by (simp add: drc_recycle_relocked_def knl_panic_def Let_def)
qed

lemma recycle_one_ok:
  assumes ok: "ctx_ok promote c V W H G F" and pos: "unat pos < length (contents (rc_global_buf_res c))"
    and o: "keeps_inv promote (ry_others e i)" "\<And>p. keeps_pending p (ry_others e i)"
  shows "\<exists>step c'. drc_recycle_one e i pos c = Some (step, c') \<and>
    (case step of Recycle_taken idx \<Rightarrow> idx \<notin> H \<and> idx \<noteq> OG_INVALID_ID32 \<and> ctx_inv promote c' (insert idx H) G F
     | _ \<Rightarrow> ctx_inv promote c' H G F)"
proof -
  have "unat pos < length (gr_mem (rc_global_buf_res c))" using pos by (simp add: contents_def)
  then obtain b where b: "buf_get c pos = Some b" "strip b = contents (rc_global_buf_res c) ! unat pos"
    by (simp add: buf_get_def gr_read_def contents_def)
  show ?thesis
  proof (cases "BUF_RES_IS_OLD b (ry_now e) \<and> buf_res_is_recyclable b \<and> br_pending b = DRC_RES_INVALID_ACTION \<and>
      br_is_used b \<and> \<not> ry_remaster1 e i")
    case False
    then have "drc_recycle_one e i pos c = Some (Recycle_continue, c) \<or> drc_recycle_one e i pos c = Some (Recycle_break, c)"
      using b(1) by (auto simp: drc_recycle_one_def)
    then show ?thesis using ctx_okD(1) [OF ok] by auto
  next
    case True
    let ?p = "br_page_id b" and ?f = "ry_others e i"
    have used: "used_ok (contents (rc_global_buf_res c)) V" using ok by (simp add: ctx_ok_def ctx_rep_def)
    have "br_is_used (strip b)" using True by simp
    then have "V (br_page_id (strip b)) = Some (strip b)" "unat (rb_idx (strip b)) = unat pos"
      using used pos unfolding used_ok_def b(2) by blast+
    then have V: "V ?p = Some (strip b)" "rb_idx (strip b) = pos" by (simp_all add: unat_eq_iff)
    obtain c1 where c1: "buf_put c pos (b\<lparr>br_pending := DRC_RES_PENDING_ACTION\<rparr>) = Some c1" "ctx_inv promote (?f c1) H G F"
      and v: "case buf_view (?f c1) ?p of None \<Rightarrow> True
       | Some b' \<Rightarrow> rb_idx b' = pos \<and> br_pending b' = DRC_RES_PENDING_ACTION \<and>
           br_claimed_owner b' = br_claimed_owner b \<and> br_readonly_copies b' = br_readonly_copies b"
      using recycle_mark_ok [OF ok V(1) _ _ o(1) o(2) [of ?p], unfolded V(2), OF b(1)] True by blast
    note ok1 = c1(2) [unfolded ctx_inv_def]
    have find: "buf_find (?f c1) ?p = Some (map_option rb_idx (buf_view (?f c1) ?p))"
      by (rule buf_find_ok [OF ok1])
    have start: "drc_recycle_one e i pos c = drc_recycle_relocked e i pos b (?f c1)"
      using b(1) c1(1) True by (simp add: drc_recycle_one_def)
    show ?thesis
    proof (cases "buf_view (?f c1) ?p")
      case None
      then show ?thesis using start find c1(2) by (simp add: drc_recycle_relocked_def)
    next
      case (Some b1)
      then show ?thesis
        using recycle_relocked_ok [OF ok1 Some, of pos e i] v find start by simp
    qed
  qed
qed

text \<open>The result of the scan: nothing, or an item that nobody else has.\<close>

definition recycled :: "(u8 \<Rightarrow> u32) \<Rightarrow> bool \<Rightarrow> u32 set \<Rightarrow> u32 set \<Rightarrow> u32 set \<Rightarrow> u32 \<times> drc_res_ctx \<Rightarrow> bool" where
  "recycled promote is_batch H G F = (\<lambda>(idx, c).
     if is_batch \<or> idx = OG_INVALID_ID32 then ctx_inv promote c H G F
     else idx \<notin> H \<and> ctx_inv promote c (insert idx H) G F)"

definition recycle_relies :: "(u8 \<Rightarrow> u32) \<Rightarrow> recycle_env \<Rightarrow> bool" where
  "recycle_relies promote e \<longleftrightarrow> (\<forall>i. keeps_inv promote (ry_others e i) \<and> (\<forall>p. keeps_pending p (ry_others e i)))"

lemma recycle_alloc_ok:
  assumes "ctx_inv promote c H G F"
  shows "\<exists>r. buf_alloc c = Some r \<and> recycled promote False H G F r"
  using buf_alloc_ok [OF assms [unfolded ctx_inv_def]] assms ctx_okD(1) by (fastforce simp: recycled_def)

lemma recycle_end_ok:
  assumes "ctx_inv promote c H G F"
  shows "\<exists>r. (if is_batch then Some (idx, c) else buf_alloc c) = Some r \<and> recycled promote is_batch H G F r"
  using recycle_alloc_ok [OF assms] assms by (cases is_batch) (auto simp: recycled_def)

lemma recycle_free_ok:
  assumes "ctx_inv promote c (insert i H) G F" and "i \<notin> H"
  shows "\<exists>c'. buf_free c i = Some c' \<and> ctx_inv promote c' H G F"
  using buf_free_ok [OF assms(1) [unfolded ctx_inv_def], of i] assms(2) ctx_okD(1) by fastforce

lemma recycle_scan_ok:
  assumes "ctx_inv promote c H G F" and rely: "recycle_relies promote e" and "is_batch \<or> idx = OG_INVALID_ID32"
  shows "\<exists>r. drc_recycle_scan e is_batch i n idx c = Some r \<and> recycled promote is_batch H G F r"
  using assms(1,3)
proof (induction n arbitrary: i idx c)
  case 0
  then show ?case using recycle_end_ok by simp
next
  case (Suc n)
  obtain pos g where p: "drc_recycle_advance c = Some (pos, c\<lparr>rc_global_buf_res := g\<rparr>)"
    "ctx_inv promote (c\<lparr>rc_global_buf_res := g\<rparr>) H G F" "unat pos < length (contents g)"
    using recycle_advance_ok [OF Suc.prems(1) [unfolded ctx_inv_def]] ctx_okD(1) by blast
  let ?c = "c\<lparr>rc_global_buf_res := g\<rparr>"
  have one: "\<exists>step c'. drc_recycle_one e i pos ?c = Some (step, c') \<and>
    (case step of Recycle_taken idx \<Rightarrow> idx \<notin> H \<and> idx \<noteq> OG_INVALID_ID32 \<and> ctx_inv promote c' (insert idx H) G F
     | _ \<Rightarrow> ctx_inv promote c' H G F)"
    by (rule recycle_one_ok [OF p(2) [unfolded ctx_inv_def]]) (use p(3) rely in \<open>simp_all add: recycle_relies_def\<close>)
  have go_on: "\<exists>r. Option.bind (drc_recycle_one e i pos ?c) (\<lambda>(step, c). case step of
          Recycle_continue \<Rightarrow> drc_recycle_scan e is_batch (Suc i) n idx c
        | Recycle_break \<Rightarrow> (if is_batch then Some (idx, c) else buf_alloc c)
        | Recycle_taken idx \<Rightarrow>
            (if \<not> is_batch then Some (idx, c)
             else do { c \<leftarrow> buf_free c idx; drc_recycle_scan e is_batch (Suc i) n idx c })) = Some r \<and>
      recycled promote is_batch H G F r" if "is_batch \<or> idx = OG_INVALID_ID32" for idx
    using one
  proof (elim exE conjE)
    fix step c' assume s: "drc_recycle_one e i pos ?c = Some (step, c')"
      "case step of Recycle_taken idx \<Rightarrow> idx \<notin> H \<and> idx \<noteq> OG_INVALID_ID32 \<and> ctx_inv promote c' (insert idx H) G F
       | _ \<Rightarrow> ctx_inv promote c' H G F"
    show ?thesis
    proof (cases step)
      case Recycle_continue
      then show ?thesis using s Suc.IH [of c' idx "Suc i"] that by simp
    next
      case Recycle_break
      then show ?thesis using s recycle_end_ok [of promote c' H G F is_batch idx] by simp
    next
      case (Recycle_taken k)
      then have k: "k \<notin> H" "k \<noteq> OG_INVALID_ID32" "ctx_inv promote c' (insert k H) G F" using s(2) by simp_all
      obtain c2 where "buf_free c' k = Some c2" "ctx_inv promote c2 H G F" using recycle_free_ok [OF k(3,1)] by blast
      then show ?thesis using s(1) Recycle_taken k Suc.IH [of c2 k "Suc i"] by (cases is_batch) (simp_all add: recycled_def)
    qed
  qed
  show ?case
  proof (cases "\<not> is_batch \<and> rp_free_list (gr_pool (rc_global_buf_res ?c)) \<noteq> OG_INVALID_ID32")
    case False
    then show ?thesis using p(1) go_on [OF Suc.prems(2)] Suc.prems(2) by auto
  next
    case True
    obtain k c1 where k: "buf_alloc ?c = Some (k, c1)" "recycled promote False H G F (k, c1)"
      "k = OG_INVALID_ID32 \<longrightarrow> c1 = ?c"
      using buf_alloc_ok [OF p(2) [unfolded ctx_inv_def]] recycle_alloc_ok [OF p(2)] by auto
    then show ?thesis
    proof (cases "k = OG_INVALID_ID32")
      case inv: True
      have nb: "is_batch = False" using True by simp
      show ?thesis using p(1) True k go_on [of k] unfolding inv nb by simp
    next
      case False
      then show ?thesis using p(1) True k by (simp add: recycled_def)
    qed
  qed
qed

lemma recycle_items_ok:
  assumes "ctx_inv promote c H G F" and "recycle_relies promote e"
  shows "\<exists>r. drc_recycle_items e is_batch c = Some r \<and> recycled promote is_batch H G F r"
  unfolding drc_recycle_items_def by (rule recycle_scan_ok [OF assms]) simp

end
