(* ===== verification/Page_Handlers.thy ===== *)
theory Page_Handlers
  imports Page_Recycle
begin

text \<open>
  The remaining handlers of the page protocol as a whole: the recycling an owner asks for, the request
  (\<^verbatim>\<open>drc_request_page_owner\<close>), the release of a page, the removal of its earlier dirty pages and the
  query for its owner. Every handler ends without a panic and keeps the invariant of the catalogue.
\<close>

lemma recycle_mark_cases:
  assumes ok: "ctx_ok promote c V W H G F" and o: "keeps_inv promote others" "keeps_pending page_id others"
    and M: "M = drc_buf_res_recycle_mark in_remaster inst_id time page_id c"
  shows "M = Some (None, c) \<or> (\<exists>b0 b c1. M = Some (Some (rb_idx b0), c1) \<and> V page_id = Some b0 \<and>
    buf_get c (rb_idx b0) = Some b \<and> buf_res_is_recyclable b \<and>
    buf_put c (rb_idx b0) (b\<lparr>br_pending := DRC_RES_PENDING_ACTION\<rparr>) = Some c1)"
proof (cases "V page_id")
  case None
  then show ?thesis using M buf_find_ok [OF ok, of page_id] by (simp add: drc_buf_res_recycle_mark_def)
next
  case (Some b0)
  obtain b where b: "buf_get c (rb_idx b0) = Some b" using page_at_start [OF ok Some] by blast
  show ?thesis
  proof (cases "buf_res_is_recyclable b")
    case True
    then show ?thesis
      using M recycle_mark_ok [OF ok Some b True o] buf_find_ok [OF ok, of page_id] Some b by (auto simp: drc_buf_res_recycle_mark_def)
  next
    case False
    then show ?thesis using M buf_find_ok [OF ok, of page_id] Some b by (simp add: drc_buf_res_recycle_mark_def)
  qed
qed

lemma recycle_finish_ok:
  assumes inv: "ctx_inv promote c H G F"
    and v: "case buf_view c page_id of None \<Rightarrow> True
      | Some b' \<Rightarrow> rb_idx b' = i \<and> br_pending b' = DRC_RES_PENDING_ACTION \<and> P b'"
  shows "\<exists>c'. drc_buf_res_recycle_finish ret page_id i c = Some c' \<and> ctx_inv promote c' H G F"
proof (cases "buf_view c page_id")
  case None
  then show ?thesis
    using buf_find_ok [OF inv [unfolded ctx_inv_def], of page_id] inv by (simp add: drc_buf_res_recycle_finish_def)
next
  case (Some b1)
  note ok = inv [unfolded ctx_inv_def]
  have b1: "rb_idx b1 = i" "br_pending b1 = DRC_RES_PENDING_ACTION" using v Some by simp_all
  obtain x where x: "buf_get c (rb_idx b1) = Some x" "rb_idx x = rb_idx b1"
    using page_at_start [OF ok Some] by blast
  obtain c2 where c2: "buf_put c (rb_idx b1) (x\<lparr>br_pending := DRC_RES_INVALID_ACTION\<rparr>) = Some c2" "ctx_inv promote c2 H G F"
    using recycle_unmark_ok [OF ok Some b1(2) x(1)] by blast
  obtain c3 c4 where c4: "buf_put c (rb_idx b1) (x\<lparr>br_readonly_copies := 0, br_pending := DRC_RES_INVALID_ACTION\<rparr>) = Some c3"
    "drc_clean_page_owner_internal c3 (rb_idx b1) = Some c4" "ctx_inv promote c4 (insert (rb_idx b1) H) G F"
    using recycle_remove_ok [OF ok Some b1(2) x(1) refl] ctx_okD(1) by blast
  note nh = page_not_held [OF ok Some]
  obtain c5 where "buf_free c4 (rb_idx b1) = Some c5" "ctx_inv promote c5 H G F"
    using recycle_free_ok [OF c4(3)] nh by blast
  then show ?thesis
    using buf_find_ok [OF ok, of page_id] Some b1(1) x c2 c4 nh by (simp add: drc_buf_res_recycle_finish_def Let_def)
qed

lemma buf_res_recycle_ok:
  assumes inv: "ctx_inv promote c H G F" and o: "keeps_inv promote others" "keeps_pending page_id others"
  shows "\<exists>c'. drc_buf_res_recycle node_count in_remaster invalidate others inst_id time page_id c = Some c' \<and>
    ctx_inv promote c' H G F"
proof -
  let ?M = "drc_buf_res_recycle_mark in_remaster (ucast inst_id) time page_id c"
  note ok = inv [unfolded ctx_inv_def]
  from recycle_mark_cases [OF ok o refl, of in_remaster "ucast inst_id" time] show ?thesis
  proof (elim disjE exE conjE)
    assume "?M = Some (None, c)"
    then show ?thesis using inv by (simp add: drc_buf_res_recycle_def)
  next
    fix b0 b c1
    assume m: "?M = Some (Some (rb_idx b0), c1)" "buf_view c page_id = Some b0" "buf_get c (rb_idx b0) = Some b"
      "buf_res_is_recyclable b" "buf_put c (rb_idx b0) (b\<lparr>br_pending := DRC_RES_PENDING_ACTION\<rparr>) = Some c1"
    have "\<exists>c'. drc_buf_res_recycle_finish ret page_id (rb_idx b0) (others c1) = Some c' \<and> ctx_inv promote c' H G F" for ret
      using recycle_mark_ok [OF ok m(2-4) o] m(5) by (auto intro: recycle_finish_ok)
    then show ?thesis using buf_put_get [OF m(5)] m(1) inv by (auto simp: drc_buf_res_recycle_def Let_def)
  qed
qed

text \<open>The end of a request, with the invalidation of the read-only copies.\<close>

definition request_relies :: "(u8 \<Rightarrow> u32) \<Rightarrow> page_id \<Rightarrow> request_env \<Rightarrow> bool" where
  "request_relies promote p e \<longleftrightarrow> keeps_inv promote (rq_others1 e) \<and> keeps_inv promote (rq_others2 e) \<and>
     keeps_inv promote (rq_others3 e) \<and> keeps_converting p (rq_others3 e) \<and> recycle_relies promote (rq_recycle e)"

lemma request_invalidate_ok:
  assumes ok: "ctx_ok promote c V W H G F" and V: "V p = Some b" and cvt: "can_cvt \<longrightarrow> converting b"
    and rely: "request_relies promote p e"
  shows "\<exists>ret c'. drc_request_invalidate e can_cvt req res (rb_idx b) c = Some (ret, c') \<and> ctx_inv promote c' H G F"
proof (cases "can_cvt \<and> rr_readonly_copies res \<noteq> 0 \<and> ri_req_mode req = DRC_LOCK_EXCLUSIVE")
  case False
  then show ?thesis using ctx_okD(1) [OF ok] by (auto simp: drc_request_invalidate_def)
next
  case True
  let ?c = "rq_others3 e c"
  have inv: "ctx_inv promote ?c H G F" using rely ctx_okD(1) [OF ok] by (simp add: request_relies_def keeps_inv_def)
  have "buf_view c p = Some b" using ctx_okD(2) [OF ok] V by simp
  then obtain b1 where b1: "buf_view ?c p = Some b1" "rb_idx b1 = rb_idx b" "converting b1"
    using rely cvt True unfolding request_relies_def keeps_converting_def by blast
  note ok1 = inv [unfolded ctx_inv_def]
  obtain g where "drc_clear_readonly_copies (rb_idx b1) ?c = Some (?c\<lparr>rc_global_buf_res := g\<rparr>)"
    "ctx_inv promote (?c\<lparr>rc_global_buf_res := g\<rparr>) H G F"
    using clear_ok [OF ok1 b1(1) converting_owner [OF ok1 b1(1,3)]] ctx_okD(1) by blast
  then show ?thesis using True b1(2) inv by (auto simp: drc_request_invalidate_def)
qed

lemma request_existing_ok:
  assumes ok: "ctx_ok promote c V W H G F" and V: "V p = Some b" and req: "req_ok req"
    and rely: "request_relies promote p e" and slot: "case slot of None \<Rightarrow> H' = H | Some idx \<Rightarrow> H = insert idx H' \<and> idx \<notin> H'"
  shows "\<exists>ret req' res c'. drc_request_existing e req is_try result (rb_idx b) slot c = Some (ret, req', res, c') \<and>
    ctx_inv promote c' H' G F"
proof -
  obtain ret can_cvt req1 res1 c1 where a: "drc_request_allocated e req is_try result (rb_idx b) c = Some (ret, can_cvt, req1, res1, c1)"
    "alloc_result promote c p b V W H G F req is_try (ret, can_cvt, req1, res1, c1)"
    using request_allocated_ok [OF ok V req, of e is_try result] by (metis prod_cases5)
  obtain b1 where b1: "ctx_ok promote c1 (V(p \<mapsto> b1)) W H G F" "rb_idx b1 = rb_idx b" "can_cvt \<longrightarrow> converting b1"
    using a(2) by (auto simp: alloc_result_def)
  have u: "(V(p \<mapsto> b1)) p = Some b1" by simp
  obtain ret2 c2 where c2: "drc_request_invalidate e can_cvt req1 res1 (rb_idx b) c1 = Some (ret2, c2)" "ctx_inv promote c2 H G F"
    using request_invalidate_ok [OF b1(1) u b1(3) rely] b1(2) by metis
  have free: "\<exists>c'. (case slot of None \<Rightarrow> Some c3 | Some idx \<Rightarrow> buf_free c3 idx) = Some c' \<and> ctx_inv promote c' H' G F"
    if "ctx_inv promote c3 H G F" for c3
    using slot that recycle_free_ok [of promote c3 _ H' G F] by (auto split: option.splits)
  show ?thesis
  proof (cases "ret = OG_SUCCESS")
    case True
    then show ?thesis using a(1) c2(1) free [OF c2(2)] by (auto simp: drc_request_existing_def)
  next
    case False
    then show ?thesis using a(1) free [OF ctx_okD(1) [OF b1(1)]] by (auto simp: drc_request_existing_def)
  qed
qed

lemma req_ok_result [simp]: "req_ok (req\<lparr>ri_req_owner_result := n\<rparr>) = req_ok req"
  by (simp add: req_ok_def)

text \<open>The handler for a page that was not in the directory, with the item \<open>idx\<close> allocated for it.\<close>

lemma request_relocked_ok:
  assumes inv: "ctx_inv promote c (insert idx H) G F" and idx: "idx \<notin> H" and req: "req_ok req"
    and rely: "request_relies promote p e"
  shows "\<exists>ret req' res c'. drc_request_relocked e p req is_try result idx c = Some (ret, req', res, c') \<and> ctx_inv promote c' H G F"
proof -
  note ok = inv [unfolded ctx_inv_def] and find = buf_find_ok [OF inv [unfolded ctx_inv_def], of p]
  show ?thesis
  proof (cases "buf_view c p")
    case None
    obtain c1 where c1: "buf_free c idx = Some c1" "ctx_inv promote c1 H G F"
      using recycle_free_ok [OF inv idx] by blast
    obtain res c2 where c2: "drc_request_create e p req result idx c = Some (if rq_stop3 e then OG_ERROR else OG_SUCCESS, res, c2)"
      "ctx_inv promote c2 (insert idx H - {idx}) G F"
      using request_create_ok [OF ok None insertI1 req, of e result] ctx_okD(1) by (metis (no_types, lifting))
    have "insert idx H - {idx} = H" using idx by simp
    then show ?thesis using find None c1 c2 by (simp add: drc_request_relocked_def)
  next
    case (Some b)
    have "\<exists>ret req' res c'. drc_request_existing e req is_try result (rb_idx b) (Some idx) c = Some (ret, req', res, c') \<and>
        ctx_inv promote c' H G F"
      by (rule request_existing_ok [OF ok Some req rely]) (use idx in simp)
    then show ?thesis using find Some by (simp add: drc_request_relocked_def)
  qed
qed

lemma request_item_ok:
  assumes inv: "ctx_inv promote c H G F" and rely: "recycle_relies promote (rq_recycle e)"
  shows "\<exists>r. drc_request_item e c = Some r \<and> recycled promote False H G F r"
proof -
  obtain idx c1 where a: "buf_alloc c = Some (idx, c1)" "recycled promote False H G F (idx, c1)"
    using recycle_alloc_ok [OF inv] by fastforce
  show ?thesis
  proof (cases "idx = OG_INVALID_ID32")
    case True
    then have "ctx_inv promote c1 H G F" using a(2) by (simp add: recycled_def)
    then show ?thesis using recycle_items_ok [OF _ rely, of c1 H G F False] True a(1) by (simp add: drc_request_item_def)
  next
    case False
    then show ?thesis using a by (simp add: drc_request_item_def)
  qed
qed

lemma request_page_ok:
  assumes inv: "ctx_inv promote c H G F" and mode: "ri_req_mode req \<noteq> DRC_LOCK_NULL" and rely: "request_relies promote p e"
  shows "\<exists>ret req' res c'. drc_request_page_owner e p req is_try result c = Some (ret, req', res, c') \<and> ctx_inv promote c' H G F"
proof -
  let ?res = "result\<lparr>rr_type := DRC_REQ_OWNER_INVALID, rr_action := DRC_RES_INVALID_ACTION,
           rr_is_retry := False, rr_req_mode := ri_req_mode req\<rparr>"
  let ?req = "req\<lparr>ri_req_owner_result := owner_result_num DRC_REQ_OWNER_WAITING\<rparr>"
  let ?c = "stat_inc R_PO_TOTAL c"
  show ?thesis
  proof (cases "unat (ri_inst_id req) \<ge> OG_MAX_INSTANCES \<or> IS_INVALID_PAGID p \<or> \<not> rq_readable e \<or> rq_stop1 e")
    case True
    then have "\<exists>req' res. drc_request_page_owner e p req is_try result c = Some (OG_ERROR, req', res, c)"
      by (auto simp: drc_request_page_owner_def Let_def)
    then show ?thesis using inv by auto
  next
    case False
    have req: "req_ok ?req" using False mode by (simp add: req_ok_def inst_ok_def not_le)
    have inv1: "ctx_inv promote ?c H G F" "buf_view ?c = buf_view c" by (rule ctx_inv_cong [OF inv]; simp)+
    note find = buf_find_ok [OF inv [unfolded ctx_inv_def], of p]
    show ?thesis
    proof (cases "buf_view c p")
      case (Some b)
      have v: "buf_view ?c p = Some b" using inv1(2) Some by simp
      have "\<exists>ret req' res c'. drc_request_existing e ?req is_try ?res (rb_idx b) None ?c = Some (ret, req', res, c') \<and>
          ctx_inv promote c' H G F"
        by (rule request_existing_ok [OF inv1(1) [unfolded ctx_inv_def] v req rely]) simp
      then show ?thesis using False find Some by (simp add: drc_request_page_owner_def Let_def)
    next
      case None
      have inv2: "ctx_inv promote (rq_others1 e ?c) H G F" and rec: "recycle_relies promote (rq_recycle e)"
        and o2: "keeps_inv promote (rq_others2 e)"
        using inv1(1) rely by (simp_all add: request_relies_def keeps_inv_def)
      obtain idx c1 where a: "drc_request_item e (rq_others1 e ?c) = Some (idx, c1)" "recycled promote False H G F (idx, c1)"
        using request_item_ok [OF inv2 rec] by fastforce
      show ?thesis
      proof (cases "idx = OG_INVALID_ID32")
        case True
        then show ?thesis using a False find None by (simp add: drc_request_page_owner_def Let_def recycled_def)
      next
        case item: False
        then have "ctx_inv promote (rq_others2 e c1) (insert idx H) G F" "idx \<notin> H"
          using a(2) o2 by (simp_all add: recycled_def keeps_inv_def)
        from request_relocked_ok [OF this req rely, of is_try ?res] show ?thesis
          using a(1) False find None item by (simp add: drc_request_page_owner_def Let_def)
      qed
    qed
  qed
qed

subsection \<open>Release and earlier dirty pages\<close>

text \<open>
  A release removes the page exactly if it is asked for by the owner, nobody is converting the page
  and no earlier dirty page is left.
\<close>

definition releasable :: "u8 \<Rightarrow> drc_buf_res \<Rightarrow> bool" where
  "releasable old_id b \<longleftrightarrow> br_claimed_owner b = old_id \<and> \<not> converting b \<and> br_edp_map b = 0"

lemma release_ok:
  assumes ok: "ctx_ok promote c V W H G F" and V: "V p = Some b"
  shows "\<exists>released c'. drc_release_page_owner old_id p c = Some (released, c') \<and>
    ctx_ok promote c' (if releasable old_id b then V(p := None) else V) W H G F \<and>
    released = (releasable old_id b \<or> br_claimed_owner b \<noteq> old_id \<and> old_id \<noteq> ri_inst_id (cvt_req b)) \<and>
    (\<not> releasable old_id b \<longrightarrow> c' = c)"
proof -
  let ?g = "rc_global_buf_res c" and ?i = "rb_idx b"
  obtain x where x: "buf_get c ?i = Some x" "strip x = b" using page_at_start [OF ok V] by blast
  have s: "br_claimed_owner x = br_claimed_owner b" "cvt_req x = cvt_req b" "br_edp_map x = br_edp_map b" "rb_idx x = ?i"
    using x(2) by auto
  note find = buf_find_ok [OF ok, of p]
  show ?thesis
  proof (cases "releasable old_id b")
    case False
    then show ?thesis using find V x(1) s ok by (auto simp: drc_release_page_owner_def releasable_def converting_def)
  next
    case True
    have rep: "page_dir.rep ?g V H" and used: "used_ok (contents ?g) V"
      using ok by (simp_all add: ctx_ok_def ctx_rep_def)
    obtain g1 g2 where g: "drc_clean_page_from_res_part ?g ?i = Some g1" "gr_map_remove page_hash g1 p = Some g2"
      "page_dir.rep g2 (V(p := None)) (insert ?i H)"
      using page_dir.rep_remove_list_map [OF rep V] by blast
    obtain g3 where g3: "gr_write g2 ?i zero_buf_res = Some g3" "page_dir.rep g3 (V(p := None)) (insert ?i H)"
      using page_dir.rep_write_held [OF g(3)] by blast
    obtain g4 where g4: "gr_free g3 ?i = Some g4" "page_dir.rep g4 (V(p := None)) (insert ?i H - {?i})"
      using page_dir.rep_free [OF g3(2)] by blast
    have H: "insert ?i H - {?i} = H" using page_not_held [OF ok V] by simp
    have "contents g4 = (contents ?g)[unat ?i := strip zero_buf_res]"
      using contents_part_delete [OF g(1)] contents_map_remove [OF g(2)] contents_write [OF g3(1)] contents_free [OF g4(1)] by simp
    then have "used_ok (contents g4) (V(p := None))" using used_ok_remove [OF used V] by (simp add: zero_buf_res_def)
    moreover have "\<not> converting b" using True by (simp add: releasable_def)
    ultimately have "ctx_ok promote (c\<lparr>rc_global_buf_res := g4\<rparr>) (V(p := None)) W H G F"
      using ctx_ok_remove [OF ok V _ g4(2)] H by simp
    then show ?thesis
      using find V x(1) s g g3 g4 True by (auto simp: drc_release_page_owner_def releasable_def converting_def Let_def)
  qed
qed

lemma page_ok_edp: "page_ok b rs \<Longrightarrow> page_ok (b\<lparr>br_edp_map := 0, br_latest_edp := OG_INVALID_ID8, br_latest_edp_lsn := 0\<rparr>) rs"
  by (cases "br_claimed_owner b = OG_INVALID_ID8") (simp_all add: page_ok_orphan page_ok_owned)

lemma clean_edp_ok:
  assumes ok: "ctx_ok promote c V W H G F"
  shows "\<exists>c'. drc_clean_edp_info p lsn c = Some (if V p = None then OG_ERROR else OG_SUCCESS, c') \<and>
    ctx_ok promote c' (case V p of
        Some b \<Rightarrow> if br_lsn b \<le> lsn then V(p \<mapsto> b\<lparr>br_edp_map := 0, br_latest_edp := OG_INVALID_ID8, br_latest_edp_lsn := 0\<rparr>) else V
      | None \<Rightarrow> V) W H G F"
proof (cases "V p")
  case None
  then show ?thesis using buf_find_ok [OF ok, of p] ok by (simp add: drc_clean_edp_info_def)
next
  case (Some b)
  obtain x where x: "buf_get c (rb_idx b) = Some x" "strip x = b" "page_ok x (waiting c x)" using page_at_start [OF ok Some] by blast
  have s: "br_lsn x = br_lsn b" "waiting c x = waiting c b" using x(2) by auto
  let ?x = "x\<lparr>br_edp_map := 0, br_latest_edp := OG_INVALID_ID8, br_latest_edp_lsn := 0\<rparr>"
  have st: "strip ?x = b\<lparr>br_edp_map := 0, br_latest_edp := OG_INVALID_ID8, br_latest_edp_lsn := 0\<rparr>"
    using x(2) by (auto simp: strip_def)
  obtain g where "buf_put c (rb_idx b) ?x = Some (c\<lparr>rc_global_buf_res := g\<rparr>)"
    "ctx_ok promote (c\<lparr>rc_global_buf_res := g\<rparr>) (V(p \<mapsto> strip ?x)) W H G F"
    using page_modify [OF ok Some x(1) _ _ page_ok_edp [OF x(3) [unfolded s(2)]]] by auto
  then show ?thesis
    using buf_find_ok [OF ok, of p] Some x(1) s ok unfolding st by (auto simp: drc_clean_edp_info_def)
qed

lemma owner_id_ok:
  assumes ok: "ctx_ok promote c V W H G F" and V: "V p = Some b" and full: "\<not> partial_recover"
  shows "\<exists>b' c'. drc_get_page_owner_id recover_done partial_recover c p =
      Some (OG_SUCCESS, br_claimed_owner b', Some (br_pending b'), c') \<and>
    ctx_ok promote c' (V(p \<mapsto> b')) W H G F \<and>
    (br_claimed_owner b \<noteq> OG_INVALID_ID8 \<or> \<not> recover_done \<longrightarrow> b' = b) \<and>
    (br_claimed_owner b = OG_INVALID_ID8 \<and> recover_done \<and> (br_readonly_copies b \<noteq> 0 \<or> br_edp_map b \<noteq> 0) \<longrightarrow>
       br_claimed_owner b' \<in> insts (br_readonly_copies b) \<or> br_claimed_owner b' = br_latest_edp b \<and> inst_ok (br_latest_edp b))"
proof -
  obtain x where x: "buf_get c (rb_idx b) = Some x" "strip x = b" "page_ok x (waiting c x)" using page_at_start [OF ok V] by blast
  have s: "br_claimed_owner x = br_claimed_owner b" "waiting c x = waiting c b" "br_readonly_copies x = br_readonly_copies b"
    "br_edp_map x = br_edp_map b" "br_latest_edp x = br_latest_edp b" using x(2) by auto
  define cl where "cl \<longleftrightarrow> br_claimed_owner b = OG_INVALID_ID8 \<and> recover_done"
  obtain y where y: "(if cl then drc_clean_buf_res x else Some x) = Some y" "links y = links x" "rb_convert_q y = rb_convert_q x"
    "page_ok y (waiting c b)" "\<not> cl \<longrightarrow> y = x"
    "cl \<and> (br_readonly_copies b \<noteq> 0 \<or> br_edp_map b \<noteq> 0) \<longrightarrow>
       br_claimed_owner y \<in> insts (br_readonly_copies b) \<or> br_claimed_owner y = br_latest_edp b \<and> inst_ok (br_latest_edp b)"
  proof (cases cl)
    case False
    then show ?thesis using that [of x] x(3) s(2) by simp
  next
    case True
    have o: "br_claimed_owner x = OG_INVALID_ID8" using True s by (simp add: cl_def)
    have e: "br_readonly_copies b = 0 \<and> br_edp_map b \<noteq> 0 \<longrightarrow> inst_ok (br_latest_edp b)"
      using x(3) s unfolding page_ok_orphan [OF o] by auto
    obtain y where "drc_clean_buf_res x = Some y" "page_ok y (waiting c x)" "links y = links x" "rb_convert_q y = rb_convert_q x"
      "if br_readonly_copies x \<noteq> 0 then br_claimed_owner y \<in> insts (br_readonly_copies x) \<and>
       insts (br_readonly_copies y) = insts (br_readonly_copies x) - {br_claimed_owner y}
     else if br_edp_map x \<noteq> 0 then br_claimed_owner y = br_latest_edp x \<and> br_readonly_copies y = 0
     else y = x"
      using clean_buf_res_ok [OF x(3) o] by blast
    then show ?thesis using that [of y] True s e by (simp split: if_splits)
  qed
  obtain g where g: "buf_put c (rb_idx b) y = Some (c\<lparr>rc_global_buf_res := g\<rparr>)"
    "ctx_ok promote (c\<lparr>rc_global_buf_res := g\<rparr>) (V(p \<mapsto> strip y)) W H G F"
    using page_modify [OF ok V x(1) y(2-4)] by blast
  have e: "(if br_claimed_owner x = OG_INVALID_ID8 \<and> recover_done
      then do { knl_panic (\<not> partial_recover); drc_clean_buf_res x } else Some x) = Some y"
    using y(1) s(1) full by (simp only: cl_def knl_panic_def simp_thms if_True if_False option.case Option.bind.simps)
  have "drc_get_page_owner_id recover_done partial_recover c p =
      Some (OG_SUCCESS, br_claimed_owner y, Some (br_pending y), c\<lparr>rc_global_buf_res := g\<rparr>)"
    using buf_find_ok [OF ok, of p] V x(1) e g(1)
    by (simp only: drc_get_page_owner_id_def option.map option.case Option.bind.simps)
  moreover have "br_claimed_owner b \<noteq> OG_INVALID_ID8 \<or> \<not> recover_done \<longrightarrow> strip y = b"
    using y(5) x(2) cl_def by blast
  ultimately show ?thesis
    using g(2) y(6) cl_def by (intro exI [of _ "strip y"] exI [of _ "c\<lparr>rc_global_buf_res := g\<rparr>"]) simp
qed

end
