(* ===== verification/Drc_Lock.thy ===== *)
theory Drc_Lock
  imports Drc_Ctx
begin

text \<open>
  Ownership of locks on their master: the lock routines of \<^verbatim>\<open>cluster/dtc_drc.c\<close>. A lock resource records
  the instances that hold the lock (\<^verbatim>\<open>granted_map\<close>) and its mode. A request makes a lock resource or waits
  in its convert queue; the requester then takes the lock from the holders the request returned and claims it, and
  the next request converts. Locks are given back one holder at a time, and the resource goes with the last one.

  As for pages, routines on one resource take and return its value, \<open>None\<close> is a panic or a wait that does
  not end, and whether a reform stops the request (\<^verbatim>\<open>DRC_STOP_DLS_REQ_FOR_REFORMING\<close>) is an argument. The
  branch for a mode beyond the exclusive one has no counterpart, as the modes are a datatype.
\<close>

subsection \<open>Lock resources\<close>

definition drid_type :: "drid \<Rightarrow> u16" where
  "drid_type lock_id = ucast (dr_key1 lock_id)"

definition DR_TYPE_TABLE :: u16 where
  "DR_TYPE_TABLE = 3"

record lock_claim_info =
  lc_new_id :: u8
  lc_mode :: drc_lock_mode
  lc_inst_sid :: u16

text \<open>What a request returns through its two pointer arguments.\<close>

record lock_grant =
  lg_is_granted :: bool
  lg_old_owner_map :: u64

definition new_lock_res :: "drid \<Rightarrow> u32 \<Rightarrow> drc_master_res \<Rightarrow> drc_master_res" where
  "new_lock_res lock_id item_idx lock_res = lock_res\<lparr>rb_idx := item_idx, rb_mode := DRC_LOCK_NULL,
     mr_res_id := lock_id, bh_next := OG_INVALID_ID32,
     rb_converting := \<lparr>bh_next = OG_INVALID_ID32, li_req_info = g_invalid_req_info\<rparr>,
     mr_granted_map := 0, rb_convert_q := DRC_LIST_INIT\<rparr>"

definition drc_create_lock_res :: "(u8 \<Rightarrow> u32) \<Rightarrow> drid \<Rightarrow> drc_res_ctx \<Rightarrow> (status_t \<times> drc_res_ctx) option" where
  "drc_create_lock_res promote lock_id c = do {
     (item_idx, g) \<leftarrow> gr_alloc (rc_global_lock_res c);
     if item_idx = OG_INVALID_ID32 then Some (OG_ERROR, c\<lparr>rc_global_lock_res := g\<rparr>)
     else do {
       lock_res \<leftarrow> gr_read g item_idx;
       g \<leftarrow> gr_write g item_idx (new_lock_res lock_id item_idx lock_res);
       g \<leftarrow> gr_map_add (lock_hash promote) g lock_id item_idx;
       g \<leftarrow> gr_set_part g (lock_partid promote lock_id) item_idx;
       g \<leftarrow> gr_part_add g (lock_partid promote lock_id) item_idx;
       Some (OG_SUCCESS, c\<lparr>rc_global_lock_res := g\<rparr>)
     }
   }"

text \<open>The callers have taken the resource out of the hash map before.\<close>

definition drc_release_lock_res :: "u32 \<Rightarrow> drc_res_ctx \<Rightarrow> (status_t \<times> drc_res_ctx) option" where
  "drc_release_lock_res i c = do {
     lock_res \<leftarrow> lock_get c i;
     if ri_inst_id (cvt_req lock_res) \<noteq> OG_INVALID_ID8 \<or> mr_granted_map lock_res > 0 then Some (OG_ERROR, c)
     else do {
       g \<leftarrow> drc_clean_page_from_res_part (rc_global_lock_res c) i;
       g \<leftarrow> gr_write g i zero_master_res;
       g \<leftarrow> gr_free g (rb_idx lock_res);
       Some (OG_SUCCESS, c\<lparr>rc_global_lock_res := g\<rparr>)
     }
   }"

definition dls_clear_granted_map_for_inst :: "(u8 \<Rightarrow> u32) \<Rightarrow> drid \<Rightarrow> u8 \<Rightarrow> drc_res_ctx \<Rightarrow> drc_res_ctx option" where
  "dls_clear_granted_map_for_inst promote lock_id inst_id c = do {
     found \<leftarrow> lock_find promote c lock_id;
     (case found of
        None \<Rightarrow> Some c
      | Some i \<Rightarrow> do {
          lock_res \<leftarrow> lock_get c i;
          let lock_res = lock_res\<lparr>mr_granted_map := drc_bitmap64_clear (mr_granted_map lock_res) inst_id\<rparr>;
          lock_put c i (if mr_granted_map lock_res = 0 then lock_res\<lparr>rb_mode := DRC_LOCK_NULL\<rparr> else lock_res)
        })
   }"

subsection \<open>Requests\<close>

definition lock_grant_for :: "drc_req_info \<Rightarrow> drc_master_res \<Rightarrow> lock_grant" where
  "lock_grant_for req_info lock_res =
     (if g_mode_compatible_matrix (ri_req_mode req_info) (rb_mode lock_res)
      then \<lparr>lg_is_granted = True, lg_old_owner_map = 0\<rparr>
      else \<lparr>lg_is_granted = False, lg_old_owner_map = mr_granted_map lock_res\<rparr>)"

definition drc_request_lock_owner_add_req_into_cvt_q :: "drc_master_res \<Rightarrow> drc_req_info \<Rightarrow> drc_res_ctx \<Rightarrow>
    (status_t \<times> drc_master_res \<times> drc_res_ctx) option" where
  "drc_request_lock_owner_add_req_into_cvt_q lock_res req_info c = do {
     entered \<leftarrow> cvt_q_enqueue (rc_lock_item_pool c) (rb_convert_q lock_res) req_info;
     (case entered of
        None \<Rightarrow> Some (OG_ERROR, lock_res, c)
      | Some (pool, q) \<Rightarrow> Some (OG_SUCCESS, lock_res\<lparr>rb_convert_q := q\<rparr>, c\<lparr>rc_lock_item_pool := pool\<rparr>))
   }"

text \<open>
  The wait for the turn of a request that is in the queue. In round \<open>n\<close> other threads do \<open>others n\<close> while
  the locks are released, and \<open>stop n\<close> says that a reform has begun. A wait that does not end has no
  result.
\<close>

partial_function (option) drc_lock_wait :: "(nat \<Rightarrow> drc_res_ctx \<Rightarrow> drc_res_ctx) \<Rightarrow> (nat \<Rightarrow> bool) \<Rightarrow> drc_req_info \<Rightarrow>
    u32 \<Rightarrow> nat \<Rightarrow> lock_grant \<Rightarrow> drc_res_ctx \<Rightarrow> (status_t \<times> lock_grant \<times> drc_res_ctx) option" where
  "drc_lock_wait others stop req_info i n grant c =
     (if stop n then Some (OG_ERROR, grant, others n c)
      else Option.bind (lock_get (others n c) i) (\<lambda>lock_res.
        Option.bind (knl_panic (ri_inst_id (cvt_req lock_res) \<noteq> OG_INVALID_ID8)) (\<lambda>_.
          if ri_inst_id req_info = ri_inst_id (cvt_req lock_res)
          then Some (OG_SUCCESS, lock_grant_for req_info lock_res, others n c)
          else drc_lock_wait others stop req_info i (Suc n) grant (others n c))))"

text \<open>
  The part of a request that runs under the locks. The result says with the flag that the request is in
  the queue and has to wait; a pool of lock resources that is exhausted is a panic.
\<close>

definition drc_request_lock_locked :: "(u8 \<Rightarrow> u32) \<Rightarrow> drid \<Rightarrow> drc_req_info \<Rightarrow> lock_grant \<Rightarrow> drc_res_ctx \<Rightarrow>
    (status_t \<times> u32 option \<times> lock_grant \<times> drc_res_ctx) option" where
  "drc_request_lock_locked promote lock_id req_info grant c = do {
     found \<leftarrow> lock_find promote c lock_id;
     (case found of
        None \<Rightarrow> do {
          (ret, c) \<leftarrow> drc_create_lock_res promote lock_id c;
          if ret \<noteq> OG_SUCCESS then None
          else do {
            found \<leftarrow> lock_find promote c lock_id;
            i \<leftarrow> found;
            lock_res \<leftarrow> lock_get c i;
            c \<leftarrow> lock_put c i (set_cvt_req req_info lock_res);
            Some (OG_SUCCESS, None, \<lparr>lg_is_granted = True, lg_old_owner_map = 0\<rparr>, c)
          }
        }
      | Some i \<Rightarrow> do {
          lock_res \<leftarrow> lock_get c i;
          if ri_inst_id (cvt_req lock_res) = OG_INVALID_ID8 then do {
            knl_panic (dl_count (rb_convert_q lock_res) = 0);
            c \<leftarrow> lock_put c i (set_cvt_req req_info lock_res);
            Some (OG_SUCCESS, None, lock_grant_for req_info lock_res, c)
          }
          else if drc_bitmap64_exist (mr_granted_map lock_res) (ri_inst_id req_info)
          then Some (OG_ERROR, None, grant\<lparr>lg_is_granted := False\<rparr>, c)
          else do {
            (ret, lock_res, c) \<leftarrow> drc_request_lock_owner_add_req_into_cvt_q lock_res req_info c;
            if ret \<noteq> OG_SUCCESS then Some (OG_ERROR, None, grant, c)
            else do {
              c \<leftarrow> lock_put c i lock_res;
              Some (OG_SUCCESS, Some i, grant, c)
            }
          }
        })
   }"

definition drc_request_lock_owner :: "(u8 \<Rightarrow> u32) \<Rightarrow> bool \<Rightarrow> (nat \<Rightarrow> drc_res_ctx \<Rightarrow> drc_res_ctx) \<Rightarrow> (nat \<Rightarrow> bool) \<Rightarrow>
    drid \<Rightarrow> drc_req_info \<Rightarrow> lock_grant \<Rightarrow> drc_res_ctx \<Rightarrow> (status_t \<times> lock_grant \<times> drc_res_ctx) option" where
  "drc_request_lock_owner promote stop0 others stop lock_id req_info grant c =
     (if stop0 then Some (OG_ERROR, grant, c)
      else do {
        (ret, waits, grant, c) \<leftarrow> drc_request_lock_locked promote lock_id req_info grant c;
        (case waits of
           None \<Rightarrow> Some (ret, grant, c)
         | Some i \<Rightarrow> drc_lock_wait others stop req_info i 0 grant c)
      })"

definition drc_try_request_lock_owner :: "(u8 \<Rightarrow> u32) \<Rightarrow> bool \<Rightarrow> bool \<Rightarrow> drid \<Rightarrow> drc_req_info \<Rightarrow> lock_grant \<Rightarrow>
    drc_res_ctx \<Rightarrow> (status_t \<times> lock_grant \<times> drc_res_ctx) option" where
  "drc_try_request_lock_owner promote remaster_done stop lock_id req_info grant c =
     (if \<not> remaster_done \<or> stop then Some (OG_ERROR, grant, c)
      else do {
        found \<leftarrow> lock_find promote c lock_id;
        (case found of
           None \<Rightarrow> do {
             (ret, c) \<leftarrow> drc_create_lock_res promote lock_id c;
             if ret \<noteq> OG_SUCCESS then Some (OG_ERROR, grant, c)
             else do {
               found \<leftarrow> lock_find promote c lock_id;
               i \<leftarrow> found;
               lock_res \<leftarrow> lock_get c i;
               c \<leftarrow> lock_put c i (set_cvt_req req_info lock_res);
               Some (OG_SUCCESS, \<lparr>lg_is_granted = True, lg_old_owner_map = 0\<rparr>, c)
             }
           }
         | Some i \<Rightarrow> do {
             lock_res \<leftarrow> lock_get c i;
             if ri_inst_id (cvt_req lock_res) = OG_INVALID_ID8 then do {
               knl_panic (dl_count (rb_convert_q lock_res) = 0);
               c \<leftarrow> lock_put c i (set_cvt_req req_info lock_res);
               Some (OG_SUCCESS,
                 \<lparr>lg_is_granted = g_mode_compatible_matrix (ri_req_mode req_info) (rb_mode lock_res),
                  lg_old_owner_map = mr_granted_map lock_res\<rparr>, c)
             }
             else Some (OG_ERROR, grant, c)
           })
      })"

subsection \<open>The next request\<close>

definition drc_convert_lock_owner :: "drc_master_res \<Rightarrow> drc_res_ctx \<Rightarrow> (drc_master_res \<times> drc_res_ctx) option" where
  "drc_convert_lock_owner lock_res c =
     (if dl_count (rb_convert_q lock_res) = 0
      then Some (set_cvt_req ((cvt_req lock_res)\<lparr>ri_inst_id := OG_INVALID_ID8\<rparr>) lock_res, c)
      else do {
        knl_panic (dl_first (rb_convert_q lock_res) \<noteq> OG_INVALID_ID32);
        (lock_item, pool, q) \<leftarrow> cvt_q_pop (rc_lock_item_pool c) (rb_convert_q lock_res);
        let lock_res = lock_res\<lparr>rb_converting := lock_item, rb_convert_q := q\<rparr>;
        knl_panic (ri_inst_id (cvt_req lock_res) \<noteq> OG_INVALID_ID8);
        Some (lock_res, c\<lparr>rc_lock_item_pool := pool\<rparr>)
      })"

definition drc_cancel_lock_owner_request_nolock_part :: "(u8 \<Rightarrow> u32) \<Rightarrow> u8 \<Rightarrow> drid \<Rightarrow> drc_res_ctx \<Rightarrow>
    (status_t \<times> drc_res_ctx) option" where
  "drc_cancel_lock_owner_request_nolock_part promote inst_id lock_id c = do {
     found \<leftarrow> lock_find promote c lock_id;
     (case found of
        None \<Rightarrow> Some (OG_ERROR, c)
      | Some i \<Rightarrow> do {
          lock_res \<leftarrow> lock_get c i;
          if ri_inst_id (cvt_req lock_res) \<noteq> inst_id then Some (OG_SUCCESS, c)
          else do {
            (lock_res, c) \<leftarrow> drc_convert_lock_owner lock_res c;
            c \<leftarrow> lock_put c i lock_res;
            Some (OG_SUCCESS, c)
          }
        })
   }"

text \<open>The two callers differ in the locks they take.\<close>

definition drc_cancel_lock_owner_request :: "(u8 \<Rightarrow> u32) \<Rightarrow> u8 \<Rightarrow> drid \<Rightarrow> drc_res_ctx \<Rightarrow>
    (status_t \<times> drc_res_ctx) option" where
  "drc_cancel_lock_owner_request promote inst_id lock_id c =
     drc_cancel_lock_owner_request_nolock_part promote inst_id lock_id c"

definition drc_cancel_lock_owner_request_nolock :: "(u8 \<Rightarrow> u32) \<Rightarrow> u8 \<Rightarrow> drid \<Rightarrow> drc_res_ctx \<Rightarrow>
    (status_t \<times> drc_res_ctx) option" where
  "drc_cancel_lock_owner_request_nolock promote inst_id lock_id c =
     drc_cancel_lock_owner_request_nolock_part promote inst_id lock_id c"

definition drc_lock_bucket_and_stat_with_version_check :: "bool \<Rightarrow> bool \<Rightarrow> status_t" where
  "drc_lock_bucket_and_stat_with_version_check stop is_remaster =
     (if stop \<and> \<not> is_remaster then OG_ERROR else OG_SUCCESS)"

definition drc_claim_lock_owner :: "(u8 \<Rightarrow> u32) \<Rightarrow> bool \<Rightarrow> bool \<Rightarrow> drid \<Rightarrow> lock_claim_info \<Rightarrow> drc_res_ctx \<Rightarrow>
    (status_t \<times> drc_res_ctx) option" where
  "drc_claim_lock_owner promote stop is_remaster lock_id claim_info c =
     (if drc_lock_bucket_and_stat_with_version_check stop is_remaster \<noteq> OG_SUCCESS then Some (OG_ERROR, c)
      else do {
        found \<leftarrow> lock_find promote c lock_id;
        i \<leftarrow> found;
        lock_res \<leftarrow> lock_get c i;
        knl_panic (lc_new_id claim_info = ri_inst_id (cvt_req lock_res) \<and>
                   lc_mode claim_info = ri_req_mode (cvt_req lock_res));
        let lock_res = (if lc_mode claim_info = DRC_LOCK_EXCLUSIVE then lock_res\<lparr>mr_granted_map := 0\<rparr> else lock_res);
        knl_panic (\<not> drc_bitmap64_exist (mr_granted_map lock_res) (lc_new_id claim_info) \<or>
                   drid_type (mr_res_id lock_res) = DR_TYPE_TABLE);
        let lock_res = lock_res\<lparr>mr_granted_map := drc_bitmap64_set (mr_granted_map lock_res) (lc_new_id claim_info),
              rb_mode := ri_req_mode (cvt_req lock_res)\<rparr>;
        (lock_res, c) \<leftarrow> drc_convert_lock_owner lock_res c;
        c \<leftarrow> lock_put c i lock_res;
        Some (OG_SUCCESS, c)
      })"

subsection \<open>Release\<close>

definition drc_release_lock_owner :: "(u8 \<Rightarrow> u32) \<Rightarrow> u8 \<Rightarrow> drid \<Rightarrow> drc_res_ctx \<Rightarrow> (status_t \<times> drc_res_ctx) option" where
  "drc_release_lock_owner promote old_id lock_id c = do {
     found \<leftarrow> lock_find promote c lock_id;
     (case found of
        None \<Rightarrow> Some (OG_ERROR, c)
      | Some i \<Rightarrow> do {
          lock_res \<leftarrow> lock_get c i;
          if \<not> drc_bitmap64_exist (mr_granted_map lock_res) old_id then Some (OG_ERROR, c)
          else do {
            let lock_res = lock_res\<lparr>mr_granted_map := drc_bitmap64_clear (mr_granted_map lock_res) old_id\<rparr>;
            let lock_res = (if mr_granted_map lock_res = 0 then lock_res\<lparr>rb_mode := DRC_LOCK_NULL\<rparr> else lock_res);
            c \<leftarrow> lock_put c i lock_res;
            if mr_granted_map lock_res > 0 \<or> ri_inst_id (cvt_req lock_res) \<noteq> OG_INVALID_ID8
            then Some (OG_SUCCESS, c)
            else do {
              g \<leftarrow> gr_map_remove (lock_hash promote) (rc_global_lock_res c) lock_id;
              (_, c) \<leftarrow> drc_release_lock_res i (c\<lparr>rc_global_lock_res := g\<rparr>);
              Some (OG_SUCCESS, c)
            }
          }
        })
   }"

definition drc_recycle_dls_master :: "(u8 \<Rightarrow> u32) \<Rightarrow> bool \<Rightarrow> drid \<Rightarrow> u8 \<Rightarrow> drc_res_ctx \<Rightarrow>
    (status_t \<times> drc_res_ctx) option" where
  "drc_recycle_dls_master promote stop lock_id inst_id c =
     (if stop then Some (OG_ERROR, c)
      else do {
        found \<leftarrow> lock_find promote c lock_id;
        (case found of
           None \<Rightarrow> Some (OG_SUCCESS, c)
         | Some i \<Rightarrow> do {
             lock_res \<leftarrow> lock_get c i;
             let lock_res = lock_res\<lparr>mr_granted_map := drc_bitmap64_clear (mr_granted_map lock_res) inst_id\<rparr>;
             c \<leftarrow> lock_put c i lock_res;
             if ri_inst_id (cvt_req lock_res) = OG_INVALID_ID8 \<and> mr_granted_map lock_res = 0 then do {
               g \<leftarrow> gr_map_remove (lock_hash promote) (rc_global_lock_res c) lock_id;
               (_, c) \<leftarrow> drc_release_lock_res i (c\<lparr>rc_global_lock_res := g\<rparr>);
               Some (OG_SUCCESS, c)
             }
             else Some (OG_SUCCESS, c)
           })
      })"

subsection \<open>Cleaning after a failed instance\<close>

text \<open>
  The loop over the locks of a partition: \<open>failed i\<close> says that the remaster has failed when round \<open>i\<close> starts.
  The number of rounds that were run is added to the counter.
\<close>

definition drc_clean_lock_res :: "(u8 \<Rightarrow> u32) \<Rightarrow> u8 \<Rightarrow> u32 \<Rightarrow> drc_res_ctx \<Rightarrow> drc_res_ctx option" where
  "drc_clean_lock_res promote inst_id i c = do {
     lock_res \<leftarrow> lock_get c i;
     (q, c) \<leftarrow> drc_clean_convert_q inst_id (rb_convert_q lock_res) c;
     c \<leftarrow> lock_put c i (lock_res\<lparr>rb_convert_q := q\<rparr>);
     c \<leftarrow> (if ri_inst_id (cvt_req lock_res) = inst_id
          then map_option snd (drc_cancel_lock_owner_request_nolock promote inst_id (mr_res_id lock_res) c) else Some c);
     lock_res \<leftarrow> lock_get c i;
     if drc_bitmap64_exist (mr_granted_map lock_res) inst_id
     then map_option snd (drc_release_lock_owner promote inst_id (mr_res_id lock_res) c) else Some c
   }"

fun drc_clean_lock_list :: "(u8 \<Rightarrow> u32) \<Rightarrow> u8 \<Rightarrow> (nat \<Rightarrow> bool) \<Rightarrow> nat \<Rightarrow> nat \<Rightarrow> u32 \<Rightarrow> drc_res_ctx \<Rightarrow>
    (nat \<times> drc_res_ctx) option" where
  "drc_clean_lock_list promote inst_id failed i 0 lock_idx c = Some (i, c)"
| "drc_clean_lock_list promote inst_id failed i (Suc n) lock_idx c =
     (if failed i then Some (i, c)
      else do {
        lock_res \<leftarrow> lock_get c lock_idx;
        c \<leftarrow> drc_clean_lock_res promote inst_id lock_idx c;
        drc_clean_lock_list promote inst_id failed (Suc i) n (ln_next (rb_node lock_res)) c
      })"

definition drc_clean_lock_owner_by_part :: "(u8 \<Rightarrow> u32) \<Rightarrow> u8 \<Rightarrow> (nat \<Rightarrow> bool) \<Rightarrow> u16 \<Rightarrow> drc_res_ctx \<Rightarrow>
    drc_res_ctx option" where
  "drc_clean_lock_owner_by_part promote inst_id failed part c = do {
     part_list \<leftarrow> rd (gr_res_parts (rc_global_lock_res c)) part;
     (n, c) \<leftarrow> drc_clean_lock_list promote inst_id failed 0 (unat (dl_count part_list)) (dl_first part_list) c;
     Some (c\<lparr>rc_clean_lock_cnt := rc_clean_lock_cnt c + of_nat n\<rparr>)
   }"

end
