(* ===== verification/Lock_Protocol.thy ===== *)
theory Lock_Protocol
  imports Page_Protocol Drc_Lock
begin

text \<open>
  The handlers of the lock protocol keep the invariant of the catalogue and do not panic. \<open>lock_at\<close> is the
  state in the middle of a handler that has read a lock. The lemmas give the exact effect of every handler on
  the lock: its holders and mode (\<open>holders\<close>), the request that converts and the queue
  (\<open>lock_moves_on\<close>), and when the resource appears and goes. The wait of a request ends in the first
  round in which its turn has come or a reform stops it.
\<close>

subsection \<open>Working on one lock\<close>

definition lock_links :: "drc_master_res \<Rightarrow> u32 \<times> drc_list_node \<times> u16 \<times> u32 \<times> drid" where
  "lock_links m = (bh_next m, rb_node m, rb_part_id m, rb_idx m, mr_res_id m)"

definition lock_at :: "(u8 \<Rightarrow> u32) \<Rightarrow> drc_res_ctx \<Rightarrow> drid \<Rightarrow> drc_master_res \<Rightarrow> (page_id \<Rightarrow> drc_buf_res option) \<Rightarrow>
    (drid \<Rightarrow> drc_master_res option) \<Rightarrow> u32 set \<Rightarrow> u32 set \<Rightarrow> u32 set \<Rightarrow> bool" where
  "lock_at promote c l m V W H G F \<longleftrightarrow>
     (\<exists>x. lock_get c (rb_idx m) = Some x \<and> lock_links x = lock_links m \<and> W l = Some (strip x)) \<and>
     dir_rep page_hash br_page_id is_same_page (rc_global_buf_res c) V H \<and>
     used_ok (contents (rc_global_buf_res c)) V \<and>
     dir_rep (lock_hash promote) mr_res_id is_same_lock (rc_global_lock_res c) W G \<and>
     queues_ok (rc_lock_item_pool c) ((cvt_queues V W)(Inr l \<mapsto> rb_convert_q m)) F \<and>
     (\<forall>p b. V p = Some b \<longrightarrow> page_ok b (cvt_q_reqs (rc_lock_item_pool c) (rb_convert_q b))) \<and>
     (\<forall>l' m'. l' \<noteq> l \<longrightarrow> W l' = Some m' \<longrightarrow> lock_ok m' (cvt_q_reqs (rc_lock_item_pool c) (rb_convert_q m')))"

lemma ctx_ok_locks: "ctx_ok promote c V W H G F \<Longrightarrow> lock_dir.rep promote (rc_global_lock_res c) W G"
  by (simp add: ctx_ok_def ctx_rep_def)

lemma lock_find_rep: "ctx_ok promote c V W H G F \<Longrightarrow> lock_find promote c l = Some (map_option rb_idx (W l))"
  using lock_dir.rep_lookup [OF ctx_ok_locks] by (simp add: lock_find_def)

lemma lock_key: "ctx_ok promote c V W H G F \<Longrightarrow> W l = Some m \<Longrightarrow> mr_res_id m = l"
  using lock_dir.rep_find(2) [OF ctx_ok_locks] by blast

lemma lock_at_start:
  assumes ok: "ctx_ok promote c V W H G F" and W: "W l = Some m0"
  shows "\<exists>m. lock_get c (rb_idx m0) = Some m \<and> strip m = m0 \<and> rb_idx m = rb_idx m0 \<and>
    lock_at promote c l m V W H G F \<and> lock_ok m (waiting c m)"
proof -
  obtain m where m: "lock_get c (rb_idx m0) = Some m" "strip m = m0"
    using lock_dir.rep_read [OF ctx_ok_locks [OF ok] W] by (auto simp: lock_get_def)
  have q: "rb_convert_q m = rb_convert_q m0" "rb_idx m = rb_idx m0" "lock_ok m = lock_ok m0"
    using m(2) by auto
  have "(cvt_queues V W)(Inr l \<mapsto> rb_convert_q m) = cvt_queues V W"
    using W q by (simp add: fun_upd_idem)
  then have "lock_at promote c l m V W H G F"
    using ok m q W by (simp add: lock_at_def ctx_ok_def ctx_rep_def)
  moreover have "lock_ok m (waiting c m)" using ok W q by (simp add: ctx_ok_def)
  ultimately show ?thesis using m q by blast
qed

lemma lock_at_put:
  assumes at: "lock_at promote c l m V W H G F" and ok: "lock_ok m (waiting c m)"
  shows "\<exists>g'. lock_put c (rb_idx m) m = Some (c\<lparr>rc_global_lock_res := g'\<rparr>) \<and>
    ctx_ok promote (c\<lparr>rc_global_lock_res := g'\<rparr>) V (W(l \<mapsto> strip m)) H G F"
proof -
  let ?g = "rc_global_lock_res c"
  obtain x where x: "lock_get c (rb_idx m) = Some x" "lock_links x = lock_links m" "W l = Some (strip x)"
    using at by (auto simp: lock_at_def)
  have rep: "lock_dir.rep promote ?g W G" using at by (simp add: lock_at_def)
  have k: "bh_next m = bh_next x" "rb_node m = rb_node x" "rb_part_id m = rb_part_id x"
    "rb_idx m = rb_idx x" "mr_res_id m = mr_res_id x"
    using x(2) by (simp_all add: lock_links_def)
  obtain g' where g': "gr_write ?g (rb_idx m) m = Some g'" "lock_dir.rep promote g' (W(l \<mapsto> strip m)) G"
    using lock_dir.rep_write [OF rep x(3), of x m] x(1) k by (auto simp: lock_get_def)
  have "ctx_rep promote (c\<lparr>rc_global_lock_res := g'\<rparr>) V (W(l \<mapsto> strip m)) H G F"
    using at g'(2) by (simp add: ctx_rep_def lock_at_def)
  moreover have "lock_ok m' (waiting c m')" if "(W(l \<mapsto> strip m)) l' = Some m'" for l' m'
    using that ok at by (auto simp: lock_at_def split: if_splits)
  ultimately have "ctx_ok promote (c\<lparr>rc_global_lock_res := g'\<rparr>) V (W(l \<mapsto> strip m)) H G F"
    using at by (simp add: ctx_ok_def lock_at_def)
  then show ?thesis using g'(1) by (auto simp: lock_put_def)
qed

lemma lock_at_cong:
  assumes "lock_at promote c l m V W H G F" and "same_stores c c'"
    and "rb_convert_q m' = rb_convert_q m" "lock_links m' = lock_links m"
  shows "lock_at promote c' l m' V W H G F"
proof -
  have "rb_idx m' = rb_idx m" using assms(4) by (simp add: lock_links_def)
  then show ?thesis using assms by (simp add: lock_at_def same_stores_def same_dirs_def lock_get_def)
qed

lemma lock_at_queue:
  assumes at: "lock_at promote c l m V W H G F" and dirs: "same_dirs c c'" and k: "lock_links m' = lock_links m"
    and ok: "queues_ok (rc_lock_item_pool c') ((cvt_queues V W)(Inr l \<mapsto> rb_convert_q m')) F'"
    and reqs: "q_reqs (rc_lock_item_pool c') ((cvt_queues V W)(Inr l \<mapsto> rb_convert_q m')) =
      (q_reqs (rc_lock_item_pool c) ((cvt_queues V W)(Inr l \<mapsto> rb_convert_q m)))(Inr l \<mapsto> rs)"
  shows "lock_at promote c' l m' V W H G F' \<and> waiting c' m' = rs"
proof -
  have idx: "rb_idx m' = rb_idx m" using k by (simp add: lock_links_def)
  have "q_reqs (rc_lock_item_pool c') ((cvt_queues V W)(Inr l \<mapsto> rb_convert_q m')) (Inr l) = Some rs"
    by (simp add: reqs)
  then have "waiting c' m' = rs" by (simp add: q_reqs_def)
  moreover have "waiting c' m1 = waiting c m1" if "l1 \<noteq> l" "W l1 = Some m1" for l1 m1
    using fun_cong [OF reqs, of "Inr l1"] that by (simp add: q_reqs_def)
  moreover have "waiting c' b = waiting c b" if "V p = Some b" for p b
    using fun_cong [OF reqs, of "Inl p"] that by (simp add: q_reqs_def)
  ultimately show ?thesis
    using at dirs ok idx k by (simp add: lock_at_def same_dirs_def lock_get_def)
qed

lemma lock_at_queues:
  assumes "lock_at promote c l m V W H G F"
  shows "queues_ok (rc_lock_item_pool c) ((cvt_queues V W)(Inr l \<mapsto> rb_convert_q m)) F"
  using assms by (simp add: lock_at_def)

definition same_lock :: "drc_master_res \<Rightarrow> drc_master_res \<Rightarrow> bool" where
  "same_lock m m' \<longleftrightarrow> lock_links m' = lock_links m \<and> rb_mode m' = rb_mode m \<and> mr_granted_map m' = mr_granted_map m"

lemma same_lock_idx: "same_lock m m' \<Longrightarrow> rb_idx m' = rb_idx m" "same_lock m m' \<Longrightarrow> mr_res_id m' = mr_res_id m"
  by (simp_all add: same_lock_def lock_links_def)

lemma lock_ok_parts:
  "lock_ok m rs \<longleftrightarrow> list_all req_ok rs \<and> (converting m \<longrightarrow> req_ok (cvt_req m)) \<and> (\<not> converting m \<longrightarrow> rs = []) \<and>
     (rb_mode m = DRC_LOCK_NULL \<longrightarrow> mr_granted_map m = 0) \<and>
     (rb_mode m = DRC_LOCK_EXCLUSIVE \<longrightarrow> (\<exists>i. insts (mr_granted_map m) \<subseteq> {i}))"
  unfolding lock_ok_def by (cases "converting m") auto

text \<open>The next request in the queue converts.\<close>

definition lock_moves_on :: "drc_req_info list \<Rightarrow> drc_master_res \<Rightarrow> drc_req_info list \<Rightarrow> bool" where
  "lock_moves_on rs m rs' \<longleftrightarrow> (case rs of [] \<Rightarrow> \<not> converting m \<and> rs' = []
     | r # ts \<Rightarrow> converting m \<and> cvt_req m = r \<and> rs' = ts)"

lemma convert_lock_ok:
  assumes at: "lock_at promote c l m V W H G F" and ok: "lock_ok m (waiting c m)"
  shows "\<exists>m' c'. drc_convert_lock_owner m c = Some (m', c') \<and> lock_at promote c' l m' V W H G F \<and>
    lock_ok m' (waiting c' m') \<and> same_lock m m' \<and> lock_moves_on (waiting c m) m' (waiting c' m') \<and>
    rc_sent c' = rc_sent c"
proof (cases "waiting c m")
  case Nil
  let ?m = "set_cvt_req ((cvt_req m)\<lparr>ri_inst_id := OG_INVALID_ID8\<rparr>) m"
  have n: "dl_count (rb_convert_q m) = 0"
    using Nil by (auto simp: cvt_q_reqs_def cvt_q_chain_def unat_eq_zero)
  have q: "rb_convert_q ?m = rb_convert_q m" "lock_links ?m = lock_links m" "same_lock m ?m" "\<not> converting ?m"
    by (simp_all add: set_cvt_req_def lock_links_def same_lock_def converting_def cvt_req_def)
  have "lock_at promote c l ?m V W H G F" by (rule lock_at_cong [OF at]) (simp_all add: q)
  moreover have "lock_ok ?m []" using ok q Nil by (auto simp: lock_ok_parts same_lock_def)
  ultimately show ?thesis
    using n q Nil by (simp add: drc_convert_lock_owner_def lock_moves_on_def)
next
  case (Cons r rs)
  let ?Q = "(cvt_queues V W)(Inr l \<mapsto> rb_convert_q m)"
  have n: "dl_count (rb_convert_q m) \<noteq> 0" using Cons by (auto simp: cvt_q_reqs_def cvt_q_chain_def)
  obtain item pool q where i: "cvt_q_pop (rc_lock_item_pool c) (rb_convert_q m) = Some (item, pool, q)"
    "queues_ok pool (?Q(Inr l \<mapsto> q)) F" "waiting c m = li_req_info item # cvt_q_reqs pool q"
    "q_reqs pool (?Q(Inr l \<mapsto> q)) = (q_reqs (rc_lock_item_pool c) ?Q)(Inr l \<mapsto> cvt_q_reqs pool q)"
    "dl_first (rb_convert_q m) \<noteq> OG_INVALID_ID32"
    using queues_pop [OF lock_at_queues [OF at] fun_upd_same n] by blast
  let ?m = "m\<lparr>rb_converting := item, rb_convert_q := q\<rparr>" and ?c = "c\<lparr>rc_lock_item_pool := pool\<rparr>"
  have r: "li_req_info item = r" "cvt_q_reqs pool q = rs" using i(3) Cons by simp_all
  have ok': "req_ok r" "list_all req_ok rs" using ok Cons by (simp_all add: lock_ok_parts)
  have k: "lock_links ?m = lock_links m" "same_lock m ?m" "cvt_req ?m = r" "rb_convert_q ?m = q" "converting ?m"
    using req_okD [OF ok'(1)] r by (simp_all add: lock_links_def same_lock_def cvt_req_def converting_def)
  have at': "lock_at promote ?c l ?m V W H G F \<and> waiting ?c ?m = rs"
    using lock_at_queue [OF at _ k(1), of ?c F rs] i(2,4) r k by simp
  moreover have "lock_ok ?m rs" using ok ok' k by (auto simp: lock_ok_parts)
  ultimately show ?thesis
    using i n k Cons by (simp add: drc_convert_lock_owner_def Let_def knl_panic_def lock_moves_on_def converting_def)
qed

subsection \<open>Lock resources come and go\<close>

lemma ctx_ok_lock_insert:
  assumes ok: "ctx_ok promote c V W H G F" and W: "W l = None" and g: "lock_dir.rep promote g (W(l \<mapsto> m)) G'"
    and m: "dl_count (rb_convert_q m) = 0" "lock_ok m []"
  shows "ctx_ok promote (c\<lparr>rc_global_lock_res := g\<rparr>) V (W(l \<mapsto> m)) H G' F"
proof -
  have "queues_ok (rc_lock_item_pool c) ((cvt_queues V W)(Inr l := Some (rb_convert_q m))) F"
    by (rule queues_empty(1)) (use ok W m in \<open>auto simp: ctx_ok_def ctx_rep_def\<close>)
  then have "ctx_rep promote (c\<lparr>rc_global_lock_res := g\<rparr>) V (W(l \<mapsto> m)) H G' F"
    using ok g by (simp add: ctx_ok_def ctx_rep_def)
  then show ?thesis using ok m by (auto simp: ctx_ok_def)
qed

lemma ctx_ok_lock_remove:
  assumes ok: "ctx_ok promote c V W H G F" and W: "W l = Some m" "\<not> converting m"
    and g: "lock_dir.rep promote g (W(l := None)) G'"
  shows "ctx_ok promote (c\<lparr>rc_global_lock_res := g\<rparr>) V (W(l := None)) H G' F"
proof -
  have "waiting c m = []" using ok W by (auto simp: ctx_ok_def lock_ok_parts)
  then have "dl_count (rb_convert_q m) = 0" by (auto simp: cvt_q_reqs_def cvt_q_chain_def unat_eq_zero)
  then have "queues_ok (rc_lock_item_pool c) ((cvt_queues V W)(Inr l := None)) F"
    by (intro queues_empty(1)) (use ok W in \<open>auto simp: ctx_ok_def ctx_rep_def\<close>)
  then have "ctx_rep promote (c\<lparr>rc_global_lock_res := g\<rparr>) V (W(l := None)) H G' F"
    using ok g by (simp add: ctx_ok_def ctx_rep_def)
  then show ?thesis using ok by (auto simp: ctx_ok_def)
qed

lemma lock_partid_lt: "unat (lock_partid promote l) < DRC_MAX_PART_NUM"
proof -
  have "unat (drc_resource_id_hash promote (drid_bytes l) 1024) < 1024"
    using hash_lt [of 1024] by (simp add: drc_resource_id_hash_def)
  then show ?thesis by (simp add: lock_partid_def unsigned_ucast_eq take_bit_nat_eq_self DRC_MAX_PART_NUM_def)
qed

definition fresh_lock :: "drid \<Rightarrow> drc_master_res \<Rightarrow> bool" where
  "fresh_lock l m \<longleftrightarrow> mr_res_id m = l \<and> rb_mode m = DRC_LOCK_NULL \<and> mr_granted_map m = 0 \<and> \<not> converting m \<and>
     dl_count (rb_convert_q m) = 0"

lemma fresh_lock_ok: "fresh_lock l m \<Longrightarrow> lock_ok m []"
  by (simp add: fresh_lock_def lock_ok_parts)

lemma create_lock_ok:
  assumes ok: "ctx_ok promote c V W H G F" and W: "W l = None"
  shows "drc_create_lock_res promote l c = Some (OG_ERROR, c) \<and> pool_free (gr_pool (rc_global_lock_res c)) = [] \<or>
    (\<exists>m g. drc_create_lock_res promote l c = Some (OG_SUCCESS, c\<lparr>rc_global_lock_res := g\<rparr>) \<and> fresh_lock l m \<and>
       ctx_ok promote (c\<lparr>rc_global_lock_res := g\<rparr>) V (W(l \<mapsto> m)) H G F)"
proof (cases "pool_free (gr_pool (rc_global_lock_res c))")
  case Nil
  have "gr_alloc (rc_global_lock_res c) = Some (OG_INVALID_ID32, rc_global_lock_res c)"
    using lock_dir.alloc_empty [OF lock_dir.rep_wf [OF ctx_ok_locks [OF ok]]] Nil by simp
  then show ?thesis using Nil by (simp add: drc_create_lock_res_def)
next
  case (Cons j js)
  let ?g = "rc_global_lock_res c" and ?p = "lock_partid promote l"
  have rep: "lock_dir.rep promote ?g W G" by (rule ctx_ok_locks [OF ok])
  have "gr_alloc ?g \<noteq> Some (OG_INVALID_ID32, ?g)"
    using lock_dir.alloc_Cons [OF lock_dir.rep_wf [OF rep] Cons] by auto
  then obtain i g0 where a: "gr_alloc ?g = Some (i, g0)" "i \<noteq> OG_INVALID_ID32" "i \<notin> G" "lock_dir.rep promote g0 W (insert i G)"
    using lock_dir.rep_alloc [OF rep] by blast
  obtain x where x: "gr_read g0 i = Some x" using lock_dir.rep_read_held [OF a(4)] by blast
  define res where "res = new_lock_res l i x"
  define m where "m = strip (res\<lparr>rb_part_id := ?p\<rparr>)"
  have r: "mr_res_id res = l" "rb_idx res = i" by (simp_all add: res_def new_lock_res_def)
  obtain g1 g2 g3 g4 where g: "gr_write g0 i res = Some g1" "gr_map_add (lock_hash promote) g1 l i = Some g2"
    "gr_set_part g2 ?p i = Some g3" "gr_part_add g3 ?p i = Some g4" "lock_dir.rep promote g4 (W(l \<mapsto> m)) (insert i G - {i})"
    using lock_dir.rep_insert [OF a(4) insertI1 r(1) W r(2) lock_partid_lt] unfolding m_def by blast
  have "insert i G - {i} = G" using a(3) by auto
  then have rep4: "lock_dir.rep promote g4 (W(l \<mapsto> m)) G" using g(5) by simp
  have m: "fresh_lock l m"
    by (simp add: m_def res_def new_lock_res_def fresh_lock_def converting_def cvt_req_def g_invalid_req_info_def DRC_LIST_INIT_def)
  then have "ctx_ok promote (c\<lparr>rc_global_lock_res := g4\<rparr>) V (W(l \<mapsto> m)) H G F"
    using ctx_ok_lock_insert [OF ok W rep4] fresh_lock_ok by (simp add: fresh_lock_def)
  moreover have "drc_create_lock_res promote l c = Some (OG_SUCCESS, c\<lparr>rc_global_lock_res := g4\<rparr>)"
    using a x g by (simp add: drc_create_lock_res_def res_def)
  ultimately show ?thesis using m by blast
qed

lemma read_same_contents:
  assumes "contents g' = contents g" and "gr_read g i = Some x"
  shows "\<exists>y. gr_read g' i = Some y \<and> strip y = strip x"
proof -
  have i: "unat i < length (gr_mem g)" "x = gr_mem g ! unat i"
    using assms(2) by (auto simp: gr_read_def rd_def split: if_splits)
  have n: "length (gr_mem g') = length (gr_mem g)"
    using arg_cong [OF assms(1), of length] by (simp add: contents_def)
  have "contents g' ! unat i = contents g ! unat i" using assms(1) by simp
  then show ?thesis using i n by (simp add: gr_read_def rd_def contents_def)
qed

lemma lock_removed_ok:
  assumes ok: "ctx_ok promote c V W H G F" and W: "W l = Some m" "\<not> converting m" "mr_granted_map m = 0"
  shows "\<exists>g g'. gr_map_remove (lock_hash promote) (rc_global_lock_res c) l = Some g \<and>
    drc_release_lock_res (rb_idx m) (c\<lparr>rc_global_lock_res := g\<rparr>) = Some (OG_SUCCESS, c\<lparr>rc_global_lock_res := g'\<rparr>) \<and>
    ctx_ok promote (c\<lparr>rc_global_lock_res := g'\<rparr>) V (W(l := None)) H G F"
proof -
  let ?g = "rc_global_lock_res c" and ?i = "rb_idx m"
  have rep: "lock_dir.rep promote ?g W G" by (rule ctx_ok_locks [OF ok])
  obtain g1 g2 where g: "gr_map_remove (lock_hash promote) ?g l = Some g1" "drc_clean_page_from_res_part g1 ?i = Some g2"
    "lock_dir.rep promote g2 (W(l := None)) (insert ?i G)"
    using lock_dir.rep_remove_map_list [OF rep W(1)] by blast
  obtain g3 where g3: "gr_write g2 ?i zero_master_res = Some g3" "lock_dir.rep promote g3 (W(l := None)) (insert ?i G)"
    using lock_dir.rep_write_held [OF g(3) insertI1] by blast
  obtain g4 where g4: "gr_free g3 ?i = Some g4" "lock_dir.rep promote g4 (W(l := None)) (insert ?i G - {?i})"
    using lock_dir.rep_free [OF g3(2) insertI1] by blast
  obtain x where x: "gr_read ?g ?i = Some x" "strip x = m" using lock_dir.rep_read [OF rep W(1)] by blast
  obtain y where y: "gr_read g1 ?i = Some y" "strip y = m"
    using read_same_contents [OF contents_map_remove [OF g(1)] x(1)] x(2) by auto
  have s: "\<not> converting y" "mr_granted_map y = 0" "rb_idx y = ?i"
    using y(2) W(2,3) by (metis strip_cvt(2), metis strip_lock(2), metis strip_base(1))
  have "?i \<notin> G"
  proof -
    have "?i \<in> listed ?g" using lock_dir.rep_find(2) [OF rep W(1)] rep by (auto simp: dir_rep_def dir_inv_def)
    then show ?thesis using lock_dir.rep_held [OF rep] by blast
  qed
  then have "insert ?i G - {?i} = G" by auto
  then have "lock_dir.rep promote g4 (W(l := None)) G" using g4(2) by simp
  then have "ctx_ok promote (c\<lparr>rc_global_lock_res := g4\<rparr>) V (W(l := None)) H G F"
    by (rule ctx_ok_lock_remove [OF ok W(1,2)])
  then show ?thesis
    using g g3 g4 y(1) s by (auto simp: drc_release_lock_res_def lock_get_def converting_def)
qed

subsection \<open>Claims and cancelled requests\<close>

lemma lock_found:
  assumes ok: "ctx_ok promote c V W H G F" and W: "W l = Some m0"
  shows "\<exists>m. lock_find promote c l = Some (Some (rb_idx m)) \<and> lock_get c (rb_idx m) = Some m \<and> strip m = m0 \<and>
    lock_at promote c l m V W H G F \<and> lock_ok m (waiting c m)"
proof -
  obtain m where m: "lock_get c (rb_idx m0) = Some m" "strip m = m0" "rb_idx m = rb_idx m0"
    "lock_at promote c l m V W H G F" "lock_ok m (waiting c m)"
    using lock_at_start [OF ok W] by blast
  then show ?thesis using lock_find_rep [OF ok, of l] W by (intro exI [of _ m]) simp
qed

lemma lock_update:
  assumes at: "lock_at promote c l m V W H G F" and m': "rb_convert_q m' = rb_convert_q m" "lock_links m' = lock_links m"
    and ok: "lock_ok m' (waiting c m)"
  shows "\<exists>g'. lock_put c (rb_idx m) m' = Some (c\<lparr>rc_global_lock_res := g'\<rparr>) \<and>
    ctx_ok promote (c\<lparr>rc_global_lock_res := g'\<rparr>) V (W(l \<mapsto> strip m')) H G F"
proof -
  have "lock_at promote c l m' V W H G F" by (rule lock_at_cong [OF at _ m']) simp
  from lock_at_put [OF this] show ?thesis using ok m' by (simp add: lock_links_def)
qed

text \<open>The holders and the mode of a lock, apart from its requests.\<close>

definition holders :: "drc_master_res \<Rightarrow> u8 set \<times> drc_lock_mode" where
  "holders m = (insts (mr_granted_map m), rb_mode m)"

lemma holders_strip [simp]: "holders (strip m) = holders m"
  by (simp add: holders_def)

lemma moves_lock_strip [simp]: "lock_moves_on rs (strip m) = lock_moves_on rs m"
  by (auto simp: fun_eq_iff lock_moves_on_def split: list.splits)

lemma same_holders: "same_lock m m' \<Longrightarrow> holders m' = holders m"
  by (simp add: same_lock_def holders_def)

lemma convert_put_ok:
  assumes at: "lock_at promote c l m V W H G F" and ok: "lock_ok m (waiting c m)"
  shows "\<exists>m' c1 c2. drc_convert_lock_owner m c = Some (m', c1) \<and> lock_put c1 (rb_idx m) m' = Some c2 \<and>
    ctx_ok promote c2 V (W(l \<mapsto> strip m')) H G F \<and> holders m' = holders m \<and> rb_idx m' = rb_idx m \<and>
    lock_moves_on (waiting c m) m' (waiting c2 m') \<and> rc_sent c2 = rc_sent c"
proof -
  obtain m' c1 where c1: "drc_convert_lock_owner m c = Some (m', c1)" "lock_at promote c1 l m' V W H G F"
    "lock_ok m' (waiting c1 m')" "same_lock m m'" "lock_moves_on (waiting c m) m' (waiting c1 m')" "rc_sent c1 = rc_sent c"
    using convert_lock_ok [OF at ok] by blast
  obtain g' where g': "lock_put c1 (rb_idx m') m' = Some (c1\<lparr>rc_global_lock_res := g'\<rparr>)"
    "ctx_ok promote (c1\<lparr>rc_global_lock_res := g'\<rparr>) V (W(l \<mapsto> strip m')) H G F"
    using lock_at_put [OF c1(2,3)] by blast
  then show ?thesis
    using c1 same_holders [OF c1(4)] same_lock_idx(1) [OF c1(4)] by auto
qed

definition claimable :: "lock_claim_info \<Rightarrow> drc_master_res \<Rightarrow> bool" where
  "claimable claim m \<longleftrightarrow> converting m \<and> lc_new_id claim = ri_inst_id (cvt_req m) \<and> lc_mode claim = ri_req_mode (cvt_req m) \<and>
     (lc_mode claim = DRC_LOCK_EXCLUSIVE \<or> lc_new_id claim \<notin> insts (mr_granted_map m) \<or>
      drid_type (mr_res_id m) = DR_TYPE_TABLE)"

definition holders_claimed :: "lock_claim_info \<Rightarrow> drc_master_res \<Rightarrow> u8 set \<times> drc_lock_mode" where
  "holders_claimed claim m = (insert (lc_new_id claim)
     (if lc_mode claim = DRC_LOCK_EXCLUSIVE then {} else insts (mr_granted_map m)), lc_mode claim)"

lemma claim_lock_ok:
  assumes ok: "ctx_ok promote c V W H G F" and W: "W l = Some m0" and cl: "claimable claim m0" and go: "\<not> stop \<or> is_remaster"
  shows "\<exists>m' c'. drc_claim_lock_owner promote stop is_remaster l claim c = Some (OG_SUCCESS, c') \<and>
    ctx_ok promote c' V (W(l \<mapsto> m')) H G F \<and> holders m' = holders_claimed claim m0 \<and> rb_idx m' = rb_idx m0 \<and>
    lock_moves_on (waiting c m0) m' (waiting c' m') \<and> rc_sent c' = rc_sent c"
proof -
  obtain m where m: "lock_find promote c l = Some (Some (rb_idx m))" "lock_get c (rb_idx m) = Some m" "strip m = m0"
    "lock_at promote c l m V W H G F" "lock_ok m (waiting c m)"
    using lock_found [OF ok W] by blast
  have s: "claimable claim m" "holders_claimed claim m0 = holders_claimed claim m" "rb_convert_q m0 = rb_convert_q m" "rb_idx m0 = rb_idx m"
    using cl m(3) by (auto simp: claimable_def holders_claimed_def)
  define map0 where "map0 = (if lc_mode claim = DRC_LOCK_EXCLUSIVE then 0 else mr_granted_map m)"
  let ?m = "m\<lparr>mr_granted_map := drc_bitmap64_set map0 (lc_new_id claim), rb_mode := lc_mode claim\<rparr>"
  have r: "req_ok (cvt_req m)" using m(5) s(1) by (simp add: lock_ok_parts claimable_def)
  have inst: "inst_ok (lc_new_id claim)" "lc_mode claim \<noteq> DRC_LOCK_NULL"
    using r s(1) by (auto simp: req_ok_def claimable_def)
  have q: "rb_convert_q ?m = rb_convert_q m" "lock_links ?m = lock_links m" "cvt_req ?m = cvt_req m" "converting ?m = converting m"
    by (simp_all add: lock_links_def cvt_req_def converting_def)
  have h: "holders ?m = holders_claimed claim m"
    using inst by (simp add: holders_def holders_claimed_def map0_def)
  have ok': "lock_ok ?m (waiting c ?m)"
    using m(5) inst q by (auto simp: lock_ok_parts map0_def)
  have at: "lock_at promote c l ?m V W H G F" by (rule lock_at_cong [OF m(4)]) (simp_all add: q)
  obtain m' c1 c2 where c2: "drc_convert_lock_owner ?m c = Some (m', c1)" "lock_put c1 (rb_idx ?m) m' = Some c2"
    "ctx_ok promote c2 V (W(l \<mapsto> strip m')) H G F" "holders m' = holders ?m" "rb_idx m' = rb_idx ?m"
    "lock_moves_on (waiting c ?m) m' (waiting c2 m')" "rc_sent c2 = rc_sent c"
    using convert_put_ok [OF at ok'] by blast
  have e: "\<not> drc_bitmap64_exist map0 (lc_new_id claim) \<or> drid_type (mr_res_id m) = DR_TYPE_TABLE"
    using s(1) by (auto simp: claimable_def map0_def exist_insts)
  have mode: "ri_req_mode (cvt_req m) = lc_mode claim" "ri_inst_id (cvt_req m) = lc_new_id claim"
    using s(1) by (simp_all add: claimable_def)
  have "drc_claim_lock_owner promote stop is_remaster l claim c = Some (OG_SUCCESS, c2)"
    using m(1,2) go e c2(1,2) mode
    by (cases "lc_mode claim = DRC_LOCK_EXCLUSIVE")
      (auto simp: drc_claim_lock_owner_def drc_lock_bucket_and_stat_with_version_check_def Let_def knl_panic_def map0_def cvt_req_def)
  then show ?thesis using c2 h s by (intro exI [of _ "strip m'"] exI [of _ c2]) simp
qed

lemma cancel_lock_ok:
  assumes ok: "ctx_ok promote c V W H G F"
  shows "\<exists>c'. drc_cancel_lock_owner_request_nolock_part promote inst l c =
      Some (if W l = None then OG_ERROR else OG_SUCCESS, c') \<and> rc_sent c' = rc_sent c \<and>
    (case W l of None \<Rightarrow> c' = c
     | Some m \<Rightarrow> if ri_inst_id (cvt_req m) \<noteq> inst then c' = c
         else \<exists>m'. ctx_ok promote c' V (W(l \<mapsto> m')) H G F \<and> holders m' = holders m \<and> rb_idx m' = rb_idx m \<and>
           lock_moves_on (waiting c m) m' (waiting c' m'))"
proof (cases "W l")
  case None
  then show ?thesis using lock_find_rep [OF ok, of l] by (simp add: drc_cancel_lock_owner_request_nolock_part_def)
next
  case (Some m0)
  obtain m where m: "lock_find promote c l = Some (Some (rb_idx m))" "lock_get c (rb_idx m) = Some m" "strip m = m0"
    "lock_at promote c l m V W H G F" "lock_ok m (waiting c m)"
    using lock_found [OF ok Some] by blast
  obtain m' c1 c2 where c2: "drc_convert_lock_owner m c = Some (m', c1)" "lock_put c1 (rb_idx m) m' = Some c2"
    "ctx_ok promote c2 V (W(l \<mapsto> strip m')) H G F" "holders m' = holders m" "rb_idx m' = rb_idx m"
    "lock_moves_on (waiting c m) m' (waiting c2 m')" "rc_sent c2 = rc_sent c"
    using convert_put_ok [OF m(4,5)] by blast
  have s: "cvt_req m0 = cvt_req m" "rb_convert_q m0 = rb_convert_q m" "holders m0 = holders m" "rb_idx m0 = rb_idx m"
    using m(3) by auto
  show ?thesis
  proof (cases "ri_inst_id (cvt_req m) = inst")
    case True
    then have "drc_cancel_lock_owner_request_nolock_part promote inst l c = Some (OG_SUCCESS, c2)"
      using m(1,2) c2(1,2) by (simp add: drc_cancel_lock_owner_request_nolock_part_def)
    then show ?thesis using Some s c2 True by (auto intro!: exI [of _ "strip m'"] simp del: fun_upd_apply)
  next
    case False
    then show ?thesis using Some s m(1,2) by (simp add: drc_cancel_lock_owner_request_nolock_part_def)
  qed
qed

subsection \<open>Holders that leave\<close>

definition drop_holder :: "u8 \<Rightarrow> drc_master_res \<Rightarrow> drc_master_res" where
  "drop_holder inst m = (let m = m\<lparr>mr_granted_map := drc_bitmap64_clear (mr_granted_map m) inst\<rparr> in
     if mr_granted_map m = 0 then m\<lparr>rb_mode := DRC_LOCK_NULL\<rparr> else m)"

lemma drop_holder_sel [simp]: "rb_convert_q (drop_holder inst m) = rb_convert_q m"
  "lock_links (drop_holder inst m) = lock_links m" "cvt_req (drop_holder inst m) = cvt_req m"
  "converting (drop_holder inst m) = converting m" "rb_idx (drop_holder inst m) = rb_idx m"
  "mr_granted_map (drop_holder inst m) = drc_bitmap64_clear (mr_granted_map m) inst"
  by (simp_all add: drop_holder_def Let_def lock_links_def cvt_req_def converting_def)

lemma drop_holder_strip: "strip (drop_holder inst m) = drop_holder inst (strip m)"
  by (simp add: drop_holder_def Let_def strip_def)

lemma clear_0 [simp]: "drc_bitmap64_clear 0 inst = 0"
  by (simp add: drc_bitmap64_clear_def)

lemma drop_holder_ok: "lock_ok m rs \<Longrightarrow> lock_ok (drop_holder inst m) rs"
  by (auto simp: lock_ok_parts) (auto simp: drop_holder_def Let_def split: if_splits)

lemma cleared_holder_ok:
  assumes "lock_ok m rs"
  shows "lock_ok (m\<lparr>mr_granted_map := drc_bitmap64_clear (mr_granted_map m) inst\<rparr>) rs"
  using assms by (auto simp: lock_ok_parts converting_def cvt_req_def)

lemma last_holder: "drc_bitmap64_clear map0 inst = 0 \<longleftrightarrow> insts map0 \<subseteq> {inst}"
  using insts_empty_iff [of "drc_bitmap64_clear map0 inst"] by auto

lemma clear_lock_ok:
  assumes ok: "ctx_ok promote c V W H G F"
  shows "\<exists>c'. dls_clear_granted_map_for_inst promote l inst c = Some c' \<and>
    ctx_ok promote c' V (case W l of None \<Rightarrow> W | Some m \<Rightarrow> W(l \<mapsto> drop_holder inst m)) H G F"
proof (cases "W l")
  case None
  then show ?thesis using ok lock_find_rep [OF ok, of l] by (simp add: dls_clear_granted_map_for_inst_def)
next
  case (Some m0)
  obtain m where m: "lock_find promote c l = Some (Some (rb_idx m))" "lock_get c (rb_idx m) = Some m" "strip m = m0"
    "lock_at promote c l m V W H G F" "lock_ok m (waiting c m)"
    using lock_found [OF ok Some] by blast
  obtain g where g: "lock_put c (rb_idx m) (drop_holder inst m) = Some (c\<lparr>rc_global_lock_res := g\<rparr>)"
    "ctx_ok promote (c\<lparr>rc_global_lock_res := g\<rparr>) V (W(l \<mapsto> drop_holder inst m0)) H G F"
    using lock_update [OF m(4), of "drop_holder inst m"] drop_holder_ok [OF m(5)] m(3) drop_holder_strip [of inst m]
    by (auto simp del: fun_upd_apply)
  have "dls_clear_granted_map_for_inst promote l inst c = Some (c\<lparr>rc_global_lock_res := g\<rparr>)"
    using m(1,2) g(1) by (simp add: dls_clear_granted_map_for_inst_def drop_holder_def Let_def)
  then show ?thesis using g(2) Some by simp
qed

text \<open>A holder gives its lock back: the last one takes the resource along if nobody asks for the lock.\<close>

definition after_release :: "u8 \<Rightarrow> drc_master_res \<Rightarrow> drc_master_res option" where
  "after_release inst m = (if insts (mr_granted_map m) \<subseteq> {inst} \<and> \<not> converting m then None else Some (drop_holder inst m))"

lemma release_lock_ok:
  assumes ok: "ctx_ok promote c V W H G F"
  shows "\<exists>c'. drc_release_lock_owner promote inst l c =
      Some (if \<exists>m. W l = Some m \<and> inst \<in> insts (mr_granted_map m) then OG_SUCCESS else OG_ERROR, c') \<and>
    rc_sent c' = rc_sent c \<and>
    (case W l of None \<Rightarrow> c' = c
     | Some m \<Rightarrow> if inst \<in> insts (mr_granted_map m) then ctx_ok promote c' V (W(l := after_release inst m)) H G F else c' = c)"
proof (cases "W l")
  case None
  then show ?thesis using lock_find_rep [OF ok, of l] by (simp add: drc_release_lock_owner_def)
next
  case (Some m0)
  obtain m where m: "lock_find promote c l = Some (Some (rb_idx m))" "lock_get c (rb_idx m) = Some m" "strip m = m0"
    "lock_at promote c l m V W H G F" "lock_ok m (waiting c m)"
    using lock_found [OF ok Some] by blast
  have s: "mr_granted_map m0 = mr_granted_map m" "converting m0 = converting m" "rb_idx m0 = rb_idx m" using m(3) by auto
  show ?thesis
  proof (cases "inst \<in> insts (mr_granted_map m)")
    case False
    then show ?thesis using Some s m(1,2) by (simp add: drc_release_lock_owner_def exist_insts)
  next
    case True
    obtain g where g: "lock_put c (rb_idx m) (drop_holder inst m) = Some (c\<lparr>rc_global_lock_res := g\<rparr>)"
      "ctx_ok promote (c\<lparr>rc_global_lock_res := g\<rparr>) V (W(l \<mapsto> drop_holder inst m0)) H G F"
      using lock_update [OF m(4), of "drop_holder inst m"] drop_holder_ok [OF m(5)] m(3) drop_holder_strip [of inst m]
      by (auto simp del: fun_upd_apply)
    define c1 where "c1 = c\<lparr>rc_global_lock_res := g\<rparr>"
    have unfold: "drc_release_lock_owner promote inst l c =
       (if mr_granted_map (drop_holder inst m) > 0 \<or> converting m then Some (OG_SUCCESS, c1)
        else do {
          g \<leftarrow> gr_map_remove (lock_hash promote) (rc_global_lock_res c1) l;
          (_, c) \<leftarrow> drc_release_lock_res (rb_idx m) (c1\<lparr>rc_global_lock_res := g\<rparr>);
          Some (OG_SUCCESS, c)
        })"
      using m(1,2) g(1) True
      by (simp add: drc_release_lock_owner_def exist_insts drop_holder_def Let_def c1_def converting_def cvt_req_def)
    show ?thesis
    proof (cases "insts (mr_granted_map m) \<subseteq> {inst} \<and> \<not> converting m")
      case False
      then have "mr_granted_map (drop_holder inst m) > 0 \<or> converting m"
        by (auto simp: last_holder word_gt_0)
      moreover have "after_release inst m0 = Some (drop_holder inst m0)" using False s by (simp only: after_release_def if_False)
      ultimately show ?thesis using unfold g(2) Some s True by (simp add: c1_def)
    next
      case last: True
      obtain g1 g2 where "gr_map_remove (lock_hash promote) (rc_global_lock_res c1) l = Some g1"
        "drc_release_lock_res (rb_idx m) (c1\<lparr>rc_global_lock_res := g1\<rparr>) = Some (OG_SUCCESS, c1\<lparr>rc_global_lock_res := g2\<rparr>)"
        "ctx_ok promote (c1\<lparr>rc_global_lock_res := g2\<rparr>) V (W(l := None)) H G F"
        using lock_removed_ok [OF g(2) fun_upd_same] last s by (auto simp: last_holder c1_def simp del: fun_upd_apply)
      moreover have "drc_bitmap64_clear (mr_granted_map m) inst = 0" using last by (simp add: last_holder)
      ultimately show ?thesis using unfold last Some s True by (simp add: after_release_def c1_def)
    qed
  qed
qed

text \<open>
  The master's side of recycling: like a release, but the holder may be gone already, and the mode stays.
\<close>

definition after_recycle :: "u8 \<Rightarrow> drc_master_res \<Rightarrow> drc_master_res option" where
  "after_recycle inst m = (if insts (mr_granted_map m) \<subseteq> {inst} \<and> \<not> converting m then None
     else Some (m\<lparr>mr_granted_map := drc_bitmap64_clear (mr_granted_map m) inst\<rparr>))"

lemma recycle_master_ok:
  assumes ok: "ctx_ok promote c V W H G F"
  shows "\<exists>c'. drc_recycle_dls_master promote stop l inst c = Some (if stop then OG_ERROR else OG_SUCCESS, c') \<and>
    rc_sent c' = rc_sent c \<and>
    (if stop \<or> W l = None then c' = c else ctx_ok promote c' V (W(l := after_recycle inst (the (W l)))) H G F)"
proof (cases "stop \<or> W l = None")
  case True
  then show ?thesis using lock_find_rep [OF ok, of l] by (auto simp: drc_recycle_dls_master_def)
next
  case False
  then obtain m0 where W: "W l = Some m0" and go: "\<not> stop" by auto
  obtain m where m: "lock_find promote c l = Some (Some (rb_idx m))" "lock_get c (rb_idx m) = Some m" "strip m = m0"
    "lock_at promote c l m V W H G F" "lock_ok m (waiting c m)"
    using lock_found [OF ok W] by blast
  let ?f = "\<lambda>m :: drc_master_res. m\<lparr>mr_granted_map := drc_bitmap64_clear (mr_granted_map m) inst\<rparr>"
  have "strip (?f m) = ?f (strip m)" by (simp add: strip_def)
  then have s: "mr_granted_map m0 = mr_granted_map m" "converting m0 = converting m" "rb_idx m0 = rb_idx m" "strip (?f m) = ?f m0"
    using m(3) by auto
  have f: "lock_links (?f m) = lock_links m" by (simp add: lock_links_def)
  obtain g where g: "lock_put c (rb_idx m) (?f m) = Some (c\<lparr>rc_global_lock_res := g\<rparr>)"
    "ctx_ok promote (c\<lparr>rc_global_lock_res := g\<rparr>) V (W(l \<mapsto> ?f m0)) H G F"
    using lock_update [OF m(4) _ f cleared_holder_ok [OF m(5)]] s(4) by (auto simp del: fun_upd_apply)
  have cf: "converting (?f m0) = converting m0" by (simp add: converting_def cvt_req_def)
  show ?thesis
  proof (cases "insts (mr_granted_map m) \<subseteq> {inst} \<and> \<not> converting m")
    case True
    obtain g1 g2 where "gr_map_remove (lock_hash promote) g l = Some g1"
      "drc_release_lock_res (rb_idx m) (c\<lparr>rc_global_lock_res := g1\<rparr>) = Some (OG_SUCCESS, c\<lparr>rc_global_lock_res := g2\<rparr>)"
      "ctx_ok promote (c\<lparr>rc_global_lock_res := g2\<rparr>) V (W(l := None)) H G F"
      using lock_removed_ok [OF g(2) fun_upd_same] True s cf by (auto simp: last_holder simp del: fun_upd_apply)
    then show ?thesis using m(1,2) g(1) go W True s
      by (simp add: drc_recycle_dls_master_def Let_def after_recycle_def last_holder converting_def cvt_req_def)
  next
    case False
    then show ?thesis using m(1,2) g go W s
      by (auto simp: drc_recycle_dls_master_def Let_def after_recycle_def last_holder converting_def cvt_req_def)
  qed
qed

subsection \<open>Requests\<close>

lemma lock_enter_ok:
  assumes at: "lock_at promote c l m V W H G F" and ok: "lock_ok m (waiting c m)" and cvt: "converting m" and req: "req_ok req"
  shows "drc_request_lock_owner_add_req_into_cvt_q m req c = Some (OG_ERROR, m, c) \<or>
    (\<exists>m' c'. drc_request_lock_owner_add_req_into_cvt_q m req c = Some (OG_SUCCESS, m', c') \<and>
       lock_at promote c' l m' V W H G F \<and> lock_ok m' (waiting c' m') \<and> same_lock m m' \<and> cvt_req m' = cvt_req m \<and>
       waiting c' m' = waiting c m @ [req] \<and> rc_sent c' = rc_sent c)"
proof -
  let ?Q = "(cvt_queues V W)(Inr l \<mapsto> rb_convert_q m)"
  consider (full) "cvt_q_enqueue (rc_lock_item_pool c) (rb_convert_q m) req = Some None"
    | (entered) pool q where "cvt_q_enqueue (rc_lock_item_pool c) (rb_convert_q m) req = Some (Some (pool, q))"
      "queues_ok pool (?Q(Inr l \<mapsto> q)) F"
      "q_reqs pool (?Q(Inr l \<mapsto> q)) = (q_reqs (rc_lock_item_pool c) ?Q)(Inr l \<mapsto> waiting c m @ [req])"
    using queues_enqueue [OF lock_at_queues [OF at] fun_upd_same, of req] by blast
  then show ?thesis
  proof cases
    case full
    then show ?thesis by (simp add: drc_request_lock_owner_add_req_into_cvt_q_def)
  next
    case entered
    let ?m = "m\<lparr>rb_convert_q := q\<rparr>" and ?c = "c\<lparr>rc_lock_item_pool := pool\<rparr>"
    have k: "lock_links ?m = lock_links m" "same_lock m ?m" "cvt_req ?m = cvt_req m" "rb_convert_q ?m = q" "converting ?m"
      using cvt by (simp_all add: lock_links_def same_lock_def cvt_req_def converting_def)
    have at': "lock_at promote ?c l ?m V W H G F \<and> waiting ?c ?m = waiting c m @ [req]"
      using lock_at_queue [OF at _ k(1), of ?c F "waiting c m @ [req]"] entered k by simp
    moreover have "lock_ok ?m (waiting c m @ [req])"
      using ok req cvt k by (auto simp: lock_ok_parts)
    ultimately show ?thesis
      using entered(1) k by (simp add: drc_request_lock_owner_add_req_into_cvt_q_def)
  qed
qed

lemma converts_ok:
  assumes "lock_ok m rs" and "req_ok req" and "rs = [] \<or> converting m"
  shows "lock_ok (set_cvt_req req m) rs"
  using assms req_okD [OF assms(2)] by (auto simp: lock_ok_parts set_cvt_req_def converting_def cvt_req_def)

text \<open>What becomes of a request, and of the lock.\<close>

definition lock_outcome :: "(u8 \<Rightarrow> u32) \<Rightarrow> drid \<Rightarrow> drc_req_info \<Rightarrow> lock_grant \<Rightarrow> drc_res_ctx \<Rightarrow> (page_id \<Rightarrow> drc_buf_res option) \<Rightarrow>
    (drid \<Rightarrow> drc_master_res option) \<Rightarrow> u32 set \<Rightarrow> u32 set \<Rightarrow> u32 set \<Rightarrow> status_t \<Rightarrow> u32 option \<Rightarrow> lock_grant \<Rightarrow> drc_res_ctx \<Rightarrow> bool" where
  "lock_outcome promote l req grant c V W H G F ret waits grant' c' \<longleftrightarrow>
    (case W l of
       None \<Rightarrow> ret = OG_SUCCESS \<and> waits = None \<and> grant' = \<lparr>lg_is_granted = True, lg_old_owner_map = 0\<rparr> \<and>
         (\<exists>m'. ctx_ok promote c' V (W(l \<mapsto> m')) H G F \<and> holders m' = ({}, DRC_LOCK_NULL) \<and> cvt_req m' = req \<and>
           dl_count (rb_convert_q m') = 0)
     | Some m \<Rightarrow>
         if \<not> converting m then
           ret = OG_SUCCESS \<and> waits = None \<and> grant' = lock_grant_for req m \<and>
           (\<exists>m'. ctx_ok promote c' V (W(l \<mapsto> m')) H G F \<and> holders m' = holders m \<and> cvt_req m' = req \<and>
             dl_count (rb_convert_q m') = 0)
         else if ri_inst_id req \<in> insts (mr_granted_map m) then
           ret = OG_ERROR \<and> waits = None \<and> c' = c
         else (ret = OG_ERROR \<and> waits = None \<and> c' = c) \<or>
           (ret = OG_SUCCESS \<and> waits = Some (rb_idx m) \<and> grant' = grant \<and>
            (\<exists>m'. ctx_ok promote c' V (W(l \<mapsto> m')) H G F \<and> holders m' = holders m \<and> cvt_req m' = cvt_req m \<and>
               rb_idx m' = rb_idx m \<and> waiting c' m' = waiting c m @ [req])))"

lemma lock_converts:
  assumes ok: "ctx_ok promote c V W H G F" and W: "W l = Some m0" and idle: "\<not> converting m0" and req: "req_ok req"
  shows "\<exists>m c'. lock_find promote c l = Some (Some (rb_idx m)) \<and> lock_get c (rb_idx m) = Some m \<and> strip m = m0 \<and>
    dl_count (rb_convert_q m) = 0 \<and> lock_put c (rb_idx m) (set_cvt_req req m) = Some c' \<and> rc_sent c' = rc_sent c \<and>
    ctx_ok promote c' V (W(l \<mapsto> strip (set_cvt_req req m))) H G F"
proof -
  obtain m where m: "lock_find promote c l = Some (Some (rb_idx m))" "lock_get c (rb_idx m) = Some m" "strip m = m0"
    "lock_at promote c l m V W H G F" "lock_ok m (waiting c m)"
    using lock_found [OF ok W] by blast
  have "\<not> converting m" using m(3) idle by auto
  then have w: "waiting c m = []" using m(5) by (simp add: lock_ok_parts)
  have q: "rb_convert_q (set_cvt_req req m) = rb_convert_q m" "lock_links (set_cvt_req req m) = lock_links m"
    by (simp_all add: set_cvt_req_def lock_links_def)
  obtain g where "lock_put c (rb_idx m) (set_cvt_req req m) = Some (c\<lparr>rc_global_lock_res := g\<rparr>)"
    "ctx_ok promote (c\<lparr>rc_global_lock_res := g\<rparr>) V (W(l \<mapsto> strip (set_cvt_req req m))) H G F"
    using lock_update [OF m(4) q] converts_ok [OF m(5) req] w by blast
  moreover have "dl_count (rb_convert_q m) = 0"
    using w by (auto simp: cvt_q_reqs_def cvt_q_chain_def unat_eq_zero)
  ultimately show ?thesis using m(1-3) by auto
qed

lemma set_cvt_holders [simp]: "holders (set_cvt_req req m) = holders m" "cvt_req (set_cvt_req req m) = req"
  "rb_idx (set_cvt_req req m) = rb_idx m"
  by (simp_all add: holders_def set_cvt_req_def cvt_req_def)

lemma request_locked_new:
  assumes ok: "ctx_ok promote c V W H G F" and req: "req_ok req" and W: "W l = None"
    and room: "pool_free (gr_pool (rc_global_lock_res c)) \<noteq> []"
  shows "\<exists>m c1 c'. drc_create_lock_res promote l c = Some (OG_SUCCESS, c1) \<and> lock_find promote c1 l = Some (Some (rb_idx m)) \<and>
    lock_get c1 (rb_idx m) = Some m \<and> lock_put c1 (rb_idx m) (set_cvt_req req m) = Some c' \<and>
    rc_sent c' = rc_sent c \<and> ctx_ok promote c' V (W(l \<mapsto> strip (set_cvt_req req m))) H G F \<and> holders m = ({}, DRC_LOCK_NULL) \<and>
    dl_count (rb_convert_q m) = 0"
proof -
  obtain m0 g where m0: "drc_create_lock_res promote l c = Some (OG_SUCCESS, c\<lparr>rc_global_lock_res := g\<rparr>)" "fresh_lock l m0"
    "ctx_ok promote (c\<lparr>rc_global_lock_res := g\<rparr>) V (W(l \<mapsto> m0)) H G F"
    using create_lock_ok [OF ok W] room by blast
  have idle: "\<not> converting m0" using m0(2) by (simp add: fresh_lock_def)
  obtain m c' where m: "lock_find promote (c\<lparr>rc_global_lock_res := g\<rparr>) l = Some (Some (rb_idx m))"
    "lock_get (c\<lparr>rc_global_lock_res := g\<rparr>) (rb_idx m) = Some m" "strip m = m0"
    "lock_put (c\<lparr>rc_global_lock_res := g\<rparr>) (rb_idx m) (set_cvt_req req m) = Some c'" "rc_sent c' = rc_sent c"
    "ctx_ok promote c' V (W(l \<mapsto> strip (set_cvt_req req m))) H G F"
    using lock_converts [OF m0(3) fun_upd_same idle req] by (auto simp del: fun_upd_apply)
  have "holders m = ({}, DRC_LOCK_NULL)" "dl_count (rb_convert_q m) = 0" using m0(2) m(3) by (auto simp: fresh_lock_def holders_def)
  then show ?thesis using m0(1) m by blast
qed

lemma request_locked_ok:
  assumes ok: "ctx_ok promote c V W H G F" and req: "req_ok req"
    and room: "W l \<noteq> None \<or> pool_free (gr_pool (rc_global_lock_res c)) \<noteq> []"
  shows "\<exists>ret waits grant' c'. drc_request_lock_locked promote l req grant c = Some (ret, waits, grant', c') \<and>
    rc_sent c' = rc_sent c \<and> lock_outcome promote l req grant c V W H G F ret waits grant' c'"
proof (cases "W l")
  case None
  obtain m c1 c' where m: "drc_create_lock_res promote l c = Some (OG_SUCCESS, c1)" "lock_find promote c1 l = Some (Some (rb_idx m))"
    "lock_get c1 (rb_idx m) = Some m" "lock_put c1 (rb_idx m) (set_cvt_req req m) = Some c'"
    "rc_sent c' = rc_sent c" "ctx_ok promote c' V (W(l \<mapsto> strip (set_cvt_req req m))) H G F" "holders m = ({}, DRC_LOCK_NULL)"
    "dl_count (rb_convert_q m) = 0"
    using request_locked_new [OF ok req None] room None by auto
  then show ?thesis
    using None lock_find_rep [OF ok, of l]
    by (auto simp: drc_request_lock_locked_def lock_outcome_def simp del: fun_upd_apply intro!: exI [of _ "strip (set_cvt_req req m)"])
next
  case (Some m0)
  show ?thesis
  proof (cases "converting m0")
    case False
    obtain m c' where m: "lock_find promote c l = Some (Some (rb_idx m))" "lock_get c (rb_idx m) = Some m" "strip m = m0"
      "dl_count (rb_convert_q m) = 0" "lock_put c (rb_idx m) (set_cvt_req req m) = Some c'" "rc_sent c' = rc_sent c"
      "ctx_ok promote c' V (W(l \<mapsto> strip (set_cvt_req req m))) H G F"
      using lock_converts [OF ok Some False req] by blast
    have s: "\<not> converting m" "holders m0 = holders m" "lock_grant_for req m = lock_grant_for req m0"
      using m(3) False by (auto simp: lock_grant_for_def)
    show ?thesis
      using m Some False s
      by (auto simp: drc_request_lock_locked_def lock_outcome_def converting_def knl_panic_def simp del: fun_upd_apply
          intro!: exI [of _ "strip (set_cvt_req req m)"])
  next
    case True
    obtain m where m: "lock_find promote c l = Some (Some (rb_idx m))" "lock_get c (rb_idx m) = Some m" "strip m = m0"
      "lock_at promote c l m V W H G F" "lock_ok m (waiting c m)"
      using lock_found [OF ok Some] by blast
    have s: "converting m" "holders m0 = holders m" "mr_granted_map m0 = mr_granted_map m" "cvt_req m0 = cvt_req m"
      "rb_idx m0 = rb_idx m" "rb_convert_q m0 = rb_convert_q m"
      using m(3) True by auto
    consider (refused) "drc_request_lock_owner_add_req_into_cvt_q m req c = Some (OG_ERROR, m, c)"
      | (entered) m' c1 where "drc_request_lock_owner_add_req_into_cvt_q m req c = Some (OG_SUCCESS, m', c1)"
        "lock_at promote c1 l m' V W H G F" "lock_ok m' (waiting c1 m')" "same_lock m m'" "cvt_req m' = cvt_req m"
        "waiting c1 m' = waiting c m @ [req]" "rc_sent c1 = rc_sent c"
      using lock_enter_ok [OF m(4,5) s(1) req] by blast
    then show ?thesis
    proof cases
      case refused
      then show ?thesis
        using m(1,2) Some True s by (auto simp: drc_request_lock_locked_def lock_outcome_def converting_def exist_insts)
    next
      case entered
      note i = same_lock_idx(1) [OF entered(4)] same_holders [OF entered(4)]
      obtain g where g: "lock_put c1 (rb_idx m') m' = Some (c1\<lparr>rc_global_lock_res := g\<rparr>)"
        "ctx_ok promote (c1\<lparr>rc_global_lock_res := g\<rparr>) V (W(l \<mapsto> strip m')) H G F"
        using lock_at_put [OF entered(2,3)] by blast
      have "\<exists>m'. ctx_ok promote (c1\<lparr>rc_global_lock_res := g\<rparr>) V (W(l \<mapsto> m')) H G F \<and> holders m' = holders m0 \<and>
         cvt_req m' = cvt_req m0 \<and> rb_idx m' = rb_idx m0 \<and> waiting (c1\<lparr>rc_global_lock_res := g\<rparr>) m' = waiting c m0 @ [req]"
        using g(2) i entered s by (intro exI [of _ "strip m'"]) simp
      then show ?thesis
        using m(1,2) Some True s g(1) i entered
        by (cases "ri_inst_id req \<in> insts (mr_granted_map m)")
          (simp_all add: drc_request_lock_locked_def lock_outcome_def converting_def exist_insts)
    qed
  qed
qed

subsection \<open>Waiting for a lock\<close>

text \<open>The catalogue when round \<open>n\<close> of the wait has its locks again.\<close>

primrec lock_rounds :: "(nat \<Rightarrow> drc_res_ctx \<Rightarrow> drc_res_ctx) \<Rightarrow> drc_res_ctx \<Rightarrow> nat \<Rightarrow> drc_res_ctx" where
  "lock_rounds others c 0 = others 0 c"
| "lock_rounds others c (Suc n) = others (Suc n) (lock_rounds others c n)"

definition keeps_lock :: "(u8 \<Rightarrow> u32) \<Rightarrow> drid \<Rightarrow> (drc_res_ctx \<Rightarrow> drc_res_ctx) \<Rightarrow> bool" where
  "keeps_lock promote l f \<longleftrightarrow> (\<forall>c m. lock_view promote c l = Some m \<and> converting m \<longrightarrow>
     (\<exists>m'. lock_view promote (f c) l = Some m' \<and> rb_idx m' = rb_idx m \<and> converting m'))"

lemma keeps_lock_id [simp]: "keeps_lock promote l (\<lambda>c. c)"
  by (simp add: keeps_lock_def)

text \<open>The instance of the request is the one that converts.\<close>

definition lock_turn :: "(u8 \<Rightarrow> u32) \<Rightarrow> drid \<Rightarrow> drc_req_info \<Rightarrow> drc_res_ctx \<Rightarrow> bool" where
  "lock_turn promote l req c \<longleftrightarrow> (\<exists>m. lock_view promote c l = Some m \<and> ri_inst_id (cvt_req m) = ri_inst_id req)"

lemma lock_round_kept:
  assumes "keeps_inv promote f" "keeps_lock promote l f" and "ctx_inv promote c H G F"
    and "lock_view promote c l = Some m" "converting m" "rb_idx m = i"
  shows "ctx_inv promote (f c) H G F \<and> (\<exists>m'. lock_view promote (f c) l = Some m' \<and> converting m' \<and> rb_idx m' = i)"
  using assms unfolding keeps_inv_def keeps_lock_def by blast

lemma lock_rounds_kept:
  assumes "\<And>n. keeps_inv promote (others n)" "\<And>n. keeps_lock promote l (others n)" and "ctx_inv promote c H G F"
    and "lock_view promote c l = Some m" "converting m" "rb_idx m = i"
  shows "ctx_inv promote (lock_rounds others c n) H G F \<and>
    (\<exists>m'. lock_view promote (lock_rounds others c n) l = Some m' \<and> converting m' \<and> rb_idx m' = i)"
proof (induction n)
  case 0
  then show ?case using lock_round_kept [OF assms] by simp
next
  case (Suc n)
  then show ?case using lock_round_kept [OF assms(1,2)] by auto
qed

lemma lock_read_view:
  assumes "ctx_inv promote c H G F" and "lock_view promote c l = Some m0"
  shows "\<exists>m. lock_get c (rb_idx m0) = Some m \<and> strip m = m0"
  using lock_at_start [OF assms(1) [unfolded ctx_inv_def] assms(2)] by blast

lemma lock_wait_step:
  assumes "ctx_inv promote (others n c) H G F" and "lock_view promote (others n c) l = Some m0" "converting m0" "rb_idx m0 = i"
  shows "drc_lock_wait others stop req i n grant c =
    (if stop n then Some (OG_ERROR, grant, others n c)
     else if ri_inst_id req = ri_inst_id (cvt_req m0) then Some (OG_SUCCESS, lock_grant_for req m0, others n c)
     else drc_lock_wait others stop req i (Suc n) grant (others n c))"
proof -
  obtain m where m: "lock_get (others n c) i = Some m" "strip m = m0"
    using lock_read_view [OF assms(1,2)] assms(4) by auto
  have s: "cvt_req m0 = cvt_req m" "lock_grant_for req m0 = lock_grant_for req m" "converting m"
    using m(2) assms(3) by (auto simp: lock_grant_for_def)
  then show ?thesis
    by (subst drc_lock_wait.simps) (use m(1) in \<open>simp add: knl_panic_def converting_def\<close>)
qed

text \<open>
  A request that waits gets its answer in the first round in which a reform stops it or its turn has come.
\<close>

lemma lock_wait_ok:
  assumes keeps: "\<And>n. keeps_inv promote (others n)" "\<And>n. keeps_lock promote l (others n)" and inv: "ctx_inv promote c H G F"
    and m: "lock_view promote c l = Some m0" "converting m0" "rb_idx m0 = i"
    and ends: "stop n \<or> lock_turn promote l req (lock_rounds others c n)"
    and least: "\<And>k. k < n \<Longrightarrow> \<not> stop k \<and> \<not> lock_turn promote l req (lock_rounds others c k)"
  shows "\<exists>m'. lock_view promote (lock_rounds others c n) l = Some m' \<and> rb_idx m' = i \<and>
    drc_lock_wait others stop req i 0 grant c =
      Some (if stop n then OG_ERROR else OG_SUCCESS, if stop n then grant else lock_grant_for req m', lock_rounds others c n) \<and>
    ctx_inv promote (lock_rounds others c n) H G F"
proof -
  let ?c = "lock_rounds others c"
  have kept: "\<exists>m'. ctx_inv promote (?c k) H G F \<and> lock_view promote (?c k) l = Some m' \<and> converting m' \<and> rb_idx m' = i" for k
    using lock_rounds_kept [where others = others, OF keeps inv m] by blast
  have prev: "drc_lock_wait others stop req i 0 grant c = drc_lock_wait others stop req i (Suc k) grant (?c k)" if "k < n" for k
    using that
  proof (induction k)
    case 0
    obtain m' where m': "ctx_inv promote (?c 0) H G F" "lock_view promote (?c 0) l = Some m'" "converting m'" "rb_idx m' = i"
      using kept by blast
    then show ?case using lock_wait_step [of promote others 0 c] least [OF 0] by (auto simp: lock_turn_def)
  next
    case (Suc k)
    obtain m' where m': "ctx_inv promote (?c (Suc k)) H G F" "lock_view promote (?c (Suc k)) l = Some m'" "converting m'" "rb_idx m' = i"
      using kept by blast
    then show ?case
      using lock_wait_step [of promote others "Suc k" "?c k"] least [OF Suc.prems] Suc by (auto simp: lock_turn_def)
  qed
  obtain m' where m': "ctx_inv promote (?c n) H G F" "lock_view promote (?c n) l = Some m'" "converting m'" "rb_idx m' = i"
    using kept by blast
  have turn: "\<not> stop n \<Longrightarrow> ri_inst_id (cvt_req m') = ri_inst_id req"
    using ends m'(2) by (auto simp: lock_turn_def)
  have "drc_lock_wait others stop req i 0 grant c =
      Some (if stop n then OG_ERROR else OG_SUCCESS, if stop n then grant else lock_grant_for req m', ?c n)"
  proof (cases n)
    case 0
    then show ?thesis using lock_wait_step [of promote others 0 c] m' turn by simp
  next
    case (Suc k)
    then show ?thesis using lock_wait_step [of promote others "Suc k" "?c k"] m' turn prev [of k] by simp
  qed
  then show ?thesis using m' by blast
qed

subsection \<open>The whole request\<close>

lemma request_lock_immediate:
  assumes inv: "ctx_inv promote c H G F" and req: "req_ok req"
    and room: "lock_view promote c l \<noteq> None \<or> pool_free (gr_pool (rc_global_lock_res c)) \<noteq> []"
    and idle: "\<And>m. lock_view promote c l = Some m \<Longrightarrow> \<not> converting m"
  shows "\<exists>c' m'. drc_request_lock_owner promote False others stop l req grant c = Some (OG_SUCCESS,
      (case lock_view promote c l of None \<Rightarrow> \<lparr>lg_is_granted = True, lg_old_owner_map = 0\<rparr> | Some m \<Rightarrow> lock_grant_for req m), c') \<and>
    ctx_inv promote c' H G F \<and> buf_view c' = buf_view c \<and> lock_view promote c' = (lock_view promote c)(l \<mapsto> m') \<and>
    cvt_req m' = req \<and> holders m' = (case lock_view promote c l of None \<Rightarrow> ({}, DRC_LOCK_NULL) | Some m \<Rightarrow> holders m) \<and>
    waiting c' m' = []"
proof -
  have w: "waiting c' m' = []" if "dl_count (rb_convert_q m') = 0" for c' :: drc_res_ctx and m' :: drc_master_res
    using that by (simp add: cvt_q_reqs_def cvt_q_chain_def)
  obtain ret waits grant' c' where r: "drc_request_lock_locked promote l req grant c = Some (ret, waits, grant', c')"
    "lock_outcome promote l req grant c (buf_view c) (lock_view promote c) H G F ret waits grant' c'"
    using request_locked_ok [OF inv [unfolded ctx_inv_def] req room] by blast
  show ?thesis
  proof (cases "lock_view promote c l")
    case None
    then obtain m' where "ctx_ok promote c' (buf_view c) ((lock_view promote c)(l \<mapsto> m')) H G F"
      "holders m' = ({}, DRC_LOCK_NULL)" "cvt_req m' = req" "ret = OG_SUCCESS" "waits = None" "dl_count (rb_convert_q m') = 0"
      "grant' = \<lparr>lg_is_granted = True, lg_old_owner_map = 0\<rparr>"
      using r(2) by (auto simp: lock_outcome_def)
    then show ?thesis
      using r(1) None ctx_okD w by (intro exI [of _ c'] exI [of _ m']) (auto simp: drc_request_lock_owner_def simp del: fun_upd_apply)
  next
    case (Some m)
    then obtain m' where "ctx_ok promote c' (buf_view c) ((lock_view promote c)(l \<mapsto> m')) H G F"
      "holders m' = holders m" "cvt_req m' = req" "ret = OG_SUCCESS" "waits = None" "grant' = lock_grant_for req m"
      "dl_count (rb_convert_q m') = 0"
      using r(2) idle [OF Some] by (auto simp: lock_outcome_def)
    then show ?thesis
      using r(1) Some ctx_okD w by (intro exI [of _ c'] exI [of _ m']) (auto simp: drc_request_lock_owner_def simp del: fun_upd_apply)
  qed
qed

lemma request_lock_waits:
  assumes keeps: "\<And>n. keeps_inv promote (others n)" "\<And>n. keeps_lock promote l (others n)"
    and inv: "ctx_inv promote c H G F" and req: "req_ok req"
    and m: "lock_view promote c l = Some m" "converting m" "ri_inst_id req \<notin> insts (mr_granted_map m)"
    and locked: "drc_request_lock_locked promote l req grant c = Some (OG_SUCCESS, waits, grant', c1)"
    and ends: "\<exists>n. stop n \<or> lock_turn promote l req (lock_rounds others c1 n)"
  shows "\<exists>n m'. drc_request_lock_owner promote False others stop l req grant c =
      Some (if stop n then OG_ERROR else OG_SUCCESS, if stop n then grant else lock_grant_for req m', lock_rounds others c1 n) \<and>
    lock_view promote (lock_rounds others c1 n) l = Some m' \<and> (\<not> stop n \<longrightarrow> ri_inst_id (cvt_req m') = ri_inst_id req) \<and>
    ctx_inv promote (lock_rounds others c1 n) H G F"
proof -
  let ?ends = "\<lambda>n. stop n \<or> lock_turn promote l req (lock_rounds others c1 n)"
  obtain ret waits' g c2 where "drc_request_lock_locked promote l req grant c = Some (ret, waits', g, c2)"
    "lock_outcome promote l req grant c (buf_view c) (lock_view promote c) H G F ret waits' g c2"
    using request_locked_ok [OF inv [unfolded ctx_inv_def] req, of l grant] m(1) by auto
  then have out: "lock_outcome promote l req grant c (buf_view c) (lock_view promote c) H G F OG_SUCCESS waits grant' c1"
    using locked by simp
  then obtain m1 where m1: "ctx_ok promote c1 (buf_view c) ((lock_view promote c)(l \<mapsto> m1)) H G F"
    "cvt_req m1 = cvt_req m" "rb_idx m1 = rb_idx m" "waits = Some (rb_idx m)" "grant' = grant"
    using m by (auto simp: lock_outcome_def)
  note v = ctx_okD [OF m1(1)]
  have cvt: "converting m1" using m(2) m1(2) by (simp add: converting_def)
  obtain n where n: "?ends n" "\<And>k. k < n \<Longrightarrow> \<not> ?ends k"
    using ends LeastI_ex [of ?ends] not_less_Least [of _ ?ends] by blast
  have view: "lock_view promote c1 l = Some m1" using v(3) by simp
  obtain m' where m': "lock_view promote (lock_rounds others c1 n) l = Some m'"
    "drc_lock_wait others stop req (rb_idx m) 0 grant c1 = Some (if stop n then OG_ERROR else OG_SUCCESS,
       if stop n then grant else lock_grant_for req m', lock_rounds others c1 n)"
    "ctx_inv promote (lock_rounds others c1 n) H G F"
    using lock_wait_ok [where others = others and stop = stop and n = n and req = req and grant = grant,
        OF keeps v(1) view cvt m1(3) n(1)] n(2) by blast
  have "\<not> stop n \<Longrightarrow> ri_inst_id (cvt_req m') = ri_inst_id req"
    using n(1) m'(1) by (auto simp: lock_turn_def)
  moreover have "drc_request_lock_owner promote False others stop l req grant c =
      drc_lock_wait others stop req (rb_idx m) 0 grant c1"
    using locked m1(4,5) by (simp add: drc_request_lock_owner_def)
  ultimately show ?thesis using m' by auto
qed

lemma try_request_ok:
  assumes inv: "ctx_inv promote c H G F" and req: "req_ok req"
  shows "\<exists>ret grant' c'. drc_try_request_lock_owner promote remastered stop l req grant c = Some (ret, grant', c') \<and>
    (if ret = OG_SUCCESS then ctx_inv promote c' H G F \<and> buf_view c' = buf_view c \<and>
       (\<exists>m'. lock_view promote c' = (lock_view promote c)(l \<mapsto> m') \<and> cvt_req m' = req) \<and>
       (\<forall>m. lock_view promote c l = Some m \<longrightarrow> \<not> converting m)
     else ret = OG_ERROR \<and> grant' = grant \<and> c' = c)"
proof (cases "\<not> remastered \<or> stop")
  case True
  then show ?thesis by (auto simp: drc_try_request_lock_owner_def)
next
  case go: False
  have ok: "ctx_ok promote c (buf_view c) (lock_view promote c) H G F" using inv by (simp add: ctx_inv_def)
  show ?thesis
  proof (cases "lock_view promote c l")
    case None
    show ?thesis
    proof (cases "pool_free (gr_pool (rc_global_lock_res c)) = []")
      case True
      have "drc_create_lock_res promote l c = Some (OG_ERROR, c)"
        using lock_dir.alloc_empty [OF lock_dir.rep_wf [OF ctx_ok_locks [OF ok]] True] by (simp add: drc_create_lock_res_def)
      then show ?thesis
        using None go lock_find_rep [OF ok, of l] by (auto simp: drc_try_request_lock_owner_def)
    next
      case False
      obtain m c1 c' where m: "drc_create_lock_res promote l c = Some (OG_SUCCESS, c1)" "lock_find promote c1 l = Some (Some (rb_idx m))"
        "lock_get c1 (rb_idx m) = Some m" "lock_put c1 (rb_idx m) (set_cvt_req req m) = Some c'"
        "ctx_ok promote c' (buf_view c) ((lock_view promote c)(l \<mapsto> strip (set_cvt_req req m))) H G F"
        using request_locked_new [OF ok req None False] by auto
      then show ?thesis using None go lock_find_rep [OF ok, of l] ctx_okD [OF m(5)]
        by (auto simp: drc_try_request_lock_owner_def simp del: fun_upd_apply intro!: exI [of _ "strip (set_cvt_req req m)"])
    qed
  next
    case (Some m0)
    obtain m where m: "lock_find promote c l = Some (Some (rb_idx m))" "lock_get c (rb_idx m) = Some m" "strip m = m0"
      using lock_found [OF ok Some] by blast
    show ?thesis
    proof (cases "converting m0")
      case True
      then show ?thesis using go m by (auto simp: drc_try_request_lock_owner_def converting_def)
    next
      case False
      obtain m c' where m: "lock_find promote c l = Some (Some (rb_idx m))" "lock_get c (rb_idx m) = Some m" "strip m = m0"
        "dl_count (rb_convert_q m) = 0" "lock_put c (rb_idx m) (set_cvt_req req m) = Some c'"
        "ctx_ok promote c' (buf_view c) ((lock_view promote c)(l \<mapsto> strip (set_cvt_req req m))) H G F"
        using lock_converts [OF ok Some False req] by blast
      have "\<not> converting m" using m(3) False by auto
      then show ?thesis using Some False go m ctx_okD [OF m(6)]
        by (auto simp: drc_try_request_lock_owner_def converting_def knl_panic_def simp del: fun_upd_apply
            intro!: exI [of _ "strip (set_cvt_req req m)"])
    qed
  qed
qed

end
