(* ===== verification/Res_Store.thy ===== *)
theory Res_Store
  imports Res_Directory
begin

text \<open>
  A resource map that is used on its own, without the partition lists of a directory: the local locks
  and the transactions of an instance. The first fields of an item are its link and its index. The
  routines below are the steps the code takes on \<^verbatim>\<open>drc_res_map_t\<close>; the lemmas show that a store is a
  finite map, and that entering an identifier fails only when all items are in use.
\<close>

record drc_local_res = drc_res_block_header +
  lr_idx :: u32

text \<open>A pool and a map after \<^verbatim>\<open>memset_s\<close> with zero.\<close>

definition zero_res_pool :: "'a drc_res_pool" where
  "zero_res_pool = \<lparr>rp_inited = False, rp_free_list = 0, rp_item_num = 0, rp_used_num = 0, rp_item_size = 0,
     rp_addr = [], rp_recycle_pos = 0\<rparr>"

definition zero_res_map :: "('k, 'a) drc_res_map" where
  "zero_res_map = \<lparr>rm_inited = False, rm_res_pool = zero_res_pool, rm_bucket_num = 0, rm_buckets = [],
     rm_res_cmp_func = None\<rparr>"

subsection \<open>Access to a map\<close>

definition st_read :: "('k, 'a) drc_res_map \<Rightarrow> u32 \<Rightarrow> 'a drc_res_block_header_scheme option" where
  "st_read m i = rd (rp_addr (rm_res_pool m)) i"

definition st_write :: "('k, 'a) drc_res_map \<Rightarrow> u32 \<Rightarrow> 'a drc_res_block_header_scheme \<Rightarrow>
    ('k, 'a) drc_res_map option" where
  "st_write m i res = do {
     mem \<leftarrow> wr (rp_addr (rm_res_pool m)) i res;
     Some (m\<lparr>rm_res_pool := (rm_res_pool m)\<lparr>rp_addr := mem\<rparr>\<rparr>)
   }"

definition st_lookup :: "(u32 \<Rightarrow> 'k \<Rightarrow> u32) \<Rightarrow> ('k, 'a) drc_res_map \<Rightarrow> 'k \<Rightarrow> u32 option option" where
  "st_lookup hash m k = drc_res_map_lookup m (hash (rm_bucket_num m) k) k"

definition st_add :: "(u32 \<Rightarrow> 'k \<Rightarrow> u32) \<Rightarrow> ('k, 'a) drc_res_map \<Rightarrow> 'k \<Rightarrow> u32 \<Rightarrow> ('k, 'a) drc_res_map option" where
  "st_add hash m k i = map_add m (hash (rm_bucket_num m) k) i"

definition st_remove :: "(u32 \<Rightarrow> 'k \<Rightarrow> u32) \<Rightarrow> ('k, 'a) drc_res_map \<Rightarrow> 'k \<Rightarrow> ('k, 'a) drc_res_map option" where
  "st_remove hash m k = drc_res_map_remove m (hash (rm_bucket_num m) k) k"

definition st_alloc :: "('k, 'a) drc_res_map \<Rightarrow> (u32 \<times> ('k, 'a) drc_res_map) option" where
  "st_alloc m = do {
     (i, pool) \<leftarrow> drc_res_pool_alloc_item (rm_res_pool m);
     Some (i, m\<lparr>rm_res_pool := pool\<rparr>)
   }"

definition st_free :: "('k, 'a) drc_res_map \<Rightarrow> u32 \<Rightarrow> ('k, 'a) drc_res_map option" where
  "st_free m i = do {
     pool \<leftarrow> drc_res_pool_free_item (rm_res_pool m) i;
     Some (m\<lparr>rm_res_pool := pool\<rparr>)
   }"

definition st_modify :: "('k, 'a) drc_res_map \<Rightarrow> u32 \<Rightarrow>
    ('a drc_res_block_header_scheme \<Rightarrow> 'a drc_res_block_header_scheme) \<Rightarrow> ('k, 'a) drc_res_map option" where
  "st_modify m i f = do { res \<leftarrow> st_read m i; st_write m i (f res) }"

text \<open>
  Entering an identifier that is not in the map: an item is allocated, \<open>fill\<close> sets its fields, and it is
  added to the map. The result is the item, or none if the pool is exhausted.
\<close>

definition st_create :: "(u32 \<Rightarrow> 'k \<Rightarrow> u32) \<Rightarrow> ('k, 'a) drc_res_map \<Rightarrow> 'k \<Rightarrow>
    (u32 \<Rightarrow> 'a drc_res_block_header_scheme \<Rightarrow> 'a drc_res_block_header_scheme) \<Rightarrow>
    (u32 option \<times> ('k, 'a) drc_res_map) option" where
  "st_create hash m k fill = do {
     (item_idx, m) \<leftarrow> st_alloc m;
     if item_idx = OG_INVALID_ID32 then Some (None, m)
     else do {
       res \<leftarrow> st_read m item_idx;
       m \<leftarrow> st_write m item_idx (fill item_idx res);
       m \<leftarrow> st_add hash m k item_idx;
       Some (Some item_idx, m)
     }
   }"

text \<open>Looking an identifier up and entering it if it is not there; a pool that is exhausted is a panic.\<close>

definition st_get :: "(u32 \<Rightarrow> 'k \<Rightarrow> u32) \<Rightarrow> ('k, 'a) drc_res_map \<Rightarrow> 'k \<Rightarrow>
    (u32 \<Rightarrow> 'a drc_res_block_header_scheme \<Rightarrow> 'a drc_res_block_header_scheme) \<Rightarrow>
    (u32 \<times> ('k, 'a) drc_res_map) option" where
  "st_get hash m k fill = do {
     found \<leftarrow> st_lookup hash m k;
     (case found of
        Some i \<Rightarrow> Some (i, m)
      | None \<Rightarrow> do {
          (created, m) \<leftarrow> st_create hash m k fill;
          (case created of None \<Rightarrow> None | Some i \<Rightarrow> Some (i, m))
        })
   }"

subsection \<open>The finite map a store stands for\<close>

definition unlinked :: "'a drc_res_block_header_scheme \<Rightarrow> 'a drc_res_block_header_scheme" where
  "unlinked res = res\<lparr>bh_next := 0\<rparr>"

definition st_view :: "(u32 \<Rightarrow> 'k \<Rightarrow> u32) \<Rightarrow> ('a drc_res_block_header_scheme \<Rightarrow> 'k) \<Rightarrow> ('k, 'a) drc_res_map \<Rightarrow>
    'k \<Rightarrow> 'a drc_res_block_header_scheme option" where
  "st_view hash key m k = map_option (\<lambda>i. unlinked (map_item m i)) (map_find hash key m k)"

text \<open>The store \<open>m\<close> stands for the finite map \<open>V\<close>; the items \<open>H\<close> are allocated but not in the map.\<close>

definition st_rep :: "(u32 \<Rightarrow> 'k \<Rightarrow> u32) \<Rightarrow> ('a drc_local_res_scheme \<Rightarrow> 'k) \<Rightarrow>
    ('k \<Rightarrow> 'a drc_local_res_scheme \<Rightarrow> bool) \<Rightarrow> ('k, 'a drc_local_res_ext) drc_res_map \<Rightarrow>
    ('k \<Rightarrow> 'a drc_local_res_scheme option) \<Rightarrow> u32 set \<Rightarrow> bool" where
  "st_rep hash key cmp m V H \<longleftrightarrow>
     map_inv hash key m \<and> rm_res_cmp_func m = Some cmp \<and> st_view hash key m = V \<and>
     (\<forall>i. map_used m i \<longleftrightarrow> i \<in> ran (map_find hash key m) \<or> i \<in> H) \<and> ran (map_find hash key m) \<inter> H = {} \<and>
     (\<forall>i \<in> ran (map_find hash key m). lr_idx (map_item m i) = i)"

lemma unlinked_sel [simp]: "lr_idx (unlinked res) = lr_idx res" "unlinked (res\<lparr>bh_next := n\<rparr>) = unlinked res"
  "unlinked (unlinked res) = unlinked res"
  by (simp_all add: unlinked_def)

context keyed_map
begin

lemma map_find_key:
  assumes "map_inv hash key m" and "map_find hash key m k = Some i"
  shows "key (map_item m i) = k" "map_used m i" "unat i < length (rp_addr (rm_res_pool m))"
  using find_chain [OF assms(1), of k i] assms chain_used(1) [OF assms(1) bucket_in [OF assms(1)]]
    chain_in_pool [OF assms(1) bucket_in [OF assms(1)]] by auto

lemma chain_ran:
  assumes inv: "map_inv hash key m" and "b < length (rm_buckets m)" "i \<in> set (bucket_chain m b)"
  shows "i \<in> ran (map_find hash key m)"
  using find_chain [OF inv, of "key (map_item m i)" i] chain_used(2) [OF assms] assms(3) by (auto simp: ran_def)

text \<open>Changes of the pool that the map does not see.\<close>

lemma store_frame:
  assumes inv: "map_inv hash key m" and pool: "pool_inv pool'"
    and num: "rp_item_num pool' = rp_item_num (rm_res_pool m)"
    and kept: "\<And>i. i \<in> ran (map_find hash key m) \<Longrightarrow> bh_next (rp_addr pool' ! unat i) = bh_next (map_item m i) \<and>
      key (rp_addr pool' ! unat i) = key (map_item m i) \<and> i \<notin> set (pool_free pool')"
  shows "map_inv hash key (m\<lparr>rm_res_pool := pool'\<rparr>)" "map_find hash key (m\<lparr>rm_res_pool := pool'\<rparr>) = map_find hash key m"
  using map_frame [OF inv pool num] kept chain_ran [OF inv] bucket_in [OF inv] by (auto simp: fun_eq_iff)

end

locale local_store = keyed_map hash key cmp
  for hash :: "u32 \<Rightarrow> 'k \<Rightarrow> u32" and key :: "'a drc_local_res_scheme \<Rightarrow> 'k" and cmp
begin

abbreviation srep :: "('k, 'a drc_local_res_ext) drc_res_map \<Rightarrow> ('k \<Rightarrow> 'a drc_local_res_scheme option) \<Rightarrow> u32 set \<Rightarrow> bool" where
  "srep \<equiv> st_rep hash key cmp"

lemma srep_find:
  assumes "srep m V H"
  shows "map_find hash key m k = map_option lr_idx (V k)"
    and "V k = Some res \<Longrightarrow> map_find hash key m k = Some (lr_idx res) \<and> unlinked (map_item m (lr_idx res)) = res \<and>
      key res = k \<and> map_used m (lr_idx res) \<and> unat (lr_idx res) < length (rp_addr (rm_res_pool m))"
proof -
  have inv: "map_inv hash key m" and V: "V k = map_option (\<lambda>i. unlinked (map_item m i)) (map_find hash key m k)" for k
    using assms by (auto simp: st_rep_def st_view_def)
  have idx: "lr_idx (map_item m i) = i" if "map_find hash key m k = Some i" for k i
    using assms that by (auto simp: st_rep_def ran_def)
  show find: "map_find hash key m k = map_option lr_idx (V k)"
    using idx [of k] by (auto simp: V option.map_comp comp_def split: option.splits intro: option.map_ident_strong [symmetric])
  assume Vk: "V k = Some res"
  then have f: "map_find hash key m k = Some (lr_idx res)" by (simp add: find)
  moreover have u: "unlinked (map_item m (lr_idx res)) = res" using V [of k] Vk f by simp
  moreover have "key res = k" using map_find_key(1) [OF inv f] u key_next by (metis unlinked_def)
  ultimately show "map_find hash key m k = Some (lr_idx res) \<and> unlinked (map_item m (lr_idx res)) = res \<and>
      key res = k \<and> map_used m (lr_idx res) \<and> unat (lr_idx res) < length (rp_addr (rm_res_pool m))"
    using map_find_key [OF inv f] by simp
qed

lemma srep_lookup: "srep m V H \<Longrightarrow> st_lookup hash m k = Some (map_option lr_idx (V k))"
  using lookup_find [of m k] srep_find(1) [of m V H k] by (simp add: st_lookup_def st_rep_def)

lemma srep_read: "srep m V H \<Longrightarrow> V k = Some res \<Longrightarrow> \<exists>x. st_read m (lr_idx res) = Some x \<and> unlinked x = res"
  using srep_find(2) [of m V H k res] by (simp add: st_read_def map_item_def)

lemma srepI:
  assumes "map_inv hash key m" "rm_res_cmp_func m = Some cmp"
    and "\<And>k. map_option (\<lambda>i. unlinked (map_item m i)) (map_find hash key m k) = V k"
    and "\<And>i. map_used m i \<longleftrightarrow> i \<in> ran (map_find hash key m) \<or> i \<in> H" "ran (map_find hash key m) \<inter> H = {}"
    and "\<And>i. i \<in> ran (map_find hash key m) \<Longrightarrow> lr_idx (map_item m i) = i"
  shows "srep m V H"
  using assms by (auto simp: st_rep_def st_view_def)

lemma srep_ran: "srep m V H \<Longrightarrow> i \<in> ran (map_find hash key m) \<longleftrightarrow> (\<exists>k res. V k = Some res \<and> lr_idx res = i)"
  using srep_find(1) by (auto simp: ran_def)

lemma srep_inv:
  assumes "srep m V H"
  shows "map_inv hash key m" "pool_inv (rm_res_pool m)" "rm_res_cmp_func m = Some cmp"
  using assms by (auto simp: st_rep_def map_inv_def)

lemma view_same:
  assumes "srep m V H" and "\<And>j. map_find hash key m k = Some j \<Longrightarrow> unlinked (f j) = unlinked (map_item m j)"
  shows "map_option (\<lambda>j. unlinked (f j)) (map_find hash key m k) = V k"
  using assms by (cases "map_find hash key m k") (auto simp: st_rep_def st_view_def)

lemma srep_alloc:
  assumes rep: "srep m V H"
  shows "st_alloc m = Some (OG_INVALID_ID32, m) \<and> pool_free (rm_res_pool m) = [] \<or>
    (\<exists>i m'. st_alloc m = Some (i, m') \<and> i \<noteq> OG_INVALID_ID32 \<and> i \<notin> H \<and> srep m' V (insert i H) \<and>
       rp_addr (rm_res_pool m') = rp_addr (rm_res_pool m))"
proof (cases "pool_free (rm_res_pool m)")
  case Nil
  then show ?thesis using alloc_item_empty [OF srep_inv(2) [OF rep] Nil] by (simp add: st_alloc_def)
next
  case (Cons i "is")
  note inv = srep_inv(1) [OF rep] and pool = srep_inv(2) [OF rep]
  note pop = pool_pop [OF pool Cons]
  let ?m = "m\<lparr>rm_res_pool := pool_pop (rm_res_pool m)\<rparr>"
  have mem: "rp_addr (pool_pop (rm_res_pool m)) = rp_addr (rm_res_pool m)" "rp_item_num (pool_pop (rm_res_pool m)) = rp_item_num (rm_res_pool m)"
    by (simp_all add: pool_pop_def)
  have unused: "\<not> map_used m i" using Cons by (simp add: map_used_def)
  have used: "map_used ?m j \<longleftrightarrow> map_used m j \<or> j = i" for j
    using pop Cons pool by (auto simp: map_used_def pool_inv_def)
  have frame: "map_inv hash key ?m" "map_find hash key ?m = map_find hash key m"
    by (rule store_frame [OF inv pop(1)]; use mem map_find_key(2) [OF inv] Cons pop(2) in \<open>auto simp: map_item_def map_used_def ran_def\<close>)+
  have item: "map_item ?m = map_item m" by (simp add: fun_eq_iff map_item_def mem)
  have nm: "i \<notin> ran (map_find hash key m)" using map_find_key(2) [OF inv] unused by (auto simp: ran_def)
  have "srep ?m V (insert i H)"
    by (rule srepI) (use frame item used rep nm in \<open>auto simp: st_rep_def st_view_def\<close>)
  moreover have "i \<notin> H" using rep unused by (auto simp: st_rep_def)
  ultimately show ?thesis
    using alloc_item_Cons [OF pool Cons] pool_valid_not_invalid [OF pop(5)] mem by (auto simp: st_alloc_def)
qed

lemma srep_held: "srep m V H \<Longrightarrow> i \<in> H \<Longrightarrow> map_used m i \<and> i \<notin> ran (map_find hash key m)"
  by (auto simp: st_rep_def)

lemma idx_kept:
  assumes rep: "srep m V H" and V: "V k = Some res" and "st_remove hash m k = Some m1"
  shows "lr_idx (map_item m1 (lr_idx res)) = lr_idx res"
proof -
  have "\<exists>nx. map_item m1 (lr_idx res) = (map_item m (lr_idx res))\<lparr>bh_next := nx\<rparr>"
    using map_remove_ok [OF srep_inv(1,3) [OF rep], of k] assms(3) by (auto simp: st_remove_def)
  then show ?thesis using rep srep_find(2) [OF rep V] by (auto simp: st_rep_def ran_def)
qed

lemma srep_free:
  assumes rep: "srep m V H" and i: "i \<in> H"
  shows "\<exists>m'. st_free m i = Some m' \<and> srep m' V (H - {i})"
proof -
  note inv = srep_inv(1) [OF rep] and pool = srep_inv(2) [OF rep]
  note held = srep_held [OF rep i]
  then have v: "pool_valid (rm_res_pool m) i" "i \<notin> set (pool_free (rm_res_pool m))" by (simp_all add: map_used_def)
  note push = pool_push [OF pool v]
  let ?p = "pool_push (rm_res_pool m) i" and ?m = "m\<lparr>rm_res_pool := pool_push (rm_res_pool m) i\<rparr>"
  have mem: "map_item ?m j = map_item m j" if "j \<noteq> i" for j using that by (simp add: pool_push_def map_item_def)
  have used: "map_used ?m j \<longleftrightarrow> map_used m j \<and> j \<noteq> i" for j using push by (auto simp: map_used_def)
  have ne: "j \<noteq> i" if "j \<in> ran (map_find hash key m)" for j using that held by auto
  have num: "rp_item_num ?p = rp_item_num (rm_res_pool m)" by (simp add: pool_push_def)
  have kept: "bh_next (rp_addr ?p ! unat j) = bh_next (map_item m j) \<and> key (rp_addr ?p ! unat j) = key (map_item m j) \<and>
      j \<notin> set (pool_free ?p)" if "j \<in> ran (map_find hash key m)" for j
    using mem [OF ne [OF that]] ne [OF that] push(2) map_find_key(2) [OF inv] that
    by (auto simp: map_item_def map_used_def ran_def)
  have frame: "map_inv hash key ?m" "map_find hash key ?m = map_find hash key m"
    using store_frame [OF inv push(1) num kept] by simp_all
  have view: "map_option (\<lambda>j. unlinked (map_item ?m j)) (map_find hash key m k) = V k" for k
    by (rule view_same [OF rep]) (metis mem ne ranI)
  have "srep ?m V (H - {i})"
    by (rule srepI) (use frame view used rep mem ne held in \<open>auto simp: st_rep_def\<close>)
  moreover have "st_free m i = Some ?m"
    using put_item [OF pool v(1)] pool by (simp add: st_free_def drc_res_pool_free_item_def pool_inv_def)
  ultimately show ?thesis by blast
qed

lemma srep_write_any:
  assumes rep: "srep m V H" and i: "map_used m i"
    and same: "i \<in> ran (map_find hash key m) \<Longrightarrow> bh_next y = bh_next (map_item m i) \<and> key y = key (map_item m i)"
  shows "\<exists>m'. st_write m i y = Some m' \<and> map_inv hash key m' \<and> map_find hash key m' = map_find hash key m \<and>
    rm_res_cmp_func m' = Some cmp \<and> map_used m' = map_used m \<and> map_item m' = (map_item m)(i := y) \<and>
    pool_free (rm_res_pool m') = pool_free (rm_res_pool m)"
proof -
  note inv = srep_inv(1) [OF rep] and pool = srep_inv(2) [OF rep]
  have nf: "i \<notin> set (pool_free (rm_res_pool m))" and il: "unat i < length (rp_addr (rm_res_pool m))"
    using i map_used_lt [OF pool i] by (simp_all add: map_used_def)
  let ?p = "(rm_res_pool m)\<lparr>rp_addr := (rp_addr (rm_res_pool m))[unat i := y]\<rparr>" and ?m = "m\<lparr>rm_res_pool := (rm_res_pool m)\<lparr>rp_addr := (rp_addr (rm_res_pool m))[unat i := y]\<rparr>\<rparr>"
  have p: "pool_inv ?p" "pool_free ?p = pool_free (rm_res_pool m)"
    using pool_frame_item [OF nf, of y] pool by simp_all
  have item: "map_item ?m = (map_item m)(i := y)" using il by (auto simp: fun_eq_iff map_item_def nth_update_word)
  have num: "rp_item_num ?p = rp_item_num (rm_res_pool m)" by simp
  have kept: "bh_next (rp_addr ?p ! unat j) = bh_next (map_item m j) \<and> key (rp_addr ?p ! unat j) = key (map_item m j) \<and>
      j \<notin> set (pool_free ?p)" if "j \<in> ran (map_find hash key m)" for j
    using fun_cong [OF item, of j] same that map_find_key(2) [OF inv] p(2) by (auto simp: map_item_def map_used_def ran_def)
  have "map_used ?m = map_used m" using p(2) by (simp add: fun_eq_iff map_used_def pool_valid_def)
  then show ?thesis
    using store_frame [OF inv p(1) num kept] item il p(2) srep_inv(3) [OF rep] by (auto simp: st_write_def wr_def)
qed

lemma srep_write_held:
  assumes rep: "srep m V H" and i: "i \<in> H"
  shows "\<exists>m'. st_write m i y = Some m' \<and> srep m' V H \<and> map_item m' i = y"
proof -
  note held = srep_held [OF rep i]
  obtain m' where m': "st_write m i y = Some m'" "map_inv hash key m'" "map_find hash key m' = map_find hash key m"
    "rm_res_cmp_func m' = Some cmp" "map_used m' = map_used m" "map_item m' = (map_item m)(i := y)"
    using srep_write_any [OF rep, of i y] held by blast
  have view: "map_option (\<lambda>j. unlinked (map_item m' j)) (map_find hash key m k) = V k" for k
    by (rule view_same [OF rep]) (metis held m'(6) fun_upd_other ranI)
  have "srep m' V H"
    by (rule srepI) (use m' view rep held in \<open>auto simp: st_rep_def\<close>)
  then show ?thesis using m' by auto
qed

lemma srep_write:
  assumes rep: "srep m V H" and V: "V k = Some res" and x: "st_read m (lr_idx res) = Some x"
    and y: "bh_next y = bh_next x" "lr_idx y = lr_idx res" "key y = k"
  shows "\<exists>m'. st_write m (lr_idx res) y = Some m' \<and> srep m' (V(k \<mapsto> unlinked y)) H"
proof -
  let ?i = "lr_idx res"
  note res = srep_find(2) [OF rep V]
  have xi: "x = map_item m ?i" using x by (auto simp: st_read_def rd_def map_item_def split: if_splits)
  have kx: "key (map_item m ?i) = k" by (rule map_find_key(1) [OF srep_inv(1) [OF rep]]) (use res in simp)
  obtain m' where m': "st_write m ?i y = Some m'" "map_inv hash key m'" "map_find hash key m' = map_find hash key m"
    "rm_res_cmp_func m' = Some cmp" "map_used m' = map_used m" "map_item m' = (map_item m)(?i := y)"
    using srep_write_any [OF rep, of ?i y] res y xi kx by auto
  have only: "k' = k" if "map_find hash key m k' = Some ?i" for k'
    using map_find_key(1) [OF srep_inv(1) [OF rep] that] kx by simp
  have view: "map_option (\<lambda>j. unlinked (map_item m' j)) (map_find hash key m k') = (V(k \<mapsto> unlinked y)) k'" for k'
  proof (cases "k' = k")
    case True
    then show ?thesis using res m'(6) by simp
  next
    case False
    have "map_option (\<lambda>j. unlinked (map_item m' j)) (map_find hash key m k') = V k'"
      by (rule view_same [OF rep]) (metis False only m'(6) fun_upd_other)
    then show ?thesis using False by simp
  qed
  have "srep m' (V(k \<mapsto> unlinked y)) H"
    by (rule srepI) (use m' view rep y in \<open>auto simp: st_rep_def\<close>)
  then show ?thesis using m'(1) by blast
qed

lemma srep_modify:
  assumes rep: "srep m V H" and V: "V k = Some res"
    and f: "\<And>x. bh_next (f x) = bh_next x \<and> lr_idx (f x) = lr_idx x \<and> key (f x) = key x \<and> unlinked (f x) = f (unlinked x)"
  shows "\<exists>m'. st_modify m (lr_idx res) f = Some m' \<and> srep m' (V(k \<mapsto> f res)) H"
proof -
  obtain x where x: "st_read m (lr_idx res) = Some x" "unlinked x = res" using srep_read [OF rep V] by blast
  have "lr_idx x = lr_idx res" "key x = k"
    using x(2) srep_find(2) [OF rep V] key_next by (auto simp: unlinked_def)
  then obtain m' where "st_write m (lr_idx res) (f x) = Some m'" "srep m' (V(k \<mapsto> unlinked (f x))) H"
    using srep_write [OF rep V x(1)] f [of x] by fastforce
  then show ?thesis using x f [of x] by (auto simp: st_modify_def)
qed

lemma srep_add:
  assumes rep: "srep m V H" and i: "i \<in> H" and y: "map_item m i = y" "key y = k" "lr_idx y = i" and new: "V k = None"
  shows "\<exists>m'. st_add hash m k i = Some m' \<and> srep m' (V(k \<mapsto> unlinked y)) (H - {i})"
proof -
  note held = srep_held [OF rep i]
  have nf: "map_find hash key m k = None" using srep_find(1) [OF rep] new by simp
  have ky: "key (map_item m i) = k" using y by simp
  obtain m' nx where m': "map_add m (hash (rm_bucket_num m) k) i = Some m'" "map_inv hash key m'"
    "map_find hash key m' = (map_find hash key m)(k := Some i)" "rm_res_cmp_func m' = rm_res_cmp_func m"
    "pool_free (rm_res_pool m') = pool_free (rm_res_pool m)" "rp_item_num (rm_res_pool m') = rp_item_num (rm_res_pool m)"
    "\<And>j. map_item m' j = (if j = i then (map_item m i)\<lparr>bh_next := nx\<rparr> else map_item m j)"
    using map_add_ok [OF srep_inv(1) [OF rep] _ ky nf] held by metis
  have used: "map_used m' = map_used m" using m'(5,6) by (simp add: fun_eq_iff map_used_def pool_valid_def)
  have ran: "ran (map_find hash key m') = insert i (ran (map_find hash key m))"
    using m'(3) nf by (simp add: ran_map_upd)
  have view: "map_option (\<lambda>j. unlinked (map_item m' j)) (map_find hash key m' k') = (V(k \<mapsto> unlinked y)) k'" for k'
  proof (cases "k' = k")
    case True
    then show ?thesis using m'(3,7) y by simp
  next
    case False
    have "map_option (\<lambda>j. unlinked (map_item m' j)) (map_find hash key m k') = V k'"
      by (rule view_same [OF rep]) (metis held m'(7) ranI)
    then show ?thesis using False m'(3) by simp
  qed
  have "srep m' (V(k \<mapsto> unlinked y)) (H - {i})"
    by (rule srepI) (use m'(2,4,7) view ran used rep held i y in \<open>auto simp: st_rep_def\<close>)
  then show ?thesis using m'(1) by (auto simp: st_add_def)
qed

lemma srep_remove:
  assumes rep: "srep m V H" and V: "V k = Some res"
  shows "\<exists>m'. st_remove hash m k = Some m' \<and> srep m' (V(k := None)) (insert (lr_idx res) H)"
proof -
  let ?i = "lr_idx res"
  note res = srep_find(2) [OF rep V] and inv = srep_inv(1) [OF rep]
  obtain m' where m': "drc_res_map_remove m (hash (rm_bucket_num m) k) k = Some m'" "map_inv hash key m'"
    "map_find hash key m' = (map_find hash key m)(k := None)" "rm_res_cmp_func m' = rm_res_cmp_func m"
    "pool_free (rm_res_pool m') = pool_free (rm_res_pool m)" "rp_item_num (rm_res_pool m') = rp_item_num (rm_res_pool m)"
    "\<And>j. \<exists>nx. map_item m' j = (map_item m j)\<lparr>bh_next := nx\<rparr>"
    using map_remove_ok [OF inv srep_inv(3) [OF rep], of k] by blast
  have used: "map_used m' = map_used m" using m'(5,6) by (simp add: fun_eq_iff map_used_def pool_valid_def)
  have only: "k' = k" if "map_find hash key m k' = Some ?i" for k'
    using map_find_key(1) [OF inv that] map_find_key(1) [OF inv, of k ?i] res by simp
  have "j \<in> ran (map_find hash key m') \<longleftrightarrow> (\<exists>k'. k' \<noteq> k \<and> map_find hash key m k' = Some j)" for j
    unfolding m'(3) ran_def by auto
  moreover have "j = ?i \<longleftrightarrow> k' = k" if "map_find hash key m k' = Some j" for j k'
    using that only res by (metis option.inject)
  ultimately have ran: "ran (map_find hash key m') = ran (map_find hash key m) - {?i}"
    unfolding ran_def by blast
  have i: "?i \<in> ran (map_find hash key m)" using res by (auto simp: ran_def)
  have un: "unlinked (map_item m' j) = unlinked (map_item m j)" "lr_idx (map_item m' j) = lr_idx (map_item m j)" for j
    using m'(7) [of j] by auto
  have view: "map_option (\<lambda>j. unlinked (map_item m' j)) (map_find hash key m' k') = (V(k := None)) k'" for k'
    using rep m'(3) by (auto simp: st_rep_def st_view_def un)
  have "srep m' (V(k := None)) (insert ?i H)"
    by (rule srepI) (use m'(2,4) view ran used rep i un in \<open>auto simp: st_rep_def\<close>)
  then show ?thesis using m'(1) by (auto simp: st_remove_def)
qed

lemma srep_read_held: "srep m V H \<Longrightarrow> i \<in> H \<Longrightarrow> st_read m i = Some (map_item m i)"
  using srep_held map_used_lt [OF srep_inv(2)] by (simp add: st_read_def map_item_def)

text \<open>The number of identifiers is the number of allocated items, so entering one fails only if all are in use.\<close>

lemma srep_full:
  assumes rep: "srep m V {}" and "pool_free (rm_res_pool m) = []"
  shows "card (dom V) = unat (rp_item_num (rm_res_pool m))"
proof -
  let ?n = "rp_item_num (rm_res_pool m)"
  have used: "map_used m i \<longleftrightarrow> unat i < unat ?n" for i using assms(2) by (simp add: map_used_def pool_valid_def)
  have ran: "i \<in> ran (map_find hash key m) \<longleftrightarrow> unat i < unat ?n" for i using rep used by (simp add: st_rep_def)
  have bij: "bij_betw (\<lambda>k. unat (lr_idx (the (V k)))) (dom V) {..<unat ?n}"
  proof (rule bij_betw_imageI)
    show "inj_on (\<lambda>k. unat (lr_idx (the (V k)))) (dom V)"
    proof (rule inj_onI)
      fix k k' assume "k \<in> dom V" "k' \<in> dom V" and e: "unat (lr_idx (the (V k))) = unat (lr_idx (the (V k')))"
      then obtain r r' where r: "V k = Some r" "V k' = Some r'" by blast
      then have "lr_idx r = lr_idx r'" using e by (simp add: unat_eq_iff)
      moreover have "unlinked (map_item m (lr_idx r)) = r" "unlinked (map_item m (lr_idx r')) = r'" "key r = k" "key r' = k'"
        using srep_find(2) [OF rep r(1)] srep_find(2) [OF rep r(2)] by blast+
      ultimately show "k = k'" by metis
    qed
    have "(\<exists>k \<in> dom V. j = unat (lr_idx (the (V k)))) \<longleftrightarrow> j < unat ?n" for j
    proof
      assume "\<exists>k \<in> dom V. j = unat (lr_idx (the (V k)))"
      then obtain k res where "V k = Some res" "unat (lr_idx res) = j" by auto
      then show "j < unat ?n" using srep_ran [OF rep] ran by blast
    next
      assume j: "j < unat ?n"
      then have u: "unat (of_nat j :: u32) = j" using unat_u32_le [of ?n] by (simp add: unat_of_nat)
      then have "of_nat j \<in> ran (map_find hash key m)" using ran j by simp
      then obtain k res where "V k = Some res" "lr_idx res = of_nat j" using srep_ran [OF rep] by blast
      then show "\<exists>k \<in> dom V. j = unat (lr_idx (the (V k)))" using u by (intro bexI [of _ k]) auto
    qed
    then show "(\<lambda>k. unat (lr_idx (the (V k)))) ` dom V = {..<unat ?n}" by (simp add: set_eq_iff image_iff)
  qed
  then show ?thesis using bij_betw_same_card [OF bij] by simp
qed

lemma srep_create:
  assumes rep: "srep m V H" and new: "V k = None" and fill: "\<And>i x. key (fill i x) = k \<and> lr_idx (fill i x) = i"
  shows "st_create hash m k fill = Some (None, m) \<and> pool_free (rm_res_pool m) = [] \<or>
    (\<exists>i x m'. st_create hash m k fill = Some (Some i, m') \<and> srep m' (V(k \<mapsto> unlinked (fill i x))) H)"
  using srep_alloc [OF rep]
proof (elim disjE exE conjE)
  assume "st_alloc m = Some (OG_INVALID_ID32, m)" "pool_free (rm_res_pool m) = []"
  then show ?thesis by (simp add: st_create_def)
next
  fix i m1 assume a: "st_alloc m = Some (i, m1)" "i \<noteq> OG_INVALID_ID32" "i \<notin> H" "srep m1 V (insert i H)"
  define x where "x = map_item m1 i"
  have x: "st_read m1 i = Some x" using srep_read_held [OF a(4)] by (simp add: x_def)
  obtain m2 where m2: "st_write m1 i (fill i x) = Some m2" "srep m2 V (insert i H)" "map_item m2 i = fill i x"
    using srep_write_held [OF a(4)] by blast
  obtain m3 where m3: "st_add hash m2 k i = Some m3" "srep m3 (V(k \<mapsto> unlinked (fill i x))) (insert i H - {i})"
    using srep_add [OF m2(2) _ m2(3)] fill new by blast
  have "insert i H - {i} = H" using a(3) by simp
  then show ?thesis using a(1,2) x m2(1) m3 by (auto simp: st_create_def)
qed

lemma srep_get:
  assumes rep: "srep m V {}" and fill: "\<And>i x. key (fill i x) = k \<and> lr_idx (fill i x) = i"
    and room: "V k \<noteq> None \<or> card (dom V) < unat (rp_item_num (rm_res_pool m))"
  shows "\<exists>res m'. st_get hash m k fill = Some (lr_idx res, m') \<and> srep m' (V(k \<mapsto> res)) {} \<and>
    (case V k of Some r \<Rightarrow> res = r \<and> m' = m | None \<Rightarrow> \<exists>i x. res = unlinked (fill i x))"
proof (cases "V k")
  case (Some r)
  then show ?thesis using srep_lookup [OF rep, of k] rep by (auto simp: st_get_def fun_upd_idem)
next
  case None
  have "pool_free (rm_res_pool m) \<noteq> []" using srep_full [OF rep] room None by auto
  then obtain i x m' where c: "st_create hash m k fill = Some (Some i, m')" "srep m' (V(k \<mapsto> unlinked (fill i x))) {}"
    using srep_create [where fill = fill, OF rep None fill] by blast
  then show ?thesis
    using srep_lookup [OF rep, of k] None fill [of i x]
    by (intro exI [of _ "unlinked (fill i x)"] exI [of _ m']) (auto simp: st_get_def)
qed

text \<open>Taking an identifier out: the item leaves the map, is cleared and goes back to the pool.\<close>

lemma srep_delete:
  assumes rep: "srep m V {}" and V: "V k = Some res"
  shows "\<exists>m1 x m2 m3. st_remove hash m k = Some m1 \<and> st_read m1 (lr_idx res) = Some x \<and> lr_idx x = lr_idx res \<and>
    st_write m1 (lr_idx res) (z x) = Some m2 \<and> st_free m2 (lr_idx res) = Some m3 \<and> srep m3 (V(k := None)) {}"
proof -
  let ?i = "lr_idx res"
  obtain m1 where m1: "st_remove hash m k = Some m1" "srep m1 (V(k := None)) {?i}"
    using srep_remove [OF rep V] by blast
  have x: "st_read m1 ?i = Some (map_item m1 ?i)" using srep_read_held [OF m1(2)] by simp
  have idx: "lr_idx (map_item m1 ?i) = ?i" using idx_kept [OF rep V m1(1)] .
  obtain m2 where m2: "st_write m1 ?i (z (map_item m1 ?i)) = Some m2" "srep m2 (V(k := None)) {?i}"
    using srep_write_held [OF m1(2)] by blast
  obtain m3 where m3: "st_free m2 ?i = Some m3" "srep m3 (V(k := None)) ({?i} - {?i})"
    using srep_free [OF m2(2)] by blast
  then show ?thesis using m1(1) x idx m2(1) by auto
qed

text \<open>A store after initialisation.\<close>

lemma srep_init:
  assumes "\<not> rm_inited m" "\<not> rp_inited (rm_res_pool m)" "4 \<le> item_size" "0 < unat pool_size"
    and "unat item_size * unat pool_size < 2 ^ 64"
  shows "\<exists>m'. drc_res_map_init True True zero m pool_size item_size cmp = Some (OG_SUCCESS, m') \<and>
    srep m' (\<lambda>_. None) {} \<and> rp_item_num (rm_res_pool m') = pool_size"
proof -
  obtain q where q: "drc_res_pool_init True zero (rm_res_pool m) item_size pool_size = Some (OG_SUCCESS, q)"
    "pool_inv q" "pool_free q = map of_nat [0..<unat pool_size]" "rp_item_num q = pool_size"
    using init_ok [OF assms(2-5)] by blast
  define m' where "m' = m\<lparr>rm_bucket_num := pool_size * 2 + 1,
    rm_buckets := replicate (unat (pool_size * 2 + 1)) \<lparr>bk_count = 0, bk_first = 0\<rparr>, rm_res_pool := q,
    rm_res_cmp_func := Some cmp, rm_inited := True\<rparr>"
  have sel: "rm_inited m'" "rm_res_pool m' = q" "rm_bucket_num m' = pool_size * 2 + 1" "rm_res_cmp_func m' = Some cmp"
    "rm_buckets m' = replicate (unat (pool_size * 2 + 1)) \<lparr>bk_count = 0, bk_first = 0\<rparr>"
    by (simp_all add: m'_def)
  have n: "0 < unat (pool_size * 2 + 1)" by (rule bucket_num_pos)
  have chain: "bucket_chain m' b = []" if "b < unat (pool_size * 2 + 1)" for b
    using that by (simp add: bucket_chain_def sel)
  have inv: "map_inv hash key m'" using q(2) n chain by (simp add: map_inv_def list_all_iff bucket_ok_def sel)
  have find: "map_find hash key m' = Map.empty"
    using chain hash_range [OF n] by (simp add: fun_eq_iff map_find_def sel)
  have "\<not> map_used m' i" for i
  proof
    assume "map_used m' i"
    then have "unat i \<in> {0..<unat pool_size}" "i \<notin> of_nat ` {0..<unat pool_size}"
      using q(3,4) by (simp_all add: map_used_def pool_valid_def sel)
    moreover have "i = of_nat (unat i)" by simp
    ultimately show False by blast
  qed
  then have "srep m' (\<lambda>_. None) {}" by (intro srepI) (use inv find in \<open>simp_all add: sel\<close>)
  moreover have "drc_res_map_init True True zero m pool_size item_size cmp = Some (OG_SUCCESS, m')"
    using assms(1) q(1) by (simp add: drc_res_map_init_def Let_def m'_def)
  ultimately show ?thesis using q(4) sel(2) by auto
qed

end

text \<open>All chains together hold every item of the map once.\<close>

definition all_items :: "('k, 'a) drc_res_map \<Rightarrow> u32 list" where
  "all_items m = concat (map (bucket_chain m) [0..<length (rm_buckets m)])"

context local_store
begin

lemma all_items_keys:
  assumes inv: "map_inv hash key m"
  shows "distinct (map (\<lambda>i. key (map_item m i)) (all_items m))"
proof -
  have "distinct (map (\<lambda>i. key (map_item m i)) (concat (map (bucket_chain m) [0..<n])))" if "n \<le> length (rm_buckets m)" for n
    using that
  proof (induction n)
    case (Suc n)
    have b: "bucket_ok hash key m b" if "b \<le> n" for b
      using inv Suc.prems that by (auto simp: map_inv_def list_all_iff)
    have "key (map_item m i) \<noteq> key (map_item m j)"
      if "a < n" "i \<in> set (bucket_chain m a)" "j \<in> set (bucket_chain m n)" for a i j
      using b [of a] b [of n] that by (auto simp: bucket_ok_def list_all_iff)
    then have "set (map (\<lambda>i. key (map_item m i)) (concat (map (bucket_chain m) [0..<n]))) \<inter>
        set (map (\<lambda>i. key (map_item m i)) (bucket_chain m n)) = {}"
      by fastforce
    moreover have "distinct (map (\<lambda>i. key (map_item m i)) (bucket_chain m n))"
      using b [of n] by (simp add: bucket_ok_def)
    ultimately show ?case using Suc by (simp add: upt_Suc_append del: upt_Suc)
  qed simp
  then show ?thesis by (simp add: all_items_def)
qed

lemma all_items_found:
  assumes rep: "srep m V H" and i: "i \<in> set (all_items m)"
  shows "V (key (map_item m i)) = Some (unlinked (map_item m i))"
proof -
  have inv: "map_inv hash key m" using rep by (simp add: st_rep_def)
  obtain b where b: "b < length (rm_buckets m)" "i \<in> set (bucket_chain m b)" using i by (auto simp: all_items_def)
  have "map_find hash key m (key (map_item m i)) = Some i"
    using find_chain [OF inv, of "key (map_item m i)" i] chain_used(2) [OF inv b] b(2) by simp
  then show ?thesis using rep by (auto simp: st_rep_def st_view_def)
qed

lemma items_found:
  assumes rep: "srep m V H" and V: "V k = Some res"
  shows "\<exists>i \<in> set (all_items m). key (map_item m i) = k \<and> unlinked (map_item m i) = res"
proof -
  have inv: "map_inv hash key m" using rep by (simp add: st_rep_def)
  note res = srep_find(2) [OF rep V]
  have f: "map_find hash key m k = Some (lr_idx res)" using res by simp
  have "lr_idx res \<in> set (bucket_chain m (unat (hash (rm_bucket_num m) k)))"
    using find_chain [OF inv, of k "lr_idx res"] f by simp
  then have "lr_idx res \<in> set (all_items m)"
    using bucket_in [OF inv, of k] by (auto simp: all_items_def)
  then show ?thesis using map_find_key(1) [OF inv f] res by blast
qed

text \<open>Counting items in the chains is counting identifiers in the map.\<close>

lemma count_items:
  assumes rep: "srep m V H" and P: "\<And>x. P (unlinked x) = P x"
  shows "length (filter (\<lambda>i. P (map_item m i)) (all_items m)) = card {k. \<exists>res. V k = Some res \<and> P res}"
proof -
  have inv: "map_inv hash key m" using rep by (simp add: st_rep_def)
  let ?is = "filter (\<lambda>i. P (map_item m i)) (all_items m)"
  have "distinct (map (\<lambda>i. key (map_item m i)) ?is)"
    using all_items_keys [OF inv] by (simp add: distinct_map_filter)
  then have "length ?is = card (set (map (\<lambda>i. key (map_item m i)) ?is))"
    using distinct_card by fastforce
  also have "set (map (\<lambda>i. key (map_item m i)) ?is) = {k. \<exists>res. V k = Some res \<and> P res}"
  proof (intro set_eqI iffI)
    fix k assume "k \<in> set (map (\<lambda>i. key (map_item m i)) ?is)"
    then obtain i where i: "i \<in> set (all_items m)" "P (map_item m i)" "k = key (map_item m i)" by auto
    then show "k \<in> {k. \<exists>res. V k = Some res \<and> P res}" using all_items_found [OF rep i(1)] P by auto
  next
    fix k assume "k \<in> {k. \<exists>res. V k = Some res \<and> P res}"
    then obtain res where "V k = Some res" "P res" by blast
    then show "k \<in> set (map (\<lambda>i. key (map_item m i)) ?is)" using items_found [OF rep] P by fastforce
  qed
  finally show ?thesis .
qed

end

end
