(* ===== verification/Drc_Local.thy ===== *)
theory Drc_Local
  imports Res_Store
begin

text \<open>
  The stores an instance keeps for itself: the local locks and latches (\<^verbatim>\<open>local_lock_map\<close>), which
  \<^verbatim>\<open>cluster/dtc_dls.c\<close> uses, and the transactions other instances wait for (\<^verbatim>\<open>txn_res_map\<close>,
  \<^verbatim>\<open>local_txn_map\<close>). The routines are those of \<^verbatim>\<open>cluster/dtc_drc.c\<close>; a store is passed and returned.
\<close>

subsection \<open>Local locks\<close>

datatype latch_stat_e = LATCH_STATUS_IDLE | LATCH_STATUS_S | LATCH_STATUS_IX | LATCH_STATUS_X

record drc_local_latch =
  la_shared_count :: u16
  la_stat :: latch_stat_e
  la_sid :: u16
  la_lock_mode :: drc_lock_mode

record drc_local_lock_res = drc_local_res +
  ll_res_id :: drid
  ll_is_owner :: bool
  ll_is_locked :: bool
  ll_count :: u16
  ll_lock :: bool
  ll_lockc :: bool
  ll_latch_stat :: drc_local_latch

type_synonym local_lock_map = "(drid, unit drc_local_lock_res_ext drc_local_res_ext) drc_res_map"

definition is_same_local_lock :: "drid \<Rightarrow> drc_local_lock_res \<Rightarrow> bool" where
  "is_same_local_lock lock_id local_lock \<longleftrightarrow>
     dr_key1 (ll_res_id local_lock) = dr_key1 lock_id \<and> dr_key2 (ll_res_id local_lock) = dr_key2 lock_id \<and>
     dr_key3 (ll_res_id local_lock) = dr_key3 lock_id \<and> dr_key4 (ll_res_id local_lock) = dr_key4 lock_id"

definition idle_latch :: drc_local_latch where
  "idle_latch = \<lparr>la_shared_count = 0, la_stat = LATCH_STATUS_IDLE, la_sid = 0, la_lock_mode = DRC_LOCK_NULL\<rparr>"

definition zero_local_lock_res :: drc_local_lock_res where
  "zero_local_lock_res = \<lparr>bh_next = 0, lr_idx = 0,
     ll_res_id = \<lparr>dr_key1 = 0, dr_key2 = 0, dr_key3 = 0, dr_key4 = 0\<rparr>, ll_is_owner = False, ll_is_locked = False,
     ll_count = 0, ll_lock = False, ll_lockc = False, ll_latch_stat = idle_latch\<rparr>"

definition new_local_lock :: "drid \<Rightarrow> u32 \<Rightarrow> drc_local_lock_res \<Rightarrow> drc_local_lock_res" where
  "new_local_lock lock_id item_idx lock_res = lock_res\<lparr>lr_idx := item_idx, ll_res_id := lock_id,
     ll_is_locked := False, ll_is_owner := False, ll_count := 0, ll_lock := False, ll_lockc := False,
     ll_latch_stat := idle_latch, bh_next := OG_INVALID_ID32\<rparr>"

definition drc_create_local_lock_res :: "(u8 \<Rightarrow> u32) \<Rightarrow> drid \<Rightarrow> local_lock_map \<Rightarrow>
    (u32 option \<times> local_lock_map) option" where
  "drc_create_local_lock_res promote lock_id m = st_create (lock_hash promote) m lock_id (new_local_lock lock_id)"

definition drc_release_local_lock_res :: "u32 \<Rightarrow> local_lock_map \<Rightarrow> local_lock_map option" where
  "drc_release_local_lock_res i m = do {
     lock_res \<leftarrow> st_read m i;
     m \<leftarrow> st_write m i zero_local_lock_res;
     st_free m (lr_idx lock_res)
   }"

definition drc_get_local_resx_without_create :: "(u8 \<Rightarrow> u32) \<Rightarrow> drid \<Rightarrow> local_lock_map \<Rightarrow> u32 option option" where
  "drc_get_local_resx_without_create promote lock_id m = st_lookup (lock_hash promote) m lock_id"

definition drc_get_local_resx :: "(u8 \<Rightarrow> u32) \<Rightarrow> drid \<Rightarrow> local_lock_map \<Rightarrow> (u32 \<times> local_lock_map) option" where
  "drc_get_local_resx promote lock_id m = st_get (lock_hash promote) m lock_id (new_local_lock lock_id)"

text \<open>
  The spin lock of a local lock. Taking it waits until it is free; in this sequential model the wait
  does not end when the lock is held, which is the value \<open>None\<close>.
\<close>

definition drc_try_lock_local_resx :: "u32 \<Rightarrow> local_lock_map \<Rightarrow> (bool \<times> local_lock_map) option" where
  "drc_try_lock_local_resx i m = do {
     lock_res \<leftarrow> st_read m i;
     if ll_lock lock_res then Some (False, m)
     else do { m \<leftarrow> st_write m i (lock_res\<lparr>ll_lock := True\<rparr>); Some (True, m) }
   }"

definition drc_lock_local_resx :: "u32 \<Rightarrow> local_lock_map \<Rightarrow> local_lock_map option" where
  "drc_lock_local_resx i m = do {
     (ok, m) \<leftarrow> drc_try_lock_local_resx i m;
     if ok then Some m else None
   }"

definition drc_unlock_local_resx :: "u32 \<Rightarrow> local_lock_map \<Rightarrow> local_lock_map option" where
  "drc_unlock_local_resx i m = st_modify m i (\<lambda>lock_res. lock_res\<lparr>ll_lock := False\<rparr>)"

definition drc_lock_local_res_count :: "u32 \<Rightarrow> local_lock_map \<Rightarrow> local_lock_map option" where
  "drc_lock_local_res_count i m = do {
     lock_res \<leftarrow> st_read m i;
     if ll_lockc lock_res then None else st_write m i (lock_res\<lparr>ll_lockc := True\<rparr>)
   }"

definition drc_unlock_local_res_count :: "u32 \<Rightarrow> local_lock_map \<Rightarrow> local_lock_map option" where
  "drc_unlock_local_res_count i m = st_modify m i (\<lambda>lock_res. lock_res\<lparr>ll_lockc := False\<rparr>)"

definition drc_lock_local_res :: "(u8 \<Rightarrow> u32) \<Rightarrow> drid \<Rightarrow> local_lock_map \<Rightarrow> local_lock_map option" where
  "drc_lock_local_res promote lock_id m = do {
     (i, m) \<leftarrow> drc_get_local_resx promote lock_id m;
     drc_lock_local_resx i m
   }"

definition drc_try_lock_local_res :: "(u8 \<Rightarrow> u32) \<Rightarrow> drid \<Rightarrow> local_lock_map \<Rightarrow> (bool \<times> local_lock_map) option" where
  "drc_try_lock_local_res promote lock_id m = do {
     (i, m) \<leftarrow> drc_get_local_resx promote lock_id m;
     drc_try_lock_local_resx i m
   }"

definition drc_unlock_local_res :: "(u8 \<Rightarrow> u32) \<Rightarrow> drid \<Rightarrow> local_lock_map \<Rightarrow> local_lock_map option" where
  "drc_unlock_local_res promote lock_id m = do {
     found \<leftarrow> st_lookup (lock_hash promote) m lock_id;
     (case found of None \<Rightarrow> None | Some i \<Rightarrow> drc_unlock_local_resx i m)
   }"

definition drc_get_local_lock_statx :: "u32 \<Rightarrow> local_lock_map \<Rightarrow> (bool \<times> bool) option" where
  "drc_get_local_lock_statx i m = do {
     lock_res \<leftarrow> st_read m i;
     Some (ll_is_locked lock_res, ll_is_owner lock_res)
   }"

definition drc_set_local_lock_statx :: "u32 \<Rightarrow> bool \<Rightarrow> bool \<Rightarrow> local_lock_map \<Rightarrow> local_lock_map option" where
  "drc_set_local_lock_statx i is_locked is_owner m =
     st_modify m i (\<lambda>lock_res. lock_res\<lparr>ll_is_locked := is_locked, ll_is_owner := is_owner\<rparr>)"

definition drc_get_local_lock_stat :: "(u8 \<Rightarrow> u32) \<Rightarrow> drid \<Rightarrow> local_lock_map \<Rightarrow>
    ((bool \<times> bool) \<times> local_lock_map) option" where
  "drc_get_local_lock_stat promote lock_id m = do {
     (i, m) \<leftarrow> drc_get_local_resx promote lock_id m;
     stat \<leftarrow> drc_get_local_lock_statx i m;
     Some (stat, m)
   }"

definition drc_set_local_lock_stat :: "(u8 \<Rightarrow> u32) \<Rightarrow> drid \<Rightarrow> bool \<Rightarrow> bool \<Rightarrow> local_lock_map \<Rightarrow>
    local_lock_map option" where
  "drc_set_local_lock_stat promote lock_id is_locked is_owner m = do {
     (i, m) \<leftarrow> drc_get_local_resx promote lock_id m;
     drc_set_local_lock_statx i is_locked is_owner m
   }"

definition drc_clean_local_lock_res :: "u32 \<Rightarrow> local_lock_map \<Rightarrow> local_lock_map option" where
  "drc_clean_local_lock_res i m = do {
     m \<leftarrow> drc_lock_local_resx i m;
     m \<leftarrow> st_modify m i (\<lambda>lock_res. lock_res\<lparr>ll_is_owner := False, ll_is_locked := False,
            ll_latch_stat := idle_latch\<rparr>);
     drc_unlock_local_resx i m
   }"

subsection \<open>Recycling of a local lock\<close>

text \<open>
  \<open>stop\<close> is \<^verbatim>\<open>DRC_STOP_DLS_REQ_FOR_REFORMING\<close>. The second component of the result is \<open>is_found\<close>.
\<close>

definition drc_lock_local_lock_res_by_id_for_recycle :: "(u8 \<Rightarrow> u32) \<Rightarrow> bool \<Rightarrow> drid \<Rightarrow> local_lock_map \<Rightarrow>
    (status_t \<times> bool \<times> local_lock_map) option" where
  "drc_lock_local_lock_res_by_id_for_recycle promote stop lock_id m =
     (if stop then Some (OG_ERROR, True, m)
      else do {
        found \<leftarrow> drc_get_local_resx_without_create promote lock_id m;
        (case found of
           None \<Rightarrow> Some (OG_SUCCESS, False, m)
         | Some i \<Rightarrow> do {
             (ok, m) \<leftarrow> drc_try_lock_local_resx i m;
             if \<not> ok then Some (OG_ERROR, True, m)
             else do {
               lock_res \<leftarrow> st_read m i;
               if ll_is_locked lock_res \<or> la_stat (ll_latch_stat lock_res) \<noteq> LATCH_STATUS_IDLE then do {
                 m \<leftarrow> drc_unlock_local_resx i m;
                 Some (OG_ERROR, True, m)
               }
               else do {
                 m \<leftarrow> st_write m i (lock_res\<lparr>ll_is_locked := True,
                        ll_latch_stat := (ll_latch_stat lock_res)\<lparr>la_stat := LATCH_STATUS_X\<rparr>\<rparr>);
                 m \<leftarrow> drc_unlock_local_resx i m;
                 Some (OG_SUCCESS, True, m)
               }
             }
           })
      })"

definition drc_unlock_local_lock_res_by_id_for_recycle :: "(u8 \<Rightarrow> u32) \<Rightarrow> drid \<Rightarrow> local_lock_map \<Rightarrow>
    local_lock_map option" where
  "drc_unlock_local_lock_res_by_id_for_recycle promote lock_id m = do {
     found \<leftarrow> drc_get_local_resx_without_create promote lock_id m;
     (case found of
        None \<Rightarrow> Some m
      | Some i \<Rightarrow> do {
          m \<leftarrow> drc_lock_local_resx i m;
          m \<leftarrow> st_modify m i (\<lambda>lock_res. lock_res\<lparr>ll_is_locked := False,
                 ll_latch_stat := (ll_latch_stat lock_res)\<lparr>la_stat := LATCH_STATUS_IDLE\<rparr>\<rparr>);
          drc_unlock_local_resx i m
        })
   }"

definition drc_release_local_lock_res_by_id :: "(u8 \<Rightarrow> u32) \<Rightarrow> drid \<Rightarrow> local_lock_map \<Rightarrow> local_lock_map option" where
  "drc_release_local_lock_res_by_id promote lock_id m = do {
     found \<leftarrow> drc_get_local_resx_without_create promote lock_id m;
     (case found of
        None \<Rightarrow> Some m
      | Some i \<Rightarrow> do {
          m \<leftarrow> st_remove (lock_hash promote) m lock_id;
          drc_release_local_lock_res i m
        })
   }"

subsection \<open>Transactions\<close>

text \<open>
  The instances that wait for a transaction of this instance (\<^verbatim>\<open>txn_res_map\<close>), and the transactions of
  other instances that threads of this one wait for (\<^verbatim>\<open>local_txn_map\<close>).
\<close>

record drc_txn_res = drc_local_res +
  tx_res_id :: u64
  tx_ins_map :: u64
  tx_is_cond_inited :: bool

type_synonym txn_map = "(u64, unit drc_txn_res_ext drc_local_res_ext) drc_res_map"

definition is_same_txn :: "u64 \<Rightarrow> drc_txn_res \<Rightarrow> bool" where
  "is_same_txn xid txn \<longleftrightarrow> tx_res_id txn = xid"

definition txn_hash :: "(u8 \<Rightarrow> u32) \<Rightarrow> u32 \<Rightarrow> u64 \<Rightarrow> u32" where
  "txn_hash promote n xid = drc_resource_id_hash promote (le_bytes 8 xid) n"

definition zero_txn_res :: drc_txn_res where
  "zero_txn_res = \<lparr>bh_next = 0, lr_idx = 0, tx_res_id = 0, tx_ins_map = 0, tx_is_cond_inited = False\<rparr>"

definition new_txn :: "u64 \<Rightarrow> u32 \<Rightarrow> drc_txn_res \<Rightarrow> drc_txn_res" where
  "new_txn xid item_idx txn_res =
     txn_res\<lparr>lr_idx := item_idx, tx_res_id := xid, tx_ins_map := 0, tx_is_cond_inited := True\<rparr>"

definition drc_create_txn_res :: "(u8 \<Rightarrow> u32) \<Rightarrow> u64 \<Rightarrow> txn_map \<Rightarrow> (u32 option \<times> txn_map) option" where
  "drc_create_txn_res promote xid m = st_create (txn_hash promote) m xid (new_txn xid)"

definition drc_release_txn_res :: "u32 \<Rightarrow> txn_map \<Rightarrow> txn_map option" where
  "drc_release_txn_res i m = do {
     txn_res \<leftarrow> st_read m i;
     m \<leftarrow> st_write m i zero_txn_res;
     st_free m (lr_idx txn_res)
   }"

definition drc_release_local_txn_res :: "u32 \<Rightarrow> txn_map \<Rightarrow> txn_map option" where
  "drc_release_local_txn_res i m = do {
     txn_res \<leftarrow> st_read m i;
     m \<leftarrow> st_write m i (txn_res\<lparr>tx_ins_map := 0\<rparr>);
     st_free m (lr_idx txn_res)
   }"

definition drc_enqueue_txn :: "(u8 \<Rightarrow> u32) \<Rightarrow> u64 \<Rightarrow> u8 \<Rightarrow> txn_map \<Rightarrow> txn_map option" where
  "drc_enqueue_txn promote xid ins_id m = do {
     (i, m) \<leftarrow> st_get (txn_hash promote) m xid (new_txn xid);
     st_modify m i (\<lambda>txn_res. txn_res\<lparr>tx_ins_map := drc_bitmap64_set (tx_ins_map txn_res) ins_id\<rparr>)
   }"

text \<open>The result is the list of the instances that get a message to wake up, in order.\<close>

definition drc_release_txn :: "(u8 \<Rightarrow> u32) \<Rightarrow> u8 \<Rightarrow> u64 \<Rightarrow> txn_map \<Rightarrow> (u8 list \<times> txn_map) option" where
  "drc_release_txn promote self xid m = do {
     found \<leftarrow> st_lookup (txn_hash promote) m xid;
     (case found of
        None \<Rightarrow> Some ([], m)
      | Some i \<Rightarrow> do {
          txn_res \<leftarrow> st_read m i;
          let awake = filter (\<lambda>i. drc_bitmap64_exist (tx_ins_map txn_res) i \<and> i \<noteq> self)
                (map of_nat [0..<OG_MAX_INSTANCES]);
          m \<leftarrow> st_remove (txn_hash promote) m xid;
          m \<leftarrow> drc_release_txn_res i m;
          Some (awake, m)
        })
   }"

text \<open>\<open>signalled\<close> is the result of \<^verbatim>\<open>cm_wait_cond\<close> on the condition of the given item.\<close>

definition drc_local_txn_wait :: "(u8 \<Rightarrow> u32) \<Rightarrow> (u32 \<Rightarrow> bool) \<Rightarrow> u64 \<Rightarrow> txn_map \<Rightarrow> (bool \<times> txn_map) option" where
  "drc_local_txn_wait promote signalled xid m = do {
     (i, m) \<leftarrow> st_get (txn_hash promote) m xid (new_txn xid);
     Some (signalled i, m)
   }"

definition drc_local_txn_recyle :: "(u8 \<Rightarrow> u32) \<Rightarrow> u64 \<Rightarrow> txn_map \<Rightarrow> txn_map option" where
  "drc_local_txn_recyle promote xid m = do {
     found \<leftarrow> st_lookup (txn_hash promote) m xid;
     (case found of
        None \<Rightarrow> Some m
      | Some i \<Rightarrow> do {
          m \<leftarrow> st_remove (txn_hash promote) m xid;
          drc_release_local_txn_res i m
        })
   }"

text \<open>The result is the item whose condition is released, if there is one.\<close>

definition drc_local_txn_awake :: "(u8 \<Rightarrow> u32) \<Rightarrow> u64 \<Rightarrow> txn_map \<Rightarrow> u32 option option" where
  "drc_local_txn_awake promote xid m = st_lookup (txn_hash promote) m xid"

subsection \<open>The two kinds of stores\<close>

interpretation local_locks: local_store "lock_hash promote" ll_res_id is_same_local_lock
  by unfold_locales (auto simp: lock_hash_def hash_in_range is_same_local_lock_def)

interpretation txns: local_store "txn_hash promote" tx_res_id is_same_txn
  by unfold_locales (auto simp: txn_hash_def hash_in_range is_same_txn_def)

lemma unlinked_local_lock [simp]:
  "unlinked (l\<lparr>ll_res_id := a\<rparr>) = (unlinked l)\<lparr>ll_res_id := a\<rparr>" "unlinked (l\<lparr>ll_is_owner := b\<rparr>) = (unlinked l)\<lparr>ll_is_owner := b\<rparr>"
  "unlinked (l\<lparr>ll_is_locked := b\<rparr>) = (unlinked l)\<lparr>ll_is_locked := b\<rparr>" "unlinked (l\<lparr>ll_lock := b\<rparr>) = (unlinked l)\<lparr>ll_lock := b\<rparr>"
  "unlinked (l\<lparr>ll_lockc := b\<rparr>) = (unlinked l)\<lparr>ll_lockc := b\<rparr>" "unlinked (l\<lparr>ll_count := n\<rparr>) = (unlinked l)\<lparr>ll_count := n\<rparr>"
  "unlinked (l\<lparr>ll_latch_stat := s\<rparr>) = (unlinked l)\<lparr>ll_latch_stat := s\<rparr>"
  "ll_res_id (unlinked l) = ll_res_id l" "ll_is_owner (unlinked l) = ll_is_owner l" "ll_is_locked (unlinked l) = ll_is_locked l"
  "ll_lock (unlinked l) = ll_lock l" "ll_lockc (unlinked l) = ll_lockc l" "ll_latch_stat (unlinked l) = ll_latch_stat l"
  by (simp_all add: unlinked_def)

lemma unlinked_txn [simp]:
  "unlinked (t\<lparr>tx_ins_map := m\<rparr>) = (unlinked t)\<lparr>tx_ins_map := m\<rparr>" "tx_ins_map (unlinked t) = tx_ins_map t"
  "tx_res_id (unlinked t) = tx_res_id t"
  by (simp_all add: unlinked_def)

lemma new_local_lock_sel [simp]: "ll_res_id (new_local_lock k i x) = k" "lr_idx (new_local_lock k i x) = i"
  by (simp_all add: new_local_lock_def)

lemma new_txn_sel [simp]: "tx_res_id (new_txn k i x) = k" "lr_idx (new_txn k i x) = i" "tx_ins_map (new_txn k i x) = 0"
  by (simp_all add: new_txn_def)

subsection \<open>Waiting for transactions\<close>

lemma enqueue_txn_ok:
  assumes rep: "txns.srep promote m V {}" and inst: "inst_ok ins_id"
    and room: "V xid \<noteq> None \<or> card (dom V) < unat (rp_item_num (rm_res_pool m))"
  shows "\<exists>m' t. drc_enqueue_txn promote xid ins_id m = Some m' \<and> txns.srep promote m' (V(xid \<mapsto> t)) {} \<and>
    insts (tx_ins_map t) = insert ins_id (case V xid of None \<Rightarrow> {} | Some t0 \<Rightarrow> insts (tx_ins_map t0))"
proof -
  let ?f = "\<lambda>txn_res :: drc_txn_res. txn_res\<lparr>tx_ins_map := drc_bitmap64_set (tx_ins_map txn_res) ins_id\<rparr>"
  have fill: "\<And>i x. tx_res_id (new_txn xid i x) = xid \<and> lr_idx (new_txn xid i x) = i" by simp
  obtain t m1 where g: "st_get (txn_hash promote) m xid (new_txn xid) = Some (lr_idx t, m1)"
    "txns.srep promote m1 (V(xid \<mapsto> t)) {}" "case V xid of Some r \<Rightarrow> t = r \<and> m1 = m | None \<Rightarrow> \<exists>i x. t = unlinked (new_txn xid i x)"
    using txns.srep_get [where fill = "new_txn xid", OF rep fill room] by blast
  have u: "(V(xid \<mapsto> t)) xid = Some t" by simp
  obtain m2 where m2: "st_modify m1 (lr_idx t) ?f = Some m2" "txns.srep promote m2 (V(xid \<mapsto> t, xid \<mapsto> ?f t)) {}"
    using txns.srep_modify [OF g(2) u, of ?f] by (auto simp del: fun_upd_apply)
  have "insts (tx_ins_map (?f t)) = insert ins_id (case V xid of None \<Rightarrow> {} | Some t0 \<Rightarrow> insts (tx_ins_map t0))"
    using g(3) inst by (auto split: option.splits)
  then show ?thesis using g(1) m2 by (auto simp: drc_enqueue_txn_def)
qed

definition awaked :: "u8 \<Rightarrow> u64 \<Rightarrow> u8 list" where
  "awaked self ins_map = filter (\<lambda>i. i \<in> insts ins_map \<and> i \<noteq> self) (map of_nat [0..<OG_MAX_INSTANCES])"

lemma set_instances: "inst_ok i \<Longrightarrow> i \<in> set (map of_nat [0..<OG_MAX_INSTANCES])"
  by (rule image_eqI [of _ _ "unat i", THEN set_map [THEN equalityD2, THEN subsetD]]) (simp_all add: inst_ok_def)

lemma set_awaked: "set (awaked self ins_map) = insts ins_map - {self}"
  using insts_ok set_instances by (auto simp: awaked_def)

lemma distinct_awaked: "distinct (awaked self ins_map)"
proof -
  have "unat (of_nat n :: u8) = n" if "n < OG_MAX_INSTANCES" for n
    using that by (simp add: unat_of_nat OG_MAX_INSTANCES_def)
  then have "inj_on (of_nat :: nat \<Rightarrow> u8) {0..<OG_MAX_INSTANCES}"
    by (intro inj_onI) (metis atLeastLessThan_iff)
  then show ?thesis by (simp add: awaked_def distinct_map)
qed

lemma release_txn_ok:
  assumes rep: "txns.srep promote m V {}"
  shows "\<exists>m'. drc_release_txn promote self xid m =
      Some (case V xid of None \<Rightarrow> [] | Some t \<Rightarrow> awaked self (tx_ins_map t), m') \<and> txns.srep promote m' (V(xid := None)) {}"
proof (cases "V xid")
  case None
  then have "V(xid := None) = V" by auto
  then show ?thesis using txns.srep_lookup [OF rep, of xid] None rep by (auto simp: drc_release_txn_def)
next
  case (Some t)
  obtain x where x: "st_read m (lr_idx t) = Some x" "unlinked x = t" using txns.srep_read [OF rep Some] by blast
  have "tx_ins_map x = tx_ins_map t" using x(2) by auto
  moreover obtain m1 y m2 m3 where "st_remove (txn_hash promote) m xid = Some m1" "st_read m1 (lr_idx t) = Some y"
    "lr_idx y = lr_idx t" "st_write m1 (lr_idx t) zero_txn_res = Some m2" "st_free m2 (lr_idx t) = Some m3"
    "txns.srep promote m3 (V(xid := None)) {}"
    using txns.srep_delete [OF rep Some, of "\<lambda>_. zero_txn_res"] by blast
  ultimately show ?thesis
    using txns.srep_lookup [OF rep, of xid] Some x(1)
    by (simp add: drc_release_txn_def drc_release_txn_res_def awaked_def exist_insts Let_def)
qed

lemma local_txn_ok:
  assumes rep: "txns.srep promote m V {}"
  shows "V xid \<noteq> None \<or> card (dom V) < unat (rp_item_num (rm_res_pool m)) \<Longrightarrow>
      \<exists>i m' t. drc_local_txn_wait promote signalled xid m = Some (signalled i, m') \<and>
        txns.srep promote m' (V(xid \<mapsto> t)) {} \<and> drc_local_txn_awake promote xid m' = Some (Some i) \<and> lr_idx t = i"
    and "\<exists>m'. drc_local_txn_recyle promote xid m = Some m' \<and> txns.srep promote m' (V(xid := None)) {}"
proof -
  have fill: "\<And>i x. tx_res_id (new_txn xid i x) = xid \<and> lr_idx (new_txn xid i x) = i" by simp
  assume room: "V xid \<noteq> None \<or> card (dom V) < unat (rp_item_num (rm_res_pool m))"
  obtain t m1 where g: "st_get (txn_hash promote) m xid (new_txn xid) = Some (lr_idx t, m1)"
    "txns.srep promote m1 (V(xid \<mapsto> t)) {}"
    using txns.srep_get [where fill = "new_txn xid", OF rep fill room] by blast
  then show "\<exists>i m' t. drc_local_txn_wait promote signalled xid m = Some (signalled i, m') \<and>
        txns.srep promote m' (V(xid \<mapsto> t)) {} \<and> drc_local_txn_awake promote xid m' = Some (Some i) \<and> lr_idx t = i"
    using txns.srep_lookup [OF g(2), of xid] by (auto simp: drc_local_txn_wait_def drc_local_txn_awake_def)
next
  show "\<exists>m'. drc_local_txn_recyle promote xid m = Some m' \<and> txns.srep promote m' (V(xid := None)) {}"
  proof (cases "V xid")
    case None
    then have "V(xid := None) = V" by auto
    then show ?thesis using txns.srep_lookup [OF rep, of xid] None rep by (simp add: drc_local_txn_recyle_def)
  next
    case (Some t)
    then show ?thesis
      using txns.srep_delete [OF rep Some, of "\<lambda>x. x\<lparr>tx_ins_map := 0\<rparr>"] txns.srep_lookup [OF rep, of xid]
      by (auto simp: drc_local_txn_recyle_def drc_release_local_txn_res_def)
  qed
qed

subsection \<open>Local locks\<close>

lemma get_local_ok:
  assumes rep: "local_locks.srep promote m V {}"
    and room: "V k \<noteq> None \<or> card (dom V) < unat (rp_item_num (rm_res_pool m))"
  shows "\<exists>l m'. drc_get_local_resx promote k m = Some (lr_idx l, m') \<and> local_locks.srep promote m' (V(k \<mapsto> l)) {} \<and>
    (case V k of Some l0 \<Rightarrow> l = l0 \<and> m' = m
     | None \<Rightarrow> \<not> ll_is_locked l \<and> \<not> ll_is_owner l \<and> \<not> ll_lock l \<and> ll_latch_stat l = idle_latch)"
proof -
  have fill: "\<And>i x. ll_res_id (new_local_lock k i x) = k \<and> lr_idx (new_local_lock k i x) = i" by simp
  have new: "\<not> ll_is_locked l \<and> \<not> ll_is_owner l \<and> \<not> ll_lock l \<and> ll_latch_stat l = idle_latch"
    if "\<exists>i x. l = unlinked (new_local_lock k i x)" for l
    using that by (auto simp: new_local_lock_def)
  obtain l m' where "st_get (lock_hash promote) m k (new_local_lock k) = Some (lr_idx l, m')"
    "local_locks.srep promote m' (V(k \<mapsto> l)) {}" "case V k of Some r \<Rightarrow> l = r \<and> m' = m | None \<Rightarrow> \<exists>i x. l = unlinked (new_local_lock k i x)"
    using local_locks.srep_get [where fill = "new_local_lock k", OF rep fill room] by blast
  then show ?thesis using new [of l] by (auto simp: drc_get_local_resx_def split: option.splits)
qed

text \<open>What the steps on one local lock do to the finite map.\<close>

lemma local_lock_steps:
  assumes rep: "local_locks.srep promote m V {}" and V: "V k = Some l"
  shows "\<exists>m'. drc_try_lock_local_resx (lr_idx l) m = Some (\<not> ll_lock l, m') \<and>
      local_locks.srep promote m' (V(k \<mapsto> l\<lparr>ll_lock := True\<rparr>)) {}"
    and "\<exists>m'. drc_unlock_local_resx (lr_idx l) m = Some m' \<and> local_locks.srep promote m' (V(k \<mapsto> l\<lparr>ll_lock := False\<rparr>)) {}"
    and "\<exists>m'. drc_set_local_lock_statx (lr_idx l) is_locked is_owner m = Some m' \<and>
      local_locks.srep promote m' (V(k \<mapsto> l\<lparr>ll_is_locked := is_locked, ll_is_owner := is_owner\<rparr>)) {}"
    and "drc_get_local_lock_statx (lr_idx l) m = Some (ll_is_locked l, ll_is_owner l)"
proof -
  obtain x where x: "st_read m (lr_idx l) = Some x" "unlinked x = l" using local_locks.srep_read [OF rep V] by blast
  have s: "ll_lock x = ll_lock l" "ll_is_locked x = ll_is_locked l" "ll_is_owner x = ll_is_owner l" using x(2) by auto
  show "drc_get_local_lock_statx (lr_idx l) m = Some (ll_is_locked l, ll_is_owner l)"
    using x(1) s by (simp add: drc_get_local_lock_statx_def)
  have modify: "\<exists>m'. st_modify m (lr_idx l) (\<lambda>x. x\<lparr>ll_lock := b\<rparr>) = Some m' \<and>
      local_locks.srep promote m' (V(k \<mapsto> l\<lparr>ll_lock := b\<rparr>)) {}" for b
    by (rule local_locks.srep_modify [OF rep V]) simp
  then show "\<exists>m'. drc_unlock_local_resx (lr_idx l) m = Some m' \<and> local_locks.srep promote m' (V(k \<mapsto> l\<lparr>ll_lock := False\<rparr>)) {}"
    by (simp add: drc_unlock_local_resx_def)
  have "V(k \<mapsto> l\<lparr>ll_lock := True\<rparr>) = V" if "ll_lock l"
  proof -
    have "l\<lparr>ll_lock := True\<rparr> = l" using that by (cases l) simp
    then show ?thesis using V by auto
  qed
  then show "\<exists>m'. drc_try_lock_local_resx (lr_idx l) m = Some (\<not> ll_lock l, m') \<and>
      local_locks.srep promote m' (V(k \<mapsto> l\<lparr>ll_lock := True\<rparr>)) {}"
    using x(1) s modify [of True] rep by (cases "ll_lock l") (auto simp: drc_try_lock_local_resx_def st_modify_def)
  show "\<exists>m'. drc_set_local_lock_statx (lr_idx l) is_locked is_owner m = Some m' \<and>
      local_locks.srep promote m' (V(k \<mapsto> l\<lparr>ll_is_locked := is_locked, ll_is_owner := is_owner\<rparr>)) {}"
    unfolding drc_set_local_lock_statx_def by (rule local_locks.srep_modify [OF rep V]) simp
qed

definition recycle_locked :: "drc_local_lock_res \<Rightarrow> drc_local_lock_res" where
  "recycle_locked l = l\<lparr>ll_is_locked := True, ll_latch_stat := (ll_latch_stat l)\<lparr>la_stat := LATCH_STATUS_X\<rparr>\<rparr>"

definition recyclable_lock :: "drc_local_lock_res \<Rightarrow> bool" where
  "recyclable_lock l \<longleftrightarrow> \<not> ll_lock l \<and> \<not> ll_is_locked l \<and> la_stat (ll_latch_stat l) = LATCH_STATUS_IDLE"

lemma lock_for_recycle_ok:
  assumes rep: "local_locks.srep promote m V {}" and V: "V k = Some l"
  shows "\<exists>m'. drc_lock_local_lock_res_by_id_for_recycle promote False k m =
      Some (if recyclable_lock l then OG_SUCCESS else OG_ERROR, True, m') \<and>
    local_locks.srep promote m' (if recyclable_lock l then V(k \<mapsto> recycle_locked l) else V) {}"
proof -
  let ?l = "l\<lparr>ll_lock := True\<rparr>"
  have find: "drc_get_local_resx_without_create promote k m = Some (Some (lr_idx l))"
    using local_locks.srep_lookup [OF rep, of k] V by (simp add: drc_get_local_resx_without_create_def)
  obtain m1 where m1: "drc_try_lock_local_resx (lr_idx l) m = Some (\<not> ll_lock l, m1)" "local_locks.srep promote m1 (V(k \<mapsto> ?l)) {}"
    using local_lock_steps(1) [OF rep V] by blast
  show ?thesis
  proof (cases "ll_lock l")
    case True
    then have "?l = l" by (cases l) simp
    then have "V(k \<mapsto> ?l) = V" using V by auto
    then show ?thesis using find m1 True by (simp add: drc_lock_local_lock_res_by_id_for_recycle_def recyclable_lock_def)
  next
    case False
    have u: "(V(k \<mapsto> ?l)) k = Some ?l" by simp
    obtain x where x: "st_read m1 (lr_idx l) = Some x" "unlinked x = ?l"
      using local_locks.srep_read [OF m1(2) u] by auto
    have s: "ll_is_locked x = ll_is_locked l" "ll_latch_stat x = ll_latch_stat l"
      using arg_cong [OF x(2), of ll_is_locked] arg_cong [OF x(2), of ll_latch_stat] by simp_all
    obtain m2 where m2: "drc_unlock_local_resx (lr_idx l) m1 = Some m2" "local_locks.srep promote m2 (V(k \<mapsto> ?l, k \<mapsto> ?l\<lparr>ll_lock := False\<rparr>)) {}"
      using local_lock_steps(2) [OF m1(2) u] by (auto simp del: fun_upd_apply)
    have "?l\<lparr>ll_lock := False\<rparr> = l" using False by (cases l) simp
    then have V2: "V(k \<mapsto> ?l, k \<mapsto> ?l\<lparr>ll_lock := False\<rparr>) = V" using V by auto
    obtain m3 where m3: "st_modify m1 (lr_idx l) recycle_locked = Some m3"
      "local_locks.srep promote m3 (V(k \<mapsto> ?l, k \<mapsto> recycle_locked ?l)) {}"
      using local_locks.srep_modify [OF m1(2) u, of recycle_locked] by (auto simp: recycle_locked_def simp del: fun_upd_apply)
    have u3: "(V(k \<mapsto> ?l, k \<mapsto> recycle_locked ?l)) k = Some (recycle_locked ?l)" by simp
    have r: "(recycle_locked ?l)\<lparr>ll_lock := False\<rparr> = recycle_locked l" "lr_idx (recycle_locked ?l) = lr_idx l"
      using False by (cases l, simp add: recycle_locked_def)+
    obtain m4 where m4: "drc_unlock_local_resx (lr_idx l) m3 = Some m4" "local_locks.srep promote m4 (V(k \<mapsto> recycle_locked l)) {}"
      using local_lock_steps(2) [OF m3(2) u3] unfolding r by (auto simp del: fun_upd_apply)
    have "st_write m1 (lr_idx l) (recycle_locked x) = Some m3" using m3(1) x(1) by (simp add: st_modify_def)
    then show ?thesis
      using find m1(1) False x(1) s m2 V2 m4
      by (auto simp: drc_lock_local_lock_res_by_id_for_recycle_def recyclable_lock_def recycle_locked_def [of x] simp del: fun_upd_apply)
  qed
qed

lemma unlock_for_recycle_ok:
  assumes rep: "local_locks.srep promote m V {}" and V: "V k = Some (recycle_locked l)" and l: "recyclable_lock l"
  shows "\<exists>m'. drc_unlock_local_lock_res_by_id_for_recycle promote k m = Some m' \<and> local_locks.srep promote m' (V(k \<mapsto> l)) {}"
proof -
  let ?r = "recycle_locked l" and ?f = "\<lambda>x :: drc_local_lock_res. x\<lparr>ll_is_locked := False,
                 ll_latch_stat := (ll_latch_stat x)\<lparr>la_stat := LATCH_STATUS_IDLE\<rparr>\<rparr>"
  have i: "lr_idx ?r = lr_idx l" "\<not> ll_lock ?r" using l by (simp_all add: recycle_locked_def recyclable_lock_def)
  obtain m1 where m1: "drc_try_lock_local_resx (lr_idx l) m = Some (True, m1)" "local_locks.srep promote m1 (V(k \<mapsto> ?r\<lparr>ll_lock := True\<rparr>)) {}"
    using local_lock_steps(1) [OF rep V] i by auto
  have u: "(V(k \<mapsto> ?r\<lparr>ll_lock := True\<rparr>)) k = Some (?r\<lparr>ll_lock := True\<rparr>)" by simp
  obtain m2 where m2: "st_modify m1 (lr_idx l) ?f = Some m2" "local_locks.srep promote m2 (V(k \<mapsto> ?f (?r\<lparr>ll_lock := True\<rparr>))) {}"
    using local_locks.srep_modify [OF m1(2) u, of ?f] i by (auto simp del: fun_upd_apply)
  have u2: "(V(k \<mapsto> ?f (?r\<lparr>ll_lock := True\<rparr>))) k = Some (?f (?r\<lparr>ll_lock := True\<rparr>))" by simp
  have l': "(?f (?r\<lparr>ll_lock := True\<rparr>))\<lparr>ll_lock := False\<rparr> = l"
    using l by (cases l, cases "ll_latch_stat l") (simp add: recycle_locked_def recyclable_lock_def)
  obtain m3 where "drc_unlock_local_resx (lr_idx l) m2 = Some m3" "local_locks.srep promote m3 (V(k \<mapsto> l)) {}"
    using local_lock_steps(2) [OF m2(2) u2] i unfolding l' by (auto simp del: fun_upd_apply)
  then show ?thesis
    using local_locks.srep_lookup [OF rep, of k] V m1(1) m2(1) i
    by (auto simp: drc_unlock_local_lock_res_by_id_for_recycle_def drc_get_local_resx_without_create_def drc_lock_local_resx_def)
qed

lemma release_local_ok:
  assumes rep: "local_locks.srep promote m V {}"
  shows "\<exists>m'. drc_release_local_lock_res_by_id promote k m = Some m' \<and> local_locks.srep promote m' (V(k := None)) {}"
proof (cases "V k")
  case None
  then have "V(k := None) = V" by auto
  then show ?thesis
    using local_locks.srep_lookup [OF rep, of k] None rep
    by (simp add: drc_release_local_lock_res_by_id_def drc_get_local_resx_without_create_def)
next
  case (Some l)
  then show ?thesis
    using local_locks.srep_delete [OF rep Some, of "\<lambda>_. zero_local_lock_res"] local_locks.srep_lookup [OF rep, of k]
    by (auto simp: drc_release_local_lock_res_by_id_def drc_get_local_resx_without_create_def drc_release_local_lock_res_def)
qed

subsection \<open>Properties of the local stores\<close>

fun enqueue_all :: "(u8 \<Rightarrow> u32) \<Rightarrow> u64 \<Rightarrow> u8 list \<Rightarrow> txn_map \<Rightarrow> txn_map option" where
  "enqueue_all promote xid [] m = Some m"
| "enqueue_all promote xid (w # ws) m = do { m \<leftarrow> drc_enqueue_txn promote xid w m; enqueue_all promote xid ws m }"

lemma enqueue_all_ok:
  assumes "txns.srep promote m V {}" "list_all inst_ok ws" "V xid = Some t"
  shows "\<exists>m' t'. enqueue_all promote xid ws m = Some m' \<and> txns.srep promote m' (V(xid \<mapsto> t')) {} \<and>
    insts (tx_ins_map t') = insts (tx_ins_map t) \<union> set ws"
  using assms
proof (induction ws arbitrary: m V t)
  case Nil
  then have "V(xid \<mapsto> t) = V" by auto
  then show ?case using Nil by (intro exI [of _ m] exI [of _ t]) simp
next
  case (Cons w ws)
  obtain m1 t1 where m1: "drc_enqueue_txn promote xid w m = Some m1" "txns.srep promote m1 (V(xid \<mapsto> t1)) {}"
    "insts (tx_ins_map t1) = insert w (insts (tx_ins_map t))"
    using enqueue_txn_ok [OF Cons.prems(1), of w xid] Cons.prems by auto
  have "list_all inst_ok ws" using Cons.prems(2) by simp
  from Cons.IH [OF m1(2) this fun_upd_same] show ?case using m1(1,3) by (auto simp del: fun_upd_apply)
qed

text \<open>
  Claim C34. When a transaction ends, its master wakes exactly the other instances that had asked to be
  woken, each once, however often and in whatever order they asked; the transaction is then forgotten and
  every other transaction is as before. No step fails as long as the map has room for one more.
\<close>

theorem txn_release_wakes_waiters:
  assumes "st_rep (txn_hash promote) tx_res_id is_same_txn m V {}" and "V xid = None"
    and "card (dom V) < unat (rp_item_num (rm_res_pool m))" and "list_all inst_ok ws" "ws \<noteq> []"
  shows "\<exists>m1 awake m2. enqueue_all promote xid ws m = Some m1 \<and>
    drc_release_txn promote self xid m1 = Some (awake, m2) \<and> set awake = set ws - {self} \<and> distinct awake \<and>
    st_rep (txn_hash promote) tx_res_id is_same_txn m2 V {}"
proof -
  obtain w us where ws: "ws = w # us" "inst_ok w" "list_all inst_ok us" using assms(4,5) by (cases ws) auto
  obtain m1 t1 where m1: "drc_enqueue_txn promote xid w m = Some m1" "txns.srep promote m1 (V(xid \<mapsto> t1)) {}"
    "insts (tx_ins_map t1) = {w}"
    using enqueue_txn_ok [OF assms(1) ws(2), of xid] assms(2,3) by auto
  obtain m2 t2 where m2: "enqueue_all promote xid us m1 = Some m2" "txns.srep promote m2 (V(xid \<mapsto> t2)) {}"
    "insts (tx_ins_map t2) = {w} \<union> set us"
    using enqueue_all_ok [OF m1(2) ws(3) fun_upd_same] m1(3) by (auto simp del: fun_upd_apply)
  have "V(xid \<mapsto> t2, xid := None) = V" using assms(2) by auto
  then obtain m3 where "drc_release_txn promote self xid m2 = Some (awaked self (tx_ins_map t2), m3)" "txns.srep promote m3 V {}"
    using release_txn_ok [OF m2(2), of self xid] by auto
  then show ?thesis using ws(1) m1(1) m2 set_awaked distinct_awaked by auto
qed

theorem txn_release_wakes_waiters_witness:
  "\<exists>m m1 awake m2. drc_res_map_init True True zero_txn_res zero_res_map 4 32 is_same_txn = Some (OG_SUCCESS, m) \<and>
    enqueue_all ucast 7 [3, 5, 3, 63] m = Some m1 \<and> drc_release_txn ucast 5 7 m1 = Some (awake, m2) \<and>
    set awake = {3, 63} \<and> distinct awake"
proof -
  obtain m where m: "drc_res_map_init True True zero_txn_res zero_res_map 4 32 is_same_txn = Some (OG_SUCCESS, m)"
    "st_rep (txn_hash ucast) tx_res_id is_same_txn m (\<lambda>_. None) {}" "rp_item_num (rm_res_pool m) = 4"
    using txns.srep_init [of zero_res_map 32 4 zero_txn_res ucast] by (auto simp: zero_res_map_def zero_res_pool_def)
  show ?thesis
    using txn_release_wakes_waiters [where xid = 7 and ws = "[3, 5, 3, 63]" and self = 5, OF m(2)] m(1,3)
    by (auto simp: inst_ok_def OG_MAX_INSTANCES_def)
qed



end
