(* ===== verification/Fdsa.thy ===== *)
theory Fdsa
  imports Res_Store
begin

text \<open>
  The watch over input and output operations (\<^verbatim>\<open>fdsa/oGRAC_fdsa.c\<close>): operations are entered into a
  resource map with their starting time, and a health service calls a check that walks all buckets of the map. The
  service itself and the loading of its library are not modelled. The theory shows what the check answers in terms of
  the operations in the map.
\<close>

record io_id =
  io_fdsa_type :: u16
  io_no :: u32

record drc_local_io = drc_local_res +
  li_io_id :: io_id
  li_start_time :: u64

type_synonym io_map = "(io_id, unit drc_local_io_ext drc_local_res_ext) drc_res_map"

definition OGRAC_IO_TIME_OUT_ONCE :: u64 where
  "OGRAC_IO_TIME_OUT_ONCE = 600000000"

definition OGRAC_IO_TIME_OUT :: u64 where
  "OGRAC_IO_TIME_OUT = 180000000"

definition OGRAC_IO_TIME_OUT_LIMIT_MAX_NUM :: u32 where
  "OGRAC_IO_TIME_OUT_LIMIT_MAX_NUM = 16"

definition is_same_io :: "io_id \<Rightarrow> drc_local_io \<Rightarrow> bool" where
  "is_same_io io local_io \<longleftrightarrow> io_fdsa_type (li_io_id local_io) = io_fdsa_type io \<and> io_no (li_io_id local_io) = io_no io"

text \<open>The number for the next operation, from a counter that wraps around.\<close>

definition GetFdsaIoNo :: "u32 \<Rightarrow> u32 \<times> u32" where
  "GetFdsaIoNo io_base_no = (io_base_no + 1, io_base_no + 1)"

definition io_hash :: "u32 \<Rightarrow> io_id \<Rightarrow> u32" where
  "io_hash n io = drc_page_id_hash (io_fdsa_type io) (io_no io) n"

definition new_io :: "io_id \<Rightarrow> u64 \<Rightarrow> u32 \<Rightarrow> drc_local_io \<Rightarrow> drc_local_io" where
  "new_io io now idx local_io = local_io\<lparr>li_io_id := io, lr_idx := idx, li_start_time := now\<rparr>"

definition AddIo2FdsaHashTable :: "bool \<Rightarrow> u64 \<Rightarrow> io_id \<Rightarrow> io_map \<Rightarrow> (status_t \<times> io_map) option" where
  "AddIo2FdsaHashTable enable_fdsa now io m =
     (if \<not> enable_fdsa then Some (OG_ERROR, m)
      else if \<not> rp_inited (rm_res_pool m) then Some (OG_ERROR, m)
      else do {
        (created, m) \<leftarrow> st_create io_hash m io (new_io io now);
        Some (if created = None then OG_ERROR else OG_SUCCESS, m)
      })"

definition RemovetIoFromFdsaHashtable :: "bool \<Rightarrow> io_id \<Rightarrow> io_map \<Rightarrow> (status_t \<times> io_map) option" where
  "RemovetIoFromFdsaHashtable enable_fdsa io m =
     (if \<not> enable_fdsa then Some (OG_ERROR, m)
      else do {
        found \<leftarrow> st_lookup io_hash m io;
        i \<leftarrow> found;
        m \<leftarrow> st_remove io_hash m io;
        local_io \<leftarrow> st_read m i;
        m \<leftarrow> st_free m (lr_idx local_io);
        Some (OG_SUCCESS, m)
      })"

text \<open>
  The check of one bucket: \<open>now n\<close> is the time when its entry \<open>n\<close> is looked at, and \<open>time_out_num\<close> the
  counter \<^verbatim>\<open>g_ograc_time_out_num\<close>.
\<close>

fun CheckIo_loop :: "(nat \<Rightarrow> u64) \<Rightarrow> drc_local_io list \<Rightarrow> u32 \<Rightarrow> nat \<Rightarrow> nat \<Rightarrow> u32 \<Rightarrow> (bool \<times> u32) option" where
  "CheckIo_loop now mem idx i 0 time_out_num = Some (True, time_out_num)"
| "CheckIo_loop now mem idx i (Suc n) time_out_num = do {
     res \<leftarrow> rd mem idx;
     if now i - li_start_time res > OGRAC_IO_TIME_OUT_ONCE then Some (False, time_out_num)
     else CheckIo_loop now mem (bh_next res) (Suc i) n
       (if now i - li_start_time res > OGRAC_IO_TIME_OUT then time_out_num + 1 else time_out_num)
   }"

definition CheckIoTimeOut :: "(nat \<Rightarrow> u64) \<Rightarrow> io_map \<Rightarrow> u32 \<Rightarrow> u32 \<Rightarrow> (bool \<times> u32) option" where
  "CheckIoTimeOut now m b time_out_num = do {
     bucket \<leftarrow> rd (rm_buckets m) b;
     (ok, time_out_num) \<leftarrow> CheckIo_loop now (rp_addr (rm_res_pool m)) (bk_first bucket) 0
       (unat (bk_count bucket)) time_out_num;
     Some (ok \<and> \<not> time_out_num \<ge> OGRAC_IO_TIME_OUT_LIMIT_MAX_NUM, time_out_num)
   }"

fun FdsaCheck_loop :: "(nat \<Rightarrow> nat \<Rightarrow> u64) \<Rightarrow> io_map \<Rightarrow> nat list \<Rightarrow> u32 \<Rightarrow> (bool \<times> u32) option" where
  "FdsaCheck_loop now m [] time_out_num = Some (True, 0)"
| "FdsaCheck_loop now m (b # bs) time_out_num = do {
     (ok, time_out_num) \<leftarrow> CheckIoTimeOut (now b) m (of_nat b) time_out_num;
     if \<not> ok then Some (False, 0) else FdsaCheck_loop now m bs time_out_num
   }"

text \<open>The result for the health service, and the counter for the next check.\<close>

definition FdsaCheckCallback :: "(nat \<Rightarrow> nat \<Rightarrow> u64) \<Rightarrow> io_map \<Rightarrow> u32 \<Rightarrow> (bool \<times> u32) option" where
  "FdsaCheckCallback now m time_out_num = FdsaCheck_loop now m [0..<unat (rm_bucket_num m)] time_out_num"

interpretation ios: local_store io_hash li_io_id is_same_io
  by unfold_locales (auto simp: io_hash_def hash_in_range is_same_io_def)

lemma unlinked_io [simp]: "li_io_id (unlinked x) = li_io_id x" "li_start_time (unlinked x) = li_start_time x"
  by (simp_all add: unlinked_def)

subsection \<open>The health check\<close>

definition io_hangs :: "u64 \<Rightarrow> drc_local_io \<Rightarrow> bool" where
  "io_hangs now io \<longleftrightarrow> now - li_start_time io > OGRAC_IO_TIME_OUT_ONCE"

definition io_late :: "u64 \<Rightarrow> drc_local_io \<Rightarrow> bool" where
  "io_late now io \<longleftrightarrow> now - li_start_time io > OGRAC_IO_TIME_OUT"

abbreviation late_in :: "u64 \<Rightarrow> io_map \<Rightarrow> u32 list \<Rightarrow> nat" where
  "late_in now m is \<equiv> length (filter (\<lambda>i. io_late now (map_item m i)) is)"

lemma check_io_loop:
  assumes "list_all (\<lambda>i. unat i < length (rp_addr (rm_res_pool m))) (walk (pool_next (rm_res_pool m)) idx n)"
  shows "\<exists>ok c'. CheckIo_loop (\<lambda>_. now) (rp_addr (rm_res_pool m)) idx i n c = Some (ok, c') \<and>
    (ok \<longleftrightarrow> \<not> (\<exists>j \<in> set (walk (pool_next (rm_res_pool m)) idx n). io_hangs now (map_item m j))) \<and>
    (ok \<longrightarrow> c' = c + of_nat (late_in now m (walk (pool_next (rm_res_pool m)) idx n)))"
  using assms
proof (induction n arbitrary: idx i c)
  case (Suc n)
  let ?x = "map_item m idx"
  have x: "rd (rp_addr (rm_res_pool m)) idx = Some ?x" using Suc.prems by (simp add: map_item_def)
  have nx: "pool_next (rm_res_pool m) idx = bh_next ?x" using Suc.prems by (simp add: pool_next_def map_item_def)
  show ?case
  proof (cases "io_hangs now ?x")
    case True
    then show ?thesis using x by (auto simp: io_hangs_def)
  next
    case False
    let ?c = "if io_late now ?x then c + 1 else c"
    obtain ok c' where "CheckIo_loop (\<lambda>_. now) (rp_addr (rm_res_pool m)) (bh_next ?x) (Suc i) n ?c = Some (ok, c')"
      "ok \<longleftrightarrow> \<not> (\<exists>j \<in> set (walk (pool_next (rm_res_pool m)) (bh_next ?x) n). io_hangs now (map_item m j))"
      "ok \<longrightarrow> c' = ?c + of_nat (late_in now m (walk (pool_next (rm_res_pool m)) (bh_next ?x) n))"
      using Suc.IH [of "bh_next ?x"] Suc.prems nx by fastforce
    then show ?thesis using x nx False by (auto simp: io_hangs_def io_late_def)
  qed
qed auto

lemma check_io_buckets:
  assumes inv: "map_inv io_hash li_io_id m" and bs: "list_all (\<lambda>b. b < length (rm_buckets m)) bs"
    and c: "unat c < 16" and total: "unat c + late_in now m (concat (map (bucket_chain m) bs)) < 2 ^ 32"
  shows "\<exists>ok. FdsaCheck_loop (\<lambda>_ _. now) m bs c = Some (ok, 0) \<and>
    (ok \<longleftrightarrow> \<not> (\<exists>j \<in> set (concat (map (bucket_chain m) bs)). io_hangs now (map_item m j)) \<and>
       unat c + late_in now m (concat (map (bucket_chain m) bs)) < 16)"
  using bs c total
proof (induction bs arbitrary: c)
  case (Cons b bs)
  let ?n = "late_in now m (bucket_chain m b)" and ?rest = "concat (map (bucket_chain m) bs)"
  have b: "b < length (rm_buckets m)" using Cons.prems(1) by simp
  have len: "length (rm_buckets m) = unat (rm_bucket_num m)" using inv by (simp add: map_inv_def)
  have ub: "unat (of_nat b :: u32) = b" using b len unat_u32_le [of "rm_bucket_num m"] by (simp add: word_count)
  have range: "list_all (\<lambda>i. unat i < length (rp_addr (rm_res_pool m))) (bucket_chain m b)"
    using ios.chain_in_pool [OF inv b] by (auto simp: list_all_iff)
  obtain ok c1 where c1: "CheckIo_loop (\<lambda>_. now) (rp_addr (rm_res_pool m)) (bk_first (rm_buckets m ! b)) 0
      (unat (bk_count (rm_buckets m ! b))) c = Some (ok, c1)"
    "ok \<longleftrightarrow> \<not> (\<exists>j \<in> set (bucket_chain m b). io_hangs now (map_item m j))" "ok \<longrightarrow> c1 = c + of_nat ?n"
    using check_io_loop [OF range [unfolded bucket_chain_def], of now 0 c] by (auto simp: bucket_chain_def)
  have u: "unat (c + of_nat ?n) = unat c + ?n" using Cons.prems(3) by (simp add: unat_word_ariths unat_of_nat)
  have step: "CheckIoTimeOut (\<lambda>_. now) m (of_nat b) c = Some (ok \<and> \<not> 16 \<le> c1, c1)"
    using c1(1) ub b by (simp add: CheckIoTimeOut_def rd_def OGRAC_IO_TIME_OUT_LIMIT_MAX_NUM_def)
  have le: "16 \<le> c1 \<longleftrightarrow> 16 \<le> unat c + ?n" if ok
    using that c1(3) u by (simp add: word_le_nat_alt)
  show ?case
  proof (cases "ok \<and> \<not> 16 \<le> c1")
    case False
    then show ?thesis using step c1(2) le by auto
  next
    case True
    then have u1: "unat c1 = unat c + ?n" "unat c1 < 16" using c1(3) u le by auto
    obtain ok' where ok': "FdsaCheck_loop (\<lambda>_ _. now) m bs c1 = Some (ok', 0)"
      "ok' \<longleftrightarrow> \<not> (\<exists>j \<in> set ?rest. io_hangs now (map_item m j)) \<and> unat c1 + late_in now m ?rest < 16"
      using Cons.IH [of c1] Cons.prems u1 by auto
    then show ?thesis using step True c1(2) u1 by auto
  qed
qed auto

lemma all_items_bound:
  assumes "ios.srep m V H"
  shows "length (all_items m) < 2 ^ 32"
proof -
  have inv: "map_inv io_hash li_io_id m" using assms by (simp add: st_rep_def)
  have "distinct (all_items m)"
    using ios.all_items_keys [OF inv] by (simp add: distinct_map)
  moreover have "list_all (\<lambda>i. unat i < length (rp_addr (rm_res_pool m))) (all_items m)"
    using ios.chain_in_pool [OF inv] by (auto simp: all_items_def list_all_iff)
  ultimately have "length (all_items m) \<le> length (rp_addr (rm_res_pool m))"
    using distinct_words_length by (auto simp: list_all_iff)
  moreover have "length (rp_addr (rm_res_pool m)) \<le> 4294967295"
    using inv unat_u32_le pool_inv_length by (metis map_inv_def)
  ultimately show ?thesis by simp
qed

lemma health_check:
  assumes rep: "ios.srep m V H"
  shows "FdsaCheckCallback (\<lambda>_ _. now) m 0 =
    Some ((\<forall>k io. V k = Some io \<longrightarrow> \<not> io_hangs now io) \<and> card {k. \<exists>io. V k = Some io \<and> io_late now io} < 16, 0)"
proof -
  have inv: "map_inv io_hash li_io_id m" using rep by (simp add: st_rep_def)
  have len: "length (rm_buckets m) = unat (rm_bucket_num m)" using inv by (simp add: map_inv_def)
  have u: "io_late now (unlinked x) = io_late now x" "io_hangs now (unlinked x) = io_hangs now x" for x
    by (simp_all add: io_late_def io_hangs_def)
  have total: "late_in now m (all_items m) < 2 ^ 32"
    using all_items_bound [OF rep] length_filter_le [of _ "all_items m"] le_less_trans by blast
  obtain ok where ok: "FdsaCheck_loop (\<lambda>_ _. now) m [0..<length (rm_buckets m)] 0 = Some (ok, 0)"
    "ok \<longleftrightarrow> \<not> (\<exists>j \<in> set (all_items m). io_hangs now (map_item m j)) \<and> late_in now m (all_items m) < 16"
    using check_io_buckets [OF inv, of "[0..<length (rm_buckets m)]" 0 now] total by (auto simp: list_all_iff all_items_def)
  have "(\<exists>j \<in> set (all_items m). io_hangs now (map_item m j)) \<longleftrightarrow> (\<exists>k io. V k = Some io \<and> io_hangs now io)"
    using ios.all_items_found [OF rep] ios.items_found [OF rep] u by metis
  then show ?thesis
    using ok len ios.count_items [OF rep, of "io_late now"] u by (simp add: FdsaCheckCallback_def)
qed

lemma add_io_ok:
  assumes rep: "ios.srep m V {}" and new: "V io = None" and room: "card (dom V) < unat (rp_item_num (rm_res_pool m))"
  shows "\<exists>x m'. AddIo2FdsaHashTable True now io m = Some (OG_SUCCESS, m') \<and> ios.srep m' (V(io \<mapsto> x)) {} \<and>
    li_start_time x = now"
proof -
  have fill: "\<And>i x. li_io_id (new_io io now i x) = io \<and> lr_idx (new_io io now i x) = i" by (simp add: new_io_def)
  have "pool_free (rm_res_pool m) \<noteq> []" using ios.srep_full [OF rep] room by auto
  then obtain i x m' where m': "st_create io_hash m io (new_io io now) = Some (Some i, m')"
    "ios.srep m' (V(io \<mapsto> unlinked (new_io io now i x))) {}"
    using ios.srep_create [where fill = "new_io io now", OF rep new fill] by blast
  moreover have "rp_inited (rm_res_pool m)" using rep by (simp add: st_rep_def map_inv_def pool_inv_def)
  ultimately show ?thesis by (auto simp: AddIo2FdsaHashTable_def new_io_def)
qed

lemma remove_io_ok:
  assumes rep: "ios.srep m V {}" and V: "V io = Some x"
  shows "\<exists>m'. RemovetIoFromFdsaHashtable True io m = Some (OG_SUCCESS, m') \<and> ios.srep m' (V(io := None)) {}"
proof -
  let ?i = "lr_idx x"
  obtain m1 where m1: "st_remove io_hash m io = Some m1" "ios.srep m1 (V(io := None)) {?i}"
    using ios.srep_remove [OF rep V] by blast
  have y: "st_read m1 ?i = Some (map_item m1 ?i)" using ios.srep_read_held [OF m1(2)] by simp
  have idx: "lr_idx (map_item m1 ?i) = ?i" using ios.idx_kept [OF rep V m1(1)] .
  obtain m2 where "st_free m1 ?i = Some m2" "ios.srep m2 (V(io := None)) {}"
    using ios.srep_free [OF m1(2), of ?i] by auto
  then show ?thesis using ios.srep_lookup [OF rep, of io] V m1 y idx by (simp add: RemovetIoFromFdsaHashtable_def)
qed

text \<open>
  Claim C29. The health check fails exactly if one operation has been running for more than 600 seconds or
  at least sixteen have been running for more than 180 seconds, wherever they are in the hash table, and
  it leaves its counter at zero for the next check.
\<close>

theorem io_health_check:
  assumes "st_rep io_hash li_io_id is_same_io m V H"
  shows "FdsaCheckCallback (\<lambda>_ _. now) m 0 =
    Some ((\<forall>k io. V k = Some io \<longrightarrow> \<not> now - li_start_time io > 600000000) \<and>
      card {k. \<exists>io. V k = Some io \<and> now - li_start_time io > 180000000} < 16, 0)"
  using health_check [OF assms, of now]
  by (simp add: io_hangs_def io_late_def OGRAC_IO_TIME_OUT_ONCE_def OGRAC_IO_TIME_OUT_def)

theorem io_health_check_witness:
  "\<exists>m0 m1. drc_res_map_init True True \<lparr>bh_next = 0, lr_idx = 0, li_io_id = \<lparr>io_fdsa_type = 0, io_no = 0\<rparr>, li_start_time = 0\<rparr>
      zero_res_map 4 32 is_same_io = Some (OG_SUCCESS, m0) \<and>
    AddIo2FdsaHashTable True 1000 \<lparr>io_fdsa_type = 0, io_no = 7\<rparr> m0 = Some (OG_SUCCESS, m1) \<and>
    FdsaCheckCallback (\<lambda>_ _. 600001000) m1 0 = Some (True, 0) \<and>
    FdsaCheckCallback (\<lambda>_ _. 600001001) m1 0 = Some (False, 0)"
proof -
  let ?z = "\<lparr>bh_next = 0, lr_idx = 0, li_io_id = \<lparr>io_fdsa_type = 0, io_no = 0\<rparr>, li_start_time = 0\<rparr> :: drc_local_io"
  let ?k = "\<lparr>io_fdsa_type = 0, io_no = 7\<rparr>"
  obtain m0 where m0: "drc_res_map_init True True ?z zero_res_map 4 32 is_same_io = Some (OG_SUCCESS, m0)"
    "ios.srep m0 (\<lambda>_. None) {}" "rp_item_num (rm_res_pool m0) = 4"
    using ios.srep_init [of zero_res_map 32 4 ?z] by (auto simp: zero_res_map_def zero_res_pool_def)
  obtain x m1 where m1: "AddIo2FdsaHashTable True 1000 ?k m0 = Some (OG_SUCCESS, m1)"
    "ios.srep m1 ((\<lambda>_. None)(?k \<mapsto> x)) {}" "li_start_time x = 1000"
    using add_io_ok [where io = ?k and now = 1000, OF m0(2)] m0(3) by (auto simp: dom_def simp del: fun_upd_apply)
  have one: "{k. \<exists>io. ((\<lambda>_. None)(?k \<mapsto> x)) k = Some io \<and> P io} = (if P x then {?k} else {})" for P by auto
  have "FdsaCheckCallback (\<lambda>_ _. 600001000) m1 0 = Some (True, 0)"
    using io_health_check [OF m1(2), of 600001000] m1(3) unfolding one by simp
  moreover have "FdsaCheckCallback (\<lambda>_ _. 600001001) m1 0 = Some (False, 0)"
    using io_health_check [OF m1(2), of 600001001] m1(3) unfolding one by simp
  ultimately show ?thesis using m0(1) m1(1) by blast
qed

end
