(* ===== verification/Drc_Part.thy ===== *)
theory Drc_Part
  imports Drc_Ctx
begin

text \<open>
  The partition table: every page and lock belongs to one of 1024 partitions, and every partition has a
  master instance. \<^verbatim>\<open>part_map\<close> gives the master of a partition, and \<^verbatim>\<open>inst_part_tbl\<close> chains the
  partitions of each instance through \<^verbatim>\<open>part_map\<close>. This theory holds the structures, the first
  assignment of the partitions, and the lookup of masters.
\<close>

subsection \<open>Structures\<close>

datatype drc_part_status = PART_INIT | PART_NORMAL | PART_WAIT_MIGRATE | PART_MIGRATING | PART_WAIT_RECOVERY |
  PART_RECOVERING | PART_MIGRATE_COMPLETE | PART_MIGRATE_FAIL

datatype drc_remaster_status = REMASTER_PREPARE | REMASTER_ASSIGN_TASK | REMASTER_MIGRATE | REMASTER_RECOVERY |
  REMASTER_PUBLISH | REMASTER_DONE | REMASTER_FAIL

primrec remaster_num :: "drc_remaster_status \<Rightarrow> nat" where
  "remaster_num REMASTER_PREPARE = 0"
| "remaster_num REMASTER_ASSIGN_TASK = 1"
| "remaster_num REMASTER_MIGRATE = 2"
| "remaster_num REMASTER_RECOVERY = 3"
| "remaster_num REMASTER_PUBLISH = 4"
| "remaster_num REMASTER_DONE = 5"
| "remaster_num REMASTER_FAIL = 6"

record drc_part =
  pt_inst_id :: u8
  pt_status :: drc_part_status
  pt_next :: u16

record drc_inst_part =
  ip_first :: u16
  ip_last :: u16
  ip_count :: u16
  ip_expected_num :: u16
  ip_is_used :: bool

record drc_remaster_task =
  tk_export_inst :: u8
  tk_import_inst :: u8
  tk_part_id :: u16
  tk_status :: drc_part_status

text \<open>The instances of one kind in a reform: an array with the number of entries that count.\<close>

record instance_list =
  il_inst_id_list :: "u8 list"
  il_inst_id_count :: u8

datatype reform_role = REFORM_ROLE_STAY | REFORM_ROLE_JOIN | REFORM_ROLE_LEAVE | REFORM_ROLE_ABORT | REFORM_ROLE_FAIL

record reform_info =
  rf_before :: instance_list
  rf_after :: instance_list
  rf_join :: instance_list
  rf_leave :: instance_list
  rf_abort :: instance_list
  rf_fail :: instance_list
  rf_version :: u64
  rf_next_version :: u64
  rf_trigger_version :: u64
  rf_role :: reform_role
  rf_alive_bitmap :: u64
  rf_master_id :: u8
  rf_master_changed :: bool
  rf_fetch_cms_time :: u8
  rf_full_restart :: bool
  rf_cluster_steady :: bool
  rf_have_error :: bool
  rf_standby_get_txn :: bool

text \<open>What the reform master knows of another instance.\<close>

record inst_drm_info =
  di_remaster_status :: drc_remaster_status
  di_task_num :: u16

text \<open>The pages and the locks of a partition that have arrived, and those that its last master has sent.\<close>

record drc_mgrt_res_cnt =
  mc_page :: u32
  mc_lock :: u32

record rc_part_info =
  pi_page_cnt :: u32
  pi_lock_cnt :: u32
  pi_src_inst :: u8

record drc_remaster_mngr =
  dm_target_part_map :: "drc_part list"
  dm_target_inst_part_tbl :: "drc_inst_part list"
  dm_inst_drm_info :: "inst_drm_info list"
  dm_remaster_task_set :: "drc_remaster_task list"
  dm_task_num :: u32
  dm_is_master :: bool
  dm_complete_num :: u64
  dm_local_task_set :: "drc_remaster_task list"
  dm_local_task_num :: u32
  dm_local_task_complete_num :: u64
  dm_tmp_part_map :: "drc_part list"
  dm_tmp_inst_part_tbl :: "drc_inst_part list"
  dm_tmp_part_map_reform_version :: u64
  dm_reform_info :: reform_info
  dm_mgrt_part_res_cnt :: "drc_mgrt_res_cnt list"
  dm_recovery_task_num :: u64
  dm_recovery_complete_task_num :: u64
  dm_stopped :: bool
  dm_mgrt_part_info :: "rc_part_info list"

record drc_part_mngr =
  pm_version :: u32
  pm_inited :: bool
  pm_inst_num :: u8
  pm_remaster_status :: drc_remaster_status
  pm_is_reentrant :: bool
  pm_remaster_inst :: u8
  pm_remaster_finish_step :: drc_remaster_status
  pm_mgrt_fail_list :: bool
  pm_part_map :: "drc_part list"
  pm_inst_part_tbl :: "drc_inst_part list"
  pm_remaster_mngr :: drc_remaster_mngr

definition zero_part :: drc_part where
  "zero_part = \<lparr>pt_inst_id = 0, pt_status = PART_INIT, pt_next = 0\<rparr>"

definition zero_inst_part :: drc_inst_part where
  "zero_inst_part = \<lparr>ip_first = 0, ip_last = 0, ip_count = 0, ip_expected_num = 0, ip_is_used = False\<rparr>"

definition zero_task :: drc_remaster_task where
  "zero_task = \<lparr>tk_export_inst = 0, tk_import_inst = 0, tk_part_id = 0, tk_status = PART_INIT\<rparr>"

definition no_instances :: instance_list where
  "no_instances = \<lparr>il_inst_id_list = replicate OG_MAX_INSTANCES 0, il_inst_id_count = 0\<rparr>"

definition zero_reform_info :: reform_info where
  "zero_reform_info = \<lparr>rf_before = no_instances, rf_after = no_instances, rf_join = no_instances, rf_leave = no_instances,
     rf_abort = no_instances, rf_fail = no_instances, rf_version = 0, rf_next_version = 0, rf_trigger_version = 0,
     rf_role = REFORM_ROLE_STAY, rf_alive_bitmap = 0, rf_master_id = 0, rf_master_changed = False, rf_fetch_cms_time = 0,
     rf_full_restart = False, rf_cluster_steady = False, rf_have_error = False, rf_standby_get_txn = False\<rparr>"

definition zero_remaster_mngr :: drc_remaster_mngr where
  "zero_remaster_mngr = \<lparr>dm_target_part_map = replicate DRC_MAX_PART_NUM zero_part,
     dm_target_inst_part_tbl = replicate OG_MAX_INSTANCES zero_inst_part,
     dm_inst_drm_info = replicate OG_MAX_INSTANCES \<lparr>di_remaster_status = REMASTER_PREPARE, di_task_num = 0\<rparr>,
     dm_remaster_task_set = replicate DRC_MAX_PART_NUM zero_task, dm_task_num = 0, dm_is_master = False, dm_complete_num = 0,
     dm_local_task_set = replicate DRC_MAX_PART_NUM zero_task, dm_local_task_num = 0, dm_local_task_complete_num = 0,
     dm_tmp_part_map = replicate DRC_MAX_PART_NUM zero_part,
     dm_tmp_inst_part_tbl = replicate OG_MAX_INSTANCES zero_inst_part, dm_tmp_part_map_reform_version = 0,
     dm_reform_info = zero_reform_info, dm_mgrt_part_res_cnt = replicate DRC_MAX_PART_NUM \<lparr>mc_page = 0, mc_lock = 0\<rparr>,
     dm_recovery_task_num = 0, dm_recovery_complete_task_num = 0, dm_stopped = False,
     dm_mgrt_part_info = replicate DRC_MAX_PART_NUM \<lparr>pi_page_cnt = 0, pi_lock_cnt = 0, pi_src_inst = 0\<rparr>\<rparr>"

definition zero_part_mngr :: drc_part_mngr where
  "zero_part_mngr = \<lparr>pm_version = 0, pm_inited = False, pm_inst_num = 0, pm_remaster_status = REMASTER_PREPARE,
     pm_is_reentrant = False, pm_remaster_inst = 0, pm_remaster_finish_step = REMASTER_PREPARE, pm_mgrt_fail_list = False,
     pm_part_map = replicate DRC_MAX_PART_NUM zero_part,
     pm_inst_part_tbl = replicate OG_MAX_INSTANCES zero_inst_part,
     pm_remaster_mngr = zero_remaster_mngr\<rparr>"

subsection \<open>The first table\<close>

text \<open>Partition \<open>i\<close> goes to the end of the list of its instance.\<close>

definition drc_part_assign :: "u8 list \<Rightarrow> u8 \<Rightarrow> u32 \<Rightarrow> drc_part list \<times> drc_inst_part list \<Rightarrow>
    (drc_part list \<times> drc_inst_part list) option" where
  "drc_part_assign inst_id_array inst_num i = (\<lambda>(part_map, inst_part_tbl). do {
     inst_id \<leftarrow> rd inst_id_array (i mod ucast inst_num);
     part \<leftarrow> rd part_map i;
     part_map \<leftarrow> wr part_map i (part\<lparr>pt_inst_id := inst_id, pt_status := PART_INIT\<rparr>);
     entry \<leftarrow> rd inst_part_tbl inst_id;
     (entry, part_map) \<leftarrow>
       (if ip_count entry = 0 then Some (entry\<lparr>ip_first := ucast i, ip_is_used := True\<rparr>, part_map)
        else do {
          last_part \<leftarrow> rd part_map (ip_last entry);
          part_map \<leftarrow> wr part_map (ip_last entry) (last_part\<lparr>pt_next := ucast i\<rparr>);
          Some (entry, part_map)
        });
     inst_part_tbl \<leftarrow> wr inst_part_tbl inst_id (entry\<lparr>ip_last := ucast i, ip_count := ip_count entry + 1\<rparr>);
     part \<leftarrow> rd part_map i;
     part_map \<leftarrow> wr part_map i (part\<lparr>pt_next := ucast OG_INVALID_ID8\<rparr>);
     Some (part_map, inst_part_tbl)
   })"

fun drc_part_loop :: "u8 list \<Rightarrow> u8 \<Rightarrow> u32 list \<Rightarrow> drc_part list \<times> drc_inst_part list \<Rightarrow>
    (drc_part list \<times> drc_inst_part list) option" where
  "drc_part_loop inst_id_array inst_num [] t = Some t"
| "drc_part_loop inst_id_array inst_num (i # is) t = do {
     t \<leftarrow> drc_part_assign inst_id_array inst_num i t;
     drc_part_loop inst_id_array inst_num is t
   }"

definition drc_part_init :: "u8 list \<Rightarrow> u8 \<Rightarrow> drc_part_mngr \<Rightarrow> drc_part_mngr option" where
  "drc_part_init inst_id_array inst_num part_mngr =
     (if inst_num = 0 \<or> pm_inited part_mngr then Some part_mngr
      else do {
        (part_map, inst_part_tbl) \<leftarrow> drc_part_loop inst_id_array inst_num (map of_nat [0..<DRC_MAX_PART_NUM])
          (pm_part_map part_mngr, pm_inst_part_tbl part_mngr);
        Some (part_mngr\<lparr>pm_part_map := part_map,
          pm_inst_num := inst_num, pm_version := 1, pm_remaster_status := REMASTER_DONE,
          pm_is_reentrant := True, pm_mgrt_fail_list := False,
          pm_inst_part_tbl := map (\<lambda>e. if ip_is_used e then e\<lparr>ip_expected_num := ip_count e\<rparr> else e) inst_part_tbl,
          pm_inited := True\<rparr>)
      })"

definition drc_update_remaster_local_status :: "drc_remaster_status \<Rightarrow> drc_part_mngr \<Rightarrow> drc_part_mngr" where
  "drc_update_remaster_local_status status part_mngr =
     (if pm_remaster_status part_mngr \<noteq> REMASTER_FAIL then
        let part_mngr = part_mngr\<lparr>pm_remaster_status := status\<rparr>;
            part_mngr = (if remaster_num status > remaster_num REMASTER_PREPARE
                         then part_mngr\<lparr>pm_is_reentrant := False\<rparr> else part_mngr)
        in if status = REMASTER_DONE then part_mngr\<lparr>pm_mgrt_fail_list := True\<rparr> else part_mngr
      else part_mngr)"

text \<open>The masters of pages and locks.\<close>

definition DRC_PART_MASTER_ID :: "drc_part_mngr \<Rightarrow> 'n::len word \<Rightarrow> u8 option" where
  "DRC_PART_MASTER_ID part_mngr part_id = map_option pt_inst_id (rd (pm_part_map part_mngr) part_id)"

definition drc_get_page_master_id :: "u32 \<Rightarrow> drc_part_mngr \<Rightarrow> page_id \<Rightarrow> u8 \<Rightarrow> (status_t \<times> u8) option" where
  "drc_get_page_master_id ext_pages part_mngr pagid id0 = do {
     inst_id \<leftarrow> DRC_PART_MASTER_ID part_mngr (drc_page_partid ext_pages pagid);
     if inst_id = OG_INVALID_ID8 then Some (OG_ERROR, id0) else Some (OG_SUCCESS, inst_id)
   }"

definition drc_get_lock_master_id :: "(u8 \<Rightarrow> u32) \<Rightarrow> drc_part_mngr \<Rightarrow> drid \<Rightarrow> u8 option" where
  "drc_get_lock_master_id promote part_mngr lock_id = DRC_PART_MASTER_ID part_mngr (lock_partid promote lock_id)"

end
