(* ===== verification/Part_Table.thy ===== *)
theory Part_Table
  imports Drc_Part
begin

text \<open>
  What the partition table stands for: a list of partitions for each instance. The lemmas say how pushing a
  partition to the front or to the end of a list and dropping the first ones change the chains, and that
  the first assignment deals the partitions out in turn.
\<close>

subsection \<open>The partitions of each instance\<close>

abbreviation nexts :: "drc_part list \<Rightarrow> u16 \<Rightarrow> u16" where
  "nexts part_map p \<equiv> pt_next (part_map ! unat p)"

text \<open>
  \<open>L\<close> gives the partitions each instance has in its list, in order: the entry of the instance has its first
  partition and their number, and the others follow through \<^verbatim>\<open>part_map\<close>. No partition is in two lists, and
  the partitions in a list name the instance as their master.
\<close>

definition tbl_rep :: "drc_part list \<Rightarrow> drc_inst_part list \<Rightarrow> (u8 \<Rightarrow> u16 list) \<Rightarrow> bool" where
  "tbl_rep part_map tbl L \<longleftrightarrow> length part_map = DRC_MAX_PART_NUM \<and> length tbl = OG_MAX_INSTANCES \<and>
     (\<forall>i. inst_ok i \<longrightarrow> unat (ip_count (tbl ! unat i)) = length (L i) \<and>
        walk (nexts part_map) (ip_first (tbl ! unat i)) (length (L i)) = L i \<and> distinct (L i) \<and>
        (\<forall>p \<in> set (L i). unat p < DRC_MAX_PART_NUM \<and> pt_inst_id (part_map ! unat p) = i)) \<and>
     (\<forall>i. \<not> inst_ok i \<longrightarrow> L i = [])"

lemma tbl_repD:
  assumes "tbl_rep part_map tbl L"
  shows "length part_map = DRC_MAX_PART_NUM" "length tbl = OG_MAX_INSTANCES"
    "inst_ok i \<Longrightarrow> unat (ip_count (tbl ! unat i)) = length (L i)"
    "inst_ok i \<Longrightarrow> walk (nexts part_map) (ip_first (tbl ! unat i)) (length (L i)) = L i"
    "distinct (L i)" "p \<in> set (L i) \<Longrightarrow> unat p < DRC_MAX_PART_NUM \<and> pt_inst_id (part_map ! unat p) = i"
    "p \<in> set (L i) \<Longrightarrow> inst_ok i"
proof -
  show "length part_map = DRC_MAX_PART_NUM" "length tbl = OG_MAX_INSTANCES"
    "inst_ok i \<Longrightarrow> unat (ip_count (tbl ! unat i)) = length (L i)"
    "inst_ok i \<Longrightarrow> walk (nexts part_map) (ip_first (tbl ! unat i)) (length (L i)) = L i"
    using assms unfolding tbl_rep_def by blast+
  show "distinct (L i)"
    using assms unfolding tbl_rep_def by (cases "inst_ok i") simp_all
  show "p \<in> set (L i) \<Longrightarrow> unat p < DRC_MAX_PART_NUM \<and> pt_inst_id (part_map ! unat p) = i"
    using assms unfolding tbl_rep_def by (cases "inst_ok i") simp_all
  show "p \<in> set (L i) \<Longrightarrow> inst_ok i"
    using assms unfolding tbl_rep_def by (cases "inst_ok i") simp_all
qed

text \<open>A partition is in the list of at most one instance.\<close>

lemma tbl_rep_one: "tbl_rep part_map tbl L \<Longrightarrow> p \<in> set (L i) \<Longrightarrow> p \<in> set (L j) \<Longrightarrow> i = j"
  using tbl_repD(6) by metis

lemma tbl_rep_length: "tbl_rep part_map tbl L \<Longrightarrow> length (L i) \<le> DRC_MAX_PART_NUM"
  using distinct_words_length tbl_repD(5,6) by metis

lemma inst_ok_lt: "inst_ok i \<longleftrightarrow> unat i < OG_MAX_INSTANCES"
  by (simp add: inst_ok_def)

text \<open>
  A change of the map that keeps the links and the masters of the partitions in the lists.
\<close>

lemma tbl_rep_map:
  assumes rep: "tbl_rep part_map tbl L" and len: "length part_map' = length part_map"
    and same: "\<And>i p. p \<in> set (L i) \<Longrightarrow> pt_next (part_map' ! unat p) = pt_next (part_map ! unat p) \<and>
      pt_inst_id (part_map' ! unat p) = pt_inst_id (part_map ! unat p)"
  shows "tbl_rep part_map' tbl L"
  unfolding tbl_rep_def
proof (intro conjI allI impI)
  fix i assume i: "inst_ok i"
  note D = tbl_repD [OF rep]
  show "unat (ip_count (tbl ! unat i)) = length (L i)" "distinct (L i)" using D i by blast+
  have "walk (nexts part_map') (ip_first (tbl ! unat i)) (length (L i)) = walk (nexts part_map) (ip_first (tbl ! unat i)) (length (L i))"
    by (rule walk_cong) (use D(4) [OF i] same in auto)
  then show "walk (nexts part_map') (ip_first (tbl ! unat i)) (length (L i)) = L i" using D(4) [OF i] by simp
  show "\<forall>p \<in> set (L i). unat p < DRC_MAX_PART_NUM \<and> pt_inst_id (part_map' ! unat p) = i" using D(6) same by metis
qed (use rep len in \<open>auto simp: tbl_rep_def\<close>)

text \<open>A change of the list of one instance.\<close>

lemma tbl_rep_upd:
  assumes rep: "tbl_rep part_map tbl L" and j: "inst_ok j"
    and new: "unat (ip_count e) = length ps" "walk (nexts part_map) (ip_first e) (length ps) = ps" "distinct ps"
      "\<And>p. p \<in> set ps \<Longrightarrow> unat p < DRC_MAX_PART_NUM \<and> pt_inst_id (part_map ! unat p) = j"
  shows "tbl_rep part_map (tbl[unat j := e]) (L(j := ps))"
proof -
  have "unat j < length tbl" using j tbl_repD(2) [OF rep] by (simp add: inst_ok_lt)
  then show ?thesis using rep new j by (auto simp: tbl_rep_def nth_update_word)
qed

lemma count_inc:
  assumes "tbl_rep part_map tbl L" and "inst_ok j" and "length (L j) < DRC_MAX_PART_NUM"
  shows "unat (ip_count (tbl ! unat j) + 1) = Suc (length (L j))"
  using tbl_repD(3) [OF assms(1,2)] assms(3) by (simp add: unat_word_ariths DRC_MAX_PART_NUM_def)

lemma length_lt:
  assumes rep: "tbl_rep part_map tbl L" and p: "unat p < DRC_MAX_PART_NUM" "p \<notin> set (L j)"
  shows "length (L j) < DRC_MAX_PART_NUM"
proof -
  have "length (p # L j) \<le> DRC_MAX_PART_NUM"
    by (rule distinct_words_length) (use p tbl_repD(5,6) [OF rep] in auto)
  then show ?thesis by simp
qed

subsection \<open>Adding a partition\<close>

text \<open>In front, as a migration does.\<close>

lemma tbl_rep_push:
  assumes rep: "tbl_rep part_map tbl L" and j: "inst_ok j" and p: "unat p < DRC_MAX_PART_NUM" "\<And>i. p \<notin> set (L i)"
    and e: "ip_first e = p" "ip_count e = ip_count (tbl ! unat j) + 1"
    and part: "pt_inst_id part = j" "pt_next part = ip_first (tbl ! unat j)"
  shows "tbl_rep (part_map[unat p := part]) (tbl[unat j := e]) (L(j := p # L j))"
proof -
  note D = tbl_repD [OF rep]
  have pl: "unat p < length part_map" using p(1) D(1) by simp
  have rep': "tbl_rep (part_map[unat p := part]) tbl L"
    by (rule tbl_rep_map [OF rep]) (use p(2) pl in \<open>auto simp: nth_update_word\<close>)
  have nx: "nexts (part_map[unat p := part]) p = ip_first (tbl ! unat j)" using pl part(2) by simp
  show ?thesis
  proof (rule tbl_rep_upd [OF rep' j])
    show "unat (ip_count e) = length (p # L j)"
      using count_inc [OF rep j length_lt [OF rep p(1) p(2)]] e(2) by simp
    show "walk (nexts (part_map[unat p := part])) (ip_first e) (length (p # L j)) = p # L j"
      using tbl_repD(4) [OF rep' j] e(1) nx by simp
    show "distinct (p # L j)" using p(2) D(5) by simp
    show "\<And>q. q \<in> set (p # L j) \<Longrightarrow> unat q < DRC_MAX_PART_NUM \<and> pt_inst_id ((part_map[unat p := part]) ! unat q) = j"
      using p(1) pl part(1) tbl_repD(6) [OF rep'] by auto
  qed
qed

text \<open>Without the first \<open>n\<close> partitions, as an export leaves it.\<close>

lemma tbl_rep_drop:
  assumes rep: "tbl_rep part_map tbl L" and j: "inst_ok j" and n: "n \<le> length (L j)"
    and e: "ip_first e = walk_end (nexts part_map) (ip_first (tbl ! unat j)) n" "unat (ip_count e) = length (L j) - n"
  shows "tbl_rep part_map (tbl[unat j := e]) (L(j := drop n (L j)))"
proof (rule tbl_rep_upd [OF rep j])
  note D = tbl_repD [OF rep]
  have "walk (nexts part_map) (ip_first (tbl ! unat j)) (n + (length (L j) - n)) = take n (L j) @ drop n (L j)"
    using D(4) [OF j] n by simp
  from walk_split [OF this] show "walk (nexts part_map) (ip_first e) (length (drop n (L j))) = drop n (L j)"
    using n e(1) by simp
  show "unat (ip_count e) = length (drop n (L j))" using e(2) by simp
  show "distinct (drop n (L j))" using D(5) by simp
  show "\<And>p. p \<in> set (drop n (L j)) \<Longrightarrow> unat p < DRC_MAX_PART_NUM \<and> pt_inst_id (part_map ! unat p) = j"
    using D(6) in_set_dropD by metis
qed

text \<open>At the end, as the first assignment does.\<close>

lemma tbl_rep_append:
  assumes rep: "tbl_rep part_map tbl L" and j: "inst_ok j" and p: "unat p < DRC_MAX_PART_NUM" "\<And>i. p \<notin> set (L i)"
    and len: "length part_map' = length part_map"
    and e: "ip_first e = (if L j = [] then p else ip_first (tbl ! unat j))" "ip_count e = ip_count (tbl ! unat j) + 1"
    and inst: "\<And>q. pt_inst_id (part_map' ! unat q) = (if q = p then j else pt_inst_id (part_map ! unat q))"
    and nx: "\<And>q. q \<noteq> p \<Longrightarrow> pt_next (part_map' ! unat q) = (if L j \<noteq> [] \<and> q = last (L j) then p else pt_next (part_map ! unat q))"
  shows "tbl_rep part_map' (tbl[unat j := e]) (L(j := L j @ [p]))"
proof -
  note D = tbl_repD [OF rep]
  have jl: "unat j < length tbl" using j D(2) by (simp add: inst_ok_lt)
  have last: "L j \<noteq> [] \<Longrightarrow> last (L j) \<notin> set (L i)" if "i \<noteq> j" for i
    using tbl_rep_one [OF rep, of "last (L j)" j i] that by auto
  have others: "walk (nexts part_map') (ip_first (tbl ! unat i)) (length (L i)) = L i" if i: "inst_ok i" "i \<noteq> j" for i
  proof -
    have "nexts part_map' q = nexts part_map q" if q: "q \<in> set (L i)" for q
    proof -
      have "q \<noteq> p" "L j \<noteq> [] \<Longrightarrow> q \<noteq> last (L j)" using q p(2) [of i] last [OF i(2)] by metis+
      then show ?thesis using nx [of q] by presburger
    qed
    then show ?thesis
      using walk_cong [of "nexts part_map" "ip_first (tbl ! unat i)" "length (L i)" "nexts part_map'"] D(4) [OF i(1)] by auto
  qed
  have own: "walk (nexts part_map') (ip_first e) (length (L j @ [p])) = L j @ [p]"
  proof (cases "L j")
    case (Cons a as)
    have bl: "nexts part_map' q = nexts part_map q" if "q \<in> set (butlast (L j))" for q
    proof -
      have "L j = butlast (L j) @ [last (L j)]" using Cons by simp
      then have "distinct (butlast (L j) @ [last (L j)])" using D(5) [of j] by metis
      then have "q \<noteq> last (L j)" using that by auto
      moreover have "q \<noteq> p" using p(2) [of j] that in_set_butlastD by metis
      ultimately show ?thesis using nx by simp
    qed
    have "last (L j) \<noteq> p" using p(2) [of j] Cons last_in_set [of "L j"] by auto
    then have "nexts part_map' (last (L j)) = p" using nx Cons by simp
    moreover have "walk (nexts part_map) (ip_first (tbl ! unat j)) (Suc (length as)) = L j"
      using D(4) [OF j] Cons by (metis length_Cons)
    ultimately have "walk (nexts part_map') (ip_first (tbl ! unat j)) (Suc (Suc (length as))) = L j @ [p]"
      using walk_extend [where g = "nexts part_map'" and i = p] bl by metis
    then show ?thesis using Cons e(1) by (metis length_append_singleton length_Cons list.distinct(1))
  qed (use e in simp)
  show ?thesis
    unfolding tbl_rep_def
  proof (intro conjI allI impI)
    fix i assume i: "inst_ok i"
    show "unat (ip_count (tbl[unat j := e] ! unat i)) = length ((L(j := L j @ [p])) i)"
      using D(3) [OF i] jl e(2) count_inc [OF rep j length_lt [OF rep p(1) p(2)]] by (simp add: nth_update_word)
    show "walk (nexts part_map') (ip_first (tbl[unat j := e] ! unat i)) (length ((L(j := L j @ [p])) i)) = (L(j := L j @ [p])) i"
      using others [OF i] own jl by (auto simp: nth_update_word)
    show "distinct ((L(j := L j @ [p])) i)" using D(5) p(2) by simp
    show "\<forall>q \<in> set ((L(j := L j @ [p])) i). unat q < DRC_MAX_PART_NUM \<and> pt_inst_id (part_map' ! unat q) = i"
      using D(6) p inst by auto
  qed (use rep len j in \<open>auto simp: tbl_rep_def\<close>)
qed

subsection \<open>The first assignment\<close>

definition first_parts :: "u8 list \<Rightarrow> nat \<Rightarrow> nat \<Rightarrow> u8 \<Rightarrow> u16 list" where
  "first_parts ids n k j = map of_nat (filter (\<lambda>p. ids ! (p mod n) = j) [0..<k])"

definition assigned :: "u8 list \<Rightarrow> nat \<Rightarrow> nat \<Rightarrow> drc_part list \<times> drc_inst_part list \<Rightarrow> bool" where
  "assigned ids n k t \<longleftrightarrow> tbl_rep (fst t) (snd t) (first_parts ids n k) \<and>
     (\<forall>j. inst_ok j \<longrightarrow> (ip_is_used (snd t ! unat j) \<longleftrightarrow> first_parts ids n k j \<noteq> []) \<and>
        (first_parts ids n k j \<noteq> [] \<longrightarrow> ip_last (snd t ! unat j) = last (first_parts ids n k j)))"

lemma first_parts_Suc: "first_parts ids n (Suc k) = (first_parts ids n k)(ids ! (k mod n) := first_parts ids n k (ids ! (k mod n)) @ [of_nat k])"
  by (auto simp: first_parts_def fun_eq_iff)

lemma first_parts_new:
  assumes "k < DRC_MAX_PART_NUM"
  shows "of_nat k \<notin> set (first_parts ids n k j)" "unat (of_nat k :: u16) = k"
  using assms by (auto simp: first_parts_def DRC_MAX_PART_NUM_def of_nat_eq_iff word_of_nat_eq_iff take_bit_nat_eq_self unat_of_nat)

lemma part_assign_ok:
  assumes a: "assigned ids n k t" and k: "k < DRC_MAX_PART_NUM" and ids: "n = unat inst_num" "0 < n" "n \<le> length ids" "list_all inst_ok ids"
  shows "\<exists>t'. drc_part_assign ids inst_num (of_nat k) t = Some t' \<and> assigned ids n (Suc k) t'"
proof -
  obtain pm tbl where t: "t = (pm, tbl)" by (cases t)
  let ?L = "first_parts ids n k" and ?j = "ids ! (k mod n)" and ?p = "of_nat k :: u16"
  have rep: "tbl_rep pm tbl ?L" using a t by (simp add: assigned_def)
  note D = tbl_repD [OF rep] and new = first_parts_new [OF k]
  have k32: "unat (of_nat k :: u32) = k" "ucast (of_nat k :: u32) = ?p"
    using k by (simp_all add: word_count DRC_MAX_PART_NUM_def unsigned_of_nat take_bit_nat_eq_self)
  have m: "unat ((of_nat k :: u32) mod ucast inst_num) = k mod n"
  proof -
    have "unat inst_num < 2 ^ 8" using unsigned_less [of inst_num] by simp
    then have "unat (ucast inst_num :: u32) = n" using ids(1) by (simp add: unsigned_ucast_eq take_bit_nat_eq_self)
    then show ?thesis using k32(1) by (simp add: unat_mod)
  qed
  have mn: "k mod n < length ids" using mod_less_divisor [OF ids(2), of k] ids(3) by (rule less_le_trans)
  have j: "inst_ok ?j" using ids(4) mn by (simp add: list_all_length)
  have jl: "unat ?j < length tbl" using j D(2) by (simp add: inst_ok_lt)
  let ?e = "tbl ! unat ?j"
  let ?e' = "(if ?L ?j = [] then ?e\<lparr>ip_first := ?p, ip_is_used := True\<rparr> else ?e)\<lparr>ip_last := ?p, ip_count := ip_count ?e + 1\<rparr>"
  define pm1 where "pm1 = pm[k := (pm ! k)\<lparr>pt_inst_id := ?j, pt_status := PART_INIT\<rparr>]"
  define q where "q = unat (ip_last ?e)"
  define pm2 where "pm2 = (if ?L ?j = [] then pm1 else pm1[q := (pm1 ! q)\<lparr>pt_next := ?p\<rparr>])"
  define pm3 where "pm3 = pm2[k := (pm2 ! k)\<lparr>pt_next := ucast OG_INVALID_ID8\<rparr>]"
  have kl: "k < length pm" using k D(1) by simp
  have empty: "ip_count ?e = 0 \<longleftrightarrow> ?L ?j = []" using D(3) [OF j] by (simp flip: unat_eq_0)
  have last: "?L ?j \<noteq> [] \<Longrightarrow> ip_last ?e = last (?L ?j) \<and> q < length pm"
    using a t j D(1) D(6) [of "last (?L ?j)" ?j] by (auto simp: assigned_def q_def)
  have step: "drc_part_assign ids inst_num (of_nat k) t = Some (pm3, tbl[unat ?j := ?e'])"
  proof (cases "?L ?j = []")
    case True
    then have "ip_count ?e = 0" using empty by simp
    then show ?thesis using True t m mn kl jl k32
      by (simp add: drc_part_assign_def rd_def wr_def pm1_def pm2_def pm3_def)
  next
    case False
    then have "ip_count ?e \<noteq> 0" "unat (ip_last ?e) < length pm" using empty last unfolding q_def by blast+
    then show ?thesis using False t m mn kl jl k32
      by (simp add: drc_part_assign_def rd_def wr_def pm1_def pm2_def pm3_def q_def)
  qed
  have "tbl_rep pm3 (tbl[unat ?j := ?e']) (?L(?j := ?L ?j @ [?p]))"
  proof (rule tbl_rep_append [OF rep j])
    show "unat ?p < DRC_MAX_PART_NUM" "\<And>i. ?p \<notin> set (?L i)" using new k first_parts_new(1) [OF k] by auto
    show "length pm3 = length pm" by (simp add: pm3_def pm2_def pm1_def)
    show "ip_first ?e' = (if ?L ?j = [] then ?p else ip_first ?e)" "ip_count ?e' = ip_count ?e + 1" by simp_all
    fix r :: u16
    have kr: "k = unat r \<longleftrightarrow> r = ?p" using new(2) unat_eq_iff by metis
    show "pt_inst_id (pm3 ! unat r) = (if r = ?p then ?j else pt_inst_id (pm ! unat r))"
      using kl last kr by (auto simp: pm3_def pm2_def pm1_def nth_list_update)
    assume r: "r \<noteq> ?p"
    have qr: "q = unat r \<longleftrightarrow> r = ip_last ?e" unfolding q_def using unat_eq_iff by metis
    show "pt_next (pm3 ! unat r) = (if ?L ?j \<noteq> [] \<and> r = last (?L ?j) then ?p else pt_next (pm ! unat r))"
      using kl last kr r qr by (auto simp: pm3_def pm2_def pm1_def nth_list_update)
  qed
  then show ?thesis
    using step a t jl by (auto simp: assigned_def first_parts_Suc nth_update_word)
qed

lemma part_loop_ok:
  assumes "assigned ids n k t" and "k + m \<le> DRC_MAX_PART_NUM" and ids: "n = unat inst_num" "0 < n" "n \<le> length ids" "list_all inst_ok ids"
  shows "\<exists>t'. drc_part_loop ids inst_num (map of_nat [k..<k + m]) t = Some t' \<and> assigned ids n (k + m) t'"
  using assms(1,2)
proof (induction m arbitrary: k t)
  case (Suc m)
  obtain t1 where t1: "drc_part_assign ids inst_num (of_nat k) t = Some t1" "assigned ids n (Suc k) t1"
    using part_assign_ok [OF Suc.prems(1) _ ids] Suc.prems(2) by auto
  obtain t' where "drc_part_loop ids inst_num (map of_nat [Suc k..<Suc k + m]) t1 = Some t'" "assigned ids n (Suc k + m) t'"
    using Suc.IH [OF t1(2)] Suc.prems(2) by auto
  moreover have "[k..<k + Suc m] = k # [Suc k..<Suc k + m]" by (simp add: upt_conv_Cons)
  ultimately show ?case using t1(1) by simp
qed simp

text \<open>
  A complete table: every partition is in the list of its master, which is a member of the cluster.
\<close>

definition table_ok :: "drc_part list \<Rightarrow> drc_inst_part list \<Rightarrow> (u8 \<Rightarrow> u16 list) \<Rightarrow> bool" where
  "table_ok part_map tbl L \<longleftrightarrow> tbl_rep part_map tbl L \<and>
     (\<forall>p. unat p < DRC_MAX_PART_NUM \<longrightarrow> (\<exists>i. inst_ok i \<and> ip_is_used (tbl ! unat i) \<and> p \<in> set (L i))) \<and>
     (\<forall>i. inst_ok i \<longrightarrow> \<not> ip_is_used (tbl ! unat i) \<longrightarrow> L i = [])"

lemma tbl_rep_entries:
  assumes "tbl_rep part_map tbl L" and "length tbl' = length tbl"
    and "\<And>i. inst_ok i \<Longrightarrow> ip_first (tbl' ! unat i) = ip_first (tbl ! unat i) \<and> ip_count (tbl' ! unat i) = ip_count (tbl ! unat i)"
  shows "tbl_rep part_map tbl' L"
  using assms by (auto simp: tbl_rep_def)

lemma zero_tables:
  "assigned ids n 0 (replicate DRC_MAX_PART_NUM zero_part, replicate OG_MAX_INSTANCES zero_inst_part)"
  by (auto simp: assigned_def tbl_rep_def first_parts_def inst_ok_lt zero_inst_part_def)

lemma part_init_ok:
  assumes ids: "n = unat inst_num" "0 < n" "n \<le> length ids" "list_all inst_ok ids"
  shows "\<exists>pm. drc_part_init ids inst_num zero_part_mngr = Some pm \<and>
    table_ok (pm_part_map pm) (pm_inst_part_tbl pm) (first_parts ids n DRC_MAX_PART_NUM) \<and>
    pm_inited pm \<and> pm_remaster_status pm = REMASTER_DONE \<and> pm_inst_num pm = inst_num \<and>
    pm_remaster_mngr pm = pm_remaster_mngr zero_part_mngr \<and>
    (\<forall>j. inst_ok j \<longrightarrow> (ip_is_used (pm_inst_part_tbl pm ! unat j) \<longleftrightarrow> first_parts ids n DRC_MAX_PART_NUM j \<noteq> []))"
proof -
  let ?L = "first_parts ids n DRC_MAX_PART_NUM"
  have ne: "inst_num \<noteq> 0" using ids(1,2) by auto
  obtain m tbl where t: "drc_part_loop ids inst_num (map of_nat [0..<DRC_MAX_PART_NUM])
      (replicate DRC_MAX_PART_NUM zero_part, replicate OG_MAX_INSTANCES zero_inst_part) = Some (m, tbl)" "assigned ids n DRC_MAX_PART_NUM (m, tbl)"
    using part_loop_ok [OF zero_tables, of DRC_MAX_PART_NUM n inst_num ids] ids by auto
  let ?tbl = "map (\<lambda>e. if ip_is_used e then e\<lparr>ip_expected_num := ip_count e\<rparr> else e) tbl"
  have rep: "tbl_rep m tbl ?L" using t(2) by (simp add: assigned_def)
  have used: "ip_is_used (tbl ! unat i) \<longleftrightarrow> ?L i \<noteq> []" if "inst_ok i" for i using t(2) that by (simp add: assigned_def)
  have nth: "?tbl ! unat i = (let e = tbl ! unat i in if ip_is_used e then e\<lparr>ip_expected_num := ip_count e\<rparr> else e)" if "inst_ok i" for i
    using that tbl_repD(2) [OF rep] by (simp add: inst_ok_lt Let_def)
  have rep': "tbl_rep m ?tbl ?L"
    by (rule tbl_rep_entries [OF rep]) (simp_all add: nth Let_def)
  have all: "\<exists>i. inst_ok i \<and> ip_is_used (?tbl ! unat i) \<and> p \<in> set (?L i)" if "unat p < DRC_MAX_PART_NUM" for p
  proof -
    let ?i = "ids ! (unat p mod n)"
    have "unat p mod n < length ids" using mod_less_divisor [OF ids(2), of "unat p"] ids(3) by (rule less_le_trans)
    then have i: "inst_ok ?i" using ids(4) by (simp add: list_all_length)
    have "unat p \<in> set (filter (\<lambda>p. ids ! (p mod n) = ?i) [0..<DRC_MAX_PART_NUM])" using that by simp
    then have "p \<in> set (?L ?i)" unfolding first_parts_def set_map by (rule rev_image_eqI) simp
    moreover have "ip_is_used (?tbl ! unat ?i)" using used [OF i] nth [OF i] calculation by (auto simp: Let_def)
    ultimately show ?thesis using i by blast
  qed
  have "table_ok m ?tbl ?L"
    using rep' all used nth by (auto simp: table_ok_def Let_def split: if_splits)
  moreover have "drc_part_init ids inst_num zero_part_mngr = Some (zero_part_mngr\<lparr>pm_part_map := m, pm_inst_num := inst_num,
      pm_version := 1, pm_remaster_status := REMASTER_DONE, pm_is_reentrant := True, pm_mgrt_fail_list := False,
      pm_inst_part_tbl := ?tbl, pm_inited := True\<rparr>)"
    unfolding drc_part_init_def using ne t(1) by (simp add: zero_part_mngr_def)
  moreover have "\<forall>j. inst_ok j \<longrightarrow> (ip_is_used (?tbl ! unat j) \<longleftrightarrow> ?L j \<noteq> [])" using used nth by (simp add: Let_def)
  ultimately show ?thesis by simp
qed

text \<open>The master of a partition is the instance that has it in its list.\<close>

lemma table_master:
  assumes "table_ok part_map tbl L" and "unat p < DRC_MAX_PART_NUM"
  shows "p \<in> set (L (pt_inst_id (part_map ! unat p)))" "inst_ok (pt_inst_id (part_map ! unat p))"
    "ip_is_used (tbl ! unat (pt_inst_id (part_map ! unat p)))"
proof -
  obtain i where i: "inst_ok i" "ip_is_used (tbl ! unat i)" "p \<in> set (L i)" using assms by (auto simp: table_ok_def)
  moreover have "pt_inst_id (part_map ! unat p) = i" using tbl_repD(6) [where L = L, OF _ i(3)] assms(1) by (auto simp: table_ok_def)
  ultimately show "p \<in> set (L (pt_inst_id (part_map ! unat p)))" "inst_ok (pt_inst_id (part_map ! unat p))"
    "ip_is_used (tbl ! unat (pt_inst_id (part_map ! unat p)))" by simp_all
qed

end
