(* ===== verification/Drc_Init.thy ===== *)
theory Drc_Init
  imports Page_Handlers Lock_Protocol Drc_Local Fdsa Part_Table
begin

text \<open>
  The whole of an instance: its catalogue of resources, its local maps, its partition table and the deposits of the
  instances. Its initialisation leaves it empty with the invariants of all parts, and a failed one gives the
  memory back; a reform sets the deposits.
\<close>

subsection \<open>The whole of an instance\<close>

text \<open>The members of \<^verbatim>\<open>drc_res_ctx_t\<close>; \<open>in_ctx\<close> holds the global resources and the counters.\<close>

record drc_instance =
  in_ctx :: drc_res_ctx
  in_local_lock_map :: local_lock_map
  in_txn_res_map :: txn_map
  in_local_txn_map :: txn_map
  in_local_io_map :: io_map
  in_part_mngr :: drc_part_mngr
  in_deposit_map :: "u32 list"
  in_instance_num :: u8

definition zero_global_res :: "('k, 'a) drc_global_res" where
  "zero_global_res = \<lparr>gr_res_map = zero_res_map,
     gr_res_parts = replicate DRC_MAX_PART_NUM \<lparr>dl_first = 0, dl_last = 0, dl_count = 0\<rparr>\<rparr>"

definition zero_ctx :: drc_res_ctx where
  "zero_ctx = \<lparr>rc_lock_item_pool = zero_res_pool, rc_global_buf_res = zero_global_res,
     rc_global_lock_res = zero_global_res, rc_stat_info = (\<lambda>_. 0), rc_converting_page_cnt = 0,
     rc_clean_page_cnt = 0, rc_clean_lock_cnt = 0, rc_clean_convert_cnt = 0, rc_sent = []\<rparr>"

definition zero_instance :: drc_instance where
  "zero_instance = \<lparr>in_ctx = zero_ctx, in_local_lock_map = zero_res_map, in_txn_res_map = zero_res_map,
     in_local_txn_map = zero_res_map, in_local_io_map = zero_res_map, in_part_mngr = zero_part_mngr,
     in_deposit_map = replicate OG_MAX_INSTANCES 0, in_instance_num = 0\<rparr>"

subsection \<open>Deposits\<close>

definition drc_deposit_map_init :: "drc_instance \<Rightarrow> drc_instance" where
  "drc_deposit_map_init ogx = ogx\<lparr>in_deposit_map := map of_nat [0..<OG_MAX_INSTANCES]\<rparr>"

definition drc_get_deposit_id :: "u8 \<Rightarrow> drc_instance \<Rightarrow> u8 option" where
  "drc_get_deposit_id inst_id ogx =
     (if unat inst_id > OG_MAX_INSTANCES then Some OG_INVALID_ID8
      else map_option ucast (rd (in_deposit_map ogx) inst_id))"

definition drc_set_deposit_id :: "u8 \<Rightarrow> u8 \<Rightarrow> drc_instance \<Rightarrow> drc_instance option" where
  "drc_set_deposit_id inst_id deposit_id ogx = do {
     deposit_map \<leftarrow> wr (in_deposit_map ogx) inst_id (ucast deposit_id);
     Some (ogx\<lparr>in_deposit_map := deposit_map\<rparr>)
   }"

text \<open>The loops over the lists of a reform: \<open>target\<close> gives the deposit of an instance of the list.\<close>

fun drc_set_deposits :: "(u8 \<Rightarrow> u8) \<Rightarrow> u8 list \<Rightarrow> nat \<Rightarrow> nat \<Rightarrow> drc_instance \<Rightarrow> drc_instance option" where
  "drc_set_deposits target ids i 0 ogx = Some ogx"
| "drc_set_deposits target ids i (Suc n) ogx = do {
     inst_id \<leftarrow> rd ids (of_nat i :: u32);
     ogx \<leftarrow> drc_set_deposit_id inst_id (target inst_id) ogx;
     drc_set_deposits target ids (Suc i) n ogx
   }"

definition deposit_list :: "(u8 \<Rightarrow> u8) \<Rightarrow> instance_list \<Rightarrow> drc_instance \<Rightarrow> drc_instance option" where
  "deposit_list target l ogx = drc_set_deposits target (il_inst_id_list l) 0 (unat (il_inst_id_count l)) ogx"

definition drc_remaster_inst_list :: "reform_info \<Rightarrow> drc_instance \<Rightarrow> drc_instance option" where
  "drc_remaster_inst_list info ogx = do {
     ogx \<leftarrow> deposit_list (\<lambda>_. rf_master_id info) (rf_leave info) ogx;
     ogx \<leftarrow> deposit_list (\<lambda>_. rf_master_id info) (rf_abort info) ogx;
     ogx \<leftarrow> deposit_list (\<lambda>inst_id. inst_id) (rf_join info) ogx;
     deposit_list (\<lambda>_. rf_master_id info) (rf_fail info) ogx
   }"

fun drc_onemaster_inst_list :: "u8 \<Rightarrow> u8 list \<Rightarrow> drc_instance \<Rightarrow> drc_instance option" where
  "drc_onemaster_inst_list master_id [] ogx = Some ogx"
| "drc_onemaster_inst_list master_id (inst_id # ids) ogx = do {
     ogx \<leftarrow> drc_set_deposit_id inst_id master_id ogx;
     drc_onemaster_inst_list master_id ids ogx
   }"

definition drc_start_one_master :: "u8 \<Rightarrow> u32 \<Rightarrow> drc_instance \<Rightarrow> drc_instance option" where
  "drc_start_one_master self_id node_count ogx = do {
     let ogx = ogx\<lparr>in_instance_num := 1\<rparr>;
     part_mngr \<leftarrow> drc_part_init [self_id] (in_instance_num ogx) (in_part_mngr ogx);
     drc_onemaster_inst_list self_id (map of_nat [0..<unat (ucast node_count :: u8)])
       (ogx\<lparr>in_part_mngr := part_mngr\<rparr>)
   }"

subsection \<open>Initialisation and destruction\<close>

definition SIZE_M4 :: u64 where
  "SIZE_M4 = 4 * 1024 * 1024"

definition DRC_DEFAULT_BUF_RES_NUM :: "u64 \<Rightarrow> u32 \<Rightarrow> u64" where
  "DRC_DEFAULT_BUF_RES_NUM data_buf_size page_size = max ((data_buf_size div ucast page_size) * 2) SIZE_M4"

text \<open>
  The parameters of the instance: sizes, which of the allocations succeed, whether operations are watched
  (and the result of starting the watch), whether there is a cluster manager, and the result of
  starting the recycle thread. \<open>ie_dls_res_count\<close> is the result of \<^verbatim>\<open>drc_cal_dls_res_count\<close>, an estimate from
  the sizes of kernel structures in floating-point arithmetic.
\<close>

record init_env =
  ie_max_sessions :: u32
  ie_node_count :: u32
  ie_data_buf_size :: u64
  ie_page_size :: u32
  ie_dls_res_count :: u64
  ie_sizeof_lock_item :: u64
  ie_sizeof_buf_res :: u64
  ie_sizeof_master_res :: u64
  ie_sizeof_local_lock :: u64
  ie_sizeof_txn :: u64
  ie_sizeof_io :: u64
  ie_malloc :: "nat \<Rightarrow> bool"
  ie_fdsa :: bool
  ie_init_fdsa :: status_t
  ie_no_cms :: bool
  ie_create_thread :: status_t

definition drc_stat_init :: "bool \<Rightarrow> drc_res_ctx \<Rightarrow> status_t \<times> drc_res_ctx" where
  "drc_stat_init malloc_ok c =
     (if malloc_ok then OG_SUCCESS else OG_ERROR,
      c\<lparr>rc_stat_info := (\<lambda>_. 0), rc_clean_page_cnt := 0, rc_clean_lock_cnt := 0, rc_clean_convert_cnt := 0\<rparr>)"

definition drc_stat_res_destroy :: "drc_res_ctx \<Rightarrow> drc_res_ctx" where
  "drc_stat_res_destroy c = c\<lparr>rc_clean_page_cnt := 0, rc_clean_lock_cnt := 0, rc_clean_convert_cnt := 0\<rparr>"

definition drc_destroy :: "drc_instance \<Rightarrow> drc_instance" where
  "drc_destroy ogx =
     (let c = in_ctx ogx in
      ogx\<lparr>in_local_txn_map := drc_res_map_destroy (in_local_txn_map ogx),
        in_txn_res_map := drc_res_map_destroy (in_txn_res_map ogx),
        in_local_lock_map := drc_res_map_destroy (in_local_lock_map ogx),
        in_ctx := drc_stat_res_destroy (c\<lparr>
          rc_global_lock_res := drc_global_res_destroy (rc_global_lock_res c),
          rc_global_buf_res := drc_global_res_destroy (rc_global_buf_res c),
          rc_lock_item_pool := drc_res_pool_destroy (rc_lock_item_pool c)\<rparr>)\<rparr>)"

definition drc_io_init :: "init_env \<Rightarrow> drc_instance \<Rightarrow> (status_t \<times> drc_instance) option" where
  "drc_io_init e ogx =
     (if \<not> ie_fdsa e then Some (OG_SUCCESS, ogx)
      else do {
        (ret, m) \<leftarrow> drc_res_map_init (ie_malloc e 3) (ie_malloc e 4)
          \<lparr>bh_next = 0, lr_idx = 0, li_io_id = \<lparr>io_fdsa_type = 0, io_no = 0\<rparr>, li_start_time = 0\<rparr>
          (in_local_io_map ogx) (ie_max_sessions e) (ie_sizeof_io e) is_same_io;
        let ogx = ogx\<lparr>in_local_io_map := m\<rparr>;
        if ret \<noteq> OG_SUCCESS then Some (OG_ERROR, drc_destroy ogx)
        else if ie_init_fdsa e \<noteq> OG_SUCCESS then Some (OG_ERROR, drc_destroy ogx)
        else Some (OG_SUCCESS, ogx)
      })"

text \<open>The local maps: locks, transactions that others wait for, and transactions waited for here.\<close>

definition drc_local_init :: "init_env \<Rightarrow> drc_instance \<Rightarrow> (status_t \<times> drc_instance) option" where
  "drc_local_init e ogx = do {
     (ret, m) \<leftarrow> drc_res_map_init (ie_malloc e 7) (ie_malloc e 8) zero_local_lock_res (in_local_lock_map ogx)
       (ucast (ie_dls_res_count e)) (ie_sizeof_local_lock e) is_same_local_lock;
     let ogx = ogx\<lparr>in_local_lock_map := m\<rparr>;
     if ret \<noteq> OG_SUCCESS then Some (OG_ERROR, drc_destroy ogx)
     else do {
       let item_num = ie_max_sessions e * ie_node_count e;
       (ret, m) \<leftarrow> drc_res_map_init (ie_malloc e 9) (ie_malloc e 10) zero_txn_res (in_txn_res_map ogx)
         item_num (ie_sizeof_txn e) is_same_txn;
       let ogx = ogx\<lparr>in_txn_res_map := m\<rparr>;
       if ret \<noteq> OG_SUCCESS then Some (OG_ERROR, drc_destroy ogx)
       else do {
         (ret, m) \<leftarrow> drc_res_map_init (ie_malloc e 11) (ie_malloc e 12) zero_txn_res (in_local_txn_map ogx)
           item_num (ie_sizeof_txn e) is_same_txn;
         let ogx = ogx\<lparr>in_local_txn_map := m\<rparr>;
         if ret \<noteq> OG_SUCCESS then Some (OG_ERROR, drc_destroy ogx) else Some (OG_SUCCESS, ogx)
       }
     }
   }"

text \<open>The counters, the first partition table and the recycle thread.\<close>

definition drc_start :: "init_env \<Rightarrow> drc_instance \<Rightarrow> (status_t \<times> drc_instance) option" where
  "drc_start e ogx = do {
     let ogx = drc_deposit_map_init ogx;
     let (ret, c) = drc_stat_init (ie_malloc e 13) (in_ctx ogx);
     let ogx = ogx\<lparr>in_ctx := c\<rparr>;
     if ret \<noteq> OG_SUCCESS then Some (OG_ERROR, drc_destroy ogx)
     else do {
       part_mngr \<leftarrow> (if ie_no_cms e then drc_part_init [0] 1 (in_part_mngr ogx) else Some (in_part_mngr ogx));
       let ogx = ogx\<lparr>in_part_mngr := part_mngr\<rparr>;
       if ie_create_thread e \<noteq> OG_SUCCESS then Some (OG_ERROR, ogx) else Some (OG_SUCCESS, ogx)
     }
   }"

definition drc_page_init :: "init_env \<Rightarrow> drc_instance \<Rightarrow> (status_t \<times> drc_instance) option" where
  "drc_page_init e ogx = do {
     let buf_res_num = DRC_DEFAULT_BUF_RES_NUM (ie_data_buf_size e) (ie_page_size e);
     knl_panic (buf_res_num * 2 < ucast OG_INVALID_ID32);
     (ret, g) \<leftarrow> drc_global_res_init (ie_malloc e 1) (ie_malloc e 2) zero_buf_res
       (rc_global_buf_res (in_ctx ogx)) (ucast buf_res_num) (ie_sizeof_buf_res e) is_same_page;
     let ogx = ogx\<lparr>in_ctx := (in_ctx ogx)\<lparr>rc_global_buf_res := g\<rparr>\<rparr>;
     if ret \<noteq> OG_SUCCESS then Some (OG_ERROR, drc_destroy ogx) else Some (OG_SUCCESS, ogx)
   }"

definition drc_lock_init :: "init_env \<Rightarrow> drc_instance \<Rightarrow> (status_t \<times> drc_instance) option" where
  "drc_lock_init e ogx = do {
     let global_dls_res_count = ie_dls_res_count e * ucast (ie_node_count e);
     (ret, g) \<leftarrow> drc_global_res_init (ie_malloc e 5) (ie_malloc e 6) zero_master_res
       (rc_global_lock_res (in_ctx ogx)) (ucast global_dls_res_count) (ie_sizeof_master_res e) is_same_lock;
     let ogx = ogx\<lparr>in_ctx := (in_ctx ogx)\<lparr>rc_global_lock_res := g\<rparr>\<rparr>;
     if ret \<noteq> OG_SUCCESS then Some (OG_ERROR, drc_destroy ogx) else Some (OG_SUCCESS, ogx)
   }"

text \<open>Each part returns its error at once; the other parts run only after a success.\<close>

definition init_then :: "(status_t \<times> 'a) option \<Rightarrow> ('a \<Rightarrow> (status_t \<times> 'a) option) \<Rightarrow> (status_t \<times> 'a) option" where
  "init_then r f = do {
     (ret, ogx) \<leftarrow> r;
     if ret \<noteq> OG_SUCCESS then Some (OG_ERROR, ogx) else f ogx
   }"

definition drc_item_init :: "init_env \<Rightarrow> drc_instance \<Rightarrow> (status_t \<times> drc_instance) option" where
  "drc_item_init e ogx = do {
     (ret, pool) \<leftarrow> drc_res_pool_init (ie_malloc e 0) \<lparr>bh_next = 0, li_req_info = zero_req_info\<rparr>
       (rc_lock_item_pool (in_ctx ogx)) (ie_sizeof_lock_item e) (ie_max_sessions e * ie_node_count e * 2);
     Some (ret, ogx\<lparr>in_ctx := (in_ctx ogx)\<lparr>rc_lock_item_pool := pool\<rparr>\<rparr>)
   }"

definition drc_init :: "init_env \<Rightarrow> (status_t \<times> drc_instance) option" where
  "drc_init e =
     init_then (drc_item_init e zero_instance) (\<lambda>ogx.
     init_then (drc_page_init e ogx) (\<lambda>ogx.
     init_then (drc_io_init e ogx) (\<lambda>ogx.
     init_then (drc_lock_init e ogx) (\<lambda>ogx.
     init_then (drc_local_init e ogx) (\<lambda>ogx.
     drc_start e ogx)))))"

subsection \<open>A successful initialisation\<close>

definition sizes_ok :: "u64 \<Rightarrow> u32 \<Rightarrow> bool" where
  "sizes_ok item_size item_num \<longleftrightarrow> 4 \<le> item_size \<and> 0 < unat item_num \<and> unat item_size * unat item_num < 2 ^ 64"

text \<open>The parameters an instance can start with.\<close>

definition init_ok_env :: "init_env \<Rightarrow> bool" where
  "init_ok_env e \<longleftrightarrow>
     sizes_ok (ie_sizeof_lock_item e) (ie_max_sessions e * ie_node_count e * 2) \<and>
     DRC_DEFAULT_BUF_RES_NUM (ie_data_buf_size e) (ie_page_size e) * 2 < ucast OG_INVALID_ID32 \<and>
     sizes_ok (ie_sizeof_buf_res e) (ucast (DRC_DEFAULT_BUF_RES_NUM (ie_data_buf_size e) (ie_page_size e))) \<and>
     (ie_fdsa e \<longrightarrow> sizes_ok (ie_sizeof_io e) (ie_max_sessions e) \<and> ie_init_fdsa e = OG_SUCCESS) \<and>
     sizes_ok (ie_sizeof_master_res e) (ucast (ie_dls_res_count e * ucast (ie_node_count e))) \<and>
     sizes_ok (ie_sizeof_local_lock e) (ucast (ie_dls_res_count e)) \<and>
     sizes_ok (ie_sizeof_txn e) (ie_max_sessions e * ie_node_count e) \<and>
     (\<forall>i. ie_malloc e i) \<and> ie_create_thread e = OG_SUCCESS"

text \<open>An instance without resources: all maps are empty.\<close>

definition empty_instance :: "(u8 \<Rightarrow> u32) \<Rightarrow> drc_instance \<Rightarrow> bool" where
  "empty_instance promote ogx \<longleftrightarrow>
     ctx_ok promote (in_ctx ogx) (\<lambda>_. None) (\<lambda>_. None) {} {} {} \<and>
     st_rep (lock_hash promote) ll_res_id is_same_local_lock (in_local_lock_map ogx) (\<lambda>_. None) {} \<and>
     st_rep (txn_hash promote) tx_res_id is_same_txn (in_txn_res_map ogx) (\<lambda>_. None) {} \<and>
     st_rep (txn_hash promote) tx_res_id is_same_txn (in_local_txn_map ogx) (\<lambda>_. None) {}"

lemma zero_stores [simp]: "\<not> rm_inited zero_res_map" "\<not> rp_inited (rm_res_pool zero_res_map)" "\<not> rp_inited zero_res_pool"
  "\<not> rm_inited (gr_res_map zero_global_res)" "\<not> rp_inited (gr_pool zero_global_res)"
  by (simp_all add: zero_res_map_def zero_res_pool_def zero_global_res_def gr_pool_def)

lemma queues_none:
  assumes "pool_inv pool" and "pool_free pool = map of_nat [0..<unat (rp_item_num pool)]"
  shows "queues_ok pool (\<lambda>_. None) {}"
proof -
  have "\<not> pool_used pool i" for i
  proof
    assume "pool_used pool i"
    then have "unat i < unat (rp_item_num pool)" "i \<notin> of_nat ` {0..<unat (rp_item_num pool)}"
      using assms(2) by (simp_all add: pool_used_def pool_valid_def)
    moreover have "i = of_nat (unat i)" by simp
    ultimately show False by (metis atLeastLessThan_iff imageI le0)
  qed
  then show ?thesis using assms(1) by (simp add: queues_ok_def)
qed

lemma strip_link: "drc_res_pool_link mem i k = Some mem' \<Longrightarrow> map strip mem' = map strip mem"
  by (induction k arbitrary: mem i) (auto dest: strip_set_next split: Option.bind_splits)

lemma pool_init_ok:
  assumes "\<not> rp_inited p" and "sizes_ok item_size item_num"
  shows "\<exists>q. drc_res_pool_init True zero p item_size item_num = Some (OG_SUCCESS, q) \<and> pool_inv q \<and>
    pool_free q = map of_nat [0..<unat item_num] \<and> rp_item_num q = item_num"
  using init_ok [OF assms(1), of item_size item_num zero] assms(2) by (auto simp: sizes_ok_def)

lemma pool_init_contents:
  assumes "drc_res_pool_init True zero p item_size item_num = Some (OG_SUCCESS, q)" "pool_inv q" "0 < unat item_num"
  shows "rp_addr q \<noteq> [] \<and> set (map strip (rp_addr q)) \<subseteq> {strip zero}"
proof -
  obtain n where n: "rp_item_num q = item_num" "map strip (rp_addr q) = map strip (replicate n zero)"
    using assms(1) by (auto simp: drc_res_pool_init_def dest!: strip_link split: if_splits Option.bind_splits)
  have "length (rp_addr q) = unat item_num" using pool_inv_length [OF assms(2)] n(1) by simp
  then have "rp_addr q \<noteq> []" using assms(3) by auto
  moreover have "set (map strip (rp_addr q)) \<subseteq> {strip zero}" unfolding n(2) by auto
  ultimately show ?thesis by blast
qed

lemma global_init_facts:
  assumes g: "\<not> rm_inited (gr_res_map g)" "\<not> rp_inited (gr_pool g)" and s: "sizes_ok item_size pool_size"
  shows "\<exists>g'. drc_global_res_init True True zero g pool_size item_size cmp = Some (OG_SUCCESS, g') \<and>
    contents g' \<noteq> [] \<and> set (contents g') \<subseteq> {strip zero} \<and> pool_free (gr_pool g') = map of_nat [0..<unat pool_size]"
proof -
  obtain q where q: "drc_res_pool_init True zero (gr_pool g) item_size pool_size = Some (OG_SUCCESS, q)" "pool_inv q"
    "pool_free q = map of_nat [0..<unat pool_size]"
    using pool_init_ok [OF g(2) s] by blast
  have "rp_addr q \<noteq> [] \<and> set (map strip (rp_addr q)) \<subseteq> {strip zero}"
    using pool_init_contents [OF q(1,2)] s by (simp add: sizes_ok_def)
  then show ?thesis using init_eq [OF g(1) q(1), of cmp] q(3) by (simp add: contents_def gr_mem_def gr_pool_def)
qed

lemma used_ok_zero:
  assumes "bs \<noteq> []" and "set bs \<subseteq> {strip zero_buf_res}"
  shows "used_ok bs V"
proof -
  have "bs ! j = strip zero_buf_res" if "j < length bs" for j using assms(2) that nth_mem by blast
  then show ?thesis using assms(1) by (simp add: used_ok_def zero_buf_res_def)
qed

text \<open>A catalogue whose three parts have just been initialised is empty.\<close>

lemma ctx_init_ok:
  assumes "page_dir.rep (rc_global_buf_res c) (\<lambda>_. None) {}" "used_ok (contents (rc_global_buf_res c)) (\<lambda>_. None)"
    and "lock_dir.rep promote (rc_global_lock_res c) (\<lambda>_. None) {}" "queues_ok (rc_lock_item_pool c) (\<lambda>_ :: page_id + drid. None) {}"
  shows "ctx_ok promote c (\<lambda>_. None) (\<lambda>_. None) {} {} {}"
proof -
  have "cvt_queues (\<lambda>_. None) (\<lambda>_. None) = (\<lambda>_ :: page_id + drid. None)" by (auto simp: cvt_queues_def fun_eq_iff split: sum.splits)
  then show ?thesis using assms by (simp add: ctx_ok_def ctx_rep_def)
qed

lemma page_init_ok:
  assumes "sizes_ok item_size pool_size"
  shows "\<exists>g. drc_global_res_init True True zero_buf_res zero_global_res pool_size item_size is_same_page = Some (OG_SUCCESS, g) \<and>
    page_dir.rep g (\<lambda>_. None) {} \<and> used_ok (contents g) V \<and> pool_free (gr_pool g) = map of_nat [0..<unat pool_size]"
proof -
  obtain g where g: "drc_global_res_init True True zero_buf_res zero_global_res pool_size item_size is_same_page = Some (OG_SUCCESS, g)"
    "page_dir.rep g (\<lambda>_. None) {}"
    using page_dir.rep_init [of zero_global_res item_size pool_size zero_buf_res] assms by (auto simp: sizes_ok_def)
  then show ?thesis
    using global_init_facts [OF zero_stores(4,5) assms, of zero_buf_res is_same_page] used_ok_zero by auto
qed

lemma lock_init_ok:
  assumes "sizes_ok item_size pool_size"
  shows "\<exists>g. drc_global_res_init True True zero_master_res zero_global_res pool_size item_size is_same_lock = Some (OG_SUCCESS, g) \<and>
    lock_dir.rep promote g (\<lambda>_. None) {} \<and> pool_free (gr_pool g) = map of_nat [0..<unat pool_size]"
proof -
  obtain g where g: "drc_global_res_init True True zero_master_res zero_global_res pool_size item_size is_same_lock = Some (OG_SUCCESS, g)"
    "lock_dir.rep promote g (\<lambda>_. None) {}"
    using lock_dir.rep_init [of zero_global_res item_size pool_size zero_master_res promote] assms by (auto simp: sizes_ok_def)
  then show ?thesis
    using global_init_facts [OF zero_stores(4,5) assms, of zero_master_res is_same_lock] by auto
qed

lemma local_maps_ok:
  assumes "sizes_ok (ie_sizeof_local_lock e) (ucast (ie_dls_res_count e))"
    and "sizes_ok (ie_sizeof_txn e) (ie_max_sessions e * ie_node_count e)" "\<And>i. ie_malloc e i"
    and "in_local_lock_map ogx = zero_res_map" "in_txn_res_map ogx = zero_res_map" "in_local_txn_map ogx = zero_res_map"
  shows "\<exists>l t w. drc_local_init e ogx =
      Some (OG_SUCCESS, ogx\<lparr>in_local_lock_map := l, in_txn_res_map := t, in_local_txn_map := w\<rparr>) \<and>
    local_locks.srep promote l (\<lambda>_. None) {} \<and> txns.srep promote t (\<lambda>_. None) {} \<and> txns.srep promote w (\<lambda>_. None) {}"
proof -
  obtain l where l: "drc_res_map_init True True zero_local_lock_res zero_res_map (ucast (ie_dls_res_count e))
      (ie_sizeof_local_lock e) is_same_local_lock = Some (OG_SUCCESS, l)" "local_locks.srep promote l (\<lambda>_. None) {}"
    using local_locks.srep_init [of zero_res_map "ie_sizeof_local_lock e" "ucast (ie_dls_res_count e)" zero_local_lock_res promote]
      assms(1) by (auto simp: sizes_ok_def)
  obtain t where t: "drc_res_map_init True True zero_txn_res zero_res_map (ie_max_sessions e * ie_node_count e)
      (ie_sizeof_txn e) is_same_txn = Some (OG_SUCCESS, t)" "txns.srep promote t (\<lambda>_. None) {}"
    using txns.srep_init [of zero_res_map "ie_sizeof_txn e" "ie_max_sessions e * ie_node_count e" zero_txn_res promote]
      assms(2) by (auto simp: sizes_ok_def)
  show ?thesis
    using l t assms(3-) by (auto simp: drc_local_init_def Let_def)
qed

lemma io_init_ok:
  assumes "ie_fdsa e \<Longrightarrow> sizes_ok (ie_sizeof_io e) (ie_max_sessions e) \<and> ie_init_fdsa e = OG_SUCCESS" "\<And>i. ie_malloc e i"
    and "in_local_io_map ogx = zero_res_map"
  shows "\<exists>m. drc_io_init e ogx = Some (OG_SUCCESS, ogx\<lparr>in_local_io_map := m\<rparr>) \<and>
    (ie_fdsa e \<longrightarrow> ios.srep m (\<lambda>_. None) {})"
proof (cases "ie_fdsa e")
  case True
  then have s: "sizes_ok (ie_sizeof_io e) (ie_max_sessions e)" "ie_init_fdsa e = OG_SUCCESS" using assms(1) by simp_all
  let ?z = "\<lparr>bh_next = 0, lr_idx = 0, li_io_id = \<lparr>io_fdsa_type = 0, io_no = 0\<rparr>, li_start_time = 0\<rparr> :: drc_local_io"
  obtain m where "drc_res_map_init True True ?z zero_res_map (ie_max_sessions e) (ie_sizeof_io e) is_same_io = Some (OG_SUCCESS, m)"
    "ios.srep m (\<lambda>_. None) {}"
    using ios.srep_init [of zero_res_map "ie_sizeof_io e" "ie_max_sessions e" ?z] s(1) by (auto simp: sizes_ok_def)
  then show ?thesis using True s assms(2,3) by (auto simp: drc_io_init_def Let_def)
next
  case False
  then show ?thesis using assms(3) by (auto simp: drc_io_init_def intro!: exI [of _ "in_local_io_map ogx"])
qed

lemma start_ok:
  assumes "\<And>i. ie_malloc e i" "ie_create_thread e = OG_SUCCESS" "in_part_mngr ogx = zero_part_mngr"
  shows "\<exists>ogx'. drc_start e ogx = Some (OG_SUCCESS, ogx') \<and> same_stores (in_ctx ogx) (in_ctx ogx') \<and>
    in_local_lock_map ogx' = in_local_lock_map ogx \<and> in_txn_res_map ogx' = in_txn_res_map ogx \<and>
    in_local_txn_map ogx' = in_local_txn_map ogx \<and> in_deposit_map ogx' = map of_nat [0..<OG_MAX_INSTANCES] \<and>
    (ie_no_cms e \<longrightarrow> (\<exists>L. table_ok (pm_part_map (in_part_mngr ogx')) (pm_inst_part_tbl (in_part_mngr ogx')) L \<and>
       (\<forall>i. L i \<noteq> [] \<longrightarrow> i = 0)))"
proof -
  obtain pm where pm: "drc_part_init [0] 1 zero_part_mngr = Some pm"
    "table_ok (pm_part_map pm) (pm_inst_part_tbl pm) (first_parts [0] 1 DRC_MAX_PART_NUM)"
    using part_init_ok [of 1 1 "[0]"] by (auto simp: inst_ok_def OG_MAX_INSTANCES_def)
  have "first_parts [0] 1 DRC_MAX_PART_NUM i \<noteq> [] \<Longrightarrow> i = 0" for i by (auto simp: first_parts_def filter_empty_conv)
  then show ?thesis
    using pm assms
    by (cases "ie_no_cms e")
      (auto simp: drc_start_def drc_stat_init_def drc_deposit_map_init_def Let_def same_stores_def same_dirs_def)
qed

lemma init_ok_empty:
  assumes e: "init_ok_env e"
  shows "\<exists>ogx. drc_init e = Some (OG_SUCCESS, ogx) \<and> empty_instance promote ogx \<and>
    in_deposit_map ogx = map of_nat [0..<OG_MAX_INSTANCES] \<and>
    pool_free (gr_pool (rc_global_buf_res (in_ctx ogx))) \<noteq> [] \<and> pool_free (gr_pool (rc_global_lock_res (in_ctx ogx))) \<noteq> [] \<and>
    pool_free (rc_lock_item_pool (in_ctx ogx)) \<noteq> [] \<and>
    (ie_no_cms e \<longrightarrow> (\<exists>L. table_ok (pm_part_map (in_part_mngr ogx)) (pm_inst_part_tbl (in_part_mngr ogx)) L \<and>
       (\<forall>i. L i \<noteq> [] \<longrightarrow> i = 0)))"
proof -
  define n where "n = DRC_DEFAULT_BUF_RES_NUM (ie_data_buf_size e) (ie_page_size e)"
  define k :: u32 where "k = ucast (ie_dls_res_count e * ucast (ie_node_count e))"
  have s: "sizes_ok (ie_sizeof_lock_item e) (ie_max_sessions e * ie_node_count e * 2)"
    "n * 2 < ucast OG_INVALID_ID32" "sizes_ok (ie_sizeof_buf_res e) (ucast n)" "sizes_ok (ie_sizeof_master_res e) k"
    "ie_fdsa e \<Longrightarrow> sizes_ok (ie_sizeof_io e) (ie_max_sessions e) \<and> ie_init_fdsa e = OG_SUCCESS"
    "sizes_ok (ie_sizeof_local_lock e) (ucast (ie_dls_res_count e))"
    "sizes_ok (ie_sizeof_txn e) (ie_max_sessions e * ie_node_count e)" "\<And>i. ie_malloc e i" "ie_create_thread e = OG_SUCCESS"
    using e unfolding init_ok_env_def n_def k_def by simp_all
  obtain q where q: "drc_res_pool_init True \<lparr>bh_next = 0, li_req_info = zero_req_info\<rparr> zero_res_pool (ie_sizeof_lock_item e)
      (ie_max_sessions e * ie_node_count e * 2) = Some (OG_SUCCESS, q)" "queues_ok q (\<lambda>_ :: page_id + drid. None) {}"
    "pool_free q = map of_nat [0..<unat (ie_max_sessions e * ie_node_count e * 2)]"
    using pool_init_ok [OF zero_stores(3) s(1)] queues_none by metis
  obtain g where g: "drc_global_res_init True True zero_buf_res zero_global_res (ucast n) (ie_sizeof_buf_res e) is_same_page = Some (OG_SUCCESS, g)"
    "page_dir.rep g (\<lambda>_. None) {}" "used_ok (contents g) (\<lambda>_. None)"
    "pool_free (gr_pool g) = map of_nat [0..<unat (ucast n :: u32)]"
    using page_init_ok [OF s(3), of "\<lambda>_. None"] by blast
  obtain h where h: "drc_global_res_init True True zero_master_res zero_global_res k (ie_sizeof_master_res e) is_same_lock = Some (OG_SUCCESS, h)"
    "lock_dir.rep promote h (\<lambda>_. None) {}" "pool_free (gr_pool h) = map of_nat [0..<unat k]"
    using lock_init_ok [OF s(4)] by blast
  define c where "c = zero_ctx\<lparr>rc_lock_item_pool := q, rc_global_buf_res := g\<rparr>"
  obtain m where m: "drc_io_init e (zero_instance\<lparr>in_ctx := c\<rparr>) = Some (OG_SUCCESS, zero_instance\<lparr>in_ctx := c, in_local_io_map := m\<rparr>)"
    using io_init_ok [OF s(5,8), of "zero_instance\<lparr>in_ctx := c\<rparr>"] by (auto simp: zero_instance_def)
  define i1 where "i1 = zero_instance\<lparr>in_ctx := c\<lparr>rc_global_lock_res := h\<rparr>, in_local_io_map := m\<rparr>"
  obtain l t w where l: "drc_local_init e i1 = Some (OG_SUCCESS, i1\<lparr>in_local_lock_map := l, in_txn_res_map := t, in_local_txn_map := w\<rparr>)"
    "local_locks.srep promote l (\<lambda>_. None) {}" "txns.srep promote t (\<lambda>_. None) {}" "txns.srep promote w (\<lambda>_. None) {}"
    using local_maps_ok [OF s(6,7,8), of i1 promote] by (auto simp: i1_def zero_instance_def)
  define i2 where "i2 = i1\<lparr>in_local_lock_map := l, in_txn_res_map := t, in_local_txn_map := w\<rparr>"
  have i2: "in_ctx i2 = c\<lparr>rc_global_lock_res := h\<rparr>" "in_part_mngr i2 = zero_part_mngr" "in_local_lock_map i2 = l"
    "in_txn_res_map i2 = t" "in_local_txn_map i2 = w"
    by (simp_all add: i2_def i1_def zero_instance_def)
  obtain ogx where o: "drc_start e i2 = Some (OG_SUCCESS, ogx)" "same_stores (in_ctx i2) (in_ctx ogx)"
    "in_local_lock_map ogx = l" "in_txn_res_map ogx = t" "in_local_txn_map ogx = w"
    "in_deposit_map ogx = map of_nat [0..<OG_MAX_INSTANCES]"
    "ie_no_cms e \<longrightarrow> (\<exists>L. table_ok (pm_part_map (in_part_mngr ogx)) (pm_inst_part_tbl (in_part_mngr ogx)) L \<and> (\<forall>i. L i \<noteq> [] \<longrightarrow> i = 0))"
    using start_ok [OF s(8,9) i2(2)] i2(3-) by auto
  have "ctx_ok promote (in_ctx i2) (\<lambda>_. None) (\<lambda>_. None) {} {} {}"
    by (rule ctx_init_ok) (use g q h in \<open>simp_all add: i2 c_def\<close>)
  then have "ctx_ok promote (in_ctx ogx) (\<lambda>_. None) (\<lambda>_. None) {} {} {}" by (rule ctx_ok_cong [OF _ o(2)])
  then have "empty_instance promote ogx" using l o(3-5) by (simp add: empty_instance_def)
  moreover have "drc_init e = drc_start e i2"
    using q(1) s(2) g(1) m h(1) l(1) s(8)
    by (simp add: drc_init_def init_then_def drc_item_init_def drc_page_init_def drc_lock_init_def Let_def knl_panic_def n_def [symmetric] k_def [symmetric] i2_def i1_def c_def zero_instance_def zero_ctx_def)
  moreover have "pool_free (gr_pool (rc_global_buf_res (in_ctx ogx))) \<noteq> []" "pool_free (gr_pool (rc_global_lock_res (in_ctx ogx))) \<noteq> []"
    "pool_free (rc_lock_item_pool (in_ctx ogx)) \<noteq> []"
    using o(2) g(4) h(3) q(3) s(1,3,4) by (simp_all add: same_stores_def same_dirs_def i2 c_def sizes_ok_def)
  ultimately show ?thesis using o by auto
qed

subsection \<open>A failed initialisation\<close>

definition pool_managed :: "'a drc_res_pool \<Rightarrow> bool" where
  "pool_managed p \<longleftrightarrow> rp_inited p \<or> rp_addr p = []"

definition map_freed :: "('k, 'a) drc_res_map \<Rightarrow> bool" where
  "map_freed m \<longleftrightarrow> rm_buckets m = [] \<and> rp_addr (rm_res_pool m) = []"

definition map_managed :: "('k, 'a) drc_res_map \<Rightarrow> bool" where
  "map_managed m \<longleftrightarrow> (if rm_inited m then rp_inited (rm_res_pool m) else map_freed m)"

text \<open>No memory is left but that of the map of watched operations, if there is one.\<close>

definition instance_freed :: "drc_instance \<Rightarrow> bool" where
  "instance_freed ogx \<longleftrightarrow> rp_addr (rc_lock_item_pool (in_ctx ogx)) = [] \<and>
     map_freed (gr_res_map (rc_global_buf_res (in_ctx ogx))) \<and> map_freed (gr_res_map (rc_global_lock_res (in_ctx ogx))) \<and>
     map_freed (in_local_lock_map ogx) \<and> map_freed (in_txn_res_map ogx) \<and> map_freed (in_local_txn_map ogx)"

definition instance_managed :: "drc_instance \<Rightarrow> bool" where
  "instance_managed ogx \<longleftrightarrow> pool_managed (rc_lock_item_pool (in_ctx ogx)) \<and>
     map_managed (gr_res_map (rc_global_buf_res (in_ctx ogx))) \<and> map_managed (gr_res_map (rc_global_lock_res (in_ctx ogx))) \<and>
     map_managed (in_local_lock_map ogx) \<and> map_managed (in_txn_res_map ogx) \<and> map_managed (in_local_txn_map ogx)"

lemma pool_destroy_freed: "pool_managed p \<Longrightarrow> rp_addr (drc_res_pool_destroy p) = []"
  by (auto simp: pool_managed_def drc_res_pool_destroy_def)

lemma map_destroy_freed: "map_managed m \<Longrightarrow> map_freed (drc_res_map_destroy m)"
  by (auto simp: map_managed_def map_freed_def drc_res_map_destroy_def pool_managed_def intro!: pool_destroy_freed split: if_splits)

lemma destroy_freed: "instance_managed ogx \<Longrightarrow> instance_freed (drc_destroy ogx)"
  by (simp add: instance_managed_def instance_freed_def drc_destroy_def drc_stat_res_destroy_def drc_global_res_destroy_def
      Let_def map_destroy_freed pool_destroy_freed)

lemma pool_init_managed: "drc_res_pool_init b zero zero_res_pool s n = Some (ret, p) \<Longrightarrow>
    (if ret = OG_SUCCESS then rp_inited p else rp_addr p = [])"
  by (auto simp: drc_res_pool_init_def zero_res_pool_def split: if_splits Option.bind_splits)

lemma map_init_managed:
  assumes "drc_res_map_init a b zero zero_res_map n s cmp = Some (ret, m)"
  shows "map_managed m"
proof (cases a)
  case False
  then show ?thesis
    using assms by (auto simp: drc_res_map_init_def zero_res_map_def map_managed_def map_freed_def zero_res_pool_def)
next
  case True
  then obtain r p where p: "drc_res_pool_init b zero zero_res_pool s n = Some (r, p)"
    using assms by (auto simp: drc_res_map_init_def zero_res_map_def Let_def split: Option.bind_splits)
  then show ?thesis
    using assms True pool_init_managed [OF p]
    by (auto simp: drc_res_map_init_def zero_res_map_def Let_def map_managed_def map_freed_def split: if_splits)
qed

lemma global_init_managed:
  "drc_global_res_init a b zero zero_global_res n s cmp = Some (ret, g) \<Longrightarrow> map_managed (gr_res_map g)"
  by (auto simp: drc_global_res_init_def zero_global_res_def dest: map_init_managed split: Option.bind_splits)

lemma zero_map_freed [simp]: "map_freed zero_res_map" "map_freed (gr_res_map zero_global_res)"
  by (simp_all add: zero_global_res_def zero_res_map_def map_freed_def zero_res_pool_def)

lemma zero_managed [simp]: "map_managed zero_res_map" "map_managed (gr_res_map zero_global_res)"
  by (simp_all add: zero_global_res_def zero_res_map_def map_managed_def map_freed_def zero_res_pool_def)

lemma zero_instance_managed: "instance_managed zero_instance"
  by (simp add: instance_managed_def zero_instance_def zero_ctx_def pool_managed_def zero_res_pool_def)

text \<open>A part of the initialisation leaves an instance with \<open>P\<close> or, when it fails, without memory.\<close>

definition part_managed :: "(drc_instance \<Rightarrow> bool) \<Rightarrow> (status_t \<times> drc_instance) option \<Rightarrow> bool" where
  "part_managed P r \<longleftrightarrow> (\<forall>ret ogx. r = Some (ret, ogx) \<longrightarrow> (if ret = OG_SUCCESS then P ogx else instance_freed ogx))"

lemma part_managed_then:
  assumes "part_managed P r" and "\<And>ogx. P ogx \<Longrightarrow> part_managed Q (f ogx)"
  shows "part_managed Q (init_then r f)"
  using assms by (auto simp: part_managed_def init_then_def split: if_splits Option.bind_splits)

definition no_local_maps :: "drc_instance \<Rightarrow> bool" where
  "no_local_maps ogx \<longleftrightarrow> instance_managed ogx \<and> in_local_lock_map ogx = zero_res_map \<and>
     in_txn_res_map ogx = zero_res_map \<and> in_local_txn_map ogx = zero_res_map"

definition no_locks :: "drc_instance \<Rightarrow> bool" where
  "no_locks ogx \<longleftrightarrow> no_local_maps ogx \<and> rc_global_lock_res (in_ctx ogx) = zero_global_res"

lemma item_init_managed: "part_managed (\<lambda>ogx. no_locks ogx \<and> rc_global_buf_res (in_ctx ogx) = zero_global_res) (drc_item_init e zero_instance)"
  by (auto simp: part_managed_def drc_item_init_def no_locks_def no_local_maps_def instance_managed_def instance_freed_def pool_managed_def
      zero_instance_def zero_ctx_def zero_map_freed dest!: pool_init_managed split: Option.bind_splits)

lemma page_init_managed:
  assumes "no_locks ogx" "rc_global_buf_res (in_ctx ogx) = zero_global_res"
  shows "part_managed no_locks (drc_page_init e ogx)"
  using assms
  by (auto simp: part_managed_def drc_page_init_def no_locks_def no_local_maps_def instance_managed_def Let_def
      intro!: destroy_freed dest!: global_init_managed split: if_splits Option.bind_splits)

lemma io_init_managed:
  assumes "no_locks ogx"
  shows "part_managed no_locks (drc_io_init e ogx)"
proof -
  have "no_locks (ogx\<lparr>in_local_io_map := m\<rparr>)" for m
    using assms by (simp add: no_locks_def no_local_maps_def instance_managed_def)
  then show ?thesis
    using assms
    by (auto simp: part_managed_def drc_io_init_def Let_def no_locks_def no_local_maps_def intro!: destroy_freed
        split: if_splits Option.bind_splits)
qed

lemma lock_init_managed:
  assumes "no_locks ogx"
  shows "part_managed no_local_maps (drc_lock_init e ogx)"
  using assms
  by (auto simp: part_managed_def drc_lock_init_def no_locks_def no_local_maps_def instance_managed_def Let_def
      intro!: destroy_freed dest!: global_init_managed split: if_splits Option.bind_splits)

lemma local_init_managed:
  assumes i: "no_local_maps ogx"
  shows "part_managed instance_managed (drc_local_init e ogx)"
proof -
  have m: "instance_managed ogx" and z: "in_local_lock_map ogx = zero_res_map" "in_txn_res_map ogx = zero_res_map"
    "in_local_txn_map ogx = zero_res_map"
    using i by (simp_all add: no_local_maps_def)
  have "instance_managed (ogx\<lparr>in_local_lock_map := a\<rparr>)" if "map_managed a" for a
    using m that by (simp add: instance_managed_def)
  moreover have "instance_managed (ogx\<lparr>in_local_lock_map := a, in_txn_res_map := b\<rparr>)" if "map_managed a" "map_managed b" for a b
    using m that by (simp add: instance_managed_def)
  moreover have "instance_managed (ogx\<lparr>in_local_lock_map := a, in_txn_res_map := b, in_local_txn_map := c\<rparr>)"
    if "map_managed a" "map_managed b" "map_managed c" for a b c
    using m that by (simp add: instance_managed_def)
  ultimately show ?thesis
    using z by (auto simp: part_managed_def drc_local_init_def Let_def dest!: map_init_managed intro!: destroy_freed split: if_splits Option.bind_splits)
qed

lemma start_managed:
  assumes "instance_managed ogx" "ie_create_thread e = OG_SUCCESS"
  shows "part_managed instance_managed (drc_start e ogx)"
proof -
  have m: "instance_managed (ogx\<lparr>in_deposit_map := d, in_ctx := snd (drc_stat_init b (in_ctx ogx))\<rparr>)"
    "instance_managed (ogx\<lparr>in_deposit_map := d, in_ctx := snd (drc_stat_init b (in_ctx ogx)), in_part_mngr := pm\<rparr>)" for b d pm
    using assms(1) by (simp_all add: instance_managed_def drc_stat_init_def)
  show ?thesis
    using assms(2) m [where b = "ie_malloc e 13"] destroy_freed [OF m(1) [where b = "ie_malloc e 13"]]
    by (auto simp: part_managed_def drc_start_def Let_def drc_stat_init_def drc_deposit_map_init_def split: if_splits Option.bind_splits)
qed

lemma init_managed:
  assumes "ie_create_thread e = OG_SUCCESS"
  shows "part_managed instance_managed (drc_init e)"
  unfolding drc_init_def
  by (rule part_managed_then [OF item_init_managed], erule conjE, rule part_managed_then [OF page_init_managed], assumption, assumption,
      rule part_managed_then [OF io_init_managed], assumption, rule part_managed_then [OF lock_init_managed], assumption,
      rule part_managed_then [OF local_init_managed], assumption, rule start_managed, assumption, rule assms)


lemma ucast_u8_u32 [simp]: "ucast (ucast x :: u32) = (x :: u8)"
  by (rule bit_word_eqI) (auto simp: bit_ucast_iff)

text \<open>Parameters of a small instance: eight sessions, two nodes, a thousand locks.\<close>

definition small_env :: init_env where
  "small_env = \<lparr>ie_max_sessions = 8, ie_node_count = 2, ie_data_buf_size = 2 ^ 27, ie_page_size = 8192, ie_dls_res_count = 1000,
     ie_sizeof_lock_item = 40, ie_sizeof_buf_res = 120, ie_sizeof_master_res = 104, ie_sizeof_local_lock = 64, ie_sizeof_txn = 48,
     ie_sizeof_io = 32, ie_malloc = (\<lambda>_. True), ie_fdsa = True, ie_init_fdsa = OG_SUCCESS, ie_no_cms = True,
     ie_create_thread = OG_SUCCESS\<rparr>"

lemma small_env_ok: "init_ok_env small_env"
  by (simp add: init_ok_env_def small_env_def sizes_ok_def DRC_DEFAULT_BUF_RES_NUM_def SIZE_M4_def OG_INVALID_ID32_def)




subsection \<open>Deposits after a reform\<close>

text \<open>The instances of a list of a reform.\<close>

definition insts_in :: "instance_list \<Rightarrow> u8 set" where
  "insts_in l = set (take (unat (il_inst_id_count l)) (il_inst_id_list l))"

definition list_ok :: "instance_list \<Rightarrow> bool" where
  "list_ok l \<longleftrightarrow> unat (il_inst_id_count l) \<le> length (il_inst_id_list l) \<and> list_all inst_ok (take (unat (il_inst_id_count l)) (il_inst_id_list l))"

definition deposits_ok :: "drc_instance \<Rightarrow> bool" where
  "deposits_ok ogx \<longleftrightarrow> length (in_deposit_map ogx) = OG_MAX_INSTANCES"

lemma set_deposit_ok:
  assumes "deposits_ok ogx" "inst_ok i"
  shows "\<exists>ogx'. drc_set_deposit_id i d ogx = Some ogx' \<and> deposits_ok ogx' \<and>
    (\<forall>j. inst_ok j \<longrightarrow> drc_get_deposit_id j ogx' = (if j = i then Some d else drc_get_deposit_id j ogx))"
  using assms
  by (auto simp: drc_set_deposit_id_def deposits_ok_def inst_ok_def drc_get_deposit_id_def nth_list_update word_unat_eq_iff [symmetric])

lemma set_deposits_ok:
  assumes "deposits_ok ogx" "i + n \<le> length ids" "i + n < 256" "\<forall>x \<in> set (take n (drop i ids)). inst_ok x"
  shows "\<exists>ogx'. drc_set_deposits target ids i n ogx = Some ogx' \<and> deposits_ok ogx' \<and>
    (\<forall>j. inst_ok j \<longrightarrow> drc_get_deposit_id j ogx' =
      (if j \<in> set (take n (drop i ids)) then Some (target j) else drc_get_deposit_id j ogx))"
  using assms
proof (induction n arbitrary: i ogx)
  case 0
  then show ?case by simp
next
  case (Suc n)
  have t: "take (Suc n) (drop i ids) = ids ! i # take n (drop (Suc i) ids)"
    using Suc.prems(2) by (simp add: Cons_nth_drop_Suc [symmetric])
  have r: "rd ids (of_nat i :: u32) = Some (ids ! i)" using Suc.prems(2,3) by (simp add: rd_def unat_of_nat_u32)
  obtain o1 where o1: "drc_set_deposit_id (ids ! i) (target (ids ! i)) ogx = Some o1" "deposits_ok o1"
    "\<forall>j. inst_ok j \<longrightarrow> drc_get_deposit_id j o1 = (if j = ids ! i then Some (target (ids ! i)) else drc_get_deposit_id j ogx)"
    using set_deposit_ok [OF Suc.prems(1), of "ids ! i" "target (ids ! i)"] Suc.prems(4) unfolding t by auto
  obtain o2 where o2: "drc_set_deposits target ids (Suc i) n o1 = Some o2" "deposits_ok o2"
    "\<forall>j. inst_ok j \<longrightarrow> drc_get_deposit_id j o2 = (if j \<in> set (take n (drop (Suc i) ids)) then Some (target j) else drc_get_deposit_id j o1)"
    using Suc.IH [OF o1(2), of "Suc i"] Suc.prems(2-) unfolding t by (metis add_Suc_right add_Suc_shift list.set_intros(2))
  have "drc_set_deposits target ids i (Suc n) ogx = Some o2" using r o1(1) o2(1) by simp
  moreover have "drc_get_deposit_id j o2 = (if j \<in> set (take (Suc n) (drop i ids)) then Some (target j) else drc_get_deposit_id j ogx)"
    if "inst_ok j" for j
    unfolding t using o1(3) [rule_format, OF that] o2(3) [rule_format, OF that] by (cases "j = ids ! i") simp_all
  ultimately show ?case using o2(2) by blast
qed

lemma inst_count_lt: "unat (il_inst_id_count l) < 256"
  using unsigned_less [of "il_inst_id_count l", where 'a = nat] by simp

lemma deposit_list_ok:
  assumes "deposits_ok ogx" "list_ok l"
  shows "\<exists>ogx'. deposit_list target l ogx = Some ogx' \<and> deposits_ok ogx' \<and>
    (\<forall>j. inst_ok j \<longrightarrow> drc_get_deposit_id j ogx' = (if j \<in> insts_in l then Some (target j) else drc_get_deposit_id j ogx))"
  using set_deposits_ok [OF assms(1), of 0 "unat (il_inst_id_count l)" "il_inst_id_list l" target] assms(2)
    inst_count_lt [of l]
  by (simp add: deposit_list_def list_ok_def insts_in_def list_all_iff)

text \<open>
  Claim C28. After a reform every instance that failed or left has the master of the reform as its deposit, every
  instance that joined (and did not fail) is its own, and the others keep theirs.
\<close>

theorem reform_deposits:
  assumes "deposits_ok ogx" "list_ok (rf_leave info)" "list_ok (rf_abort info)" "list_ok (rf_join info)" "list_ok (rf_fail info)"
  shows "\<exists>ogx'. drc_remaster_inst_list info ogx = Some ogx' \<and> deposits_ok ogx' \<and>
    (\<forall>j. inst_ok j \<longrightarrow> drc_get_deposit_id j ogx' =
      (if j \<in> insts_in (rf_fail info) then Some (rf_master_id info)
       else if j \<in> insts_in (rf_join info) then Some j
       else if j \<in> insts_in (rf_leave info) \<union> insts_in (rf_abort info) then Some (rf_master_id info)
       else drc_get_deposit_id j ogx))"
proof -
  let ?m = "\<lambda>_. rf_master_id info"
  obtain o1 where o1: "deposit_list ?m (rf_leave info) ogx = Some o1" "deposits_ok o1"
    "\<forall>j. inst_ok j \<longrightarrow> drc_get_deposit_id j o1 = (if j \<in> insts_in (rf_leave info) then Some (rf_master_id info) else drc_get_deposit_id j ogx)"
    using deposit_list_ok [OF assms(1,2), of ?m] by blast
  obtain o2 where o2: "deposit_list ?m (rf_abort info) o1 = Some o2" "deposits_ok o2"
    "\<forall>j. inst_ok j \<longrightarrow> drc_get_deposit_id j o2 = (if j \<in> insts_in (rf_abort info) then Some (rf_master_id info) else drc_get_deposit_id j o1)"
    using deposit_list_ok [OF o1(2) assms(3), of ?m] by blast
  obtain o3 where o3: "deposit_list (\<lambda>i. i) (rf_join info) o2 = Some o3" "deposits_ok o3"
    "\<forall>j. inst_ok j \<longrightarrow> drc_get_deposit_id j o3 = (if j \<in> insts_in (rf_join info) then Some j else drc_get_deposit_id j o2)"
    using deposit_list_ok [OF o2(2) assms(4), of "\<lambda>i. i"] by blast
  obtain o4 where o4: "deposit_list ?m (rf_fail info) o3 = Some o4" "deposits_ok o4"
    "\<forall>j. inst_ok j \<longrightarrow> drc_get_deposit_id j o4 = (if j \<in> insts_in (rf_fail info) then Some (rf_master_id info) else drc_get_deposit_id j o3)"
    using deposit_list_ok [OF o3(2) assms(5), of ?m] by blast
  show ?thesis
    using o1(1) o2(1) o3(1) o4(1,2) o1(3) o2(3) o3(3) o4(3) by (simp add: drc_remaster_inst_list_def)
qed

definition sample_reform :: reform_info where
  "sample_reform = zero_reform_info\<lparr>rf_join := \<lparr>il_inst_id_list = [2], il_inst_id_count = 1\<rparr>, rf_leave := \<lparr>il_inst_id_list = [2], il_inst_id_count = 1\<rparr>,
     rf_abort := \<lparr>il_inst_id_list = [1], il_inst_id_count = 1\<rparr>, rf_fail := \<lparr>il_inst_id_list = [3], il_inst_id_count = 1\<rparr>,
     rf_master_id := 0\<rparr>"

theorem reform_deposits_witness:
  "\<exists>ogx'. drc_remaster_inst_list sample_reform (drc_deposit_map_init zero_instance) = Some ogx' \<and>
    drc_get_deposit_id 1 ogx' = Some 0 \<and> drc_get_deposit_id 2 ogx' = Some 2 \<and> drc_get_deposit_id 3 ogx' = Some 0 \<and>
    drc_get_deposit_id 4 ogx' = Some 4"
proof -
  let ?o = "drc_deposit_map_init zero_instance"
  have "deposits_ok ?o" by (simp add: deposits_ok_def drc_deposit_map_init_def)
  moreover have "list_ok (rf_leave sample_reform)" "list_ok (rf_abort sample_reform)" "list_ok (rf_join sample_reform)" "list_ok (rf_fail sample_reform)"
    by (simp_all add: list_ok_def sample_reform_def inst_ok_def OG_MAX_INSTANCES_def)
  ultimately obtain ogx' where o: "drc_remaster_inst_list sample_reform ?o = Some ogx'"
    "\<And>j. inst_ok j \<Longrightarrow> drc_get_deposit_id j ogx' = (if j \<in> insts_in (rf_fail sample_reform) then Some (rf_master_id sample_reform)
       else if j \<in> insts_in (rf_join sample_reform) then Some j
       else if j \<in> insts_in (rf_leave sample_reform) \<union> insts_in (rf_abort sample_reform) then Some (rf_master_id sample_reform)
       else drc_get_deposit_id j ?o)"
    using reform_deposits [of ?o sample_reform] by blast
  have "drc_get_deposit_id 4 ?o = Some 4" by (simp add: drc_get_deposit_id_def drc_deposit_map_init_def OG_MAX_INSTANCES_def)
  then show ?thesis
    using o(1) o(2) [of 1] o(2) [of 2] o(2) [of 3] o(2) [of 4]
    by (simp add: sample_reform_def insts_in_def inst_ok_def OG_MAX_INSTANCES_def)
qed

text \<open>
  Claim C37. The range check of \<open>drc_get_deposit_id\<close> lets the identifier \<open>OG_MAX_INSTANCES\<close> through, which is one past
  the end of the deposit map; all larger identifiers are refused and all smaller ones answered.
\<close>

theorem deposit_check_off_by_one:
  assumes "deposits_ok ogx"
  shows "(drc_get_deposit_id i ogx = None \<longleftrightarrow> unat i = OG_MAX_INSTANCES) \<and>
    (unat i > OG_MAX_INSTANCES \<longrightarrow> drc_get_deposit_id i ogx = Some OG_INVALID_ID8)"
  using assms by (auto simp: drc_get_deposit_id_def deposits_ok_def rd_def)

theorem deposit_check_off_by_one_witness:
  "drc_get_deposit_id 64 (drc_deposit_map_init zero_instance) = None"
  using deposit_check_off_by_one [of "drc_deposit_map_init zero_instance" 64]
  by (simp add: deposits_ok_def drc_deposit_map_init_def OG_MAX_INSTANCES_def)

subsection \<open>Masters\<close>

text \<open>
  Claim C11. The first assignment deals the partitions out in turn: from an empty table and at least one instance it ends without an access
  outside its arrays, partition \<open>p\<close> belongs to instance \<open>p mod n\<close> of the array, and the table is complete: the lists of the instances
  are chained without cycles, no partition is in two of them and none is left out.
\<close>

theorem first_assignment_complete:
  assumes "n = unat inst_num" "0 < n" "n \<le> length ids" "list_all inst_ok ids"
  shows "\<exists>pm. drc_part_init ids inst_num zero_part_mngr = Some pm \<and> pm_remaster_status pm = REMASTER_DONE \<and>
    table_ok (pm_part_map pm) (pm_inst_part_tbl pm) (first_parts ids n DRC_MAX_PART_NUM) \<and>
    (\<forall>p :: u16. unat p < DRC_MAX_PART_NUM \<longrightarrow> DRC_PART_MASTER_ID pm p = Some (ids ! (unat p mod n)))"
proof -
  obtain pm where pm: "drc_part_init ids inst_num zero_part_mngr = Some pm" "pm_remaster_status pm = REMASTER_DONE"
    "table_ok (pm_part_map pm) (pm_inst_part_tbl pm) (first_parts ids n DRC_MAX_PART_NUM)"
    using part_init_ok [OF assms] by blast
  have rep: "tbl_rep (pm_part_map pm) (pm_inst_part_tbl pm) (first_parts ids n DRC_MAX_PART_NUM)" using pm(3) by (simp add: table_ok_def)
  have "DRC_PART_MASTER_ID pm p = Some (ids ! (unat p mod n))" if p: "unat p < DRC_MAX_PART_NUM" for p :: u16
  proof -
    have "p \<in> set (first_parts ids n DRC_MAX_PART_NUM (ids ! (unat p mod n)))"
      unfolding first_parts_def set_map by (rule rev_image_eqI [of "unat p"]) (use p in simp_all)
    from tbl_repD(6) [OF rep this] show ?thesis
      using p tbl_repD(1) [OF rep] by (simp add: DRC_PART_MASTER_ID_def)
  qed
  then show ?thesis using pm by blast
qed

theorem first_assignment_complete_witness:
  "\<exists>pm. drc_part_init [4, 9, 2] 3 zero_part_mngr = Some pm \<and> DRC_PART_MASTER_ID pm (0 :: u16) = Some 4 \<and>
    DRC_PART_MASTER_ID pm (7 :: u16) = Some 9 \<and> DRC_PART_MASTER_ID pm (1022 :: u16) = Some 2"
proof -
  obtain pm where pm: "drc_part_init [4, 9, 2] 3 zero_part_mngr = Some pm"
    "\<forall>p :: u16. unat p < DRC_MAX_PART_NUM \<longrightarrow> DRC_PART_MASTER_ID pm p = Some ([4, 9, 2] ! (unat p mod 3))"
    using first_assignment_complete [of 3 3 "[4, 9, 2]"] by (auto simp: inst_ok_def OG_MAX_INSTANCES_def)
  then show ?thesis
    using pm(2) [rule_format, of 0] pm(2) [rule_format, of 7] pm(2) [rule_format, of 1022] by (simp add: DRC_MAX_PART_NUM_def)
qed

lemma page_partid_bound: "unat (drc_page_partid ext p) < DRC_MAX_PART_NUM"
proof -
  have "unat (w mod 1024 :: u32) < 1024" for w using hash_lt [of 1024 w] by simp
  then show ?thesis by (simp add: drc_page_partid_def cm_hash_uint32_def Let_def DRC_MAX_PART_NUM_def)
qed

text \<open>
  Claim C12. With a complete table every page and every lock has a master: the partition number computed from the page or the lock
  is within the table, and the instance found there is a valid instance that is in use. All instances with the same table
  agree on the master, as it depends on nothing else.
\<close>

theorem every_resource_has_master:
  assumes "table_ok (pm_part_map pm) (pm_inst_part_tbl pm) L"
  shows "(\<exists>i. drc_get_page_master_id ext pm pagid id0 = Some (OG_SUCCESS, i) \<and> inst_ok i \<and> ip_is_used (pm_inst_part_tbl pm ! unat i)) \<and>
    (\<exists>i. drc_get_lock_master_id promote pm lock_id = Some i \<and> inst_ok i \<and> ip_is_used (pm_inst_part_tbl pm ! unat i))"
proof -
  have len: "length (pm_part_map pm) = DRC_MAX_PART_NUM" using assms by (simp add: table_ok_def tbl_rep_def)
  have master: "\<exists>i. DRC_PART_MASTER_ID pm q = Some i \<and> inst_ok i \<and> ip_is_used (pm_inst_part_tbl pm ! unat i)"
    if q: "unat q < DRC_MAX_PART_NUM" for q :: "'n::len word"
  proof -
    have "unat (ucast q :: u16) = unat q" using q by (simp add: unsigned_ucast_eq take_bit_nat_eq_self DRC_MAX_PART_NUM_def)
    then show ?thesis using table_master [OF assms, of "ucast q"] q len by (simp add: DRC_PART_MASTER_ID_def)
  qed
  obtain i where i: "DRC_PART_MASTER_ID pm (drc_page_partid ext pagid) = Some i" "inst_ok i" "ip_is_used (pm_inst_part_tbl pm ! unat i)"
    using master [of "drc_page_partid ext pagid"] page_partid_bound by blast
  have "i \<noteq> OG_INVALID_ID8" using i(2) by (auto simp: inst_ok_def OG_INVALID_ID8_def OG_MAX_INSTANCES_def)
  then show ?thesis
    using i master [of "lock_partid promote lock_id"] lock_partid_lt by (simp add: drc_get_page_master_id_def drc_get_lock_master_id_def)
qed

theorem every_resource_has_master_witness:
  "\<exists>pm i. drc_part_init [0, 1] 2 zero_part_mngr = Some pm \<and>
    drc_get_page_master_id 64 pm \<lparr>pg_page = 77, pg_file = 5\<rparr> 0 = Some (OG_SUCCESS, i) \<and> inst_ok i"
proof -
  obtain pm where pm: "drc_part_init [0, 1] 2 zero_part_mngr = Some pm"
    "table_ok (pm_part_map pm) (pm_inst_part_tbl pm) (first_parts [0, 1] 2 DRC_MAX_PART_NUM)"
    using part_init_ok [of 2 2 "[0, 1]"] by (auto simp: inst_ok_def OG_MAX_INSTANCES_def)
  then show ?thesis using every_resource_has_master [OF pm(2)] by blast
qed

end
