(* ===== verification/Catalogue.thy ===== *)
theory Catalogue
  imports Drc_Init
begin

text \<open>
  The catalogue of a master as a transition system: every handler of the page and of the lock protocol is a step,
  in any order and with any arguments. All states that are reached from an initialised instance satisfy the invariant,
  and the properties of the protocols follow from it.
\<close>

subsection \<open>The steps of a master\<close>

text \<open>
  One step is one call of a handler, in any order and with any arguments, from a message or a session. Within a
  step, other threads may run where the handler has released its locks; they keep the invariant and what the handler
  relies on. A handler that panics makes no step.
\<close>

inductive drc_step :: "(u8 \<Rightarrow> u32) \<Rightarrow> drc_res_ctx \<Rightarrow> drc_res_ctx \<Rightarrow> bool" for promote where
  page_request: "drc_step promote c c'"
    if "ri_req_mode req \<noteq> DRC_LOCK_NULL" "request_relies promote p e"
      "drc_request_page_owner e p req is_try res c = Some (ret, req', res', c')"
| page_claim: "drc_step promote c c'"
    if "keeps_inv promote f" "keeps_converting (cl_page_id claim) f" "keeps_inv promote g" "keeps_converting (cl_page_id claim) g"
      "drc_claim_page_owner now invalidate f g claim ci c = Some (ci', c')"
| page_release: "drc_step promote c c'"
    if "drc_release_page_owner old_id p c = Some (released, c')"
| page_recycle: "drc_step promote c c'"
    if "keeps_inv promote f" "keeps_pending p f"
      "drc_buf_res_recycle node_count in_remaster inval f inst time p c = Some c'"
| page_recycle_thread: "drc_step promote c c'"
    if "recycle_relies promote e'" "drc_recycle_items e' True c = Some (i, c')"
| page_clean_edp: "drc_step promote c c'"
    if "drc_clean_edp_info p lsn c = Some (ret, c')"
| page_owner: "drc_step promote c c'"
    if "drc_get_page_owner_id recovered False c p = Some (ret, owner, action, c')"
| lock_request: "drc_step promote c c'"
    if "req_ok req" "\<And>n. keeps_inv promote (others n)"
      "drc_request_lock_owner promote stop0 others stop l req grant c = Some (ret, grant', c')"
| lock_try_request: "drc_step promote c c'"
    if "req_ok req" "drc_try_request_lock_owner promote remastered stop0 l req grant c = Some (ret, grant', c')"
| lock_cancel: "drc_step promote c c'"
    if "drc_cancel_lock_owner_request promote inst_id l c = Some (ret, c')"
| lock_claim: "drc_step promote c c'"
    if "inst_ok (lc_new_id claim')" "drc_claim_lock_owner promote stop0 is_remaster l claim' c = Some (ret, c')"
| lock_release: "drc_step promote c c'"
    if "drc_release_lock_owner promote old_id l c = Some (ret, c')"
| lock_clear: "drc_step promote c c'"
    if "dls_clear_granted_map_for_inst promote l inst_id c = Some c'"
| lock_recycle: "drc_step promote c c'"
    if "drc_recycle_dls_master promote stop0 l inst_id c = Some (ret, c')"

inductive drc_reachable :: "(u8 \<Rightarrow> u32) \<Rightarrow> drc_res_ctx \<Rightarrow> bool" for promote where
  reach_init: "drc_reachable promote (in_ctx ogx)" if "init_ok_env e" "drc_init e = Some (OG_SUCCESS, ogx)"
| reach_step: "drc_reachable promote c'" if "drc_reachable promote c" "drc_step promote c c'"

text \<open>Handlers that may change nothing.\<close>

lemma release_keeps:
  assumes "ctx_inv promote c H G F" "drc_release_page_owner old_id p c = Some (released, c')"
  shows "ctx_inv promote c' H G F"
proof (cases "buf_view c p")
  case None
  then show ?thesis using assms buf_find_ok [of promote c] by (simp add: drc_release_page_owner_def ctx_inv_def)
next
  case (Some b)
  then show ?thesis using release_ok [OF assms(1) [unfolded ctx_inv_def] Some, of old_id] assms(2) ctx_okD(1) by auto
qed

lemma owner_id_keeps:
  assumes "ctx_inv promote c H G F" "drc_get_page_owner_id recovered False c p = Some (ret, owner, action, c')"
  shows "ctx_inv promote c' H G F"
proof (cases "buf_view c p")
  case None
  then show ?thesis using assms buf_find_ok [of promote c] by (simp add: drc_get_page_owner_id_def ctx_inv_def)
next
  case (Some b)
  then show ?thesis using owner_id_ok [OF assms(1) [unfolded ctx_inv_def] Some, of False recovered] assms(2) ctx_okD(1) by auto
qed

lemma lock_claim_keeps:
  assumes inv: "ctx_inv promote c H G F" and new: "inst_ok (lc_new_id claim)"
    and claim: "drc_claim_lock_owner promote stop is_remaster l claim c = Some (ret, c')"
  shows "ctx_inv promote c' H G F"
proof (cases "stop \<and> \<not> is_remaster")
  case True
  then show ?thesis using claim inv by (simp add: drc_claim_lock_owner_def drc_lock_bucket_and_stat_with_version_check_def)
next
  case False
  note ok = inv [unfolded ctx_inv_def]
  have v: "drc_lock_bucket_and_stat_with_version_check stop is_remaster = OG_SUCCESS"
    using False by (simp add: drc_lock_bucket_and_stat_with_version_check_def)
  obtain m where W: "lock_view promote c l = Some m"
    using claim v lock_find_rep [OF ok, of l] by (auto simp: drc_claim_lock_owner_def split: Option.bind_splits)
  obtain x where x: "lock_find promote c l = Some (Some (rb_idx x))" "lock_get c (rb_idx x) = Some x" "strip x = m"
    using lock_found [OF ok W] by blast
  have "claimable claim x"
    using claim v x(1,2) new
    by (auto simp: drc_claim_lock_owner_def Let_def knl_panic_def claimable_def converting_def inst_ok_def OG_INVALID_ID8_def
        OG_MAX_INSTANCES_def exist_insts split: Option.bind_splits if_splits)
  then have "claimable claim m" using x(3) by (auto simp: claimable_def)
  then show ?thesis using claim_lock_ok [OF ok W, of claim stop is_remaster] False claim ctx_okD(1) by fastforce
qed

text \<open>However long a request waits, the invariant holds when it has its answer.\<close>

lemma lock_wait_keeps:
  assumes "drc_lock_wait others stop req i n grant c = Some r" "ctx_inv promote c H G F" "\<And>n. keeps_inv promote (others n)"
  shows "ctx_inv promote (snd (snd r)) H G F"
proof -
  have "(\<forall>n. keeps_inv promote (others n)) \<longrightarrow> ctx_inv promote c H G F \<longrightarrow> ctx_inv promote (snd (snd r)) H G F"
    by (rule drc_lock_wait.raw_induct [where P = "\<lambda>others stop req i n grant c r. (\<forall>n. keeps_inv promote (others n)) \<longrightarrow>
          ctx_inv promote c H G F \<longrightarrow> ctx_inv promote (snd (snd r)) H G F", OF _ assms(1)])
      (auto simp: keeps_inv_def split: if_splits Option.bind_splits)
  then show ?thesis using assms(2,3) by blast
qed

lemma create_lock_full:
  assumes "ctx_ok promote c V W H G F" "pool_free (gr_pool (rc_global_lock_res c)) = []"
  shows "drc_create_lock_res promote l c = Some (OG_ERROR, c)"
  using lock_dir.alloc_empty [OF lock_dir.rep_wf [OF ctx_ok_locks [OF assms(1)]]] assms(2) by (simp add: drc_create_lock_res_def)

lemma lock_request_keeps:
  assumes inv: "ctx_inv promote c H G F" and req: "req_ok req" and o: "\<And>n. keeps_inv promote (others n)"
    and r: "drc_request_lock_owner promote stop0 others stop l req grant c = Some (ret, grant', c')"
  shows "ctx_inv promote c' H G F"
proof (cases stop0)
  case True
  then show ?thesis using r inv by (simp add: drc_request_lock_owner_def)
next
  case False
  note ok = inv [unfolded ctx_inv_def]
  obtain ret1 waits grant1 c1 where l: "drc_request_lock_locked promote l req grant c = Some (ret1, waits, grant1, c1)"
    using r False by (auto simp: drc_request_lock_owner_def split: Option.bind_splits)
  have room: "lock_view promote c l \<noteq> None \<or> pool_free (gr_pool (rc_global_lock_res c)) \<noteq> []"
  proof (rule ccontr)
    assume n: "\<not> (lock_view promote c l \<noteq> None \<or> pool_free (gr_pool (rc_global_lock_res c)) \<noteq> [])"
    then have "drc_create_lock_res promote l c = Some (OG_ERROR, c)" using create_lock_full [OF ok] by blast
    then show False using l n lock_find_rep [OF ok, of l] by (simp add: drc_request_lock_locked_def)
  qed
  then have "ctx_inv promote c1 H G F"
    using request_locked_ok [OF ok req, of l grant] l inv ctx_okD(1)
    by (auto simp: lock_outcome_def split: option.splits if_splits)
  then show ?thesis
    using r l False lock_wait_keeps [OF _ _ o] by (auto simp: drc_request_lock_owner_def split: option.splits)
qed

lemma lock_try_keeps:
  assumes "ctx_inv promote c H G F" "req_ok req"
    "drc_try_request_lock_owner promote remastered stop l req grant c = Some (ret, grant', c')"
  shows "ctx_inv promote c' H G F"
  using try_request_ok [OF assms(1,2), of remastered stop l grant] assms(1,3) by (auto split: if_splits)

lemma lock_cancel_keeps:
  assumes "ctx_inv promote c H G F" "drc_cancel_lock_owner_request promote inst l c = Some (ret, c')"
  shows "ctx_inv promote c' H G F"
  using cancel_lock_ok [OF assms(1) [unfolded ctx_inv_def], of inst l] assms ctx_okD(1)
  by (auto simp: drc_cancel_lock_owner_request_def split: option.splits if_splits)

lemma lock_release_keeps:
  assumes "ctx_inv promote c H G F" "drc_release_lock_owner promote inst l c = Some (ret, c')"
  shows "ctx_inv promote c' H G F"
  using release_lock_ok [OF assms(1) [unfolded ctx_inv_def], of inst l] assms ctx_okD(1)
  by (auto split: option.splits if_splits)

lemma lock_clear_keeps:
  assumes "ctx_inv promote c H G F" "dls_clear_granted_map_for_inst promote l inst c = Some c'"
  shows "ctx_inv promote c' H G F"
  using clear_lock_ok [OF assms(1) [unfolded ctx_inv_def], of l inst] assms ctx_okD(1) by auto

lemma lock_recycle_keeps:
  assumes "ctx_inv promote c H G F" "drc_recycle_dls_master promote stop l inst c = Some (ret, c')"
  shows "ctx_inv promote c' H G F"
  using recycle_master_ok [OF assms(1) [unfolded ctx_inv_def], of stop l inst] assms ctx_okD(1) by (auto split: if_splits)

lemma step_keeps:
  assumes "drc_step promote c c'" "ctx_inv promote c H G F"
  shows "ctx_inv promote c' H G F"
  using assms
proof (induction rule: drc_step.induct)
  case (page_request req p e is_try res c ret req' res' c')
  then show ?case using request_page_ok [of promote c H G F req p e is_try res] by auto
next
  case (page_claim f claim g now invalidate ci c ci' c')
  then show ?case using claim_ok [of promote c H G F f claim g now invalidate ci] by auto
next
  case (page_release old_id p c released c')
  then show ?case using release_keeps by blast
next
  case (page_recycle f p node_count in_remaster inval inst time c c')
  then show ?case using buf_res_recycle_ok [of promote c H G F f p node_count in_remaster inval inst time] by auto
next
  case (page_recycle_thread e' c i c')
  then show ?case using recycle_items_ok [of promote c H G F e' True] by (auto simp: recycled_def)
next
  case (page_clean_edp p lsn c ret c')
  then show ?case using clean_edp_ok [of promote c _ _ H G F p lsn] ctx_okD(1) by (fastforce simp: ctx_inv_def)
next
  case (page_owner recovered c p ret owner action c')
  then show ?case using owner_id_keeps by blast
qed (blast intro: lock_request_keeps lock_try_keeps lock_cancel_keeps lock_claim_keeps lock_release_keeps lock_clear_keeps lock_recycle_keeps)+

lemma reachable_inv:
  assumes "drc_reachable promote c"
  shows "ctx_inv promote c {} {} {}"
  using assms
proof (induction rule: drc_reachable.induct)
  case (reach_init e ogx)
  then show ?case using init_ok_empty [of e promote] ctx_okD(1) by (auto simp: empty_instance_def)
next
  case (reach_step c c')
  then show ?case using step_keeps by blast
qed

subsection \<open>Requests for pages\<close>

text \<open>A request that no reform stops and during which no other thread runs.\<close>

definition quiet_request :: "request_env \<Rightarrow> bool" where
  "quiet_request e \<longleftrightarrow> rq_readable e \<and> \<not> rq_stop1 e \<and> \<not> rq_stop2 e \<and> \<not> rq_stop3 e \<and>
     rq_others1 e = (\<lambda>c. c) \<and> rq_others2 e = (\<lambda>c. c) \<and> rq_others3 e = (\<lambda>c. c)"

text \<open>The request as it is entered, with the first result of \<^verbatim>\<open>drc_request_page_owner\<close>.\<close>

definition as_waiting :: "drc_req_info \<Rightarrow> drc_req_info" where
  "as_waiting req = req\<lparr>ri_req_owner_result := owner_result_num DRC_REQ_OWNER_WAITING\<rparr>"

lemma as_waiting_ok [simp]: "req_ok (as_waiting req) = req_ok req" "ri_inst_id (as_waiting req) = ri_inst_id req"
  "ri_req_mode (as_waiting req) = ri_req_mode req"
  by (simp_all add: as_waiting_def req_ok_def)

lemma new_page_granted:
  assumes inv: "ctx_inv promote c H G F" and new: "buf_view c p = None" and req: "req_ok req" and p: "\<not> IS_INVALID_PAGID p"
    and quiet: "quiet_request e" and room: "pool_free (gr_pool (rc_global_buf_res c)) \<noteq> []"
  shows "\<exists>res c' b. drc_request_page_owner e p req is_try result c = Some (OG_SUCCESS, as_waiting req, res, c') \<and>
    ctx_inv promote c' H G F \<and> rr_type res = DRC_REQ_OWNER_GRANTED \<and> rr_curr_owner_id res = ri_inst_id req \<and>
    buf_view c' = (buf_view c)(p \<mapsto> b) \<and> lock_view promote c' = lock_view promote c \<and> fresh_page req p b"
proof -
  let ?c = "stat_inc R_PO_TOTAL c"
  let ?res = "result\<lparr>rr_type := DRC_REQ_OWNER_INVALID, rr_action := DRC_RES_INVALID_ACTION,
           rr_is_retry := False, rr_req_mode := ri_req_mode req\<rparr>"
  note ok = inv [unfolded ctx_inv_def]
  have ok1: "ctx_ok promote ?c (buf_view c) (lock_view promote c) H G F" by (rule ctx_ok_cong [OF ok]) simp
  have rep: "page_dir.rep (rc_global_buf_res ?c) (buf_view c) H" using ok1 by (simp add: ctx_ok_def ctx_rep_def)
  obtain j js where "pool_free (gr_pool (rc_global_buf_res ?c)) = j # js" using room by (cases "pool_free (gr_pool (rc_global_buf_res c))") (auto simp: stat_inc_def)
  then have "\<exists>g. gr_alloc (rc_global_buf_res ?c) = Some (j, g)" "j \<noteq> OG_INVALID_ID32"
    using page_dir.alloc_Cons [OF page_dir.rep_wf [OF rep]] by blast+
  then obtain i g where a: "buf_alloc ?c = Some (i, ?c\<lparr>rc_global_buf_res := g\<rparr>)" "i \<noteq> OG_INVALID_ID32" "i \<notin> H"
    "ctx_ok promote (?c\<lparr>rc_global_buf_res := g\<rparr>) (buf_view c) (lock_view promote c) (insert i H) G F"
    using buf_alloc_ok [OF ok1] by (auto simp: buf_alloc_def)
  have w: "req_ok (as_waiting req)" using req by simp
  obtain res c' b where r: "drc_request_create e p (as_waiting req) ?res i (?c\<lparr>rc_global_buf_res := g\<rparr>) = Some (OG_SUCCESS, res, c')"
    "rr_type res = DRC_REQ_OWNER_GRANTED" "rr_curr_owner_id res = ri_inst_id req"
    "ctx_ok promote c' ((buf_view c)(p \<mapsto> b)) (lock_view promote c) (insert i H - {i}) G F" "fresh_page (as_waiting req) p b"
    using request_create_ok [OF a(4) new insertI1 w, of e ?res] quiet by (auto simp: quiet_request_def)
  have H: "insert i H - {i} = H" using a(3) by simp
  have "fresh_page req p b" using r(5) by (simp add: fresh_page_def as_waiting_def)
  moreover have "drc_request_page_owner e p req is_try result c = Some (OG_SUCCESS, as_waiting req, res, c')"
    using quiet a r(1) p req_okD [OF req] buf_find_ok [OF ok, of p] buf_find_ok [OF a(4), of p] new
    by (simp add: drc_request_page_owner_def quiet_request_def drc_request_item_def drc_request_relocked_def as_waiting_def Let_def
        inst_ok_def)
  ultimately show ?thesis using ctx_okD [OF r(4)] r(2,3) H by auto
qed

lemma known_page_request:
  assumes inv: "ctx_inv promote c H G F" and V: "buf_view c p = Some b" and req: "req_ok req" and p: "\<not> IS_INVALID_PAGID p"
    and quiet: "quiet_request e"
  shows "\<exists>ret req' res c' b1 b'. drc_request_page_owner e p req is_try result c = Some (ret, req', res, c') \<and>
    ctx_inv promote c' H G F \<and> buf_view c' = (buf_view c)(p \<mapsto> b') \<and> owner_kept b b1 \<and>
    b' \<in> {b1, b1\<lparr>br_readonly_copies := 0\<rparr>} \<and>
    (if ret = OG_SUCCESS then request_outcome (as_waiting req) is_try res b (waiting c b) b1 (waiting c' b')
     else br_pending b = DRC_RES_PENDING_ACTION \<or> br_claimed_owner b = OG_INVALID_ID8 \<or> converting b \<or>
       (\<exists>copies. rq_invalidate e copies \<noteq> OG_SUCCESS))"
proof -
  let ?c = "stat_inc R_PO_TOTAL c" and ?W = "lock_view promote c"
  let ?res = "result\<lparr>rr_type := DRC_REQ_OWNER_INVALID, rr_action := DRC_RES_INVALID_ACTION,
           rr_is_retry := False, rr_req_mode := ri_req_mode req\<rparr>"
  note ok = inv [unfolded ctx_inv_def]
  have ok1: "ctx_ok promote ?c (buf_view c) ?W H G F" by (rule ctx_ok_cong [OF ok]) simp
  have w: "req_ok (as_waiting req)" "waiting ?c b = waiting c b" using req by (simp_all add: stat_inc_def)
  obtain ret can_cvt req1 res1 c1 where r: "drc_request_allocated e (as_waiting req) is_try ?res (rb_idx b) ?c = Some (ret, can_cvt, req1, res1, c1)"
    "alloc_result promote ?c p b (buf_view c) ?W H G F (as_waiting req) is_try (ret, can_cvt, req1, res1, c1)"
    using request_allocated_ok [OF ok1 V w(1), of e is_try ?res] by (metis prod_cases5)
  then obtain b1 where a: "drc_request_allocated e (as_waiting req) is_try ?res (rb_idx b) ?c = Some (ret, can_cvt, req1, res1, c1)"
    "ctx_ok promote c1 ((buf_view c)(p \<mapsto> b1)) ?W H G F" "rb_idx b1 = rb_idx b" "owner_kept b b1" "can_cvt \<longrightarrow> converting b1"
    "if ret = OG_SUCCESS then request_outcome (as_waiting req) is_try res1 b (waiting c b) b1 (waiting c1 b1)
     else br_pending b = DRC_RES_PENDING_ACTION \<or> br_claimed_owner b = OG_INVALID_ID8 \<or> converting b"
    unfolding alloc_result_def prod.case w(2) by (metis (full_types))
  have eq: "drc_request_page_owner e p req is_try result c = drc_request_existing e (as_waiting req) is_try ?res (rb_idx b) None ?c"
    using quiet p req_okD [OF req] buf_find_ok [OF ok, of p] V
    by (simp add: drc_request_page_owner_def quiet_request_def as_waiting_def Let_def inst_ok_def)
  show ?thesis
  proof (cases "ret = OG_SUCCESS \<and> can_cvt \<and> rr_readonly_copies res1 \<noteq> 0 \<and> ri_req_mode req1 = DRC_LOCK_EXCLUSIVE")
    case False
    then have "drc_request_existing e (as_waiting req) is_try ?res (rb_idx b) None ?c = Some (ret, req1, res1, c1)"
      using a(1) by (auto simp: drc_request_existing_def drc_request_invalidate_def)
    then show ?thesis using eq ctx_okD [OF a(2)] a(4,6) by (intro exI [of _ b1] exI conjI) (auto split: if_splits)
  next
    case True
    show ?thesis
    proof (cases "rq_invalidate e (rr_readonly_copies res1) = OG_SUCCESS")
      case fail: False
      then have "drc_request_existing e (as_waiting req) is_try ?res (rb_idx b) None ?c = Some (OG_ERROR, req1, res1, c1)"
        using True a(1) quiet by (cases "rq_invalidate e (rr_readonly_copies res1)") (auto simp: drc_request_existing_def drc_request_invalidate_def quiet_request_def)
      then show ?thesis using eq ctx_okD [OF a(2)] a(4) fail by (intro exI [of _ b1] exI conjI) auto
    next
      case sent: True
      have u: "((buf_view c)(p \<mapsto> b1)) p = Some b1" by simp
      have own: "br_claimed_owner b1 \<noteq> OG_INVALID_ID8" using converting_owner [OF a(2) u] a(5) True by blast
      obtain g where g: "drc_clear_readonly_copies (rb_idx b1) c1 = Some (c1\<lparr>rc_global_buf_res := g\<rparr>)"
        "ctx_ok promote (c1\<lparr>rc_global_buf_res := g\<rparr>) ((buf_view c)(p \<mapsto> b1\<lparr>br_readonly_copies := 0\<rparr>)) ?W H G F"
        using clear_ok [OF a(2) u own] by (auto simp del: fun_upd_apply)
      have "drc_request_existing e (as_waiting req) is_try ?res (rb_idx b) None ?c = Some (OG_SUCCESS, req1, res1, c1\<lparr>rc_global_buf_res := g\<rparr>)"
        using True sent a(1,3) g(1) quiet by (simp add: drc_request_existing_def drc_request_invalidate_def quiet_request_def)
      then show ?thesis
        using eq ctx_okD [OF g(2)] a(4,6) True
        by (intro exI [of _ b1] exI [of _ "b1\<lparr>br_readonly_copies := 0\<rparr>"] exI conjI) auto
    qed
  qed
qed

subsection \<open>A first page and a first lock\<close>

text \<open>The catalogue after the initialisation of a small instance, and a request that nothing disturbs.\<close>

definition calm_env :: request_env where
  "calm_env = \<lparr>rq_ext_pages = 64, rq_readable = True, rq_stop1 = False, rq_stop2 = False, rq_stop3 = False, rq_recover = True,
     rq_recycle = \<lparr>ry_now = 0, ry_remaster1 = (\<lambda>_. False), ry_remaster2 = (\<lambda>_. False), ry_invalidate = (\<lambda>_. OG_SUCCESS),
       ry_others = (\<lambda>_ c. c)\<rparr>,
     rq_invalidate = (\<lambda>_. OG_SUCCESS), rq_others1 = (\<lambda>c. c), rq_others2 = (\<lambda>c. c), rq_others3 = (\<lambda>c. c)\<rparr>"

lemma calm_env_ok: "quiet_request calm_env" "request_relies promote p calm_env" "rq_invalidate calm_env copies = OG_SUCCESS"
  by (simp_all add: calm_env_def quiet_request_def request_relies_def recycle_relies_def)

definition a_page :: page_id where
  "a_page = \<lparr>pg_page = 42, pg_file = 3\<rparr>"

definition a_result :: drc_req_owner_result where
  "a_result = \<lparr>rr_type = DRC_REQ_OWNER_INVALID, rr_action = DRC_RES_INVALID_ACTION, rr_curr_owner_id = 0,
     rr_is_retry = False, rr_req_mode = DRC_LOCK_NULL, rr_readonly_copies = 0\<rparr>"

definition a_request :: "u8 \<Rightarrow> drc_req_info" where
  "a_request i = zero_req_info\<lparr>ri_inst_id := i, ri_req_mode := DRC_LOCK_EXCLUSIVE\<rparr>"

lemma a_request_ok: "req_ok (a_request 1)" "req_ok (a_request 2)" "\<not> IS_INVALID_PAGID a_page"
  by (simp_all add: req_ok_def a_request_def inst_ok_def OG_MAX_INSTANCES_def a_page_def IS_INVALID_PAGID_def INVALID_FILE_ID_def)

lemma started:
  "\<exists>c. drc_reachable promote c \<and> ctx_inv promote c {} {} {} \<and> buf_view c = (\<lambda>_. None) \<and> lock_view promote c = (\<lambda>_. None) \<and>
    pool_free (gr_pool (rc_global_buf_res c)) \<noteq> [] \<and> pool_free (gr_pool (rc_global_lock_res c)) \<noteq> [] \<and>
    pool_free (rc_lock_item_pool c) \<noteq> []"
proof -
  obtain ogx where o: "drc_init small_env = Some (OG_SUCCESS, ogx)" "empty_instance promote ogx"
    "pool_free (gr_pool (rc_global_buf_res (in_ctx ogx))) \<noteq> []" "pool_free (gr_pool (rc_global_lock_res (in_ctx ogx))) \<noteq> []"
    "pool_free (rc_lock_item_pool (in_ctx ogx)) \<noteq> []"
    using init_ok_empty [OF small_env_ok] by blast
  have "ctx_ok promote (in_ctx ogx) (\<lambda>_. None) (\<lambda>_. None) {} {} {}" using o(2) by (simp add: empty_instance_def)
  note v = ctx_okD [OF this]
  have "drc_reachable promote (in_ctx ogx)" by (rule reach_init [OF small_env_ok o(1)])
  then show ?thesis using v o(3-5) by blast
qed

text \<open>Instance 1 has asked for a page, and then instance 2 has.\<close>

lemma page_owned:
  "\<exists>c b. drc_reachable promote c \<and> ctx_inv promote c {} {} {} \<and> buf_view c a_page = Some b \<and>
    fresh_page (a_request 1) a_page b \<and> br_pending b \<noteq> DRC_RES_PENDING_ACTION"
proof -
  obtain c where c: "drc_reachable promote c" "ctx_inv promote c {} {} {}" "buf_view c = (\<lambda>_. None)"
    "pool_free (gr_pool (rc_global_buf_res c)) \<noteq> []"
    using started by blast
  obtain res c' b where r: "drc_request_page_owner calm_env a_page (a_request 1) False a_result c = Some (OG_SUCCESS, as_waiting (a_request 1), res, c')"
    "ctx_inv promote c' {} {} {}" "buf_view c' = (buf_view c)(a_page \<mapsto> b)" "fresh_page (a_request 1) a_page b"
    using new_page_granted [OF c(2) _ a_request_ok(1,3) calm_env_ok(1) c(4), of False a_result] c(3) by auto
  have "drc_step promote c c'"
    by (rule page_request [OF _ calm_env_ok(2) r(1)]) (simp add: a_request_def)
  then have "drc_reachable promote c'" using c(1) reach_step by blast
  then show ?thesis using r by (auto simp: fresh_page_def)
qed

lemma page_converting:
  "\<exists>c b. drc_reachable promote c \<and> ctx_inv promote c {} {} {} \<and> buf_view c a_page = Some b \<and> converting b \<and>
    cvt_req b = (a_request 2)\<lparr>ri_req_owner_result := owner_result_num DRC_REQ_OWNER_CONVERTING\<rparr> \<and> br_claimed_owner b = 1 \<and>
    rb_mode b = DRC_LOCK_EXCLUSIVE"
proof -
  obtain c b where c: "drc_reachable promote c" "ctx_inv promote c {} {} {}" "buf_view c a_page = Some b"
    "fresh_page (a_request 1) a_page b" "br_pending b \<noteq> DRC_RES_PENDING_ACTION"
    using page_owned by blast
  have b: "br_claimed_owner b = 1" "rb_mode b = DRC_LOCK_EXCLUSIVE" "\<not> converting b"
    using c(4) by (simp_all add: fresh_page_def a_request_def)
  obtain ret req' res c' b1 b' where r: "drc_request_page_owner calm_env a_page (a_request 2) False a_result c = Some (ret, req', res, c')"
    "ctx_inv promote c' {} {} {}" "buf_view c' = (buf_view c)(a_page \<mapsto> b')" "owner_kept b b1" "b' \<in> {b1, b1\<lparr>br_readonly_copies := 0\<rparr>}"
    "if ret = OG_SUCCESS then request_outcome (as_waiting (a_request 2)) False res b (waiting c b) b1 (waiting c' b')
     else br_pending b = DRC_RES_PENDING_ACTION \<or> br_claimed_owner b = OG_INVALID_ID8 \<or> converting b \<or>
       (\<exists>copies. rq_invalidate calm_env copies \<noteq> OG_SUCCESS)"
    using known_page_request [OF c(2,3) a_request_ok(2,3) calm_env_ok(1), of False a_result] by blast
  have ret: "ret = OG_SUCCESS" using r(6) b c(5) calm_env_ok(3) by (auto simp: OG_INVALID_ID8_def split: if_splits)
  have k: "br_claimed_owner b1 = 1" "rb_mode b1 = DRC_LOCK_EXCLUSIVE" using r(4) b by (simp_all add: owner_kept_def OG_INVALID_ID8_def)
  have "rr_type res = DRC_REQ_OWNER_CONVERTING \<and> now_converts (as_waiting (a_request 2)) res b b1"
    using r(6) ret b k
    by (auto simp: request_outcome_def OG_INVALID_ID8_def as_waiting_def a_request_def converting_def split: drc_req_owner_result_type.splits)
  then have "converting b1" "cvt_req b1 = (a_request 2)\<lparr>ri_req_owner_result := owner_result_num DRC_REQ_OWNER_CONVERTING\<rparr>"
    using b(3) by (auto simp: now_converts_def retried_def as_waiting_def)
  then have "converting b'" "cvt_req b' = (a_request 2)\<lparr>ri_req_owner_result := owner_result_num DRC_REQ_OWNER_CONVERTING\<rparr>"
    "br_claimed_owner b' = 1" "rb_mode b' = DRC_LOCK_EXCLUSIVE"
    using r(5) k by auto
  moreover have "drc_step promote c c'"
    by (rule page_request [OF _ calm_env_ok(2) r(1)]) (simp add: a_request_def)
  then have "drc_reachable promote c'" using c(1) reach_step by blast
  ultimately show ?thesis using r(2,3) by auto
qed

subsection \<open>Properties of pages\<close>


lemma found_and_read:
  assumes "ctx_inv promote c H G F" "buf_view c p = Some b0"
  shows "\<exists>b. buf_find c p = Some (Some (rb_idx b0)) \<and> buf_get c (rb_idx b0) = Some b \<and> strip b = b0"
  using page_at_start [OF assms(1) [unfolded ctx_inv_def] assms(2)] buf_find_ok [OF assms(1) [unfolded ctx_inv_def], of p] assms(2) by auto




text \<open>
  Claim C20. A request for a page that the catalogue does not know, with an item free, makes the requester its owner at once, in
  the mode asked for, without copies and without a queue, and leaves all other pages and all locks as they are.
\<close>

theorem page_request_new:
  assumes "drc_reachable promote c" "buf_view c p = None" "req_ok req" "\<not> IS_INVALID_PAGID p" "quiet_request e"
    and "pool_free (gr_pool (rc_global_buf_res c)) \<noteq> []"
  shows "\<exists>res c' b. drc_request_page_owner e p req is_try result c = Some (OG_SUCCESS, as_waiting req, res, c') \<and>
    rr_type res = DRC_REQ_OWNER_GRANTED \<and> rr_curr_owner_id res = ri_inst_id req \<and>
    buf_view c' = (buf_view c)(p \<mapsto> b) \<and> lock_view promote c' = lock_view promote c \<and> fresh_page req p b"
  using new_page_granted [OF reachable_inv [OF assms(1)] assms(2-)] by blast

theorem page_request_new_witness:
  "\<exists>c res c' b. drc_reachable (\<lambda>x. ucast x) c \<and>
    drc_request_page_owner calm_env a_page (a_request 1) False a_result c = Some (OG_SUCCESS, as_waiting (a_request 1), res, c') \<and>
    rr_type res = DRC_REQ_OWNER_GRANTED \<and> buf_view c' a_page = Some b \<and> br_claimed_owner b = 1"
proof -
  obtain c where c: "drc_reachable (\<lambda>x. ucast x) c" "buf_view c = (\<lambda>_. None)" "pool_free (gr_pool (rc_global_buf_res c)) \<noteq> []"
    using started by blast
  then show ?thesis
    using page_request_new [OF c(1) _ a_request_ok(1,3) calm_env_ok(1) c(3), of False a_result]
    by (fastforce simp: fresh_page_def a_request_def)
qed



text \<open>
  Claim C4. A claim by the instance whose request converts hands the page over: after an exclusive claim the claimer is the only owner and
  there are no copies, after a shared one it is among the owner and the copies. Then the queue moves on: the requests that
  have expired are told so, in order, and dropped; the first one that has not expired converts next, and its owner and copies are
  returned to the caller; the one behind it is taken out if the two conflict.
\<close>

theorem page_claim_hands_over:
  assumes "drc_reachable promote c" "buf_view c (cl_page_id claim) = Some b" "accepts claim b"
  shows "\<exists>i ci' c' b'. drc_claim_page_owner_locked now claim ci c = Some (Some (rb_idx b, i), ci', c') \<and>
    buf_view c' = (buf_view c)(cl_page_id claim \<mapsto> b') \<and> lock_view promote c' = lock_view promote c \<and> claimed claim b b' \<and>
    rc_sent c' = rc_sent c @ map error_to (fst (next_unexpired now (waiting c b))) \<and>
    (if converting b' then cvt_for b' ci' else ci_req_id ci' = OG_INVALID_ID8) \<and>
    moves_on now (waiting c b) b' (waiting c' b') (item_req c' i)"
  using claim_locked_accepted [OF reachable_inv [OF assms(1), unfolded ctx_inv_def] assms(2,3), of now ci] ctx_okD(2,3) by blast

definition a_claim :: claim_info where
  "a_claim = \<lparr>cl_new_id = 2, cl_inst_sid = 0, cl_page_id = a_page, cl_lsn = 0, cl_has_edp = False, cl_mode = DRC_LOCK_EXCLUSIVE\<rparr>"

definition a_cvt :: cvt_info where
  "a_cvt = \<lparr>ci_owner_id = 0, ci_req_id = 0, ci_req_sid = 0, ci_req_rsn = 0, ci_pageid = a_page, ci_req_mode = DRC_LOCK_NULL,
     ci_curr_mode = DRC_LOCK_NULL, ci_readonly_copies = 0, ci_req_version = 0, ci_lsn = 0\<rparr>"

theorem page_claim_hands_over_witness:
  "\<exists>c b i ci' c' b'. drc_reachable (\<lambda>x. ucast x) c \<and> buf_view c a_page = Some b \<and> br_claimed_owner b = 1 \<and>
    drc_claim_page_owner_locked (\<lambda>_. 0) a_claim a_cvt c = Some (Some (rb_idx b, i), ci', c') \<and>
    buf_view c' a_page = Some b' \<and> br_claimed_owner b' = 2"
proof -
  obtain c b where c: "drc_reachable (\<lambda>x. ucast x) c" "buf_view c a_page = Some b" "converting b"
    "cvt_req b = (a_request 2)\<lparr>ri_req_owner_result := owner_result_num DRC_REQ_OWNER_CONVERTING\<rparr>" "br_claimed_owner b = 1"
    using page_converting by blast
  have a: "accepts a_claim b"
    using c(3,4) by (simp add: accepts_def a_claim_def drc_is_same_claim_request_def drc_claim_info_is_invalid_def a_request_def zero_req_info_def)
  have v: "buf_view c (cl_page_id a_claim) = Some b" using c(2) by (simp add: a_claim_def)
  obtain i ci' c' b' where "drc_claim_page_owner_locked (\<lambda>_. 0) a_claim a_cvt c = Some (Some (rb_idx b, i), ci', c')"
    "buf_view c' = (buf_view c)(cl_page_id a_claim \<mapsto> b')" "claimed a_claim b b'"
    using page_claim_hands_over [OF c(1) v a, of "\<lambda>_. 0" a_cvt] by blast
  then show ?thesis using c(1,2,5) by (intro exI [of _ c] exI [of _ b] exI) (auto simp: claimed_def a_claim_def)
qed



text \<open>
  Claim C22. A release takes a page out of the catalogue exactly if its owner asks, nobody converts it and no earlier dirty page
  is left; otherwise nothing changes. The answer is that the page is released unless the asking instance is the owner or
  the one that converts.
\<close>

theorem page_release:
  assumes "drc_reachable promote c" "buf_view c p = Some b"
  shows "\<exists>released c'. drc_release_page_owner old_id p c = Some (released, c') \<and>
    buf_view c' = (if releasable old_id b then (buf_view c)(p := None) else buf_view c) \<and>
    lock_view promote c' = lock_view promote c \<and> (\<not> releasable old_id b \<longrightarrow> c' = c) \<and>
    released = (releasable old_id b \<or> br_claimed_owner b \<noteq> old_id \<and> old_id \<noteq> ri_inst_id (cvt_req b))"
  using release_ok [OF reachable_inv [OF assms(1), unfolded ctx_inv_def] assms(2), of old_id] ctx_okD(2,3) by blast

theorem page_release_witness:
  "\<exists>c b c'. drc_reachable (\<lambda>x. ucast x) c \<and> buf_view c a_page = Some b \<and> drc_release_page_owner 1 a_page c = Some (True, c') \<and>
    buf_view c' a_page = None"
proof -
  obtain c b where c: "drc_reachable (\<lambda>x. ucast x) c" "buf_view c a_page = Some b" "fresh_page (a_request 1) a_page b"
    using page_owned by blast
  have "releasable 1 b" using c(3) by (simp add: releasable_def fresh_page_def a_request_def)
  then obtain c' where "drc_release_page_owner 1 a_page c = Some (True, c')" "buf_view c' = (buf_view c)(a_page := None)"
    using page_release [OF c(1,2), of 1] by auto
  then show ?thesis using c(1,2) by (intro exI [of _ c] exI [of _ b] exI [of _ c']) simp
qed



end
