(* ===== verification/Lock_Properties.thy ===== *)
theory Lock_Properties
  imports Catalogue
begin

text \<open>
  What the lock protocol guarantees in every state a master reaches: mutual exclusion, answers to requests at once or when
  the turn of a request has come, and the effect of claims, releases, attempts and recycling.
\<close>

subsection \<open>Properties of locks\<close>

definition a_lock :: drid where
  "a_lock = \<lparr>dr_key1 = 3, dr_key2 = 7, dr_key3 = 0, dr_key4 = 0\<rparr>"

definition a_grant :: lock_grant where
  "a_grant = \<lparr>lg_is_granted = False, lg_old_owner_map = 0\<rparr>"

lemma a_request_valid: "inst_ok i \<Longrightarrow> req_ok (a_request i)" "ri_inst_id (a_request i) = i" "ri_req_mode (a_request i) = DRC_LOCK_EXCLUSIVE"
  by (simp_all add: req_ok_def a_request_def)

lemma insts_small: "inst_ok 1" "inst_ok 2" "inst_ok 3"
  by (simp_all add: inst_ok_def OG_MAX_INSTANCES_def)

lemma one_neq_two_u8: "(1 :: u8) \<noteq> 2"
  by simp

text \<open>Answering a request at once and claiming a lock nobody waits for take no request items.\<close>

lemma lock_put_pool: "lock_put c i m = Some c' \<Longrightarrow> rc_lock_item_pool c' = rc_lock_item_pool c"
  by (auto simp: lock_put_def Option.bind_eq_Some_conv)

lemma create_lock_pool: "drc_create_lock_res promote l c = Some (ret, c') \<Longrightarrow> rc_lock_item_pool c' = rc_lock_item_pool c"
  by (auto simp: drc_create_lock_res_def Option.bind_eq_Some_conv split: if_splits)

lemma lock_refused_pool:
  "drc_request_lock_owner_add_req_into_cvt_q m req c = Some (ret, m', c') \<Longrightarrow> ret = OG_SUCCESS \<or> rc_lock_item_pool c' = rc_lock_item_pool c"
  by (auto simp: drc_request_lock_owner_add_req_into_cvt_q_def Option.bind_eq_Some_conv split: option.splits)

lemma lock_locked_pool:
  assumes "drc_request_lock_locked promote l req grant c = Some (ret, None, grant', c')"
  shows "rc_lock_item_pool c' = rc_lock_item_pool c"
  using assms
  by (auto simp: drc_request_lock_locked_def Option.bind_eq_Some_conv dest!: lock_put_pool create_lock_pool lock_refused_pool split: option.splits if_splits)

lemma lock_claim_pool:
  assumes "drc_claim_lock_owner promote stop is_remaster l claim c = Some (ret, c')" "lock_find promote c l = Some (Some i)"
    "lock_get c i = Some m" "dl_count (rb_convert_q m) = 0"
  shows "rc_lock_item_pool c' = rc_lock_item_pool c"
  using assms
  by (auto simp: drc_claim_lock_owner_def drc_convert_lock_owner_def Let_def Option.bind_eq_Some_conv dest!: lock_put_pool split: if_splits)

lemma lock_asked:
  assumes c: "drc_reachable promote c" and i: "inst_ok i"
    and room: "lock_view promote c a_lock \<noteq> None \<or> pool_free (gr_pool (rc_global_lock_res c)) \<noteq> []"
    and idle: "\<And>m. lock_view promote c a_lock = Some m \<Longrightarrow> \<not> converting m"
  shows "\<exists>c' m'. drc_reachable promote c' \<and> lock_view promote c' a_lock = Some m' \<and> cvt_req m' = a_request i \<and>
    holders m' = (case lock_view promote c a_lock of None \<Rightarrow> ({}, DRC_LOCK_NULL) | Some m \<Rightarrow> holders m) \<and> waiting c' m' = [] \<and>
    rc_lock_item_pool c' = rc_lock_item_pool c"
proof -
  note ok = reachable_inv [OF c, unfolded ctx_inv_def] and req = a_request_valid(1) [OF i]
  obtain grant' c' m' where r: "drc_request_lock_locked promote a_lock (a_request i) a_grant c = Some (OG_SUCCESS, None, grant', c')"
    "ctx_ok promote c' (buf_view c) ((lock_view promote c)(a_lock \<mapsto> m')) {} {} {}" "cvt_req m' = a_request i"
    "holders m' = (case lock_view promote c a_lock of None \<Rightarrow> ({}, DRC_LOCK_NULL) | Some m \<Rightarrow> holders m)" "dl_count (rb_convert_q m') = 0"
    using request_locked_ok [OF ok req room, of a_grant] idle by (cases "lock_view promote c a_lock") (auto simp: lock_outcome_def)
  have r': "drc_request_lock_owner promote False (\<lambda>_ c. c) (\<lambda>_. False) a_lock (a_request i) a_grant c = Some (OG_SUCCESS, grant', c')"
    using r(1) by (simp add: drc_request_lock_owner_def)
  have "drc_step promote c c'" by (rule lock_request [OF req _ r']) simp
  then have "drc_reachable promote c'" using c reach_step by blast
  moreover have "waiting c' m' = []" using r(5) by (simp add: cvt_q_reqs_def cvt_q_chain_def)
  ultimately show ?thesis using r(3,4) ctx_okD(3) [OF r(2)] lock_locked_pool [OF r(1)] by auto
qed

text \<open>Instance 1 holds the lock exclusively; instance 2 is converting it.\<close>

lemma lock_held:
  "\<exists>c m. drc_reachable promote c \<and> lock_view promote c a_lock = Some m \<and> holders m = ({1}, DRC_LOCK_EXCLUSIVE) \<and> \<not> converting m \<and>
    pool_free (rc_lock_item_pool c) \<noteq> []"
proof -
  obtain c0 where c0: "drc_reachable promote c0" "lock_view promote c0 = (\<lambda>_. None)" "pool_free (gr_pool (rc_global_lock_res c0)) \<noteq> []"
    "pool_free (rc_lock_item_pool c0) \<noteq> []"
    using started by blast
  obtain c1 m1 where c1: "drc_reachable promote c1" "lock_view promote c1 a_lock = Some m1" "cvt_req m1 = a_request 1"
    "holders m1 = ({}, DRC_LOCK_NULL)" "waiting c1 m1 = []" "rc_lock_item_pool c1 = rc_lock_item_pool c0"
    using lock_asked [OF c0(1) insts_small(1)] c0(2,3) by auto
  let ?claim = "\<lparr>lc_new_id = 1, lc_mode = DRC_LOCK_EXCLUSIVE, lc_inst_sid = 0\<rparr>"
  note ok = reachable_inv [OF c1(1), unfolded ctx_inv_def]
  have "claimable ?claim m1" using c1(3) by (simp add: claimable_def converting_def a_request_def OG_INVALID_ID8_def)
  then obtain m' c' where c': "drc_claim_lock_owner promote False False a_lock ?claim c1 = Some (OG_SUCCESS, c')"
    "ctx_ok promote c' (buf_view c1) ((lock_view promote c1)(a_lock \<mapsto> m')) {} {} {}" "holders m' = holders_claimed ?claim m1"
    "lock_moves_on (waiting c1 m1) m' (waiting c' m')"
    using claim_lock_ok [OF ok c1(2), of ?claim False False] by blast
  have "drc_step promote c1 c'" by (rule lock_claim [OF _ c'(1)]) (simp add: insts_small)
  then have r: "drc_reachable promote c'" using c1(1) reach_step by blast
  have "\<not> converting m'" using c'(4) c1(5) by (simp add: lock_moves_on_def)
  moreover obtain x where x: "lock_find promote c1 a_lock = Some (Some (rb_idx x))" "lock_get c1 (rb_idx x) = Some x" "strip x = m1"
    using lock_found [OF ok c1(2)] by blast
  have "waiting c1 x = []" using x(3) c1(5) by auto
  then have "dl_count (rb_convert_q x) = 0" by (auto simp: cvt_q_reqs_def cvt_q_chain_def unat_eq_zero)
  then have "rc_lock_item_pool c' = rc_lock_item_pool c1" using lock_claim_pool [OF c'(1) x(1,2)] by blast
  ultimately show ?thesis using r c'(3) ctx_okD(3) [OF c'(2)] c1(6) c0(4) by (auto simp: holders_claimed_def)
qed

lemma lock_wanted:
  "\<exists>c m. drc_reachable promote c \<and> lock_view promote c a_lock = Some m \<and> holders m = ({1}, DRC_LOCK_EXCLUSIVE) \<and>
    cvt_req m = a_request 2 \<and> waiting c m = [] \<and> pool_free (rc_lock_item_pool c) \<noteq> []"
proof -
  obtain c m where c: "drc_reachable promote c" "lock_view promote c a_lock = Some m" "holders m = ({1}, DRC_LOCK_EXCLUSIVE)" "\<not> converting m"
    "pool_free (rc_lock_item_pool c) \<noteq> []"
    using lock_held by blast
  then show ?thesis using lock_asked [OF c(1) insts_small(2)] by auto
qed

text \<open>
  Claim C2. In every reachable state a lock that the directory finds is the lock asked for, at most one instance holds it while its
  mode is exclusive, nobody holds it without a mode, and requests wait only behind one that converts.
\<close>

theorem lock_mutual_exclusion:
  assumes "drc_reachable promote c" and "lock_find promote c l = Some (Some i)" and "lock_get c i = Some m"
  shows "mr_res_id m = l \<and> rb_idx m = i \<and>
    (rb_mode m = DRC_LOCK_EXCLUSIVE \<longrightarrow> (\<forall>a b. drc_bitmap64_exist (mr_granted_map m) a \<and> drc_bitmap64_exist (mr_granted_map m) b \<longrightarrow> a = b)) \<and>
    (rb_mode m = DRC_LOCK_NULL \<longrightarrow> mr_granted_map m = 0) \<and> (\<not> converting m \<longrightarrow> waiting c m = [])"
proof -
  note ok = reachable_inv [OF assms(1), unfolded ctx_inv_def]
  obtain m0 where m0: "lock_view promote c l = Some m0" "rb_idx m0 = i"
    using lock_find_rep [OF ok, of l] assms(2) by (cases "lock_view promote c l") auto
  obtain x where x: "lock_find promote c l = Some (Some (rb_idx x))" "lock_get c (rb_idx x) = Some x" "strip x = m0" "lock_ok x (waiting c x)"
    using lock_found [OF ok m0(1)] by blast
  have "rb_idx x = i" using x(3) m0(2) by auto
  then have e: "m = x" using x(2) assms(3) by simp
  have "mr_res_id m0 = l" using lock_key [OF ok m0(1)] .
  then have "mr_res_id m = l" using x(3) e by auto
  moreover have "\<forall>a b. drc_bitmap64_exist (mr_granted_map m) a \<and> drc_bitmap64_exist (mr_granted_map m) b \<longrightarrow> a = b"
    if "rb_mode m = DRC_LOCK_EXCLUSIVE"
    using x(4) that e by (auto simp: lock_ok_def exist_insts)
  ultimately show ?thesis using x(4) e \<open>rb_idx x = i\<close> by (simp add: lock_ok_parts)
qed

theorem lock_mutual_exclusion_witness:
  "\<exists>c i m. drc_reachable (\<lambda>x. ucast x) c \<and> lock_find (\<lambda>x. ucast x) c a_lock = Some (Some i) \<and> lock_get c i = Some m \<and>
    rb_mode m = DRC_LOCK_EXCLUSIVE \<and> drc_bitmap64_exist (mr_granted_map m) 1 \<and> \<not> drc_bitmap64_exist (mr_granted_map m) 2"
proof -
  obtain c m0 where c: "drc_reachable (\<lambda>x. ucast x) c" "lock_view (\<lambda>x. ucast x) c a_lock = Some m0" "holders m0 = ({1}, DRC_LOCK_EXCLUSIVE)"
    using lock_held by blast
  obtain m where m: "lock_find (\<lambda>x. ucast x) c a_lock = Some (Some (rb_idx m))" "lock_get c (rb_idx m) = Some m" "strip m = m0"
    using lock_found [OF reachable_inv [OF c(1), unfolded ctx_inv_def] c(2)] by blast
  have "rb_mode m = DRC_LOCK_EXCLUSIVE" "drc_bitmap64_exist (mr_granted_map m) 1"
    using m(3) c(3) by (auto simp: holders_def exist_insts)
  then show ?thesis using lock_mutual_exclusion [OF c(1) m(1,2)] m(1,2) c(1) by (metis one_neq_two_u8)
qed

text \<open>
  Claim C19. A request for a lock nobody converts is answered at once. A new lock is granted; for a known one the answer says whether the
  mode asked for is compatible with the mode of the lock and, if not, which instances hold it. The request is recorded as
  the converting one, and the holders stay as they are.
\<close>

theorem lock_request_answered:
  assumes "drc_reachable promote c" and "req_ok req"
    and "lock_view promote c l \<noteq> None \<or> pool_free (gr_pool (rc_global_lock_res c)) \<noteq> []"
    and "\<And>m. lock_view promote c l = Some m \<Longrightarrow> \<not> converting m"
  shows "\<exists>c' m'. drc_request_lock_owner promote False others stop l req grant c = Some (OG_SUCCESS,
      (case lock_view promote c l of None \<Rightarrow> \<lparr>lg_is_granted = True, lg_old_owner_map = 0\<rparr>
       | Some m \<Rightarrow> if g_mode_compatible_matrix (ri_req_mode req) (rb_mode m) then \<lparr>lg_is_granted = True, lg_old_owner_map = 0\<rparr>
           else \<lparr>lg_is_granted = False, lg_old_owner_map = mr_granted_map m\<rparr>), c') \<and>
    buf_view c' = buf_view c \<and> lock_view promote c' = (lock_view promote c)(l \<mapsto> m') \<and> cvt_req m' = req \<and>
    holders m' = (case lock_view promote c l of None \<Rightarrow> ({}, DRC_LOCK_NULL) | Some m \<Rightarrow> holders m)"
  using request_lock_immediate [OF reachable_inv [OF assms(1)] assms(2-), of others stop grant] unfolding lock_grant_for_def by blast

theorem lock_request_answered_witness:
  "\<exists>c c' m'. drc_reachable (\<lambda>x. ucast x) c \<and>
    drc_request_lock_owner (\<lambda>x. ucast x) False (\<lambda>_ c. c) (\<lambda>_. False) a_lock (a_request 2) a_grant c = Some (OG_SUCCESS, m', c') \<and>
    \<not> lg_is_granted m' \<and> insts (lg_old_owner_map m') = {1}"
proof -
  obtain c m where c: "drc_reachable (\<lambda>x. ucast x) c" "lock_view (\<lambda>x. ucast x) c a_lock = Some m" "holders m = ({1}, DRC_LOCK_EXCLUSIVE)" "\<not> converting m"
    using lock_held by blast
  have "\<not> g_mode_compatible_matrix (ri_req_mode (a_request 2)) (rb_mode m)"
    using c(3) by (simp add: holders_def a_request_def g_mode_compatible_matrix_def)
  then show ?thesis
    using lock_request_answered [OF c(1) a_request_valid(1) [OF insts_small(2)], of a_lock "\<lambda>_ c. c" "\<lambda>_. False" a_grant] c
    by (auto simp: holders_def)
qed

text \<open>
  Claim C5. A request that had to wait is answered: if other threads keep the invariant and the converting request, then as soon as a round
  comes in which a reform stops the wait or the turn of the requesting instance has come, the wait ends, with an error in the
  first case and with the answer for the state of the lock at that moment in the second.
\<close>

theorem lock_request_served:
  assumes "\<And>n. keeps_inv promote (others n)" "\<And>n. keeps_lock promote l (others n)" and "drc_reachable promote c" "req_ok req"
    and "lock_view promote c l = Some m" "converting m" "ri_inst_id req \<notin> insts (mr_granted_map m)"
    and "drc_request_lock_locked promote l req grant c = Some (OG_SUCCESS, waits, grant', c1)"
    and "\<exists>n. stop n \<or> lock_turn promote l req (lock_rounds others c1 n)"
  shows "\<exists>n m'. drc_request_lock_owner promote False others stop l req grant c =
      Some (if stop n then OG_ERROR else OG_SUCCESS, if stop n then grant else lock_grant_for req m', lock_rounds others c1 n) \<and>
    lock_view promote (lock_rounds others c1 n) l = Some m' \<and> (\<not> stop n \<longrightarrow> ri_inst_id (cvt_req m') = ri_inst_id req) \<and>
    ctx_inv promote (lock_rounds others c1 n) {} {} {}"
  using request_lock_waits [OF assms(1,2) reachable_inv [OF assms(3)] assms(4-)] by blast

text \<open>
  In the example the converting request of instance 2 is cancelled while instance 3 waits, and then it is the turn of instance 3.
\<close>

lemma lock_entered:
  assumes ok: "ctx_ok promote c V W H G F" and W: "W l = Some m" and busy: "converting m" "ri_inst_id req \<notin> insts (mr_granted_map m)"
    and req: "req_ok req" and room: "pool_free (rc_lock_item_pool c) \<noteq> []"
  shows "\<exists>c' m'. drc_request_lock_locked promote l req grant c = Some (OG_SUCCESS, Some (rb_idx m), grant, c') \<and>
    ctx_ok promote c' V (W(l \<mapsto> m')) H G F \<and> holders m' = holders m \<and> cvt_req m' = cvt_req m \<and> rb_idx m' = rb_idx m \<and>
    waiting c' m' = waiting c m @ [req]"
proof -
  obtain x where x: "lock_find promote c l = Some (Some (rb_idx x))" "lock_get c (rb_idx x) = Some x" "strip x = m"
    "lock_at promote c l x V W H G F" using lock_found [OF ok W] by blast
  have q: "queues_ok (rc_lock_item_pool c) ((cvt_queues V W)(Inr l \<mapsto> rb_convert_q x)) F" using x(4) by (simp add: lock_at_def)
  obtain i "is" where "pool_free (rc_lock_item_pool c) = i # is" using room by (cases "pool_free (rc_lock_item_pool c)") auto
  then obtain p q' where "cvt_q_enqueue (rc_lock_item_pool c) (rb_convert_q x) req = Some (Some (p, q'))"
    using cvt_q_enqueue_ok [OF queues_okD(1) [OF q] queues_okD(2) [OF q fun_upd_same]] by blast
  then have e: "drc_request_lock_owner_add_req_into_cvt_q x req c = Some (OG_SUCCESS, x\<lparr>rb_convert_q := q'\<rparr>, c\<lparr>rc_lock_item_pool := p\<rparr>)"
    by (simp add: drc_request_lock_owner_add_req_into_cvt_q_def)
  have s: "converting x" "mr_granted_map x = mr_granted_map m" using x(3) busy(1) by auto
  obtain ret waits grant' c' where r: "drc_request_lock_locked promote l req grant c = Some (ret, waits, grant', c')"
    "lock_outcome promote l req grant c V W H G F ret waits grant' c'"
    using request_locked_ok [OF ok req, of l grant] W by auto
  have "ret = OG_SUCCESS"
    using r(1) x(1,2) e s busy(2) by (auto simp: drc_request_lock_locked_def converting_def exist_insts Option.bind_eq_Some_conv)
  then show ?thesis using r W busy by (simp add: lock_outcome_def)
qed

lemma lock_queued:
  "\<exists>c m c1 m1 c2 m2 waits. drc_reachable promote c \<and> lock_view promote c a_lock = Some m \<and> converting m \<and> insts (mr_granted_map m) = {1} \<and>
    drc_request_lock_locked promote a_lock (a_request 3) a_grant c = Some (OG_SUCCESS, waits, a_grant, c1) \<and>
    lock_view promote c1 a_lock = Some m1 \<and> drc_cancel_lock_owner_request promote 2 a_lock c1 = Some (OG_SUCCESS, c2) \<and>
    lock_view promote c2 a_lock = Some m2 \<and> rb_idx m2 = rb_idx m1 \<and> cvt_req m2 = a_request 3"
proof -
  obtain c m where c: "drc_reachable promote c" "lock_view promote c a_lock = Some m" "holders m = ({1}, DRC_LOCK_EXCLUSIVE)"
    "cvt_req m = a_request 2" "waiting c m = []" "pool_free (rc_lock_item_pool c) \<noteq> []"
    using lock_wanted by blast
  have m: "converting m" "insts (mr_granted_map m) = {1}" "ri_inst_id (a_request 3) \<notin> insts (mr_granted_map m)"
    using c(3,4) by (simp_all add: converting_def a_request_def OG_INVALID_ID8_def holders_def)
  note ok = reachable_inv [OF c(1), unfolded ctx_inv_def]
  obtain c1 m1 where r: "drc_request_lock_locked promote a_lock (a_request 3) a_grant c = Some (OG_SUCCESS, Some (rb_idx m), a_grant, c1)"
    "ctx_ok promote c1 (buf_view c) ((lock_view promote c)(a_lock \<mapsto> m1)) {} {} {}" "cvt_req m1 = a_request 2" "waiting c1 m1 = [a_request 3]"
    using lock_entered [OF ok c(2) m(1,3) a_request_valid(1) [OF insts_small(3)] c(6), of a_grant] c(4,5) by auto
  have v1: "lock_view promote c1 a_lock = Some m1" using ctx_okD(3) [OF r(2)] by simp
  obtain c2 where c2: "drc_cancel_lock_owner_request promote 2 a_lock c1 = Some (OG_SUCCESS, c2)"
    "\<exists>m2. ctx_ok promote c2 (buf_view c) ((lock_view promote c)(a_lock \<mapsto> m2)) {} {} {} \<and> rb_idx m2 = rb_idx m1 \<and>
       lock_moves_on (waiting c1 m1) m2 (waiting c2 m2)"
    using cancel_lock_ok [OF r(2), of 2 a_lock] r(3) by (auto simp: drc_cancel_lock_owner_request_def a_request_def)
  then obtain m2 where m2: "lock_view promote c2 a_lock = Some m2" "rb_idx m2 = rb_idx m1" "lock_moves_on (waiting c1 m1) m2 (waiting c2 m2)"
    using ctx_okD(3) by fastforce
  then have "cvt_req m2 = a_request 3" using r(4) by (simp add: lock_moves_on_def)
  then show ?thesis using c(1,2) m(1,2) r(1) v1 c2(1) m2(1,2) by blast
qed

theorem lock_request_served_witness:
  "\<exists>c c2 others n m'. drc_reachable (\<lambda>x. ucast x) c \<and>
    drc_request_lock_owner (\<lambda>x. ucast x) False others (\<lambda>_. False) a_lock (a_request 3) a_grant c =
      Some (OG_SUCCESS, lock_grant_for (a_request 3) m', lock_rounds others c2 n) \<and> ri_inst_id (cvt_req m') = 3"
proof -
  let ?p = "\<lambda>x. ucast x :: u32"
  obtain c m c1 m1 c2 m2 waits where c: "drc_reachable ?p c" "lock_view ?p c a_lock = Some m" "converting m" "insts (mr_granted_map m) = {1}"
    "drc_request_lock_locked ?p a_lock (a_request 3) a_grant c = Some (OG_SUCCESS, waits, a_grant, c1)"
    "lock_view ?p c1 a_lock = Some m1" "drc_cancel_lock_owner_request ?p 2 a_lock c1 = Some (OG_SUCCESS, c2)"
    "lock_view ?p c2 a_lock = Some m2" "rb_idx m2 = rb_idx m1" "cvt_req m2 = a_request 3"
    using lock_queued by blast
  define others where "others = (\<lambda>(_ :: nat) c. if c = c1 then c2 else c)"
  have "converting m2" using c(10) by (simp add: converting_def a_request_def OG_INVALID_ID8_def)
  then have k: "keeps_inv ?p (others n)" "keeps_lock ?p a_lock (others n)" for n
    using lock_cancel_keeps [OF _ c(7)] c(6,8,9) by (auto simp: others_def keeps_inv_def keeps_lock_def)
  have t: "\<exists>n. False \<or> lock_turn ?p a_lock (a_request 3) (lock_rounds others c1 n)"
    using c(8,10) by (intro exI [of _ 0]) (simp add: others_def lock_turn_def)
  have "ri_inst_id (a_request 3) \<notin> insts (mr_granted_map m)" using c(4) by (simp add: a_request_def)
  then obtain n m' where "drc_request_lock_owner ?p False others (\<lambda>_. False) a_lock (a_request 3) a_grant c =
      Some (OG_SUCCESS, lock_grant_for (a_request 3) m', lock_rounds others c1 n)" "ri_inst_id (cvt_req m') = ri_inst_id (a_request 3)"
    using lock_request_served [OF k c(1) a_request_valid(1) [OF insts_small(3)] c(2,3) _ c(5) t] by auto
  then show ?thesis using c(1) a_request_valid(2) [of 3] by metis
qed

text \<open>
  Claim C7. A claim by the instance whose request converts makes it a holder in the mode of the request: the only one for an exclusive
  lock, and one more otherwise; the first waiting request converts next, and the others keep their order. No other lock
  and no page changes.
\<close>

theorem lock_claim_grants:
  assumes "drc_reachable promote c" "lock_view promote c l = Some m" "claimable claim m" "\<not> stop \<or> is_remaster"
  shows "\<exists>m' c'. drc_claim_lock_owner promote stop is_remaster l claim c = Some (OG_SUCCESS, c') \<and>
    buf_view c' = buf_view c \<and> lock_view promote c' = (lock_view promote c)(l \<mapsto> m') \<and> holders m' = holders_claimed claim m \<and>
    lock_moves_on (waiting c m) m' (waiting c' m')"
  using claim_lock_ok [OF reachable_inv [OF assms(1), unfolded ctx_inv_def] assms(2-)] ctx_okD(2,3) by blast

theorem lock_claim_grants_witness:
  "\<exists>c m m' c'. drc_reachable (\<lambda>x. ucast x) c \<and> lock_view (\<lambda>x. ucast x) c a_lock = Some m \<and> insts (mr_granted_map m) = {1} \<and>
    drc_claim_lock_owner (\<lambda>x. ucast x) False False a_lock \<lparr>lc_new_id = 2, lc_mode = DRC_LOCK_EXCLUSIVE, lc_inst_sid = 0\<rparr> c = Some (OG_SUCCESS, c') \<and>
    lock_view (\<lambda>x. ucast x) c' a_lock = Some m' \<and> insts (mr_granted_map m') = {2}"
proof -
  obtain c m where c: "drc_reachable (\<lambda>x. ucast x) c" "lock_view (\<lambda>x. ucast x) c a_lock = Some m" "holders m = ({1}, DRC_LOCK_EXCLUSIVE)"
    "cvt_req m = a_request 2"
    using lock_wanted by blast
  let ?claim = "\<lparr>lc_new_id = 2, lc_mode = DRC_LOCK_EXCLUSIVE, lc_inst_sid = 0\<rparr>"
  have cl: "claimable ?claim m" using c(4) by (simp add: claimable_def converting_def a_request_def OG_INVALID_ID8_def)
  obtain m' c' where "drc_claim_lock_owner (\<lambda>x. ucast x) False False a_lock ?claim c = Some (OG_SUCCESS, c')"
    "lock_view (\<lambda>x. ucast x) c' = (lock_view (\<lambda>x. ucast x) c)(a_lock \<mapsto> m')" "holders m' = holders_claimed ?claim m"
    using lock_claim_grants [OF c(1,2) cl, of False False] by blast
  then show ?thesis using c(1-3) by (intro exI [of _ c] exI [of _ m] exI [of _ m'] exI [of _ c']) (simp add: holders_def holders_claimed_def)
qed

text \<open>
  Claim C24. A release by a holder takes just this instance off the lock; the last holder takes the mode along, and the lock disappears if
  nobody converts it. A release by an instance that does not hold the lock is an error and changes nothing.
\<close>

theorem lock_release_holder:
  assumes "drc_reachable promote c"
  shows "\<exists>c'. drc_release_lock_owner promote inst l c =
      Some (if \<exists>m. lock_view promote c l = Some m \<and> inst \<in> insts (mr_granted_map m) then OG_SUCCESS else OG_ERROR, c') \<and>
    (case lock_view promote c l of None \<Rightarrow> c' = c
     | Some m \<Rightarrow>
         if inst \<notin> insts (mr_granted_map m) then c' = c
         else if insts (mr_granted_map m) = {inst} \<and> \<not> converting m then lock_view promote c' = (lock_view promote c)(l := None)
         else \<exists>m'. lock_view promote c' = (lock_view promote c)(l \<mapsto> m') \<and> cvt_req m' = cvt_req m \<and>
           holders m' = (insts (mr_granted_map m) - {inst}, if insts (mr_granted_map m) = {inst} then DRC_LOCK_NULL else rb_mode m))"
proof -
  note ok = reachable_inv [OF assms, unfolded ctx_inv_def]
  obtain c' where r: "drc_release_lock_owner promote inst l c =
      Some (if \<exists>m. lock_view promote c l = Some m \<and> inst \<in> insts (mr_granted_map m) then OG_SUCCESS else OG_ERROR, c')"
    "case lock_view promote c l of None \<Rightarrow> c' = c
     | Some m \<Rightarrow> if inst \<in> insts (mr_granted_map m)
         then ctx_ok promote c' (buf_view c) ((lock_view promote c)(l := after_release inst m)) {} {} {} else c' = c"
    using release_lock_ok [OF ok, of inst l] by blast
  show ?thesis
  proof (cases "\<exists>m. lock_view promote c l = Some m \<and> inst \<in> insts (mr_granted_map m)")
    case False
    then show ?thesis using r by (intro exI [of _ c']) (auto split: option.splits)
  next
    case True
    then obtain m where m: "lock_view promote c l = Some m" "inst \<in> insts (mr_granted_map m)" by blast
    have v: "lock_view promote c' = (lock_view promote c)(l := after_release inst m)" using r(2) m ctx_okD(3) by simp
    have o: "insts (mr_granted_map m) \<subseteq> {inst} \<longleftrightarrow> insts (mr_granted_map m) = {inst}" using m(2) by auto
    have "holders (drop_holder inst m) =
        (insts (mr_granted_map m) - {inst}, if insts (mr_granted_map m) = {inst} then DRC_LOCK_NULL else rb_mode m)"
      by (simp add: drop_holder_def Let_def holders_def last_holder o)
    then show ?thesis
      using r(1) m v o by (intro exI [of _ c']) (auto simp: after_release_def simp del: fun_upd_apply intro!: exI [of _ "drop_holder inst m"])
  qed
qed

theorem lock_release_holder_witness:
  "\<exists>c c'. drc_reachable (\<lambda>x. ucast x) c \<and> drc_release_lock_owner (\<lambda>x. ucast x) 1 a_lock c = Some (OG_SUCCESS, c') \<and>
    lock_view (\<lambda>x. ucast x) c' a_lock = None"
proof -
  obtain c m where c: "drc_reachable (\<lambda>x. ucast x) c" "lock_view (\<lambda>x. ucast x) c a_lock = Some m" "holders m = ({1}, DRC_LOCK_EXCLUSIVE)" "\<not> converting m"
    using lock_held by blast
  then show ?thesis using lock_release_holder [OF c(1), of 1 a_lock] by (auto simp: holders_def)
qed

text \<open>
  Claim C25. An attempt to get a lock never waits: it succeeds only if nobody converts the lock, and is then recorded as the converting
  request; a refused attempt changes nothing, neither the catalogue nor the answer.
\<close>

theorem lock_try_never_waits:
  assumes "drc_reachable promote c" "req_ok req"
  shows "\<exists>ret grant' c'. drc_try_request_lock_owner promote remastered stop l req grant c = Some (ret, grant', c') \<and>
    (if ret = OG_SUCCESS then buf_view c' = buf_view c \<and>
       (\<exists>m'. lock_view promote c' = (lock_view promote c)(l \<mapsto> m') \<and> cvt_req m' = req) \<and>
       (\<forall>m. lock_view promote c l = Some m \<longrightarrow> \<not> converting m)
     else grant' = grant \<and> c' = c)"
proof -
  obtain ret grant' c' where "drc_try_request_lock_owner promote remastered stop l req grant c = Some (ret, grant', c')"
    "if ret = OG_SUCCESS then ctx_inv promote c' {} {} {} \<and> buf_view c' = buf_view c \<and>
       (\<exists>m'. lock_view promote c' = (lock_view promote c)(l \<mapsto> m') \<and> cvt_req m' = req) \<and>
       (\<forall>m. lock_view promote c l = Some m \<longrightarrow> \<not> converting m)
     else ret = OG_ERROR \<and> grant' = grant \<and> c' = c"
    using try_request_ok [OF reachable_inv [OF assms(1)] assms(2), of remastered stop l grant] by blast
  then show ?thesis by (intro exI [of _ ret] exI [of _ grant'] exI [of _ c']) (simp split: if_splits)
qed

theorem lock_try_never_waits_witness:
  "\<exists>c ret c'. drc_reachable (\<lambda>x. ucast x) c \<and> ret \<noteq> OG_SUCCESS \<and> c' = c \<and>
    drc_try_request_lock_owner (\<lambda>x. ucast x) True False a_lock (a_request 3) a_grant c = Some (ret, a_grant, c')"
proof -
  obtain c m where c: "drc_reachable (\<lambda>x. ucast x) c" "lock_view (\<lambda>x. ucast x) c a_lock = Some m" "cvt_req m = a_request 2"
    using lock_wanted by blast
  have "converting m" using c(3) by (simp add: converting_def a_request_def OG_INVALID_ID8_def)
  then show ?thesis
    using lock_try_never_waits [OF c(1) a_request_valid(1) [OF insts_small(3)], of True False a_lock a_grant] c(1,2)
    by (auto split: if_splits)
qed

text \<open>
  Claim C26. Recycling an idle lock of an instance on its master takes the instance off the holders, and the lock disappears with the last
  holder if nobody converts it. A lock that somebody converts stays, and, unlike after a release, it keeps the mode of its
  last holder although nobody holds it.
\<close>

theorem lock_recycle_keeps_mode:
  assumes "drc_reachable promote c" "lock_view promote c l = Some m"
  shows "\<exists>c'. drc_recycle_dls_master promote False l inst c = Some (OG_SUCCESS, c') \<and>
    (if drc_bitmap64_clear (mr_granted_map m) inst = 0 \<and> \<not> converting m then lock_view promote c' = (lock_view promote c)(l := None)
     else \<exists>m'. lock_view promote c' = (lock_view promote c)(l \<mapsto> m') \<and>
       mr_granted_map m' = drc_bitmap64_clear (mr_granted_map m) inst \<and> rb_mode m' = rb_mode m \<and> cvt_req m' = cvt_req m)"
proof -
  note ok = reachable_inv [OF assms(1), unfolded ctx_inv_def]
  obtain c' where r: "drc_recycle_dls_master promote False l inst c = Some (OG_SUCCESS, c')"
    "ctx_ok promote c' (buf_view c) ((lock_view promote c)(l := after_recycle inst m)) {} {} {}"
    using recycle_master_ok [OF ok, of False l inst] assms(2) by auto
  then show ?thesis using ctx_okD(3) [OF r(2)] last_holder [of "mr_granted_map m" inst] by (auto simp: after_recycle_def cvt_req_def)
qed

theorem lock_recycle_keeps_mode_witness:
  "\<exists>c c' m'. drc_reachable (\<lambda>x. ucast x) c \<and> drc_recycle_dls_master (\<lambda>x. ucast x) False a_lock 1 c = Some (OG_SUCCESS, c') \<and>
    lock_view (\<lambda>x. ucast x) c' a_lock = Some m' \<and> mr_granted_map m' = 0 \<and> rb_mode m' = DRC_LOCK_EXCLUSIVE"
proof -
  obtain c m where c: "drc_reachable (\<lambda>x. ucast x) c" "lock_view (\<lambda>x. ucast x) c a_lock = Some m" "holders m = ({1}, DRC_LOCK_EXCLUSIVE)"
    "cvt_req m = a_request 2"
    using lock_wanted by blast
  have "converting m" "drc_bitmap64_clear (mr_granted_map m) 1 = 0" "rb_mode m = DRC_LOCK_EXCLUSIVE"
    using c(3,4) by (simp_all add: converting_def a_request_def OG_INVALID_ID8_def last_holder holders_def)
  then show ?thesis using lock_recycle_keeps_mode [OF c(1,2), of 1] c(1) by fastforce
qed

end
