(* ===== verification/Drc_Remaster.thy ===== *)
theory Drc_Remaster
  imports Part_Table
begin

text \<open>
  The change of the partition table when instances join or leave. The master of a reform copies the tables to the
  target tables (\<^verbatim>\<open>drc_int_remaster_target\<close>), sets the shares of the instances, takes partitions from those that have
  too many (\<^verbatim>\<open>drc_set_remaster_taskset\<close>) or that leave, and gives them to the others (\<^verbatim>\<open>drc_scaleout_remaster\<close>,
  \<^verbatim>\<open>drc_scalein_remaster\<close>). One task of the task set stands for each partition that moves.
\<close>

subsection \<open>Tasks\<close>

text \<open>The next free entry of the task set gets a partition to move away from \<open>export_inst\<close>.\<close>

definition drc_add_task :: "u16 \<Rightarrow> u8 \<Rightarrow> drc_remaster_mngr \<Rightarrow> drc_remaster_mngr option" where
  "drc_add_task part_id export_inst dm = do {
     task \<leftarrow> rd (dm_remaster_task_set dm) (dm_task_num dm);
     tasks \<leftarrow> wr (dm_remaster_task_set dm) (dm_task_num dm) (task\<lparr>tk_part_id := part_id, tk_export_inst := export_inst\<rparr>);
     Some (dm\<lparr>dm_remaster_task_set := tasks, dm_task_num := dm_task_num dm + 1\<rparr>)
   }"

text \<open>The first \<open>n\<close> partitions of a list that is chained through \<open>links\<close>; the result is the partition after them.\<close>

fun drc_export_parts :: "drc_part list \<Rightarrow> u8 \<Rightarrow> nat \<Rightarrow> u16 \<Rightarrow> drc_remaster_mngr \<Rightarrow> (u16 \<times> drc_remaster_mngr) option" where
  "drc_export_parts links export_inst 0 current dm = Some (current, dm)"
| "drc_export_parts links export_inst (Suc n) current dm = do {
     dm \<leftarrow> drc_add_task current export_inst dm;
     part \<leftarrow> rd links current;
     drc_export_parts links export_inst n (pt_next part) dm
   }"

definition drc_set_remaster_taskset_export_inst :: "u32 \<Rightarrow> drc_remaster_mngr \<Rightarrow> drc_remaster_mngr option" where
  "drc_set_remaster_taskset_export_inst instance_index dm = do {
     entry \<leftarrow> rd (dm_target_inst_part_tbl dm) instance_index;
     if ip_count entry > ip_expected_num entry then do {
       (current, dm) \<leftarrow> drc_export_parts (dm_target_part_map dm) (ucast instance_index)
         (unat (ip_count entry - ip_expected_num entry)) (ip_first entry) dm;
       tbl \<leftarrow> wr (dm_target_inst_part_tbl dm) instance_index
         (entry\<lparr>ip_first := current, ip_count := ip_expected_num entry\<rparr>);
       Some (dm\<lparr>dm_target_inst_part_tbl := tbl\<rparr>)
     }
     else Some dm
   }"

text \<open>
  The loop over all instances: \<open>expect seq i\<close> is the number of partitions instance \<open>i\<close> is to have, which is the
  \<open>seq\<close>-th one in use.
\<close>

fun drc_taskset_loop :: "(u32 \<Rightarrow> u32 \<Rightarrow> u16) \<Rightarrow> u32 \<Rightarrow> u32 list \<Rightarrow> drc_remaster_mngr \<Rightarrow> drc_remaster_mngr option" where
  "drc_taskset_loop expect seq [] dm = Some dm"
| "drc_taskset_loop expect seq (i # is) dm = do {
     entry \<leftarrow> rd (dm_target_inst_part_tbl dm) i;
     if ip_is_used entry then do {
       tbl \<leftarrow> wr (dm_target_inst_part_tbl dm) i (entry\<lparr>ip_expected_num := expect seq i\<rparr>);
       dm \<leftarrow> drc_set_remaster_taskset_export_inst i (dm\<lparr>dm_target_inst_part_tbl := tbl\<rparr>);
       drc_taskset_loop expect (seq + 1) is dm
     }
     else drc_taskset_loop expect seq is dm
   }"

definition all_instances :: "u32 list" where
  "all_instances = map of_nat [0..<OG_MAX_INSTANCES]"

definition drc_set_remaster_taskset_drc_in_reformer_mode :: "u8 \<Rightarrow> drc_remaster_mngr \<Rightarrow> drc_remaster_mngr option" where
  "drc_set_remaster_taskset_drc_in_reformer_mode remaster_inst dm =
     drc_taskset_loop (\<lambda>_ i. if ucast remaster_inst = i then of_nat DRC_MAX_PART_NUM else 0) 0 all_instances dm"

text \<open>The share of the \<open>seq\<close>-th of \<open>inst_num\<close> instances.\<close>

definition part_share :: "u32 \<Rightarrow> u32 \<Rightarrow> u16" where
  "part_share inst_num seq =
     (let avg_part_num = of_nat DRC_MAX_PART_NUM div inst_num; remain_part = of_nat DRC_MAX_PART_NUM mod inst_num
      in ucast (if seq < remain_part then avg_part_num + 1 else avg_part_num))"

definition drc_set_remaster_taskset :: "u32 \<Rightarrow> drc_remaster_mngr \<Rightarrow> drc_remaster_mngr option" where
  "drc_set_remaster_taskset inst_num dm = drc_taskset_loop (\<lambda>seq _. part_share inst_num seq) 0 all_instances dm"

text \<open>The partition of task \<open>i\<close> goes to the front of the list of instance \<open>inst\<close>.\<close>

definition drc_import_part :: "drc_part_status \<Rightarrow> u32 \<Rightarrow> u8 \<Rightarrow> drc_remaster_mngr \<Rightarrow> drc_remaster_mngr option" where
  "drc_import_part status i inst dm = do {
     task \<leftarrow> rd (dm_remaster_task_set dm) i;
     tasks \<leftarrow> wr (dm_remaster_task_set dm) i (task\<lparr>tk_import_inst := inst, tk_status := status\<rparr>);
     part \<leftarrow> rd (dm_target_part_map dm) (tk_part_id task);
     entry \<leftarrow> rd (dm_target_inst_part_tbl dm) inst;
     part_map \<leftarrow> wr (dm_target_part_map dm) (tk_part_id task)
       (part\<lparr>pt_inst_id := inst, pt_status := status, pt_next := ip_first entry\<rparr>);
     tbl \<leftarrow> wr (dm_target_inst_part_tbl dm) inst
       (entry\<lparr>ip_first := tk_part_id task,
          ip_last := (if ip_count entry = 0 then tk_part_id task else ip_last entry), ip_count := ip_count entry + 1\<rparr>);
     Some (dm\<lparr>dm_remaster_task_set := tasks, dm_target_part_map := part_map, dm_target_inst_part_tbl := tbl\<rparr>)
   }"

subsection \<open>Instances join\<close>

fun drc_scaleout_imports :: "u8 list \<Rightarrow> u32 \<Rightarrow> u32 list \<Rightarrow> drc_remaster_mngr \<Rightarrow> drc_remaster_mngr option" where
  "drc_scaleout_imports new_id_array loop [] dm = Some dm"
| "drc_scaleout_imports new_id_array loop (i # is) dm = do {
     new_id \<leftarrow> rd new_id_array loop;
     entry \<leftarrow> rd (dm_target_inst_part_tbl dm) new_id;
     let loop = (if ip_count entry \<ge> ip_expected_num entry then loop + 1 else loop);
     new_id \<leftarrow> rd new_id_array loop;
     dm \<leftarrow> drc_import_part PART_WAIT_MIGRATE i new_id dm;
     drc_scaleout_imports new_id_array loop is dm
   }"

text \<open>The checks and the entries of the instances of a list.\<close>

fun inst_part_check :: "bool \<Rightarrow> drc_inst_part list \<Rightarrow> u8 list \<Rightarrow> unit option" where
  "inst_part_check used tbl [] = Some ()"
| "inst_part_check used tbl (inst_id # ids) = do {
     entry \<leftarrow> rd tbl inst_id;
     knl_panic (ip_is_used entry = used);
     inst_part_check used tbl ids
   }"

fun inst_part_mark :: "(drc_inst_part \<Rightarrow> drc_inst_part) \<Rightarrow> drc_inst_part list \<Rightarrow> u8 list \<Rightarrow> drc_inst_part list option" where
  "inst_part_mark f tbl [] = Some tbl"
| "inst_part_mark f tbl (inst_id # ids) = do {
     entry \<leftarrow> rd tbl inst_id;
     tbl \<leftarrow> wr tbl inst_id (f entry);
     inst_part_mark f tbl ids
   }"

definition task_range :: "u32 \<Rightarrow> u32 \<Rightarrow> u32 list" where
  "task_range a b = map of_nat [unat a..<unat b]"

text \<open>The first \<open>num\<close> entries of an array of instances.\<close>

definition id_entries :: "u8 list \<Rightarrow> u8 \<Rightarrow> u8 list option" where
  "id_entries id_array num = (if unat num \<le> length id_array then Some (take (unat num) id_array) else None)"

text \<open>
  \<open>reformer_mode\<close> says that the version of the database and the parameter \<^verbatim>\<open>drc_in_reformer_mode\<close> select the mode in
  which one instance masters everything.
\<close>

definition drc_scaleout_remaster :: "bool \<Rightarrow> u8 list \<Rightarrow> u8 \<Rightarrow> drc_part_mngr \<Rightarrow> (status_t \<times> drc_part_mngr) option" where
  "drc_scaleout_remaster reformer_mode new_id_array new_num part_mngr =
     (if new_num = 0 then Some (OG_SUCCESS, part_mngr)
      else do {
        new_ids \<leftarrow> id_entries new_id_array new_num;
        inst_part_check False (pm_inst_part_tbl part_mngr) new_ids;
        let inst_num = (ucast new_num + ucast (pm_inst_num part_mngr) :: u32);
        let dm = pm_remaster_mngr part_mngr;
        tbl \<leftarrow> inst_part_mark (\<lambda>e. e\<lparr>ip_is_used := True, ip_count := 0\<rparr>) (dm_target_inst_part_tbl dm) new_ids;
        let dm = dm\<lparr>dm_target_inst_part_tbl := tbl\<rparr>;
        dm \<leftarrow> (if reformer_mode then drc_set_remaster_taskset_drc_in_reformer_mode (pm_remaster_inst part_mngr) dm
              else drc_set_remaster_taskset inst_num dm);
        dm \<leftarrow> drc_scaleout_imports new_id_array 0 (task_range 0 (dm_task_num dm)) dm;
        Some (OG_SUCCESS, part_mngr\<lparr>pm_remaster_mngr := dm, pm_inst_num := ucast inst_num\<rparr>)
      })"

subsection \<open>Instances leave\<close>

fun drc_scalein_loop :: "drc_part list \<Rightarrow> u32 \<Rightarrow> u32 \<Rightarrow> u32 list \<Rightarrow> drc_remaster_mngr \<Rightarrow> drc_remaster_mngr option" where
  "drc_scalein_loop links inst_num seq [] dm = Some dm"
| "drc_scalein_loop links inst_num seq (i # is) dm = do {
     entry \<leftarrow> rd (dm_target_inst_part_tbl dm) i;
     if ip_is_used entry then do {
       tbl \<leftarrow> wr (dm_target_inst_part_tbl dm) i (entry\<lparr>ip_expected_num := part_share inst_num seq\<rparr>);
       drc_scalein_loop links inst_num (seq + 1) is (dm\<lparr>dm_target_inst_part_tbl := tbl\<rparr>)
     }
     else if ip_count entry > 0 then do {
       (_, dm) \<leftarrow> drc_export_parts links (ucast i) (unat (ip_count entry)) (ip_first entry) dm;
       tbl \<leftarrow> wr (dm_target_inst_part_tbl dm) i (entry\<lparr>ip_count := 0\<rparr>);
       drc_scalein_loop links inst_num seq is (dm\<lparr>dm_target_inst_part_tbl := tbl\<rparr>)
     }
     else drc_scalein_loop links inst_num seq is dm
   }"

text \<open>The next instance that is in use and has room, from \<open>loop\<close> on.\<close>

function drc_find_import :: "drc_inst_part list \<Rightarrow> nat \<Rightarrow> nat option" where
  "drc_find_import tbl loop =
     (if loop \<ge> length tbl then None
      else if \<not> ip_is_used (tbl ! loop) \<or> ip_count (tbl ! loop) \<ge> ip_expected_num (tbl ! loop)
      then drc_find_import tbl (loop + 1) else Some loop)"
  by pat_completeness auto
termination by (relation "measure (\<lambda>(tbl, loop). length tbl - loop)") auto

declare drc_find_import.simps [simp del]

fun drc_scalein_imports :: "drc_part_status \<Rightarrow> nat \<Rightarrow> u32 list \<Rightarrow> drc_remaster_mngr \<Rightarrow> drc_remaster_mngr option" where
  "drc_scalein_imports status loop [] dm = Some dm"
| "drc_scalein_imports status loop (i # is) dm = do {
     loop \<leftarrow> drc_find_import (dm_target_inst_part_tbl dm) loop;
     dm \<leftarrow> drc_import_part status i (of_nat loop) dm;
     drc_scalein_imports status loop is dm
   }"

definition drc_scalein_remaster :: "u8 list \<Rightarrow> u8 \<Rightarrow> bool \<Rightarrow> drc_part_mngr \<Rightarrow> (status_t \<times> drc_part_mngr) option" where
  "drc_scalein_remaster delete_id_array delete_num is_abort part_mngr = do {
     knl_panic (\<not> (delete_num = 0 \<or> delete_num \<ge> pm_inst_num part_mngr));
     delete_ids \<leftarrow> id_entries delete_id_array delete_num;
     inst_part_check True (pm_inst_part_tbl part_mngr) delete_ids;
     let inst_num = (ucast (pm_inst_num part_mngr) - ucast delete_num :: u32);
     let dm = pm_remaster_mngr part_mngr;
     tbl \<leftarrow> inst_part_mark (\<lambda>e. e\<lparr>ip_is_used := False, ip_expected_num := 0\<rparr>) (dm_target_inst_part_tbl dm) delete_ids;
     let start_task_num = dm_task_num dm;
     dm \<leftarrow> drc_scalein_loop (pm_part_map part_mngr) inst_num 0 all_instances (dm\<lparr>dm_target_inst_part_tbl := tbl\<rparr>);
     dm \<leftarrow> drc_scalein_imports (if is_abort then PART_WAIT_RECOVERY else PART_WAIT_MIGRATE) 0
            (task_range start_task_num (dm_task_num dm)) dm;
     let dm = (if is_abort then dm\<lparr>dm_task_num := start_task_num\<rparr> else dm);
     Some (OG_SUCCESS, part_mngr\<lparr>pm_remaster_mngr := dm, pm_inst_num := ucast inst_num\<rparr>)
   }"

subsection \<open>The whole change\<close>

definition drc_int_remaster_target :: "u64 \<Rightarrow> drc_part_mngr \<Rightarrow> drc_part_mngr" where
  "drc_int_remaster_target reform_version part_mngr =
     part_mngr\<lparr>pm_remaster_mngr := (pm_remaster_mngr part_mngr)
       \<lparr>dm_target_inst_part_tbl := pm_inst_part_tbl part_mngr, dm_tmp_inst_part_tbl := pm_inst_part_tbl part_mngr,
        dm_target_part_map := pm_part_map part_mngr, dm_tmp_part_map := pm_part_map part_mngr,
        dm_task_num := 0, dm_tmp_part_map_reform_version := reform_version\<rparr>\<rparr>"

text \<open>An error ends the change at once.\<close>

definition step_then :: "(status_t \<times> 'a) option \<Rightarrow> ('a \<Rightarrow> (status_t \<times> 'a) option) \<Rightarrow> (status_t \<times> 'a) option" where
  "step_then r f = do {
     (ret, x) \<leftarrow> r;
     if ret \<noteq> OG_SUCCESS then Some (ret, x) else f x
   }"

text \<open>The first step of \<^verbatim>\<open>drc_execute_remaster\<close>, under the lock of the partition manager.\<close>

definition drc_execute_rebalance :: "bool \<Rightarrow> u64 \<Rightarrow> reform_info \<Rightarrow> drc_part_mngr \<Rightarrow> (status_t \<times> drc_part_mngr) option" where
  "drc_execute_rebalance reformer_mode reform_version info part_mngr =
     step_then (Some (OG_SUCCESS, drc_int_remaster_target reform_version part_mngr)) (\<lambda>part_mngr.
     step_then (if il_inst_id_count (rf_join info) = 0 then Some (OG_SUCCESS, part_mngr)
       else drc_scaleout_remaster reformer_mode (il_inst_id_list (rf_join info)) (il_inst_id_count (rf_join info)) part_mngr) (\<lambda>part_mngr.
     step_then (if il_inst_id_count (rf_leave info) = 0 then Some (OG_SUCCESS, part_mngr)
       else drc_scalein_remaster (il_inst_id_list (rf_leave info)) (il_inst_id_count (rf_leave info)) False part_mngr) (\<lambda>part_mngr.
     step_then (if \<not> pm_mgrt_fail_list part_mngr \<or> il_inst_id_count (rf_abort info) = 0 then Some (OG_SUCCESS, part_mngr)
       else drc_scalein_remaster (il_inst_id_list (rf_abort info)) (il_inst_id_count (rf_abort info)) True part_mngr) (\<lambda>part_mngr.
     (if \<not> pm_mgrt_fail_list part_mngr \<or> il_inst_id_count (rf_fail info) = 0 then Some (OG_SUCCESS, part_mngr)
       else drc_scalein_remaster (il_inst_id_list (rf_fail info)) (il_inst_id_count (rf_fail info)) True part_mngr)))))"

text \<open>The masters in the target table, and its publication (\<^verbatim>\<open>drc_update_target_part\<close>).\<close>

definition DRC_PART_REMASTER_ID :: "drc_part_mngr \<Rightarrow> 'n::len word \<Rightarrow> u8 option" where
  "DRC_PART_REMASTER_ID part_mngr part_id = map_option pt_inst_id (rd (dm_target_part_map (pm_remaster_mngr part_mngr)) part_id)"

definition drc_get_page_remaster_id :: "u32 \<Rightarrow> drc_part_mngr \<Rightarrow> page_id \<Rightarrow> u8 option" where
  "drc_get_page_remaster_id ext_pages part_mngr pagid = DRC_PART_REMASTER_ID part_mngr (drc_page_partid ext_pages pagid)"

definition drc_get_lock_remaster_id :: "(u8 \<Rightarrow> u32) \<Rightarrow> drc_part_mngr \<Rightarrow> drid \<Rightarrow> u8 option" where
  "drc_get_lock_remaster_id promote part_mngr lock_id = DRC_PART_REMASTER_ID part_mngr (lock_partid promote lock_id)"

definition drc_update_target_part :: "drc_part list \<Rightarrow> drc_inst_part list \<Rightarrow> drc_part_mngr \<Rightarrow> drc_part_mngr" where
  "drc_update_target_part target_part_map target_inst_part_tbl part_mngr =
     part_mngr\<lparr>pm_part_map := target_part_map, pm_inst_part_tbl := target_inst_part_tbl\<rparr>"

end
