(* ===== verification/Remaster_Tasks.thy ===== *)
theory Remaster_Tasks
  imports Drc_Remaster
begin

text \<open>
  The reform master sends the tasks to the instances that have to export the partitions, and these take them
  (\<^verbatim>\<open>drc_assign_remaster_task\<close>, \<^verbatim>\<open>drc_accept_remaster_task\<close>); the whole change of the table (\<^verbatim>\<open>drc_execute_remaster\<close>).
\<close>

subsection \<open>Messages\<close>

text \<open>
  What the message layer does with one message: the result of the \<open>n\<close>-th attempt to send it, the instances alive after
  it, and the result of waiting for the acknowledgement.
\<close>

record net_env =
  ne_send :: "nat \<Rightarrow> status_t"
  ne_alive :: "nat \<Rightarrow> u64"
  ne_recv :: status_t

definition REMASTER_SEND_MSG_RETRY_TIMES :: nat where
  "REMASTER_SEND_MSG_RETRY_TIMES = 3"

text \<open>The attempts from the \<open>retry\<close>-th on, of which there are \<open>n\<close>.\<close>

fun mes_send_retries :: "net_env \<Rightarrow> u8 \<Rightarrow> nat \<Rightarrow> nat \<Rightarrow> status_t" where
  "mes_send_retries net dst_inst retry 0 = OG_ERROR"
| "mes_send_retries net dst_inst retry (Suc n) =
     (if ne_send net retry = OG_SUCCESS then OG_SUCCESS
      else if \<not> rc_bitmap64_exist (ne_alive net retry) dst_inst then OG_ERROR
      else mes_send_retries net dst_inst (Suc retry) n)"

definition drc_mes_send_data_with_retry :: "net_env \<Rightarrow> u8 \<Rightarrow> nat \<Rightarrow> status_t" where
  "drc_mes_send_data_with_retry net dst_inst retry_time =
     (if unat dst_inst \<ge> OG_MAX_INSTANCES then OG_ERROR else mes_send_retries net dst_inst 0 retry_time)"

text \<open>
  A message with tasks: the tasks for the receiver, all tasks and the target tables. \<open>tm_size_ok\<close> says that the size in the head
  is that of the parts.
\<close>

record drc_remaster_task_msg =
  tm_size_ok :: bool
  tm_task_num :: u32
  tm_task_buffer_len :: u32
  tm_reform_trigger_version :: u64
  tm_target_part_map :: "drc_part list"
  tm_target_inst_part_tbl :: "drc_inst_part list"
  tm_remaster_task_set :: "drc_remaster_task list"
  tm_tasks :: "drc_remaster_task list"

definition SIZEOF_REMASTER_TASK :: u32 where
  "SIZEOF_REMASTER_TASK = 8"

text \<open>The entries of the task set from \<open>pos\<close> on, of which there are \<open>num\<close>.\<close>

definition task_body :: "drc_remaster_mngr \<Rightarrow> u32 \<Rightarrow> u32 \<Rightarrow> drc_remaster_task list option" where
  "task_body dm pos num =
     (if unat pos + unat num \<le> length (dm_remaster_task_set dm)
      then Some (take (unat num) (drop (unat pos) (dm_remaster_task_set dm))) else None)"

type_synonym task_msgs = "(u8 \<times> drc_remaster_task_msg) list"

text \<open>The messages that have been sent are added to a list.\<close>

definition drc_send_remaster_task_msg :: "(u8 \<Rightarrow> drc_remaster_task list \<Rightarrow> net_env) \<Rightarrow> drc_remaster_task list \<Rightarrow> u32 \<Rightarrow> u8 \<Rightarrow> u8 \<Rightarrow>
    drc_remaster_mngr \<Rightarrow> task_msgs \<Rightarrow> status_t \<times> task_msgs" where
  "drc_send_remaster_task_msg net body task_num src_inst dest_inst dm msgs =
     (if src_inst = dest_inst then (OG_SUCCESS, msgs)
      else let msg = \<lparr>tm_size_ok = True, tm_task_num = task_num, tm_task_buffer_len = task_num * SIZEOF_REMASTER_TASK,
             tm_reform_trigger_version = rf_trigger_version (dm_reform_info dm),
             tm_target_part_map = dm_target_part_map dm, tm_target_inst_part_tbl = dm_target_inst_part_tbl dm,
             tm_remaster_task_set = dm_remaster_task_set dm, tm_tasks = body\<rparr>;
           ret = drc_mes_send_data_with_retry (net dest_inst body) dest_inst REMASTER_SEND_MSG_RETRY_TIMES
        in if ret \<noteq> OG_SUCCESS then (ret, msgs)
           else if ne_recv (net dest_inst body) \<noteq> OG_SUCCESS then (OG_ERROR, msgs @ [(dest_inst, msg)])
           else (ret, msgs @ [(dest_inst, msg)]))"

subsection \<open>Assignment of the tasks\<close>

definition drc_add_local_task :: "u32 \<Rightarrow> drc_remaster_mngr \<Rightarrow> drc_remaster_mngr option" where
  "drc_add_local_task cur_pos dm = do {
     task \<leftarrow> rd (dm_remaster_task_set dm) cur_pos;
     local_task_set \<leftarrow> wr (dm_local_task_set dm) (dm_local_task_num dm) task;
     Some (dm\<lparr>dm_local_task_set := local_task_set, dm_local_task_num := dm_local_task_num dm + 1\<rparr>)
   }"

definition drc_set_inst_task_num :: "u8 \<Rightarrow> u32 \<Rightarrow> drc_remaster_mngr \<Rightarrow> drc_remaster_mngr option" where
  "drc_set_inst_task_num inst task_num dm = do {
     info \<leftarrow> rd (dm_inst_drm_info dm) inst;
     infos \<leftarrow> wr (dm_inst_drm_info dm) inst (info\<lparr>di_task_num := ucast task_num\<rparr>);
     Some (dm\<lparr>dm_inst_drm_info := infos\<rparr>)
   }"

text \<open>The tasks from \<open>cur_pos\<close> on are sent to their instance, or the one task is kept.\<close>

definition drc_flush_tasks :: "(u8 \<Rightarrow> drc_remaster_task list \<Rightarrow> net_env) \<Rightarrow> u8 \<Rightarrow> u8 \<Rightarrow> u32 \<Rightarrow> u32 \<Rightarrow> bool \<Rightarrow>
    task_msgs \<Rightarrow> drc_remaster_mngr \<Rightarrow> (status_t \<times> task_msgs \<times> drc_remaster_mngr) option" where
  "drc_flush_tasks net src_inst cur_inst cur_pos inst_part_num is_self msgs dm =
     (if \<not> is_self then do {
        body \<leftarrow> task_body dm cur_pos inst_part_num;
        let (ret, msgs) = drc_send_remaster_task_msg net body inst_part_num src_inst cur_inst dm msgs;
        if ret \<noteq> OG_SUCCESS then Some (ret, msgs, dm)
        else do {
          dm \<leftarrow> drc_set_inst_task_num cur_inst inst_part_num dm;
          Some (OG_SUCCESS, msgs, dm)
        }
      }
      else do {
        dm \<leftarrow> drc_add_local_task cur_pos dm;
        Some (OG_SUCCESS, msgs, dm)
      })"

fun drc_assign_loop :: "(u8 \<Rightarrow> drc_remaster_task list \<Rightarrow> net_env) \<Rightarrow> u8 \<Rightarrow> u32 list \<Rightarrow> u8 \<Rightarrow> u32 \<Rightarrow> u32 \<Rightarrow> bool \<Rightarrow>
    task_msgs \<Rightarrow> drc_remaster_mngr \<Rightarrow> (status_t \<times> task_msgs \<times> drc_remaster_mngr) option" where
  "drc_assign_loop net src_inst [] cur_inst cur_pos inst_part_num is_self msgs dm =
     drc_flush_tasks net src_inst cur_inst cur_pos inst_part_num is_self msgs dm"
| "drc_assign_loop net src_inst (i # is) cur_inst cur_pos inst_part_num is_self msgs dm = do {
     task \<leftarrow> rd (dm_remaster_task_set dm) i;
     if cur_inst \<noteq> tk_export_inst task then do {
       (ret, msgs, dm) \<leftarrow> drc_flush_tasks net src_inst cur_inst cur_pos inst_part_num is_self msgs dm;
       if ret \<noteq> OG_SUCCESS then Some (ret, msgs, dm)
       else drc_assign_loop net src_inst is (tk_export_inst task) (cur_pos + inst_part_num) 1
              (tk_export_inst task = src_inst) msgs dm
     }
     else if is_self then do {
       dm \<leftarrow> drc_add_local_task cur_pos dm;
       drc_assign_loop net src_inst is (tk_export_inst task) (cur_pos + inst_part_num) 1 is_self msgs dm
     }
     else drc_assign_loop net src_inst is cur_inst cur_pos (inst_part_num + 1) is_self msgs dm
   }"

text \<open>The instances of a list that have no task are told so.\<close>

fun drc_assign_none :: "(u8 \<Rightarrow> drc_remaster_task list \<Rightarrow> net_env) \<Rightarrow> u8 \<Rightarrow> u8 list \<Rightarrow> task_msgs \<Rightarrow> drc_remaster_mngr \<Rightarrow>
    (status_t \<times> task_msgs) option" where
  "drc_assign_none net src_inst [] msgs dm = Some (OG_SUCCESS, msgs)"
| "drc_assign_none net src_inst (inst_id # ids) msgs dm = do {
     info \<leftarrow> rd (dm_inst_drm_info dm) inst_id;
     if di_task_num info = 0 then
       let (ret, msgs) = drc_send_remaster_task_msg net [] 0 src_inst inst_id dm msgs in
       if ret \<noteq> OG_SUCCESS then Some (ret, msgs) else drc_assign_none net src_inst ids msgs dm
     else drc_assign_none net src_inst ids msgs dm
   }"

definition drc_assign_remaster_task :: "(u8 \<Rightarrow> drc_remaster_task list \<Rightarrow> net_env) \<Rightarrow> u8 \<Rightarrow> drc_remaster_mngr \<Rightarrow>
    (status_t \<times> task_msgs \<times> drc_remaster_mngr) option" where
  "drc_assign_remaster_task net src_inst dm = do {
     (ret, msgs, dm) \<leftarrow>
       (if dm_task_num dm > 0 then do {
          task \<leftarrow> rd (dm_remaster_task_set dm) (0 :: u32);
          drc_assign_loop net src_inst (task_range 1 (dm_task_num dm)) (tk_export_inst task) 0 1
            (tk_export_inst task = src_inst) [] dm
        }
        else Some (OG_SUCCESS, [], dm));
     if ret \<noteq> OG_SUCCESS then Some (ret, msgs, dm)
     else do {
       dm \<leftarrow> drc_set_inst_task_num src_inst (dm_local_task_num dm) dm;
       ids \<leftarrow> id_entries (il_inst_id_list (rf_after (dm_reform_info dm))) (il_inst_id_count (rf_after (dm_reform_info dm)));
       (ret, msgs) \<leftarrow> drc_assign_none net src_inst ids msgs dm;
       if ret \<noteq> OG_SUCCESS then Some (ret, msgs, dm)
       else do {
         ids \<leftarrow> id_entries (il_inst_id_list (rf_leave (dm_reform_info dm))) (il_inst_id_count (rf_leave (dm_reform_info dm)));
         (ret, msgs) \<leftarrow> drc_assign_none net src_inst ids msgs dm;
         Some (ret, msgs, dm)
       }
     }
   }"

text \<open>A follower takes its tasks.\<close>

definition drc_accept_remaster_task_parameter_check :: "bool \<Rightarrow> drc_remaster_task_msg \<Rightarrow> drc_part_mngr \<Rightarrow> status_t" where
  "drc_accept_remaster_task_parameter_check in_reform msg part_mngr =
     (if pm_remaster_status part_mngr = REMASTER_DONE \<or> \<not> in_reform \<or>
         tm_task_buffer_len msg \<noteq> tm_task_num msg * SIZEOF_REMASTER_TASK \<or>
         tm_reform_trigger_version msg \<noteq> rf_trigger_version (dm_reform_info (pm_remaster_mngr part_mngr)) \<or>
         unat (tm_task_num msg) > DRC_MAX_PART_NUM
      then OG_ERROR else OG_SUCCESS)"

definition drc_check_accept_remaster_task_msg :: "bool \<Rightarrow> drc_remaster_task_msg \<Rightarrow> drc_part_mngr \<Rightarrow> status_t" where
  "drc_check_accept_remaster_task_msg in_reform msg part_mngr =
     (if \<not> tm_size_ok msg then OG_ERROR
      else if drc_accept_remaster_task_parameter_check in_reform msg part_mngr \<noteq> OG_SUCCESS then OG_ERROR
      else OG_SUCCESS)"

text \<open>The first entries of an array are replaced.\<close>

definition overwrite :: "'a list \<Rightarrow> 'a list \<Rightarrow> 'a list" where
  "overwrite new xs = new @ drop (length new) xs"

definition drc_accept_remaster_task :: "bool \<Rightarrow> drc_remaster_task_msg \<Rightarrow> drc_part_mngr \<Rightarrow> drc_part_mngr" where
  "drc_accept_remaster_task in_reform msg part_mngr =
     (if drc_check_accept_remaster_task_msg in_reform msg part_mngr \<noteq> OG_SUCCESS then part_mngr
      else let part_mngr = part_mngr\<lparr>pm_remaster_mngr := (pm_remaster_mngr part_mngr)\<lparr>dm_local_task_num := tm_task_num msg\<rparr>\<rparr> in
        if pm_remaster_status part_mngr \<noteq> REMASTER_ASSIGN_TASK then part_mngr
        else
          let part_mngr = drc_update_remaster_local_status REMASTER_MIGRATE part_mngr;
              dm = (pm_remaster_mngr part_mngr)\<lparr>dm_remaster_task_set := tm_remaster_task_set msg\<rparr>
          in if tm_task_num msg = 0 then part_mngr\<lparr>pm_remaster_mngr := dm\<rparr>
             else part_mngr\<lparr>pm_remaster_mngr := dm\<lparr>dm_local_task_set := overwrite (tm_tasks msg) (dm_local_task_set dm)\<rparr>\<rparr>)"

subsection \<open>The whole change\<close>

text \<open>The tables are changed, and then the tasks are assigned.\<close>

definition drc_execute_remaster :: "bool \<Rightarrow> u64 \<Rightarrow> (u8 \<Rightarrow> drc_remaster_task list \<Rightarrow> net_env) \<Rightarrow> u8 \<Rightarrow> reform_info \<Rightarrow> drc_part_mngr \<Rightarrow>
    (status_t \<times> task_msgs \<times> drc_part_mngr) option" where
  "drc_execute_remaster reformer_mode reform_version net self info part_mngr = do {
     (ret, part_mngr) \<leftarrow> drc_execute_rebalance reformer_mode reform_version info part_mngr;
     if ret \<noteq> OG_SUCCESS then Some (ret, [], part_mngr)
     else do {
       (ret, msgs, dm) \<leftarrow> drc_assign_remaster_task net self (pm_remaster_mngr part_mngr);
       let part_mngr = part_mngr\<lparr>pm_remaster_mngr := dm\<rparr>;
       if ret \<noteq> OG_SUCCESS then Some (ret, msgs, part_mngr)
       else Some (OG_SUCCESS, msgs, (drc_update_remaster_local_status REMASTER_MIGRATE part_mngr)
         \<lparr>pm_remaster_finish_step := REMASTER_ASSIGN_TASK\<rparr>)
     }
   }"

end
