(* ===== verification/Remaster_Coord.thy ===== *)
theory Remaster_Coord
  imports Remaster_Tasks Drc_Init
begin

text \<open>
  The coordination of a remastering in \<^verbatim>\<open>dtc_drc.c\<close> and \<^verbatim>\<open>rc_reform.c\<close>: the status that the instances report to the reform
  master and the wait until all have reported it, the acknowledgement of the tasks, the publication of the new tables and the handlers that
  accept them, the preparation, the start and the failure of a remastering.
\<close>

subsection \<open>Messages between the instances\<close>

record drc_remaster_status_notify =
  rn_remaster_status :: drc_remaster_status
  rn_reform_trigger_version :: u64

record drc_remaster_task_ack_msg =
  ta_src_inst :: u8
  ta_task_status :: status_t
  ta_reform_trigger_version :: u64

record drc_remaster_target_part_msg =
  tp_status :: status_t
  tp_reform_trigger_version :: u64
  tp_buffer_len :: u32
  tp_target_part_map :: "drc_part list"
  tp_target_inst_part_tbl :: "drc_inst_part list"

definition SIZEOF_TARGET_PART :: u32 where
  "SIZEOF_TARGET_PART = of_nat DRC_MAX_PART_NUM * 4 + of_nat OG_MAX_INSTANCES * 12"

subsection \<open>What the reform master knows of the others\<close>

definition drc_master_update_inst_remaster_status :: "u8 \<Rightarrow> drc_remaster_status \<Rightarrow> drc_remaster_mngr \<Rightarrow> drc_remaster_mngr option" where
  "drc_master_update_inst_remaster_status inst_id remaster_status dm = do {
     info \<leftarrow> rd (dm_inst_drm_info dm) inst_id;
     if remaster_num (di_remaster_status info) < remaster_num remaster_status then do {
       infos \<leftarrow> wr (dm_inst_drm_info dm) inst_id (info\<lparr>di_remaster_status := remaster_status\<rparr>);
       Some (dm\<lparr>dm_inst_drm_info := infos\<rparr>)
     }
     else Some dm
   }"

text \<open>All instances of a list have the status.\<close>

fun insts_have_status :: "drc_remaster_status \<Rightarrow> inst_drm_info list \<Rightarrow> u8 list \<Rightarrow> bool option" where
  "insts_have_status status infos [] = Some True"
| "insts_have_status status infos (inst_id # ids) = do {
     info \<leftarrow> rd infos inst_id;
     if di_remaster_status info \<noteq> status then Some False else insts_have_status status infos ids
   }"

definition drc_remaster_is_ready :: "reform_info \<Rightarrow> drc_remaster_status \<Rightarrow> drc_remaster_mngr \<Rightarrow> bool option" where
  "drc_remaster_is_ready info status dm = do {
     ids \<leftarrow> id_entries (il_inst_id_list (rf_after info)) (il_inst_id_count (rf_after info));
     ready \<leftarrow> insts_have_status status (dm_inst_drm_info dm) ids;
     if \<not> ready then Some False
     else do {
       ids \<leftarrow> id_entries (il_inst_id_list (rf_leave info)) (il_inst_id_count (rf_leave info));
       insts_have_status status (dm_inst_drm_info dm) ids
     }
   }"

definition REMASTER_SLEEP_INTERVAL :: u64 where
  "REMASTER_SLEEP_INTERVAL = 5"

text \<open>
  The loop of a wait: \<open>others n\<close> is what the other threads do while the \<open>n\<close>-th sleep lasts.
\<close>

partial_function (option) drc_wait_ready_loop :: "(nat \<Rightarrow> drc_instance \<Rightarrow> drc_instance) \<Rightarrow> reform_info \<Rightarrow> u64 \<Rightarrow> drc_remaster_status \<Rightarrow>
    nat \<Rightarrow> u64 \<Rightarrow> drc_instance \<Rightarrow> (status_t \<times> drc_instance) option" where
  "drc_wait_ready_loop others info timeout status n elapsed ogx =
     Option.bind (drc_remaster_is_ready info status (pm_remaster_mngr (in_part_mngr ogx))) (\<lambda>ready.
       if ready then Some (OG_SUCCESS, ogx)
       else if pm_remaster_status (in_part_mngr ogx) = REMASTER_FAIL then Some (OG_ERROR, ogx)
       else if elapsed \<ge> timeout then Some (OG_ERROR, ogx)
       else drc_wait_ready_loop others info timeout status (Suc n) (elapsed + REMASTER_SLEEP_INTERVAL) (others n ogx))"

definition drc_remaster_wait_all_node_ready :: "(nat \<Rightarrow> drc_instance \<Rightarrow> drc_instance) \<Rightarrow> reform_info \<Rightarrow> u64 \<Rightarrow> drc_remaster_status \<Rightarrow>
    drc_instance \<Rightarrow> (status_t \<times> drc_instance) option" where
  "drc_remaster_wait_all_node_ready others info timeout status ogx = drc_wait_ready_loop others info timeout status 0 0 ogx"

subsection \<open>Status messages\<close>

text \<open>
  The result has the messages that have been sent. \<open>in_reform\<close> says that the reform of the receiver is between
  \<^verbatim>\<open>REFORM_FROZEN\<close> and \<^verbatim>\<open>REFORM_RECOVER_DONE\<close>, \<open>size_ok\<close> that the message has the size of its structure.
\<close>

definition set_inst_status :: "u8 \<Rightarrow> drc_remaster_status \<Rightarrow> drc_part_mngr \<Rightarrow> drc_part_mngr option" where
  "set_inst_status inst_id status part_mngr = do {
     let dm = pm_remaster_mngr part_mngr;
     info \<leftarrow> rd (dm_inst_drm_info dm) inst_id;
     infos \<leftarrow> wr (dm_inst_drm_info dm) inst_id (info\<lparr>di_remaster_status := status\<rparr>);
     Some (part_mngr\<lparr>pm_remaster_mngr := dm\<lparr>dm_inst_drm_info := infos\<rparr>\<rparr>)
   }"

definition drc_notify_remaster_status :: "net_env \<Rightarrow> u8 \<Rightarrow> drc_remaster_status \<Rightarrow> drc_part_mngr \<Rightarrow>
    (status_t \<times> (u8 \<times> drc_remaster_status_notify) list \<times> drc_part_mngr) option" where
  "drc_notify_remaster_status net self_id remaster_status part_mngr =
     (if pm_remaster_inst part_mngr = self_id then do {
        part_mngr \<leftarrow> set_inst_status self_id remaster_status part_mngr;
        Some (OG_SUCCESS, [], part_mngr)
      }
      else let msg = \<lparr>rn_remaster_status = remaster_status,
             rn_reform_trigger_version = rf_trigger_version (dm_reform_info (pm_remaster_mngr part_mngr))\<rparr>
        in if drc_mes_send_data_with_retry net (pm_remaster_inst part_mngr) REMASTER_SEND_MSG_RETRY_TIMES \<noteq> OG_SUCCESS
           then Some (OG_ERROR, [], part_mngr)
           else Some (OG_SUCCESS, [(pm_remaster_inst part_mngr, msg)], part_mngr))"

definition drc_process_remaster_status_notify :: "bool \<Rightarrow> bool \<Rightarrow> u8 \<Rightarrow> drc_remaster_status_notify \<Rightarrow> drc_part_mngr \<Rightarrow> drc_part_mngr option" where
  "drc_process_remaster_status_notify in_reform size_ok src_id msg part_mngr =
     (if \<not> size_ok then Some part_mngr
      else if \<not> in_reform \<or> rn_reform_trigger_version msg \<noteq> rf_trigger_version (dm_reform_info (pm_remaster_mngr part_mngr))
      then Some part_mngr
      else if unat src_id \<ge> OG_MAX_INSTANCES then Some part_mngr
      else do {
        info \<leftarrow> rd (dm_inst_drm_info (pm_remaster_mngr part_mngr)) src_id;
        part_mngr \<leftarrow> (if di_remaster_status info \<noteq> rn_remaster_status msg
          then set_inst_status src_id (rn_remaster_status msg) part_mngr else Some part_mngr);
        Some (if rn_remaster_status msg = REMASTER_FAIL then drc_update_remaster_local_status REMASTER_FAIL part_mngr else part_mngr)
      })"

definition drc_remaster_task_ack :: "net_env \<Rightarrow> u8 \<Rightarrow> status_t \<Rightarrow> drc_part_mngr \<Rightarrow>
    (status_t \<times> (u8 \<times> drc_remaster_task_ack_msg) list \<times> drc_part_mngr) option" where
  "drc_remaster_task_ack net self task_status part_mngr = do {
     let dm = pm_remaster_mngr part_mngr;
     let remaster_id = pm_remaster_inst part_mngr;
     if self = remaster_id then do {
       dm \<leftarrow> drc_master_update_inst_remaster_status remaster_id REMASTER_PUBLISH (dm\<lparr>dm_complete_num := dm_complete_num dm + 1\<rparr>);
       Some (OG_SUCCESS, [], part_mngr\<lparr>pm_remaster_mngr := dm\<rparr>)
     }
     else if drc_mes_send_data_with_retry net remaster_id REMASTER_SEND_MSG_RETRY_TIMES \<noteq> OG_SUCCESS then Some (OG_ERROR, [], part_mngr)
     else Some (OG_SUCCESS, [(remaster_id, \<lparr>ta_src_inst = self, ta_task_status = task_status,
       ta_reform_trigger_version = rf_trigger_version (dm_reform_info dm)\<rparr>)], part_mngr)
   }"

definition drc_process_remaster_task_ack :: "bool \<Rightarrow> bool \<Rightarrow> u32 \<Rightarrow> drc_remaster_task_ack_msg \<Rightarrow> drc_part_mngr \<Rightarrow> drc_part_mngr option" where
  "drc_process_remaster_task_ack in_reform size_ok node_count msg part_mngr =
     (let dm = pm_remaster_mngr part_mngr in
      if \<not> size_ok then Some part_mngr
      else if pm_remaster_status part_mngr = REMASTER_DONE \<or> \<not> in_reform \<or> ucast (ta_src_inst msg) > node_count \<or>
           ta_reform_trigger_version msg \<noteq> rf_trigger_version (dm_reform_info dm)
      then Some part_mngr
      else if ta_task_status msg = OG_SUCCESS then do {
        info \<leftarrow> rd (dm_inst_drm_info dm) (ta_src_inst msg);
        if di_remaster_status info \<noteq> REMASTER_PUBLISH then do {
          dm \<leftarrow> drc_master_update_inst_remaster_status (ta_src_inst msg) REMASTER_PUBLISH (dm\<lparr>dm_complete_num := dm_complete_num dm + 1\<rparr>);
          Some (part_mngr\<lparr>pm_remaster_mngr := dm\<rparr>)
        }
        else Some part_mngr
      }
      else Some part_mngr)"

subsection \<open>Publication of the target tables\<close>

fun rc_bitmap_insts :: "u8 list \<Rightarrow> u64 \<Rightarrow> u64" where
  "rc_bitmap_insts [] bitmap = bitmap"
| "rc_bitmap_insts (inst_id # ids) bitmap = rc_bitmap_insts ids (rc_bitmap64_set bitmap inst_id)"

definition get_alive_bitmap_by_reform_info :: "reform_info \<Rightarrow> u64 option" where
  "get_alive_bitmap_by_reform_info info = do {
     ids \<leftarrow> id_entries (il_inst_id_list (rf_after info)) (il_inst_id_count (rf_after info));
     ids' \<leftarrow> id_entries (il_inst_id_list (rf_leave info)) (il_inst_id_count (rf_leave info));
     Some (rc_bitmap_insts ids' (rc_bitmap_insts ids 0))
   }"

text \<open>
  \<open>buf\<close> is the buffer on the stack of the session, if there is room for one, with what it held before. The result is the status and the
  message that is broadcast, and \<open>bcast\<close> is the result of a broadcast that waits for the acknowledgements of the instances.
\<close>

definition drc_broadcast_target_part :: "drc_remaster_target_part_msg option \<Rightarrow> (u64 \<Rightarrow> drc_remaster_target_part_msg \<Rightarrow> status_t) \<Rightarrow>
    status_t \<Rightarrow> u64 \<Rightarrow> drc_remaster_mngr \<Rightarrow> status_t \<times> drc_remaster_target_part_msg option" where
  "drc_broadcast_target_part buf bcast status alive_bitmap dm =
     (case buf of
        None \<Rightarrow> (OG_ERROR, None)
      | Some msg \<Rightarrow>
          let msg = msg\<lparr>tp_status := status, tp_reform_trigger_version := rf_trigger_version (dm_reform_info dm)\<rparr> in
          if status \<noteq> OG_SUCCESS then (OG_SUCCESS, Some msg)
          else let msg = msg\<lparr>tp_target_part_map := dm_target_part_map dm, tp_target_inst_part_tbl := dm_target_inst_part_tbl dm,
                 tp_buffer_len := SIZEOF_TARGET_PART\<rparr>
            in (bcast alive_bitmap msg, Some msg))"

definition drc_accept_target_part_parameter_check :: "bool \<Rightarrow> drc_remaster_target_part_msg \<Rightarrow> drc_part_mngr \<Rightarrow> status_t" where
  "drc_accept_target_part_parameter_check in_reform msg part_mngr =
     (if pm_remaster_status part_mngr = REMASTER_DONE \<or> \<not> in_reform \<or> tp_buffer_len msg \<noteq> SIZEOF_TARGET_PART \<or>
         tp_reform_trigger_version msg \<noteq> rf_trigger_version (dm_reform_info (pm_remaster_mngr part_mngr))
      then OG_ERROR else OG_SUCCESS)"

text \<open>The result is the status in the acknowledgement, if one is sent.\<close>

definition drc_accept_target_part :: "bool \<Rightarrow> bool \<Rightarrow> drc_remaster_target_part_msg \<Rightarrow> drc_instance \<Rightarrow> (status_t option \<times> drc_instance) option" where
  "drc_accept_target_part in_reform size_ok msg ogx =
     (let part_mngr = in_part_mngr ogx in
      if pm_remaster_status part_mngr = REMASTER_FAIL then Some (None, ogx)
      else if \<not> size_ok then Some (None, ogx)
      else if tp_status msg \<noteq> OG_SUCCESS
      then Some (None, ogx\<lparr>in_part_mngr := drc_update_remaster_local_status REMASTER_FAIL part_mngr\<rparr>)
      else if drc_accept_target_part_parameter_check in_reform msg part_mngr \<noteq> OG_SUCCESS then Some (Some OG_ERROR, ogx)
      else do {
        ogx \<leftarrow> drc_remaster_inst_list (dm_reform_info (pm_remaster_mngr part_mngr))
                 (ogx\<lparr>in_part_mngr := drc_update_target_part (tp_target_part_map msg) (tp_target_inst_part_tbl msg) part_mngr\<rparr>);
        Some (Some OG_SUCCESS, ogx)
      })"

definition drc_accept_remaster_done :: "bool \<Rightarrow> bool \<Rightarrow> drc_remaster_status_notify \<Rightarrow> drc_part_mngr \<Rightarrow> status_t option \<times> drc_part_mngr" where
  "drc_accept_remaster_done in_reform size_ok msg part_mngr =
     (if \<not> size_ok then (None, part_mngr)
      else if pm_remaster_status part_mngr = REMASTER_DONE \<or> \<not> in_reform \<or>
           rn_reform_trigger_version msg \<noteq> rf_trigger_version (dm_reform_info (pm_remaster_mngr part_mngr))
      then (None, part_mngr)
      else if pm_remaster_status part_mngr = REMASTER_FAIL then (None, part_mngr)
      else if pm_remaster_status part_mngr \<noteq> REMASTER_PUBLISH then (None, part_mngr)
      else (Some OG_SUCCESS, drc_update_remaster_local_status REMASTER_DONE part_mngr))"

definition REMASTER_WAIT_ALL_NODE_READY_TIMEOUT :: u64 where
  "REMASTER_WAIT_ALL_NODE_READY_TIMEOUT = 5 * 1000"

text \<open>\<open>publish_timeout\<close> is \<^verbatim>\<open>REMASTER_WAIT_ALL_NODE_READY_PUBLISH_TIMEOUT\<close>, which depends on the build.\<close>

definition drc_remaster_step_publish :: "(nat \<Rightarrow> drc_instance \<Rightarrow> drc_instance) \<Rightarrow> u64 \<Rightarrow> drc_remaster_target_part_msg option \<Rightarrow>
    (u64 \<Rightarrow> drc_remaster_target_part_msg \<Rightarrow> status_t) \<Rightarrow> (u64 \<Rightarrow> drc_remaster_status_notify \<Rightarrow> status_t) \<Rightarrow> u8 \<Rightarrow> drc_instance \<Rightarrow>
    (status_t \<times> drc_remaster_target_part_msg option \<times> drc_remaster_status_notify option \<times> drc_instance) option" where
  "drc_remaster_step_publish others publish_timeout buf bcast_part bcast_done self ogx =
     (if \<not> dm_is_master (pm_remaster_mngr (in_part_mngr ogx)) then Some (OG_SUCCESS, None, None, ogx)
      else do {
        (ret, ogx) \<leftarrow> drc_remaster_wait_all_node_ready others (dm_reform_info (pm_remaster_mngr (in_part_mngr ogx)))
                       publish_timeout REMASTER_PUBLISH ogx;
        if ret \<noteq> OG_SUCCESS then Some (OG_ERROR, None, None, ogx)
        else do {
          let part_mngr = (in_part_mngr ogx)\<lparr>pm_remaster_finish_step := REMASTER_RECOVERY\<rparr>;
          let ogx = ogx\<lparr>in_part_mngr := part_mngr\<rparr>;
          let dm = pm_remaster_mngr part_mngr;
          alive \<leftarrow> get_alive_bitmap_by_reform_info (dm_reform_info dm);
          let alive_bitmap = rc_bitmap64_clear alive self;
          let (ret, msg) = drc_broadcast_target_part buf bcast_part OG_SUCCESS alive_bitmap dm;
          if ret \<noteq> OG_SUCCESS then Some (ret, msg, None, ogx)
          else do {
            let part_mngr = part_mngr\<lparr>pm_part_map := dm_target_part_map dm, pm_inst_part_tbl := dm_target_inst_part_tbl dm\<rparr>;
            let ogx = ogx\<lparr>in_part_mngr := part_mngr\<rparr>;
            let done_msg = \<lparr>rn_remaster_status = pm_remaster_status part_mngr,
                  rn_reform_trigger_version = rf_trigger_version (dm_reform_info dm)\<rparr>;
            if bcast_done alive_bitmap done_msg \<noteq> OG_SUCCESS then Some (OG_ERROR, msg, Some done_msg, ogx)
            else do {
              ogx \<leftarrow> drc_remaster_inst_list (dm_reform_info dm) ogx;
              Some (OG_SUCCESS, msg, Some done_msg, ogx\<lparr>in_part_mngr :=
                (drc_update_remaster_local_status REMASTER_DONE (in_part_mngr ogx))\<lparr>pm_remaster_finish_step := REMASTER_PUBLISH\<rparr>\<rparr>)
            }
          }
        }
      })"

subsection \<open>Start and stop\<close>

definition drc_remaster_broadcast_param_verification :: "(u64 \<Rightarrow> bool \<Rightarrow> status_t) \<Rightarrow> bool \<Rightarrow> drc_remaster_mngr \<Rightarrow> status_t option" where
  "drc_remaster_broadcast_param_verification bcast drc_mode dm = do {
     alive_bitmap \<leftarrow> get_alive_bitmap_by_reform_info (dm_reform_info dm);
     Some (bcast alive_bitmap drc_mode)
   }"

text \<open>A follower whose parameter differs aborts; the result is the status in the acknowledgement.\<close>

definition drc_process_remaster_param_verify :: "bool \<Rightarrow> bool \<Rightarrow> status_t option" where
  "drc_process_remaster_param_verify reformer_drc_mode drc_mode =
     (if reformer_drc_mode \<noteq> drc_mode then None else Some OG_SUCCESS)"

text \<open>\<open>verify\<close> says that the version of the database has the parameter, so that it is compared.\<close>

definition drc_prepare_remaster :: "bool \<Rightarrow> (u64 \<Rightarrow> bool \<Rightarrow> status_t) \<Rightarrow> bool \<Rightarrow> net_env \<Rightarrow> u8 \<Rightarrow> drc_part_mngr \<Rightarrow>
    ((u8 \<times> drc_remaster_status_notify) list \<times> drc_part_mngr) option" where
  "drc_prepare_remaster verify bcast drc_mode net self_id part_mngr = do {
     ret \<leftarrow> (if pm_remaster_inst part_mngr = self_id \<and> verify
            then drc_remaster_broadcast_param_verification bcast drc_mode (pm_remaster_mngr part_mngr) else Some OG_SUCCESS);
     if ret \<noteq> OG_SUCCESS then Some ([], drc_update_remaster_local_status REMASTER_FAIL part_mngr)
     else do {
       (ret, msgs, part_mngr) \<leftarrow> drc_notify_remaster_status net self_id REMASTER_ASSIGN_TASK part_mngr;
       Some (msgs, drc_update_remaster_local_status (if ret = OG_SUCCESS then REMASTER_ASSIGN_TASK else REMASTER_FAIL) part_mngr)
     }
   }"

definition drc_remaster_step_assign_task :: "(nat \<Rightarrow> drc_instance \<Rightarrow> drc_instance) \<Rightarrow> bool \<Rightarrow> u64 \<Rightarrow>
    (u8 \<Rightarrow> drc_remaster_task list \<Rightarrow> net_env) \<Rightarrow> u8 \<Rightarrow> drc_instance \<Rightarrow> (status_t \<times> task_msgs \<times> drc_instance) option" where
  "drc_remaster_step_assign_task others reformer_mode reform_version net self ogx =
     (let info = dm_reform_info (pm_remaster_mngr (in_part_mngr ogx)) in
      if \<not> dm_is_master (pm_remaster_mngr (in_part_mngr ogx)) then Some (OG_SUCCESS, [], ogx)
      else do {
        (ret, ogx) \<leftarrow> drc_remaster_wait_all_node_ready others info REMASTER_WAIT_ALL_NODE_READY_TIMEOUT REMASTER_ASSIGN_TASK ogx;
        if ret \<noteq> OG_SUCCESS then Some (OG_ERROR, [], ogx)
        else do {
          let part_mngr = (in_part_mngr ogx)\<lparr>pm_remaster_finish_step := REMASTER_PREPARE\<rparr>;
          (ret, msgs, part_mngr) \<leftarrow> drc_execute_remaster reformer_mode reform_version net self info part_mngr;
          Some (ret, msgs, ogx\<lparr>in_part_mngr := part_mngr\<rparr>)
        }
      })"

definition zero_drm_info :: inst_drm_info where
  "zero_drm_info = \<lparr>di_remaster_status = REMASTER_PREPARE, di_task_num = 0\<rparr>"

definition no_mgrt_res :: "drc_mgrt_res_cnt list" where
  "no_mgrt_res = replicate DRC_MAX_PART_NUM \<lparr>mc_page = 0, mc_lock = 0\<rparr>"

definition drc_reset_remaster_info :: "drc_part_mngr \<Rightarrow> drc_part_mngr" where
  "drc_reset_remaster_info part_mngr =
     part_mngr\<lparr>pm_remaster_status := REMASTER_DONE, pm_is_reentrant := True, pm_remaster_inst := OG_INVALID_ID8,
       pm_remaster_mngr := (pm_remaster_mngr part_mngr)
         \<lparr>dm_is_master := False, dm_complete_num := 0, dm_local_task_num := 0, dm_local_task_complete_num := 0, dm_task_num := 0,
          dm_stopped := True, dm_inst_drm_info := replicate OG_MAX_INSTANCES zero_drm_info,
          dm_tmp_inst_part_tbl := pm_inst_part_tbl part_mngr, dm_tmp_part_map := pm_part_map part_mngr,
          dm_remaster_task_set := replicate DRC_MAX_PART_NUM zero_task, dm_mgrt_part_res_cnt := no_mgrt_res\<rparr>\<rparr>"

definition drc_remaster_fail :: "net_env \<Rightarrow> u8 \<Rightarrow> drc_part_mngr \<Rightarrow> ((u8 \<times> drc_remaster_status_notify) list \<times> drc_part_mngr) option" where
  "drc_remaster_fail net self part_mngr =
     (if \<not> dm_is_master (pm_remaster_mngr part_mngr)
      then map_option snd (drc_notify_remaster_status net self (pm_remaster_status part_mngr) part_mngr)
      else Some ([], part_mngr))"

text \<open>A null pointer is \<open>None\<close>. The last instance that shuts down needs no change of the table.\<close>

definition drc_check_reform_info :: "reform_info option \<Rightarrow> status_t" where
  "drc_check_reform_info info =
     (case info of
        None \<Rightarrow> OG_ERROR
      | Some info \<Rightarrow>
          if il_inst_id_count (rf_before info) = 0 then OG_ERROR
          else if il_inst_id_count (rf_before info) = 1 \<and> il_inst_id_count (rf_leave info) = 1 then OG_ERROR
          else OG_SUCCESS)"

definition dtc_remaster_init :: "reform_info \<Rightarrow> drc_instance \<Rightarrow> drc_instance" where
  "dtc_remaster_init info ogx =
     ogx\<lparr>in_part_mngr := (in_part_mngr ogx)\<lparr>pm_remaster_mngr := (pm_remaster_mngr (in_part_mngr ogx))
           \<lparr>dm_reform_info := info, dm_mgrt_part_res_cnt := no_mgrt_res,
            dm_remaster_task_set := replicate DRC_MAX_PART_NUM zero_task\<rparr>\<rparr>,
         in_ctx := (in_ctx ogx)\<lparr>rc_clean_page_cnt := 0, rc_clean_lock_cnt := 0, rc_clean_convert_cnt := 0\<rparr>\<rparr>"

definition drc_start_remaster :: "bool \<Rightarrow> reform_info option \<Rightarrow> drc_part_mngr \<Rightarrow> drc_part_mngr" where
  "drc_start_remaster thread_ok info part_mngr =
     (case info of
        None \<Rightarrow> part_mngr
      | Some info \<Rightarrow>
          if il_inst_id_count (rf_before info) = 0 then part_mngr
          else if il_inst_id_count (rf_before info) = 1 \<and> il_inst_id_count (rf_leave info) = 1 then part_mngr
          else let part_mngr = drc_update_remaster_local_status REMASTER_PREPARE (part_mngr\<lparr>pm_remaster_inst := rf_master_id info\<rparr>)
            in if thread_ok then part_mngr
               else drc_update_remaster_local_status REMASTER_FAIL (part_mngr\<lparr>pm_remaster_inst := OG_INVALID_ID8\<rparr>))"

definition drc_reset_target_part :: "drc_part_mngr \<Rightarrow> drc_part_mngr" where
  "drc_reset_target_part part_mngr =
     part_mngr\<lparr>pm_inst_part_tbl := dm_tmp_inst_part_tbl (pm_remaster_mngr part_mngr),
       pm_part_map := dm_tmp_part_map (pm_remaster_mngr part_mngr)\<rparr>"

definition drc_remaster_in_progress :: "drc_part_mngr \<Rightarrow> bool" where
  "drc_remaster_in_progress part_mngr \<longleftrightarrow>
     \<not> (pm_remaster_status part_mngr = REMASTER_DONE \<or> pm_remaster_status part_mngr = REMASTER_FAIL)"

text \<open>\<open>early\<close> says that the last reform failed no later than in \<^verbatim>\<open>REFORM_RECOVERING\<close>.\<close>

definition drc_remaster_need_stop :: "bool \<Rightarrow> drc_part_mngr \<Rightarrow> bool \<times> drc_part_mngr" where
  "drc_remaster_need_stop early part_mngr =
     (if pm_remaster_status part_mngr \<noteq> REMASTER_DONE then (True, part_mngr\<lparr>pm_mgrt_fail_list := False\<rparr>)
      else (False, if early then part_mngr\<lparr>pm_mgrt_fail_list := False\<rparr> else part_mngr))"

definition drc_get_remaster_status :: "drc_part_mngr \<Rightarrow> drc_remaster_status" where
  "drc_get_remaster_status part_mngr = pm_remaster_status part_mngr"

end
