(* ===== verification/Part_Moves.thy ===== *)
theory Part_Moves
  imports Drc_Remaster
begin

text \<open>
  The shares of the instances, and the steps of a change of the partition table: the lists of the instances and the
  partitions on the way are always all partitions. Exports take partitions from the front of a list, imports put
  them to the front of another one.
\<close>

subsection \<open>Shares\<close>

definition quota :: "nat \<Rightarrow> nat \<Rightarrow> nat" where
  "quota n k = DRC_MAX_PART_NUM div n + (if k < DRC_MAX_PART_NUM mod n then 1 else 0)"

text \<open>Later instances of larger clusters get no more.\<close>

lemma quota_mono:
  assumes "0 < n" "n \<le> n'" "r \<le> r'"
  shows "quota n' r' \<le> quota n r"
proof -
  let ?d = "DRC_MAX_PART_NUM"
  have le: "?d div n' \<le> ?d div n" using assms(1,2) by (simp add: div_le_mono2)
  show ?thesis
  proof (cases "?d div n' = ?d div n")
    case False
    then show ?thesis using le by (simp add: quota_def)
  next
    case True
    have "?d mod n' = ?d - ?d div n * n'" "?d mod n = ?d - ?d div n * n" using True by (simp_all add: minus_div_mult_eq_mod [symmetric])
    moreover have "?d div n * n \<le> ?d div n * n'" using assms(2) by simp
    ultimately have "?d mod n' \<le> ?d mod n" by linarith
    then show ?thesis using True assms(3) by (simp add: quota_def)
  qed
qed

lemma quota_pos:
  assumes "0 < n" "n \<le> DRC_MAX_PART_NUM"
  shows "0 < quota n k"
  using assms div_greater_zero_iff by (simp add: quota_def)

lemma quota_sum:
  assumes "0 < n"
  shows "(\<Sum>k<n. quota n k) = DRC_MAX_PART_NUM"
proof -
  have "{..<n} \<inter> {k. k < DRC_MAX_PART_NUM mod n} = {..<DRC_MAX_PART_NUM mod n}" using mod_less_divisor [OF assms, of DRC_MAX_PART_NUM] by auto
  then have "(\<Sum>k<n. if k < DRC_MAX_PART_NUM mod n then 1 else 0) = DRC_MAX_PART_NUM mod n" by (simp add: sum.If_cases)
  then show ?thesis by (simp add: quota_def sum.distrib)
qed

lemma part_share_quota:
  assumes "0 < n" "n \<le> OG_MAX_INSTANCES" "k \<le> OG_MAX_INSTANCES"
  shows "unat (part_share (of_nat n) (of_nat k)) = quota n k"
proof -
  have b: "n < 4294967296" "k < 4294967296" "n \<le> 64" using assms by (simp_all add: OG_MAX_INSTANCES_def)
  have d: "unat (of_nat 1024 div of_nat n :: u32) = 1024 div n" "unat (of_nat 1024 mod of_nat n :: u32) = 1024 mod n"
    using b by (simp_all add: unat_div unat_mod unat_of_nat_u32 unsigned_of_nat take_bit_nat_eq_self)
  have le: "1024 div n \<le> 1024" by simp
  have "(of_nat k :: u32) < of_nat 1024 mod of_nat n \<longleftrightarrow> k < 1024 mod n"
    using d(2) b by (simp add: word_less_nat_alt unat_of_nat_u32)
  moreover have "unat (of_nat 1024 div of_nat n + 1 :: u32) = 1024 div n + 1"
    using unat_inc [of "of_nat 1024 div of_nat n"] d(1) le_less_trans [OF le, of 4294967295] by simp
  ultimately show ?thesis
    using d(1) take_bit_nat_eq_self [of "1024 div n" 16] take_bit_nat_eq_self [of "Suc (1024 div n)" 16]
      le_less_trans [OF le, of 65535]
    by (simp add: part_share_def quota_def Let_def DRC_MAX_PART_NUM_def unsigned_ucast_eq)
qed

text \<open>The number of instances in use before index \<open>k\<close>.\<close>

definition used_rank :: "drc_inst_part list \<Rightarrow> nat \<Rightarrow> nat" where
  "used_rank tbl k = length (filter ip_is_used (take k tbl))"

lemma used_rank_0 [simp]: "used_rank tbl 0 = 0"
  by (simp add: used_rank_def)

lemma used_rank_Suc: "k < length tbl \<Longrightarrow> used_rank tbl (Suc k) = used_rank tbl k + (if ip_is_used (tbl ! k) then 1 else 0)"
  by (simp add: used_rank_def take_Suc_conv_app_nth)

lemma used_rank_le: "used_rank tbl k \<le> k"
  using length_filter_le [of ip_is_used "take k tbl"] by (simp add: used_rank_def)

lemma used_rank_mono: "j \<le> k \<Longrightarrow> used_rank tbl j \<le> used_rank tbl k"
proof -
  assume "j \<le> k"
  then have "take k tbl = take j tbl @ take (k - j) (drop j tbl)" by (metis le_add_diff_inverse take_add)
  then show ?thesis by (simp add: used_rank_def)
qed

lemma used_rank_cong:
  assumes "length tbl' = length tbl" "\<And>j. j < length tbl \<Longrightarrow> ip_is_used (tbl' ! j) = ip_is_used (tbl ! j)"
  shows "used_rank tbl' k = used_rank tbl k"
proof (induction k)
  case (Suc k)
  then show ?case using assms by (cases "k < length tbl") (simp_all add: used_rank_Suc, simp add: used_rank_def)
qed simp

lemma used_rank_subset:
  assumes "length tbl' = length tbl" "\<And>j. j < length tbl \<Longrightarrow> ip_is_used (tbl ! j) \<Longrightarrow> ip_is_used (tbl' ! j)" "k \<le> length tbl"
  shows "used_rank tbl k \<le> used_rank tbl' k"
  using assms(3)
proof (induction k)
  case (Suc k)
  then show ?case using assms(1) assms(2) [of k] by (simp add: used_rank_Suc)
qed simp

lemma rank_sum:
  assumes "k \<le> length tbl"
  shows "(\<Sum>j<k. if ip_is_used (tbl ! j) then f (used_rank tbl j) else 0) = (\<Sum>r<used_rank tbl k. f r)"
  using assms by (induction k) (simp_all add: used_rank_Suc)

subsection \<open>Tables with partitions on the way\<close>

text \<open>
  \<open>pend\<close> are the partitions that have been taken from the lists and not yet been given to another instance.
\<close>

definition parts_rep :: "drc_part list \<Rightarrow> drc_inst_part list \<Rightarrow> (u8 \<Rightarrow> u16 list) \<Rightarrow> u16 list \<Rightarrow> bool" where
  "parts_rep part_map tbl L pend \<longleftrightarrow> tbl_rep part_map tbl L \<and> distinct pend \<and>
     (\<forall>p \<in> set pend. unat p < DRC_MAX_PART_NUM \<and> (\<forall>i. p \<notin> set (L i))) \<and>
     (\<forall>p. unat p < DRC_MAX_PART_NUM \<longrightarrow> p \<in> set pend \<or> (\<exists>i. p \<in> set (L i)))"

lemma index_inst [simp]: "k < OG_MAX_INSTANCES \<Longrightarrow> unat (of_nat k :: u8) = k"
  "k < OG_MAX_INSTANCES \<Longrightarrow> inst_ok (of_nat k)"
  by (simp_all add: unat_of_nat OG_MAX_INSTANCES_def inst_ok_def)

lemma card_parts: "card {p :: u16. unat p < DRC_MAX_PART_NUM} = DRC_MAX_PART_NUM"
proof -
  have e: "{p :: u16. unat p < DRC_MAX_PART_NUM} = of_nat ` {..<DRC_MAX_PART_NUM}"
  proof (intro equalityI subsetI)
    fix p :: u16 assume "p \<in> {p. unat p < DRC_MAX_PART_NUM}"
    then show "p \<in> of_nat ` {..<DRC_MAX_PART_NUM}" by (intro image_eqI [of _ _ "unat p"]) simp_all
  qed (auto simp: unat_of_nat DRC_MAX_PART_NUM_def)
  have "inj_on (of_nat :: nat \<Rightarrow> u16) {..<DRC_MAX_PART_NUM}"
    by (rule inj_on_inverseI [of _ unat]) (simp add: unat_of_nat DRC_MAX_PART_NUM_def)
  then show ?thesis using e by (simp add: card_image)
qed

lemma parts_sum:
  assumes "parts_rep part_map tbl L pend"
  shows "(\<Sum>k<OG_MAX_INSTANCES. length (L (of_nat k))) + length pend = DRC_MAX_PART_NUM"
proof -
  have rep: "tbl_rep part_map tbl L" using assms by (simp add: parts_rep_def)
  let ?U = "\<Union>k<OG_MAX_INSTANCES. set (L (of_nat k))"
  have disj: "set (L (of_nat j)) \<inter> set (L (of_nat k)) = {}" if "j < OG_MAX_INSTANCES" "k < OG_MAX_INSTANCES" "j \<noteq> k" for j k
  proof -
    have "(of_nat j :: u8) \<noteq> of_nat k" using index_inst(1) that by metis
    then show ?thesis using tbl_rep_one [OF rep] by blast
  qed
  have "card ?U = (\<Sum>k<OG_MAX_INSTANCES. card (set (L (of_nat k))))"
    by (rule card_UN_disjoint) (use disj in auto)
  also have "\<dots> = (\<Sum>k<OG_MAX_INSTANCES. length (L (of_nat k)))"
    using tbl_repD(5) [OF rep] by (simp add: distinct_card)
  finally have U: "card ?U = (\<Sum>k<OG_MAX_INSTANCES. length (L (of_nat k)))" .
  have ex: "\<exists>k<OG_MAX_INSTANCES. p \<in> set (L (of_nat k))" if "p \<in> set (L i)" for p i
    using tbl_repD(7) [OF rep that] that by (intro exI [of _ "unat i"]) (simp add: inst_ok_lt)
  have pend: "unat p < DRC_MAX_PART_NUM" "p \<notin> set (L i)" if "p \<in> set pend" for p i
    using assms that by (simp_all add: parts_rep_def)
  have all: "p \<in> set pend \<or> (\<exists>i. p \<in> set (L i))" if "unat p < DRC_MAX_PART_NUM" for p
    using assms that by (simp add: parts_rep_def)
  have "?U \<union> set pend = {p. unat p < DRC_MAX_PART_NUM}"
  proof (intro equalityI subsetI)
    fix p assume "p \<in> ?U \<union> set pend"
    then show "p \<in> {p. unat p < DRC_MAX_PART_NUM}" using pend(1) tbl_repD(6) [OF rep] by auto
  next
    fix p :: u16 assume "p \<in> {p. unat p < DRC_MAX_PART_NUM}"
    then show "p \<in> ?U \<union> set pend" using all [of p] ex [of p] by auto
  qed
  moreover have "?U \<inter> set pend = {}" using pend(2) by auto
  ultimately have "card {p :: u16. unat p < DRC_MAX_PART_NUM} = card ?U + card (set pend)" by (metis (no_types, lifting) List.finite_set card_Un_disjoint finite_UN_I finite_lessThan)
  then show ?thesis using U assms by (simp add: card_parts distinct_card parts_rep_def)
qed

text \<open>The number of partitions an instance is to have.\<close>

definition share :: "drc_inst_part list \<Rightarrow> nat \<Rightarrow> nat" where
  "share tbl k = (if ip_is_used (tbl ! k) then quota (used_rank tbl OG_MAX_INSTANCES) (used_rank tbl k) else 0)"

text \<open>When the instances in use have at most their shares, nothing is on the way exactly when they have all of them.\<close>

definition within_shares :: "drc_inst_part list \<Rightarrow> (u8 \<Rightarrow> u16 list) \<Rightarrow> bool" where
  "within_shares tbl L \<longleftrightarrow> (\<forall>k<OG_MAX_INSTANCES. length (L (of_nat k)) \<le> share tbl k)"

definition balanced :: "drc_inst_part list \<Rightarrow> (u8 \<Rightarrow> u16 list) \<Rightarrow> bool" where
  "balanced tbl L \<longleftrightarrow> (\<forall>k<OG_MAX_INSTANCES. length (L (of_nat k)) = share tbl k)"

lemma shares_sum:
  assumes "length tbl = OG_MAX_INSTANCES" "0 < used_rank tbl OG_MAX_INSTANCES"
  shows "(\<Sum>k<OG_MAX_INSTANCES. share tbl k) = DRC_MAX_PART_NUM"
  using rank_sum [of OG_MAX_INSTANCES tbl "quota (used_rank tbl OG_MAX_INSTANCES)"] quota_sum assms by (simp add: share_def)

lemma nothing_pending:
  assumes "parts_rep part_map tbl L pend" "within_shares tbl L" "0 < used_rank tbl OG_MAX_INSTANCES"
  shows "pend = [] \<longleftrightarrow> balanced tbl L"
proof -
  have len: "length tbl = OG_MAX_INSTANCES" using assms(1) tbl_repD(2) by (auto simp: parts_rep_def)
  note sums = parts_sum [OF assms(1)] shares_sum [OF len assms(3)]
  show ?thesis
  proof
    assume "pend = []"
    then have "(\<Sum>k<OG_MAX_INSTANCES. length (L (of_nat k))) = (\<Sum>k<OG_MAX_INSTANCES. share tbl k)" using sums by simp
    then have "length (L (of_nat k)) = share tbl k" if "k < OG_MAX_INSTANCES" for k
      by (rule sum_mono_inv) (use that assms(2) in \<open>simp_all add: within_shares_def\<close>)
    then show "balanced tbl L" unfolding balanced_def by blast
  next
    assume "balanced tbl L"
    then have "(\<Sum>k<OG_MAX_INSTANCES. length (L (of_nat k))) = (\<Sum>k<OG_MAX_INSTANCES. share tbl k)"
      unfolding balanced_def by (intro sum.cong) auto
    then show "pend = []" using sums by simp
  qed
qed

subsection \<open>Exports\<close>

definition tasks :: "drc_remaster_mngr \<Rightarrow> (u16 \<times> u8) list" where
  "tasks dm = map (\<lambda>t. (tk_part_id t, tk_export_inst t)) (take (unat (dm_task_num dm)) (dm_remaster_task_set dm))"

text \<open>Only the task set has changed, and it has more tasks.\<close>

definition tasks_added :: "drc_remaster_mngr \<Rightarrow> drc_remaster_mngr \<Rightarrow> (u16 \<times> u8) list \<Rightarrow> bool" where
  "tasks_added dm dm' ts \<longleftrightarrow>
     dm_target_part_map dm' = dm_target_part_map dm \<and> dm_target_inst_part_tbl dm' = dm_target_inst_part_tbl dm \<and>
     length (dm_remaster_task_set dm') = length (dm_remaster_task_set dm) \<and>
     unat (dm_task_num dm') = unat (dm_task_num dm) + length ts \<and> tasks dm' = tasks dm @ ts"

lemma tasks_added_none: "tasks_added dm dm []"
  by (simp add: tasks_added_def)

lemma tasks_added_trans: "tasks_added dm dm' ts \<Longrightarrow> tasks_added dm' dm'' ts' \<Longrightarrow> tasks_added dm dm'' (ts @ ts')"
  by (simp add: tasks_added_def)

lemma add_task_ok:
  assumes "length (dm_remaster_task_set dm) = DRC_MAX_PART_NUM" "unat (dm_task_num dm) < DRC_MAX_PART_NUM"
  shows "\<exists>dm'. drc_add_task p inst dm = Some dm' \<and> tasks_added dm dm' [(p, inst)]"
proof -
  have "unat (dm_task_num dm + 1) = Suc (unat (dm_task_num dm))"
    using assms(2) unat_inc [of "dm_task_num dm"] by (simp add: DRC_MAX_PART_NUM_def)
  then show ?thesis using assms
    by (simp add: drc_add_task_def rd_def wr_def tasks_added_def tasks_def take_Suc_conv_app_nth)
qed

lemma length_tasks: "unat (dm_task_num dm) \<le> length (dm_remaster_task_set dm) \<Longrightarrow> length (tasks dm) = unat (dm_task_num dm)"
  by (simp add: tasks_def)

lemma tasks_tables [simp]:
  "tasks (dm\<lparr>dm_target_inst_part_tbl := tbl\<rparr>) = tasks dm" "tasks (dm\<lparr>dm_target_part_map := part_map\<rparr>) = tasks dm"
  by (simp_all add: tasks_def)

lemma export_parts_ok:
  assumes "walk (nexts links) cur n = ps" "\<forall>p \<in> set ps. unat p < length links"
    "length (dm_remaster_task_set dm) = DRC_MAX_PART_NUM" "unat (dm_task_num dm) + n \<le> DRC_MAX_PART_NUM"
  shows "\<exists>dm'. drc_export_parts links inst n cur dm = Some (walk_end (nexts links) cur n, dm') \<and>
    tasks_added dm dm' (map (\<lambda>p. (p, inst)) ps)"
  using assms
proof (induction n arbitrary: cur ps dm)
  case 0
  then show ?case by (simp add: tasks_added_none)
next
  case (Suc n)
  obtain dm1 where add: "drc_add_task cur inst dm = Some dm1" "tasks_added dm dm1 [(cur, inst)]"
    using add_task_ok [of dm cur inst] Suc.prems by auto
  obtain qs where ps: "ps = cur # qs" "walk (nexts links) (nexts links cur) n = qs" using Suc.prems(1) by auto
  have "\<exists>dm'. drc_export_parts links inst n (nexts links cur) dm1 = Some (walk_end (nexts links) (nexts links cur) n, dm') \<and>
    tasks_added dm1 dm' (map (\<lambda>p. (p, inst)) qs)"
    by (rule Suc.IH) (use Suc.prems ps add(2) in \<open>auto simp: tasks_added_def\<close>)
  then obtain dm' where rest: "drc_export_parts links inst n (nexts links cur) dm1 = Some (walk_end (nexts links) (nexts links cur) n, dm')"
    "tasks_added dm1 dm' (map (\<lambda>p. (p, inst)) qs)" by blast
  have "unat cur < length links" using Suc.prems(2) ps(1) by simp
  then show ?case using add(1) rest tasks_added_trans [OF add(2) rest(2)] ps(1) by auto
qed

text \<open>
  The lists \<open>L\<close> of the target tables, when the tasks are the partitions on the way.
\<close>

definition moving :: "drc_remaster_mngr \<Rightarrow> (u8 \<Rightarrow> u16 list) \<Rightarrow> bool" where
  "moving dm L \<longleftrightarrow> parts_rep (dm_target_part_map dm) (dm_target_inst_part_tbl dm) L (map fst (tasks dm)) \<and>
     length (dm_remaster_task_set dm) = DRC_MAX_PART_NUM \<and> unat (dm_task_num dm) \<le> DRC_MAX_PART_NUM"

lemma movingD:
  assumes "moving dm L"
  shows "tbl_rep (dm_target_part_map dm) (dm_target_inst_part_tbl dm) L"
    "parts_rep (dm_target_part_map dm) (dm_target_inst_part_tbl dm) L (map fst (tasks dm))"
    "length (dm_remaster_task_set dm) = DRC_MAX_PART_NUM" "length (tasks dm) = unat (dm_task_num dm)"
    "length (dm_target_inst_part_tbl dm) = OG_MAX_INSTANCES" "length (dm_target_part_map dm) = DRC_MAX_PART_NUM"
  using assms tbl_repD(1,2) [of "dm_target_part_map dm" "dm_target_inst_part_tbl dm" L] unfolding moving_def parts_rep_def
  by (simp_all add: length_tasks)

text \<open>Room for the tasks of one more instance.\<close>

lemma tasks_room:
  assumes "moving dm L" "k < OG_MAX_INSTANCES"
  shows "unat (dm_task_num dm) + length (L (of_nat k)) \<le> DRC_MAX_PART_NUM"
proof -
  have "length (L (of_nat k)) \<le> (\<Sum>k<OG_MAX_INSTANCES. length (L (of_nat k)))"
    using assms(2) by (intro member_le_sum) simp_all
  then show ?thesis using parts_sum [OF movingD(2) [OF assms(1)]] movingD(4) [OF assms(1)] by simp
qed

lemma parts_rep_take:
  assumes rep: "parts_rep part_map tbl L pend" and new: "tbl_rep part_map tbl' (L(j := drop n (L j)))"
  shows "parts_rep part_map tbl' (L(j := drop n (L j))) (pend @ take n (L j))"
  unfolding parts_rep_def
proof (intro conjI ballI allI impI)
  have r: "tbl_rep part_map tbl L" and pend: "distinct pend" "\<And>p i. p \<in> set pend \<Longrightarrow> unat p < DRC_MAX_PART_NUM \<and> p \<notin> set (L i)"
    and all: "\<And>p. unat p < DRC_MAX_PART_NUM \<Longrightarrow> p \<in> set pend \<or> (\<exists>i. p \<in> set (L i))"
    using rep unfolding parts_rep_def by blast+
  note D = tbl_repD [OF r]
  have dis: "set (take n (L j)) \<inter> set (drop n (L j)) = {}" using D(5) by (simp add: set_take_disj_set_drop_if_distinct)
  show "distinct (pend @ take n (L j))" using pend D(5) by (auto dest: in_set_takeD)
  fix p
  show "unat p < DRC_MAX_PART_NUM" if "p \<in> set (pend @ take n (L j))" using that pend(2) D(6) by (auto dest: in_set_takeD)
  show "p \<notin> set ((L(j := drop n (L j))) i)" if "p \<in> set (pend @ take n (L j))" for i
    using that pend(2) tbl_rep_one [OF r, of p j i] dis by (auto dest: in_set_takeD in_set_dropD)
  show "p \<in> set (pend @ take n (L j)) \<or> (\<exists>i. p \<in> set ((L(j := drop n (L j))) i))" if "unat p < DRC_MAX_PART_NUM"
  proof -
    have "p \<in> set (L j) \<Longrightarrow> p \<in> set (take n (L j)) \<or> p \<in> set (drop n (L j))" by (metis UnE append_take_drop_id set_append)
    then show ?thesis using all [OF that] by (metis (mono_tags) UnCI fun_upd_other fun_upd_same set_append)
  qed
qed (rule new)

text \<open>
  One instance gives away its first \<open>n\<close> partitions. The links that are followed may be those of another map that
  agrees on the list.
\<close>

lemma export_ok:
  assumes mv: "moving dm L" and k: "k < OG_MAX_INSTANCES" and n: "n \<le> length (L (of_nat k))"
    and links: "length links = DRC_MAX_PART_NUM"
      "walk (nexts links) (ip_first (dm_target_inst_part_tbl dm ! k)) n = take n (L (of_nat k))"
  shows "\<exists>dm'. drc_export_parts links inst n (ip_first (dm_target_inst_part_tbl dm ! k)) dm =
      Some (walk_end (nexts links) (ip_first (dm_target_inst_part_tbl dm ! k)) n, dm') \<and>
    tasks_added dm dm' (map (\<lambda>p. (p, inst)) (take n (L (of_nat k)))) \<and>
    (\<forall>e. (n < length (L (of_nat k)) \<longrightarrow> ip_first e = walk_end (nexts (dm_target_part_map dm)) (ip_first (dm_target_inst_part_tbl dm ! k)) n) \<and>
         unat (ip_count e) = length (L (of_nat k)) - n \<longrightarrow>
       moving (dm'\<lparr>dm_target_inst_part_tbl := (dm_target_inst_part_tbl dm')[k := e]\<rparr>) (L(of_nat k := drop n (L (of_nat k)))))"
proof -
  note D = movingD [OF mv]
  let ?j = "of_nat k :: u8" and ?ps = "take n (L (of_nat k))"
  have ps: "\<forall>p \<in> set ?ps. unat p < length links" using tbl_repD(6) [OF D(1)] links(1) by (auto dest: in_set_takeD)
  have "unat (dm_task_num dm) + n \<le> DRC_MAX_PART_NUM" using tasks_room [OF mv k] n by simp
  from export_parts_ok [OF links(2) ps D(3) this] obtain dm' where
    ex: "drc_export_parts links inst n (ip_first (dm_target_inst_part_tbl dm ! k)) dm =
      Some (walk_end (nexts links) (ip_first (dm_target_inst_part_tbl dm ! k)) n, dm')"
    and add: "tasks_added dm dm' (map (\<lambda>p. (p, inst)) ?ps)" by blast
  have "moving (dm'\<lparr>dm_target_inst_part_tbl := (dm_target_inst_part_tbl dm')[k := e]\<rparr>) (L(?j := drop n (L ?j)))"
    if e: "n < length (L ?j) \<longrightarrow> ip_first e = walk_end (nexts (dm_target_part_map dm)) (ip_first (dm_target_inst_part_tbl dm ! k)) n"
      "unat (ip_count e) = length (L ?j) - n" for e
  proof -
    have "tbl_rep (dm_target_part_map dm) ((dm_target_inst_part_tbl dm)[unat ?j := e]) (L(?j := drop n (L ?j)))"
    proof (cases "n < length (L ?j)")
      case True
      then show ?thesis using k n e by (intro tbl_rep_drop [OF D(1)]) simp_all
    next
      case False
      then show ?thesis using k n e(2) by (intro tbl_rep_upd [OF D(1)]) simp_all
    qed
    then have "tbl_rep (dm_target_part_map dm) ((dm_target_inst_part_tbl dm)[k := e]) (L(?j := drop n (L ?j)))" using k by simp
    from parts_rep_take [OF D(2) this] show ?thesis
      using add tasks_room [OF mv k] n D(3) by (simp add: moving_def tasks_added_def comp_def)
  qed
  then show ?thesis using ex add by blast
qed

text \<open>The entry of an instance before its export.\<close>

lemma moving_entry:
  assumes mv: "moving dm L" and k: "k < OG_MAX_INSTANCES"
    and e: "ip_first e = ip_first (dm_target_inst_part_tbl dm ! k)" "ip_count e = ip_count (dm_target_inst_part_tbl dm ! k)"
  shows "moving (dm\<lparr>dm_target_inst_part_tbl := (dm_target_inst_part_tbl dm)[k := e]\<rparr>) L"
proof -
  note D = movingD [OF mv]
  let ?j = "of_nat k :: u8"
  note R = tbl_repD [OF D(1)]
  have "tbl_rep (dm_target_part_map dm) ((dm_target_inst_part_tbl dm)[unat ?j := e]) (L(?j := L ?j))"
    by (rule tbl_rep_upd [OF D(1)]) (use k e R(3) [of ?j] R(4) [of ?j] R(5) [of ?j] R(6) [of _ ?j] in simp_all)
  then show ?thesis using mv k by (simp add: moving_def parts_rep_def)
qed

text \<open>One step of the loop of \<^verbatim>\<open>drc_set_remaster_taskset\<close>.\<close>

lemma export_inst_ok:
  assumes mv: "moving dm L" and k: "k < OG_MAX_INSTANCES" and e: "dm_target_inst_part_tbl dm ! k = e"
  shows "\<exists>dm' e'. drc_set_remaster_taskset_export_inst (of_nat k) dm = Some dm' \<and>
    moving dm' (L(of_nat k := drop (length (L (of_nat k)) - unat (ip_expected_num e)) (L (of_nat k)))) \<and>
    dm_target_part_map dm' = dm_target_part_map dm \<and> dm_target_inst_part_tbl dm' = (dm_target_inst_part_tbl dm)[k := e'] \<and>
    ip_is_used e' = ip_is_used e \<and> ip_expected_num e' = ip_expected_num e \<and>
    set (tasks dm') \<subseteq> set (tasks dm) \<union> {(p, i). p \<in> set (L i)}"
proof -
  note D = movingD [OF mv]
  let ?j = "of_nat k :: u8" and ?n = "unat (ip_count e - ip_expected_num e)"
  have ki: "unat (of_nat k :: u32) = k" "ucast (of_nat k :: u32) = ?j"
    using k by (simp_all add: unat_of_nat_u32 OG_MAX_INSTANCES_def unsigned_of_nat take_bit_nat_eq_self)
  have cnt: "unat (ip_count e) = length (L ?j)" using tbl_repD(3) [OF D(1), of ?j] k e by simp
  show ?thesis
  proof (cases "ip_expected_num e < ip_count e")
    case False
    then have "length (L ?j) - unat (ip_expected_num e) = 0" using cnt by (simp add: word_less_nat_alt)
    then show ?thesis using mv False k e ki D(5)
      by (auto simp: drc_set_remaster_taskset_export_inst_def intro!: exI [of _ e])
  next
    case True
    then have n: "?n = length (L ?j) - unat (ip_expected_num e)" using cnt by (simp add: unat_sub word_less_nat_alt word_le_nat_alt)
    have "walk (nexts (dm_target_part_map dm)) (ip_first e) (?n + (length (L ?j) - ?n)) = take ?n (L ?j) @ drop ?n (L ?j)"
      using tbl_repD(4) [OF D(1), of ?j] k n e by simp
    from walk_split [OF this] have w: "walk (nexts (dm_target_part_map dm)) (ip_first e) ?n = take ?n (L ?j)" using n by simp
    let ?e = "e\<lparr>ip_first := walk_end (nexts (dm_target_part_map dm)) (ip_first e) ?n, ip_count := ip_expected_num e\<rparr>"
    obtain dm' where ex: "drc_export_parts (dm_target_part_map dm) ?j ?n (ip_first e) dm =
        Some (walk_end (nexts (dm_target_part_map dm)) (ip_first e) ?n, dm')"
      and add: "tasks_added dm dm' (map (\<lambda>p. (p, ?j)) (take ?n (L ?j)))"
      and mv': "moving (dm'\<lparr>dm_target_inst_part_tbl := (dm_target_inst_part_tbl dm')[k := ?e]\<rparr>) (L(?j := drop ?n (L ?j)))"
      using export_ok [OF mv k, of ?n "dm_target_part_map dm" ?j] n w e D(6) True cnt
      by (auto simp: word_less_nat_alt)
    have "drc_set_remaster_taskset_export_inst (of_nat k) dm = Some (dm'\<lparr>dm_target_inst_part_tbl := (dm_target_inst_part_tbl dm')[k := ?e]\<rparr>)"
      using ex True e ki k D(5) add by (simp add: drc_set_remaster_taskset_export_inst_def tasks_added_def)
    then show ?thesis using mv' add n by (fastforce simp: tasks_added_def dest: in_set_takeD)
  qed
qed

text \<open>
  The instances in use from \<open>k\<close> on know their shares and have given away what is above them.
\<close>

definition trimmed :: "u32 \<Rightarrow> nat \<Rightarrow> drc_inst_part list \<Rightarrow> (u8 \<Rightarrow> u16 list) \<Rightarrow> drc_inst_part list \<Rightarrow> (u8 \<Rightarrow> u16 list) \<Rightarrow> bool" where
  "trimmed N k tbl L tbl' L' \<longleftrightarrow> length tbl' = length tbl \<and>
     (\<forall>j<OG_MAX_INSTANCES. ip_is_used (tbl' ! j) = ip_is_used (tbl ! j) \<and>
       (if k \<le> j \<and> ip_is_used (tbl ! j)
        then ip_expected_num (tbl' ! j) = part_share N (of_nat (used_rank tbl j)) \<and>
          L' (of_nat j) = drop (length (L (of_nat j)) - unat (part_share N (of_nat (used_rank tbl j)))) (L (of_nat j))
        else ip_expected_num (tbl' ! j) = ip_expected_num (tbl ! j) \<and> L' (of_nat j) = L (of_nat j)))"

lemma of_nat_inst_eq: "j < OG_MAX_INSTANCES \<Longrightarrow> k < OG_MAX_INSTANCES \<Longrightarrow> (of_nat j :: u8) = of_nat k \<longleftrightarrow> j = k"
  using index_inst(1) by metis

lemma used_rank_upd:
  assumes "ip_is_used e = ip_is_used (tbl ! k)"
  shows "used_rank (tbl[k := e]) j = used_rank tbl j"
  using assms by (cases "k < length tbl") (auto intro!: used_rank_cong simp: nth_list_update split: if_splits)

lemma share_cong:
  assumes "length tbl' = length tbl" "\<And>j. j < length tbl \<Longrightarrow> ip_is_used (tbl' ! j) = ip_is_used (tbl ! j)" "k < length tbl"
  shows "share tbl' k = share tbl k"
  using used_rank_cong [OF assms(1,2)] assms(2,3) by (simp add: share_def)

lemma trimmed_step:
  assumes len: "length tbl = OG_MAX_INSTANCES" and k: "k < OG_MAX_INSTANCES" "ip_is_used (tbl ! k)"
    and e: "ip_is_used e" "ip_expected_num e = part_share N (of_nat (used_rank tbl k))"
    and rest: "trimmed N (Suc k) (tbl[k := e]) (L(of_nat k := drop (length (L (of_nat k)) - unat (ip_expected_num e)) (L (of_nat k)))) tbl' L'"
  shows "trimmed N k tbl L tbl' L'"
proof -
  have rank: "used_rank (tbl[k := e]) j = used_rank tbl j" for j
    using k e(1) by (simp add: used_rank_upd)
  have "length tbl' = length tbl" using rest by (simp add: trimmed_def)
  moreover have "ip_is_used (tbl' ! j) = ip_is_used (tbl ! j) \<and>
       (if k \<le> j \<and> ip_is_used (tbl ! j)
        then ip_expected_num (tbl' ! j) = part_share N (of_nat (used_rank tbl j)) \<and>
          L' (of_nat j) = drop (length (L (of_nat j)) - unat (part_share N (of_nat (used_rank tbl j)))) (L (of_nat j))
        else ip_expected_num (tbl' ! j) = ip_expected_num (tbl ! j) \<and> L' (of_nat j) = L (of_nat j))" if j: "j < OG_MAX_INSTANCES" for j
    using rest j k e len unfolding trimmed_def
    by (cases "j = k") (auto simp: rank nth_list_update of_nat_inst_eq [OF j k(1)] dest!: spec [of _ j] split: if_splits)
  ultimately show ?thesis unfolding trimmed_def by blast
qed

lemma trimmed_skip:
  assumes "\<not> ip_is_used (tbl ! k)" "trimmed N (Suc k) tbl L tbl' L'"
  shows "trimmed N k tbl L tbl' L'"
proof -
  have "k \<le> j \<and> ip_is_used (tbl ! j) \<longleftrightarrow> Suc k \<le> j \<and> ip_is_used (tbl ! j)" for j using assms(1) Suc_le_eq le_neq_implies_less Suc_leD by metis
  then show ?thesis using assms(2) unfolding trimmed_def by presburger
qed

lemma taskset_loop_ok:
  assumes "k \<le> OG_MAX_INSTANCES" "moving dm L" "dm_target_inst_part_tbl dm = tbl"
  shows "\<exists>dm' L'. drc_taskset_loop (\<lambda>seq _. part_share N seq) (of_nat (used_rank tbl k)) (map of_nat [k..<OG_MAX_INSTANCES]) dm = Some dm' \<and>
    moving dm' L' \<and> dm_target_part_map dm' = dm_target_part_map dm \<and> trimmed N k tbl L (dm_target_inst_part_tbl dm') L' \<and>
    set (tasks dm') \<subseteq> set (tasks dm) \<union> {(p, i). p \<in> set (L i)}"
  using assms
proof (induction k arbitrary: dm L tbl rule: inc_induct)
  case base
  then show ?case by (auto simp: trimmed_def intro!: exI [of _ L])
next
  case (step k)
  have len: "length tbl = OG_MAX_INSTANCES" using movingD(5) [OF step.prems(1)] step.prems(2) by simp
  have ki: "unat (of_nat k :: u32) = k" using step.hyps(2) by (simp add: unat_of_nat_u32 OG_MAX_INSTANCES_def)
  have ks: "[k..<OG_MAX_INSTANCES] = k # [Suc k..<OG_MAX_INSTANCES]" using step.hyps(2) by (rule upt_conv_Cons)
  have rd: "rd tbl (of_nat k :: u32) = Some (tbl ! k)" and wr: "wr tbl (of_nat k :: u32) e = Some (tbl[k := e])" for e
    using step.hyps(2) len ki by simp_all
  show ?case
  proof (cases "ip_is_used (tbl ! k)")
    case False
    then have "used_rank tbl (Suc k) = used_rank tbl k" using step.hyps(2) len by (simp add: used_rank_Suc)
    with step.IH [OF step.prems] show ?thesis using False rd step.prems(2) trimmed_skip [OF False] by (fastforce simp: ks)
  next
    case True
    let ?sh = "part_share N (of_nat (used_rank tbl k))"
    let ?e = "(tbl ! k)\<lparr>ip_expected_num := ?sh\<rparr>"
    let ?dm = "dm\<lparr>dm_target_inst_part_tbl := tbl[k := ?e]\<rparr>"
    let ?L = "L(of_nat k := drop (length (L (of_nat k)) - unat ?sh) (L (of_nat k)))"
    have mv: "moving ?dm L" using moving_entry [OF step.prems(1) step.hyps(2), of ?e] step.prems(2) by simp
    obtain dm1 e1 where ex: "drc_set_remaster_taskset_export_inst (of_nat k) ?dm = Some dm1" "moving dm1 ?L"
      "dm_target_part_map dm1 = dm_target_part_map dm" "dm_target_inst_part_tbl dm1 = tbl[k := e1]"
      "ip_is_used e1" "ip_expected_num e1 = ?sh" "set (tasks dm1) \<subseteq> set (tasks dm) \<union> {(p, i). p \<in> set (L i)}"
      using export_inst_ok [OF mv step.hyps(2), of ?e] step.hyps(2) len True by auto
    have rank: "(of_nat (used_rank (tbl[k := e1]) (Suc k)) :: u32) = of_nat (used_rank tbl k) + 1"
      using ex(5) True step.hyps(2) len by (simp add: used_rank_upd used_rank_Suc)
    from step.IH [OF ex(2) ex(4)] obtain dm' L' where
      IH: "drc_taskset_loop (\<lambda>seq _. part_share N seq) (of_nat (used_rank tbl k) + 1) (map of_nat [Suc k..<OG_MAX_INSTANCES]) dm1 = Some dm'"
      "moving dm' L'" "dm_target_part_map dm' = dm_target_part_map dm1" "trimmed N (Suc k) (tbl[k := e1]) ?L (dm_target_inst_part_tbl dm') L'"
      "set (tasks dm') \<subseteq> set (tasks dm1) \<union> {(p, i). p \<in> set (?L i)}"
      unfolding rank by blast
    have "trimmed N k tbl L (dm_target_inst_part_tbl dm') L'"
      by (rule trimmed_step [OF len step.hyps(2) True ex(5) ex(6)]) (use IH(4) ex(6) in simp)
    moreover have "set (tasks dm') \<subseteq> set (tasks dm) \<union> {(p, i). p \<in> set (L i)}"
      using IH(5) ex(7) by (fastforce split: if_splits dest: in_set_dropD)
    moreover have "drc_taskset_loop (\<lambda>seq _. part_share N seq) (of_nat (used_rank tbl k)) (map of_nat [k..<OG_MAX_INSTANCES]) dm = Some dm'"
      using rd wr True ex(1) IH(1) step.prems(2) by (simp add: ks)
    ultimately show ?thesis using IH(2,3) ex(3) by auto
  qed
qed

subsection \<open>Imports\<close>

text \<open>The tasks before \<open>i\<close> have been given to their new instances.\<close>

definition importing :: "drc_remaster_mngr \<Rightarrow> (u8 \<Rightarrow> u16 list) \<Rightarrow> nat \<Rightarrow> bool" where
  "importing dm L i \<longleftrightarrow> parts_rep (dm_target_part_map dm) (dm_target_inst_part_tbl dm) L (map fst (drop i (tasks dm))) \<and>
     length (dm_remaster_task_set dm) = DRC_MAX_PART_NUM \<and> unat (dm_task_num dm) \<le> DRC_MAX_PART_NUM"

lemma moving_importing: "moving dm L \<longleftrightarrow> importing dm L 0"
  by (simp add: moving_def importing_def)

lemma importingD:
  assumes "importing dm L i"
  shows "tbl_rep (dm_target_part_map dm) (dm_target_inst_part_tbl dm) L"
    "parts_rep (dm_target_part_map dm) (dm_target_inst_part_tbl dm) L (map fst (drop i (tasks dm)))"
    "length (dm_remaster_task_set dm) = DRC_MAX_PART_NUM" "length (tasks dm) = unat (dm_task_num dm)"
    "length (dm_target_inst_part_tbl dm) = OG_MAX_INSTANCES" "length (dm_target_part_map dm) = DRC_MAX_PART_NUM"
    "unat (dm_task_num dm) \<le> DRC_MAX_PART_NUM"
  using assms tbl_repD(1,2) [of "dm_target_part_map dm" "dm_target_inst_part_tbl dm" L] unfolding importing_def parts_rep_def
  by (simp_all add: length_tasks)

lemma parts_rep_give:
  assumes rep: "parts_rep part_map tbl L (p # pend)" and new: "tbl_rep part_map' tbl' (L(j := p # L j))"
  shows "parts_rep part_map' tbl' (L(j := p # L j)) pend"
proof -
  have "\<exists>i. q \<in> set ((L(j := p # L j)) i)" if "q \<in> set (L i) \<or> q = p" for q i
    using that by (metis fun_upd_other fun_upd_same list.set_intros)
  moreover have "distinct pend" "\<And>q. q \<in> set pend \<Longrightarrow> unat q < DRC_MAX_PART_NUM" "\<And>q i. q \<in> set pend \<Longrightarrow> q \<notin> set ((L(j := p # L j)) i)"
    using rep by (auto simp: parts_rep_def)
  ultimately show ?thesis using rep new unfolding parts_rep_def by (metis list.set_cases set_ConsD)
qed

lemma tasks_same:
  assumes "i < length (dm_remaster_task_set dm)" "tk_part_id t = tk_part_id (dm_remaster_task_set dm ! i)"
    "tk_export_inst t = tk_export_inst (dm_remaster_task_set dm ! i)"
  shows "tasks (dm\<lparr>dm_remaster_task_set := (dm_remaster_task_set dm)[i := t]\<rparr>) = tasks dm"
  by (rule nth_equalityI) (use assms in \<open>auto simp: tasks_def nth_list_update\<close>)

lemma import_ok:
  assumes im: "importing dm L i" and i: "i < unat (dm_task_num dm)" and j: "inst_ok j"
  shows "\<exists>dm' e. drc_import_part st (of_nat i) j dm = Some dm' \<and> importing dm' (L(j := fst (tasks dm ! i) # L j)) (Suc i) \<and>
    tasks dm' = tasks dm \<and> dm_task_num dm' = dm_task_num dm \<and> dm_target_inst_part_tbl dm' = (dm_target_inst_part_tbl dm)[unat j := e] \<and>
    ip_is_used e = ip_is_used (dm_target_inst_part_tbl dm ! unat j) \<and>
    ip_expected_num e = ip_expected_num (dm_target_inst_part_tbl dm ! unat j)"
proof -
  note D = importingD [OF im]
  let ?t = "dm_remaster_task_set dm ! i" and ?e = "dm_target_inst_part_tbl dm ! unat j"
  let ?p = "tk_part_id ?t"
  have il: "i < DRC_MAX_PART_NUM" using i D(7) by simp
  then have iw: "unat (of_nat i :: u32) = i" by (simp add: unat_of_nat_u32 DRC_MAX_PART_NUM_def)
  have ti: "tasks dm ! i = (?p, tk_export_inst ?t)" using i D(3) il by (simp add: tasks_def)
  have cons: "map fst (drop i (tasks dm)) = ?p # map fst (drop (Suc i) (tasks dm))"
    using i D(4) ti by (simp flip: Cons_nth_drop_Suc)
  have p: "unat ?p < DRC_MAX_PART_NUM" "\<And>k. ?p \<notin> set (L k)" using D(2) unfolding cons by (auto simp: parts_rep_def)
  let ?part = "(dm_target_part_map dm ! unat ?p)\<lparr>pt_inst_id := j, pt_status := st, pt_next := ip_first ?e\<rparr>"
  let ?e' = "?e\<lparr>ip_first := ?p, ip_last := (if ip_count ?e = 0 then ?p else ip_last ?e), ip_count := ip_count ?e + 1\<rparr>"
  let ?ts = "(dm_remaster_task_set dm)[i := ?t\<lparr>tk_import_inst := j, tk_status := st\<rparr>]"
  let ?dm = "dm\<lparr>dm_remaster_task_set := ?ts, dm_target_part_map := (dm_target_part_map dm)[unat ?p := ?part],
    dm_target_inst_part_tbl := (dm_target_inst_part_tbl dm)[unat j := ?e']\<rparr>"
  have run: "drc_import_part st (of_nat i) j dm = Some ?dm"
    using iw il D(3,5,6) p(1) j by (simp add: drc_import_part_def inst_ok_lt)
  have "tbl_rep ((dm_target_part_map dm)[unat ?p := ?part]) ((dm_target_inst_part_tbl dm)[unat j := ?e']) (L(j := ?p # L j))"
    by (rule tbl_rep_push [OF D(1) j p]) simp_all
  from parts_rep_give [OF _ this] D(2)
  have "parts_rep ((dm_target_part_map dm)[unat ?p := ?part]) ((dm_target_inst_part_tbl dm)[unat j := ?e']) (L(j := ?p # L j))
    (map fst (drop (Suc i) (tasks dm)))" unfolding cons by blast
  moreover have tk: "tasks ?dm = tasks dm" using tasks_same [of i dm "?t\<lparr>tk_import_inst := j, tk_status := st\<rparr>"] il D(3) by (simp add: tasks_def)
  ultimately have "importing ?dm (L(j := ?p # L j)) (Suc i)" using D(3,7) by (simp add: importing_def)
  then show ?thesis using run tk ti by (intro exI [of _ ?dm] exI [of _ ?e']) simp
qed

end
