(* ===== verification/Part_Balance.thy ===== *)
theory Part_Balance
  imports Part_Moves
begin

text \<open>
  Joins and departures of instances keep the partitions spread: from a balanced table the change of the table ends
  without an access outside its arrays, and its target is balanced again.
\<close>

text \<open>
  The imports fill the instances of a list one after the other: those before position \<open>l\<close> have their share, those
  after it have nothing yet, and all others have their share.
\<close>

definition filling :: "u8 list \<Rightarrow> drc_inst_part list \<Rightarrow> (u8 \<Rightarrow> u16 list) \<Rightarrow> nat \<Rightarrow> bool" where
  "filling ids tbl L l \<longleftrightarrow> within_shares tbl L \<and>
     (\<forall>k<OG_MAX_INSTANCES. ip_is_used (tbl ! k) \<longrightarrow> unat (ip_expected_num (tbl ! k)) = share tbl k) \<and>
     (\<forall>k<OG_MAX_INSTANCES. of_nat k \<notin> set (drop l ids) \<longrightarrow> length (L (of_nat k)) = share tbl k) \<and>
     (\<forall>a. l < a \<and> a < length ids \<longrightarrow> L (ids ! a) = [])"

lemma fillingD:
  assumes "filling ids tbl L l"
  shows "within_shares tbl L" "inst_ok i \<Longrightarrow> length (L i) \<le> share tbl (unat i)"
    "inst_ok i \<Longrightarrow> ip_is_used (tbl ! unat i) \<Longrightarrow> unat (ip_expected_num (tbl ! unat i)) = share tbl (unat i)"
    "inst_ok i \<Longrightarrow> i \<notin> set (drop l ids) \<Longrightarrow> length (L i) = share tbl (unat i)"
    "l < a \<Longrightarrow> a < length ids \<Longrightarrow> L (ids ! a) = []"
proof -
  have u: "of_nat (unat i) = i" by simp
  show w: "within_shares tbl L" using assms by (simp add: filling_def)
  show "inst_ok i \<Longrightarrow> length (L i) \<le> share tbl (unat i)"
    using w u unfolding within_shares_def inst_ok_lt by metis
  show "inst_ok i \<Longrightarrow> ip_is_used (tbl ! unat i) \<Longrightarrow> unat (ip_expected_num (tbl ! unat i)) = share tbl (unat i)"
    using assms unfolding filling_def inst_ok_lt by blast
  show "inst_ok i \<Longrightarrow> i \<notin> set (drop l ids) \<Longrightarrow> length (L i) = share tbl (unat i)"
    using assms u unfolding filling_def inst_ok_lt by metis
  show "l < a \<Longrightarrow> a < length ids \<Longrightarrow> L (ids ! a) = []" using assms by (simp add: filling_def)
qed

text \<open>The list position of the instance that gets the next partition.\<close>

lemma filling_next:
  assumes f: "filling ids tbl L l" and l: "l < length ids" "distinct ids"
    and full: "length (L (ids ! l)) = share tbl (unat (ids ! l))"
  shows "filling ids tbl L (Suc l)"
proof -
  have "drop l ids = ids ! l # drop (Suc l) ids" using l(1) by (rule Cons_nth_drop_Suc [symmetric])
  then have "i = ids ! l" if "i \<in> set (drop l ids)" "i \<notin> set (drop (Suc l) ids)" for i using that by simp
  then have "length (L (of_nat k)) = share tbl k" if k: "k < OG_MAX_INSTANCES" "of_nat k \<notin> set (drop (Suc l) ids)" for k
    using fillingD(4) [OF f, of "of_nat k"] index_inst [OF k(1)] full k(2) by metis
  then show ?thesis using f unfolding filling_def by simp
qed

lemma filling_give:
  assumes f: "filling ids tbl L l" and l: "l < length ids" "distinct ids" "inst_ok (ids ! l)" "length tbl = OG_MAX_INSTANCES"
    and room: "length (L (ids ! l)) < share tbl (unat (ids ! l))"
    and e: "ip_is_used e = ip_is_used (tbl ! unat (ids ! l))" "ip_expected_num e = ip_expected_num (tbl ! unat (ids ! l))"
  shows "filling ids (tbl[unat (ids ! l) := e]) (L(ids ! l := p # L (ids ! l))) l"
proof -
  let ?j = "ids ! l" and ?tbl = "tbl[unat (ids ! l) := e]" and ?L = "L(ids ! l := p # L (ids ! l))"
  have len: "unat ?j < length tbl" using l(3,4) by (simp add: inst_ok_lt)
  have nth: "ip_is_used (?tbl ! k) = ip_is_used (tbl ! k)" "ip_expected_num (?tbl ! k) = ip_expected_num (tbl ! k)" for k
    using len e by (cases "k = unat ?j"; simp)+
  have sh: "share ?tbl k = share tbl k" if "k < OG_MAX_INSTANCES" for k by (rule share_cong) (use nth l(4) that in simp_all)
  have "within_shares ?tbl ?L"
    using fillingD(1) [OF f] room sh index_inst(1) unfolding within_shares_def by (metis (no_types, lifting) Suc_leI fun_upd_apply length_Cons)
  moreover have "?j \<in> set (drop l ids)" using l(1) by (metis Cons_nth_drop_Suc list.set_intros(1))
  then have "length (?L (of_nat k)) = share ?tbl k" if "k < OG_MAX_INSTANCES" "of_nat k \<notin> set (drop l ids)" for k
    using f that sh unfolding filling_def by auto
  moreover have "?L (ids ! a) = []" if "l < a" "a < length ids" for a
    using fillingD(5) [OF f that] that l(1,2) by (auto simp: nth_eq_iff_index_eq)
  ultimately show ?thesis using f nth sh unfolding filling_def by presburger
qed

lemma filling_full:
  assumes f: "filling ids tbl L l" and l: "length ids \<le> l"
  shows "balanced tbl L"
  using f l by (simp add: filling_def balanced_def)

lemma share_pos:
  assumes "length tbl = OG_MAX_INSTANCES" "k < OG_MAX_INSTANCES" "ip_is_used (tbl ! k)"
  shows "0 < share tbl k" "0 < used_rank tbl OG_MAX_INSTANCES"
proof -
  have "used_rank tbl (Suc k) \<le> used_rank tbl OG_MAX_INSTANCES" using assms(2) by (intro used_rank_mono) simp
  then show n: "0 < used_rank tbl OG_MAX_INSTANCES" using assms by (simp add: used_rank_Suc)
  have "used_rank tbl OG_MAX_INSTANCES \<le> DRC_MAX_PART_NUM"
    using used_rank_le [of tbl OG_MAX_INSTANCES] by (simp add: OG_MAX_INSTANCES_def DRC_MAX_PART_NUM_def)
  then show "0 < share tbl k" using quota_pos [OF n] assms(3) by (simp add: share_def)
qed

text \<open>
  While there is a task, the instance at the position, or else the next one, has room.
\<close>

lemma filling_room:
  assumes im: "importing dm L i" and i: "i < unat (dm_task_num dm)" and l: "l < length ids" "distinct ids"
    and ids: "\<forall>j \<in> set ids. inst_ok j \<and> ip_is_used (dm_target_inst_part_tbl dm ! unat j)"
    and f: "filling ids (dm_target_inst_part_tbl dm) L l"
  defines "l' \<equiv> if ip_expected_num (dm_target_inst_part_tbl dm ! unat (ids ! l)) \<le> ip_count (dm_target_inst_part_tbl dm ! unat (ids ! l)) then Suc l else l"
  shows "l' < length ids" "filling ids (dm_target_inst_part_tbl dm) L l'"
    "length (L (ids ! l')) < share (dm_target_inst_part_tbl dm) (unat (ids ! l'))"
proof -
  let ?tbl = "dm_target_inst_part_tbl dm"
  note D = importingD [OF im]
  have j: "inst_ok (ids ! a) \<and> ip_is_used (?tbl ! unat (ids ! a))" if "a < length ids" for a using ids that by simp
  have pos: "0 < share ?tbl (unat (ids ! a)) \<and> 0 < used_rank ?tbl OG_MAX_INSTANCES" if "a < length ids" for a
    using share_pos [OF D(5), of "unat (ids ! a)"] j [OF that] by (simp add: inst_ok_lt)
  have cnt: "unat (ip_count (?tbl ! unat (ids ! l))) = length (L (ids ! l))" using tbl_repD(3) [OF D(1)] j [OF l(1)] by blast
  have exp: "unat (ip_expected_num (?tbl ! unat (ids ! l))) = share ?tbl (unat (ids ! l))" using fillingD(3) [OF f] j [OF l(1)] by blast
  have le: "length (L (ids ! l)) \<le> share ?tbl (unat (ids ! l))" using fillingD(2) [OF f] j [OF l(1)] by blast
  have "l' < length ids \<and> filling ids ?tbl L l' \<and> length (L (ids ! l')) < share ?tbl (unat (ids ! l'))"
  proof (cases "length (L (ids ! l)) < share ?tbl (unat (ids ! l))")
    case True
    then have "l' = l" using cnt exp by (simp add: l'_def word_le_nat_alt)
    then show ?thesis using True f l(1) by simp
  next
    case False
    then have l': "l' = Suc l" using cnt exp by (simp add: l'_def word_le_nat_alt)
    have f': "filling ids ?tbl L (Suc l)" by (rule filling_next [OF f l]) (use False le in simp)
    have "drop i (tasks dm) \<noteq> []" using i D(4) by simp
    then have "\<not> balanced ?tbl L" using nothing_pending [OF D(2) fillingD(1) [OF f]] pos [OF l(1)] by simp
    then have sl: "Suc l < length ids" using filling_full [OF f'] not_le_imp_less by blast
    then have "L (ids ! Suc l) = []" using fillingD(5) [OF f, of "Suc l"] by simp
    then show ?thesis using l' sl f' pos [OF sl] by simp
  qed
  then show "l' < length ids" "filling ids (dm_target_inst_part_tbl dm) L l'"
    "length (L (ids ! l')) < share (dm_target_inst_part_tbl dm) (unat (ids ! l'))" by blast+
qed

lemma scaleout_imports_ok:
  assumes "i \<le> unat n" "importing dm L i" "dm_task_num dm = n" "l < length ids" "distinct ids" "length ids \<le> OG_MAX_INSTANCES" "ids = take m arr"
    "\<forall>j \<in> set ids. inst_ok j \<and> ip_is_used (dm_target_inst_part_tbl dm ! unat j)" "filling ids (dm_target_inst_part_tbl dm) L l"
  shows "\<exists>dm' L'. drc_scaleout_imports arr (of_nat l) (map of_nat [i..<unat n]) dm = Some dm' \<and> importing dm' L' (unat n) \<and>
    tasks dm' = tasks dm \<and> dm_task_num dm' = n \<and> within_shares (dm_target_inst_part_tbl dm') L' \<and>
    (\<forall>k. ip_is_used (dm_target_inst_part_tbl dm' ! k) = ip_is_used (dm_target_inst_part_tbl dm ! k)) \<and>
    (\<forall>j. j \<notin> set ids \<longrightarrow> L' j = L j)"
  using assms
proof (induction i arbitrary: dm L l rule: inc_induct)
  case base
  then show ?case using fillingD(1) [OF base.prems(8)] by (auto intro!: exI [of _ L])
next
  case (step i)
  let ?tbl = "dm_target_inst_part_tbl dm"
  let ?l = "if ip_expected_num (?tbl ! unat (ids ! l)) \<le> ip_count (?tbl ! unat (ids ! l)) then Suc l else l"
  have i: "i < unat (dm_task_num dm)" using step.hyps(2) step.prems(2) by simp
  note D = importingD [OF step.prems(1)]
  note R = filling_room [OF step.prems(1) i step.prems(3,4,7,8)]
  define j where "j = ids ! ?l"
  have j: "inst_ok j" "j \<in> set ids" using step.prems(7) R(1) by (simp_all add: j_def)
  obtain dm1 e where im: "drc_import_part PART_WAIT_MIGRATE (of_nat i) j dm = Some dm1"
      "importing dm1 (L(j := fst (tasks dm ! i) # L j)) (Suc i)" "tasks dm1 = tasks dm" "dm_task_num dm1 = n"
      "dm_target_inst_part_tbl dm1 = ?tbl[unat j := e]"
      "ip_is_used e = ip_is_used (?tbl ! unat j)" "ip_expected_num e = ip_expected_num (?tbl ! unat j)"
    using import_ok [OF step.prems(1) i j(1), of PART_WAIT_MIGRATE] step.prems(2) by blast
  have used: "ip_is_used (dm_target_inst_part_tbl dm1 ! k) = ip_is_used (?tbl ! k)" for k
    using im(5,6) j(1) D(5) by (cases "k = unat j") (simp_all add: inst_ok_lt)
  have f: "filling ids (dm_target_inst_part_tbl dm1) (L(j := fst (tasks dm ! i) # L j)) ?l"
    unfolding im(5) j_def by (rule filling_give [OF R(2,1) step.prems(4) j(1) [unfolded j_def] D(5) R(3)])
      (use im(6,7) in \<open>simp_all add: j_def\<close>)
  from step.IH [OF im(2,4) R(1) step.prems(4-6) _ f] used step.prems(7) obtain dm' L' where
    IH: "drc_scaleout_imports arr (of_nat ?l) (map of_nat [Suc i..<unat n]) dm1 = Some dm'" "importing dm' L' (unat n)"
      "tasks dm' = tasks dm1" "dm_task_num dm' = n" "within_shares (dm_target_inst_part_tbl dm') L'"
      "\<forall>k. ip_is_used (dm_target_inst_part_tbl dm' ! k) = ip_is_used (dm_target_inst_part_tbl dm1 ! k)"
      "\<forall>a. a \<notin> set ids \<longrightarrow> L' a = (L(j := fst (tasks dm ! i) # L j)) a" by auto
  have w: "unat (of_nat l :: u32) = l" "unat (of_nat ?l :: u32) = ?l"
    using step.prems(3,5) R(1) by (simp_all add: unat_of_nat_u32 OG_MAX_INSTANCES_def)
  have "unat (ids ! l) < length ?tbl" using step.prems(3,7) D(5) by (simp add: inst_ok_lt)
  moreover have "(if ip_expected_num (?tbl ! unat (ids ! l)) \<le> ip_count (?tbl ! unat (ids ! l)) then of_nat l + 1 else of_nat l :: u32) = of_nat ?l"
    by simp
  moreover have "l < length arr" "?l < length arr" "arr ! l = ids ! l" "arr ! ?l = ids ! ?l" using step.prems(3,6) R(1) by (auto simp del: of_nat_Suc)
  ultimately have "drc_scaleout_imports arr (of_nat l) (map of_nat [i..<unat n]) dm = Some dm'"
    using w step.prems(3) R(1) im(1) IH(1) step.hyps(2) by (simp add: upt_conv_Cons Let_def j_def del: of_nat_Suc)
  then show ?case using IH(2-) im(3) used j(2) by (intro exI [of _ dm'] exI [of _ L']) auto
qed

subsection \<open>Balanced tables\<close>

text \<open>
  Every partition has a master in use, the lists hold the shares, and the number of instances is that of the entries in use.
\<close>

definition spread :: "drc_part_mngr \<Rightarrow> (u8 \<Rightarrow> u16 list) \<Rightarrow> bool" where
  "spread pm L \<longleftrightarrow> parts_rep (pm_part_map pm) (pm_inst_part_tbl pm) L [] \<and> balanced (pm_inst_part_tbl pm) L \<and>
     unat (pm_inst_num pm) = used_rank (pm_inst_part_tbl pm) OG_MAX_INSTANCES \<and> pm_inst_num pm \<noteq> 0 \<and>
     length (dm_remaster_task_set (pm_remaster_mngr pm)) = DRC_MAX_PART_NUM"

lemma spreadD:
  assumes "spread pm L"
  shows "tbl_rep (pm_part_map pm) (pm_inst_part_tbl pm) L" "length (pm_inst_part_tbl pm) = OG_MAX_INSTANCES"
    "inst_ok i \<Longrightarrow> length (L i) = share (pm_inst_part_tbl pm) (unat i)"
    "0 < used_rank (pm_inst_part_tbl pm) OG_MAX_INSTANCES" "used_rank (pm_inst_part_tbl pm) OG_MAX_INSTANCES \<le> OG_MAX_INSTANCES"
    "moving (pm_remaster_mngr (drc_int_remaster_target v pm)) L"
proof -
  show t: "tbl_rep (pm_part_map pm) (pm_inst_part_tbl pm) L" using assms by (simp add: spread_def parts_rep_def)
  then show "length (pm_inst_part_tbl pm) = OG_MAX_INSTANCES" by (rule tbl_repD(2))
  have u: "of_nat (unat i) = i" by simp
  show "inst_ok i \<Longrightarrow> length (L i) = share (pm_inst_part_tbl pm) (unat i)"
    using assms u unfolding spread_def balanced_def inst_ok_lt by metis
  show "0 < used_rank (pm_inst_part_tbl pm) OG_MAX_INSTANCES" using assms unfolding spread_def by (metis gr0I unat_eq_0)
  show "used_rank (pm_inst_part_tbl pm) OG_MAX_INSTANCES \<le> OG_MAX_INSTANCES" by (rule used_rank_le)
  show "moving (pm_remaster_mngr (drc_int_remaster_target v pm)) L"
    using assms by (simp add: spread_def moving_def drc_int_remaster_target_def tasks_def)
qed

text \<open>Such a table is complete.\<close>

lemma spread_table:
  assumes "spread pm L"
  shows "table_ok (pm_part_map pm) (pm_inst_part_tbl pm) L"
  unfolding table_ok_def
proof (intro conjI allI impI)
  show t: "tbl_rep (pm_part_map pm) (pm_inst_part_tbl pm) L" using spreadD(1) [OF assms] .
  fix i assume i: "inst_ok i" "\<not> ip_is_used (pm_inst_part_tbl pm ! unat i)"
  then show "L i = []" using spreadD(3) [OF assms i(1)] by (simp add: share_def)
next
  fix p :: u16 assume "unat p < DRC_MAX_PART_NUM"
  then obtain i where p: "p \<in> set (L i)" using assms by (auto simp: spread_def parts_rep_def)
  then have i: "inst_ok i" using tbl_repD(7) [OF spreadD(1) [OF assms]] by blast
  then have "ip_is_used (pm_inst_part_tbl pm ! unat i)" using spreadD(3) [OF assms i] p by (auto simp: share_def split: if_splits)
  then show "\<exists>i. inst_ok i \<and> ip_is_used (pm_inst_part_tbl pm ! unat i) \<and> p \<in> set (L i)" using p i by blast
qed

subsection \<open>Marks\<close>

lemma inst_part_check_ok:
  "\<forall>i \<in> set ids. inst_ok i \<and> ip_is_used (tbl ! unat i) = used \<Longrightarrow> length tbl = OG_MAX_INSTANCES \<Longrightarrow> inst_part_check used tbl ids = Some ()"
  by (induction ids) (auto simp: inst_ok_lt knl_panic_def)

lemma inst_part_mark_ok:
  assumes "\<forall>i \<in> set ids. inst_ok i" "distinct ids" "length tbl = OG_MAX_INSTANCES"
  shows "\<exists>tbl'. inst_part_mark f tbl ids = Some tbl' \<and> length tbl' = length tbl \<and>
    (\<forall>k<OG_MAX_INSTANCES. tbl' ! k = (if of_nat k \<in> set ids then f (tbl ! k) else tbl ! k))"
  using assms
proof (induction ids arbitrary: tbl)
  case (Cons i ids)
  then have i: "unat i < OG_MAX_INSTANCES" by (simp add: inst_ok_lt)
  obtain tbl' where t: "inst_part_mark f (tbl[unat i := f (tbl ! unat i)]) ids = Some tbl'" "length tbl' = length tbl"
    "\<forall>k<OG_MAX_INSTANCES. tbl' ! k = (if of_nat k \<in> set ids then f (tbl[unat i := f (tbl ! unat i)] ! k) else tbl[unat i := f (tbl ! unat i)] ! k)"
    using Cons.IH [of "tbl[unat i := f (tbl ! unat i)]"] Cons.prems by auto
  have "tbl' ! k = (if of_nat k \<in> set (i # ids) then f (tbl ! k) else tbl ! k)" if k: "k < OG_MAX_INSTANCES" for k
  proof -
    have "k = unat i \<longleftrightarrow> of_nat k = i" using index_inst(1) [OF k] by auto
    then show ?thesis using t(3) [rule_format, OF k] k Cons.prems i by (auto simp: nth_list_update)
  qed
  then show ?case using t(1,2) i Cons.prems(3) by auto
qed simp

text \<open>Marking as many more instances raises their number.\<close>

lemma rank_card: "length tbl = OG_MAX_INSTANCES \<Longrightarrow> used_rank tbl OG_MAX_INSTANCES = card {k. k < OG_MAX_INSTANCES \<and> ip_is_used (tbl ! k)}"
  by (simp add: used_rank_def length_filter_conv_card)

lemma ids_card:
  assumes "\<forall>i \<in> set ids. inst_ok i" "distinct ids"
  shows "card {k. k < OG_MAX_INSTANCES \<and> (of_nat k :: u8) \<in> set ids} = length ids"
proof -
  have "{k. k < OG_MAX_INSTANCES \<and> (of_nat k :: u8) \<in> set ids} = unat ` set ids"
  proof (intro equalityI subsetI)
    fix k assume "k \<in> {k. k < OG_MAX_INSTANCES \<and> (of_nat k :: u8) \<in> set ids}"
    then show "k \<in> unat ` set ids" using index_inst(1) by (metis (mono_tags, lifting) image_eqI mem_Collect_eq)
  qed (use assms(1) in \<open>auto simp: inst_ok_lt\<close>)
  then show ?thesis using assms(2) by (simp add: card_image distinct_card inj_on_def unat_eq_iff)
qed

lemma mark_rank:
  assumes ids: "\<forall>i \<in> set ids. inst_ok i \<and> ip_is_used (tbl ! unat i) = (\<not> b)" "distinct ids"
    and len: "length tbl = OG_MAX_INSTANCES" "length tbl' = OG_MAX_INSTANCES"
    and mark: "\<And>k. k < OG_MAX_INSTANCES \<Longrightarrow> ip_is_used (tbl' ! k) = (if of_nat k \<in> set ids then b else ip_is_used (tbl ! k))"
  shows "(if b then used_rank tbl' OG_MAX_INSTANCES = used_rank tbl OG_MAX_INSTANCES + length ids
     else used_rank tbl OG_MAX_INSTANCES = used_rank tbl' OG_MAX_INSTANCES + length ids)"
proof -
  let ?U = "{k. k < OG_MAX_INSTANCES \<and> ip_is_used (tbl ! k)}" and ?U' = "{k. k < OG_MAX_INSTANCES \<and> ip_is_used (tbl' ! k)}"
    and ?I = "{k. k < OG_MAX_INSTANCES \<and> (of_nat k :: u8) \<in> set ids}"
  have old: "ip_is_used (tbl ! k) = (\<not> b)" if "k < OG_MAX_INSTANCES" "(of_nat k :: u8) \<in> set ids" for k
    using ids(1) that index_inst(1) by metis
  have I: "card ?I = length ids" using ids by (intro ids_card) auto
  have fin: "finite ?U" "finite ?U'" "finite ?I" by auto
  show ?thesis
  proof (cases b)
    case True
    have "?U' = ?U \<union> ?I" "?U \<inter> ?I = {}" using mark old True by auto
    then show ?thesis using True I fin by (simp add: rank_card [OF len(1)] rank_card [OF len(2)] card_Un_disjoint)
  next
    case False
    have "?U = ?U' \<union> ?I" "?U' \<inter> ?I = {}" using mark old False by (auto split: if_splits)
    then show ?thesis using False I fin by (simp add: rank_card [OF len(1)] rank_card [OF len(2)] card_Un_disjoint)
  qed
qed

subsection \<open>Instances join\<close>

lemma join_share_le:
  assumes len: "length tbl = OG_MAX_INSTANCES" "length tbl' = OG_MAX_INSTANCES" and k: "k < OG_MAX_INSTANCES" and n: "0 < used_rank tbl OG_MAX_INSTANCES"
    and used: "ip_is_used (tbl' ! k) = ip_is_used (tbl ! k)" "\<And>j. j < OG_MAX_INSTANCES \<Longrightarrow> ip_is_used (tbl ! j) \<Longrightarrow> ip_is_used (tbl' ! j)"
  shows "share tbl' k \<le> share tbl k"
proof -
  have "used_rank tbl OG_MAX_INSTANCES \<le> used_rank tbl' OG_MAX_INSTANCES" "used_rank tbl k \<le> used_rank tbl' k"
    by (rule used_rank_subset; use len used k in simp)+
  from quota_mono [OF n this] show ?thesis using used(1) by (simp add: share_def)
qed

text \<open>After the first loop the new instances are empty and the others have their new shares.\<close>

lemma join_filling:
  assumes s: "spread pm L" and len: "length tbl1 = OG_MAX_INSTANCES" and n: "used_rank tbl1 OG_MAX_INSTANCES \<le> OG_MAX_INSTANCES"
    and ids: "\<forall>i \<in> set ids. inst_ok i \<and> \<not> ip_is_used (pm_inst_part_tbl pm ! unat i)"
    and mark: "\<And>k. k < OG_MAX_INSTANCES \<Longrightarrow> ip_is_used (tbl1 ! k) = (of_nat k \<in> set ids \<or> ip_is_used (pm_inst_part_tbl pm ! k))"
    and trim: "trimmed (of_nat (used_rank tbl1 OG_MAX_INSTANCES)) 0 tbl1 L tbl2 L2"
  shows "filling ids tbl2 L2 0"
    "k < OG_MAX_INSTANCES \<Longrightarrow> of_nat k \<notin> set ids \<Longrightarrow> L2 (of_nat k) = drop (length (L (of_nat k)) - share tbl1 k) (L (of_nat k))"
proof -
  let ?tbl = "pm_inst_part_tbl pm"
  note D = spreadD [OF s]
  have n0: "0 < used_rank tbl1 OG_MAX_INSTANCES"
    using used_rank_subset [of tbl1 ?tbl OG_MAX_INSTANCES] D(2,4) len mark by fastforce
  have sh: "share tbl2 k = share tbl1 k" if "k < OG_MAX_INSTANCES" for k
    by (rule share_cong) (use trim len that in \<open>simp_all add: trimmed_def\<close>)
  have ps: "unat (part_share (of_nat (used_rank tbl1 OG_MAX_INSTANCES)) (of_nat (used_rank tbl1 k))) = share tbl1 k"
    if "k < OG_MAX_INSTANCES" "ip_is_used (tbl1 ! k)" for k
    using part_share_quota [OF n0 n, of "used_rank tbl1 k"] used_rank_le [of tbl1 k] that by (simp add: share_def)
  have L2: "L2 (of_nat k) = drop (length (L (of_nat k)) - share tbl1 k) (L (of_nat k))" if k: "k < OG_MAX_INSTANCES" for k
    using trim k ps [OF k] D(3) [of "of_nat k"] mark [OF k] by (cases "ip_is_used (tbl1 ! k)") (auto simp: trimmed_def share_def)
  then show "k < OG_MAX_INSTANCES \<Longrightarrow> L2 (of_nat k) = drop (length (L (of_nat k)) - share tbl1 k) (L (of_nat k))" .
  have new: "L2 i = []" if i: "i \<in> set ids" for i
    using L2 [of "unat i"] D(3) [of i] ids i by (simp add: share_def inst_ok_lt)
  have old: "length (L2 (of_nat k)) = share tbl2 k" if k: "k < OG_MAX_INSTANCES" "of_nat k \<notin> set ids" for k
    using join_share_le [OF D(2) len k(1) D(4)] mark k L2 [OF k(1)] sh [OF k(1)] D(3) [of "of_nat k"] by simp
  have "length (L2 (of_nat k)) \<le> share tbl2 k" if "k < OG_MAX_INSTANCES" for k
    using old [OF that] new [of "of_nat k"] by (cases "(of_nat k :: u8) \<in> set ids") simp_all
  moreover have "unat (ip_expected_num (tbl2 ! k)) = share tbl2 k" if "k < OG_MAX_INSTANCES" "ip_is_used (tbl2 ! k)" for k
    using trim that ps [of k] sh [of k] by (simp add: trimmed_def)
  ultimately show "filling ids tbl2 L2 0" using old new by (simp add: filling_def within_shares_def)
qed

text \<open>The tables as they are published.\<close>

definition published :: "drc_part_mngr \<Rightarrow> drc_part_mngr" where
  "published pm = drc_update_target_part (dm_target_part_map (pm_remaster_mngr pm)) (dm_target_inst_part_tbl (pm_remaster_mngr pm)) pm"

text \<open>The tables with the new instances, which are empty.\<close>

lemma join_marked:
  fixes v
  assumes s: "spread pm L" and ids: "distinct ids" "\<forall>i \<in> set ids. inst_ok i \<and> \<not> ip_is_used (pm_inst_part_tbl pm ! unat i)"
  defines "dm \<equiv> pm_remaster_mngr (drc_int_remaster_target v pm)"
  shows "\<exists>tbl1. inst_part_mark (\<lambda>e. e\<lparr>ip_is_used := True, ip_count := 0\<rparr>) (pm_inst_part_tbl pm) ids = Some tbl1 \<and>
    moving (dm\<lparr>dm_target_inst_part_tbl := tbl1\<rparr>) L \<and> used_rank tbl1 OG_MAX_INSTANCES = used_rank (pm_inst_part_tbl pm) OG_MAX_INSTANCES + length ids \<and>
    (\<forall>k<OG_MAX_INSTANCES. ip_is_used (tbl1 ! k) = (of_nat k \<in> set ids \<or> ip_is_used (pm_inst_part_tbl pm ! k)))"
proof -
  let ?tbl = "pm_inst_part_tbl pm" and ?f = "\<lambda>e. e\<lparr>ip_is_used := True, ip_count := 0\<rparr>"
  note D = spreadD [OF s]
  have ok: "\<forall>i \<in> set ids. inst_ok i" using ids(2) by blast
  obtain tbl1 where t1: "inst_part_mark ?f ?tbl ids = Some tbl1" "length tbl1 = OG_MAX_INSTANCES"
    "\<forall>k<OG_MAX_INSTANCES. tbl1 ! k = (if of_nat k \<in> set ids then ?f (?tbl ! k) else ?tbl ! k)"
    using inst_part_mark_ok [OF ok ids(1) D(2), of ?f] D(2) by auto
  have mark: "ip_is_used (tbl1 ! k) = (of_nat k \<in> set ids \<or> ip_is_used (?tbl ! k))" if "k < OG_MAX_INSTANCES" for k
    using t1(3) that by simp
  have rank: "used_rank tbl1 OG_MAX_INSTANCES = used_rank ?tbl OG_MAX_INSTANCES + length ids"
    using mark_rank [where b = True, OF _ ids(1) D(2) t1(2)] ids(2) mark by simp
  have "ip_count (?tbl ! unat i) = 0" if "i \<in> set ids" for i
    using tbl_repD(3) [OF D(1), of i] D(3) [of i] ids(2) that by (simp add: share_def flip: unat_eq_0)
  then have "tbl_rep (pm_part_map pm) tbl1 L"
    by (intro tbl_rep_entries [OF D(1)]) (use t1(2,3) D(2) in \<open>auto simp: inst_ok_lt\<close>)
  then have "moving (dm\<lparr>dm_target_inst_part_tbl := tbl1\<rparr>) L"
    using s by (simp add: moving_def dm_def drc_int_remaster_target_def spread_def parts_rep_def tasks_def)
  then show ?thesis using t1(1) mark rank by blast
qed

lemma spread_published:
  assumes "parts_rep (dm_target_part_map (pm_remaster_mngr pm)) (dm_target_inst_part_tbl (pm_remaster_mngr pm)) L []"
    "within_shares (dm_target_inst_part_tbl (pm_remaster_mngr pm)) L"
    "unat (pm_inst_num pm) = used_rank (dm_target_inst_part_tbl (pm_remaster_mngr pm)) OG_MAX_INSTANCES" "pm_inst_num pm \<noteq> 0"
    "length (dm_remaster_task_set (pm_remaster_mngr pm)) = DRC_MAX_PART_NUM"
  shows "spread (published pm) L"
proof -
  have "0 < used_rank (dm_target_inst_part_tbl (pm_remaster_mngr pm)) OG_MAX_INSTANCES" using assms(3,4) by (metis gr0I unat_eq_0)
  from nothing_pending [OF assms(1,2) this] show ?thesis
    using assms by (simp add: spread_def published_def drc_update_target_part_def)
qed

lemma inst_num_add:
  fixes x m :: u8
  assumes "unat x + unat m \<le> OG_MAX_INSTANCES"
  shows "(ucast m + ucast x :: u32) = of_nat (unat x + unat m)" "unat (x + m) = unat x + unat m" "ucast (ucast m + ucast x :: u32) = x + m"
proof -
  have "(ucast y :: u32) = of_nat (unat y)" for y :: u8 by simp
  then show a: "(ucast m + ucast x :: u32) = of_nat (unat x + unat m)" by (simp only: of_nat_add add.commute)
  show b: "unat (x + m) = unat x + unat m" using assms by (simp add: unat_word_ariths OG_MAX_INSTANCES_def)
  have "unat (of_nat (unat x + unat m) :: u32) = unat x + unat m" using assms by (intro unat_of_nat_u32) (simp add: OG_MAX_INSTANCES_def)
  then have "unat (ucast (of_nat (unat x + unat m) :: u32) :: u8) = unat x + unat m"
    using assms by (simp add: unsigned_ucast_eq take_bit_nat_eq_self OG_MAX_INSTANCES_def)
  then show "ucast (ucast m + ucast x :: u32) = x + m" using b unfolding a by (metis unat_eq_iff)
qed

text \<open>The instances an array names.\<close>

definition names :: "u8 list \<Rightarrow> u8 \<Rightarrow> u8 list \<Rightarrow> bool" where
  "names arr num ids \<longleftrightarrow> unat num \<le> length arr \<and> ids = take (unat num) arr"

lemma namesD:
  assumes "names arr num ids"
  shows "id_entries arr num = Some ids" "length ids = unat num" "ids = take (unat num) arr" "num = 0 \<longleftrightarrow> ids = []"
  using assms by (auto simp: names_def id_entries_def simp flip: unat_eq_0)

lemma scaleout_ok:
  assumes s: "spread pm L" and arr: "names arr num ids"
    and ids: "ids \<noteq> []" "distinct ids" "\<forall>i \<in> set ids. inst_ok i \<and> \<not> ip_is_used (pm_inst_part_tbl pm ! unat i)"
  shows "\<exists>dm L'. drc_scaleout_remaster False arr num (drc_int_remaster_target v pm) =
      Some (OG_SUCCESS, pm\<lparr>pm_remaster_mngr := dm, pm_inst_num := pm_inst_num pm + num\<rparr>) \<and>
    spread (published (pm\<lparr>pm_remaster_mngr := dm, pm_inst_num := pm_inst_num pm + num\<rparr>)) L' \<and>
    (\<forall>i. inst_ok i \<longrightarrow> ip_is_used (dm_target_inst_part_tbl dm ! unat i) = (i \<in> set ids \<or> ip_is_used (pm_inst_part_tbl pm ! unat i))) \<and>
    (\<forall>i. i \<notin> set ids \<longrightarrow> (\<exists>ps. L i = ps @ L' i)) \<and>
    (\<forall>(p, i) \<in> set (tasks dm). p \<in> set (L i))"
proof -
  let ?tbl = "pm_inst_part_tbl pm" and ?pm = "drc_int_remaster_target v pm"
  let ?dm = "pm_remaster_mngr ?pm"
  note D = spreadD [OF s]
  have pm: "pm_inst_part_tbl ?pm = ?tbl" "dm_target_inst_part_tbl ?dm = ?tbl" "pm_inst_num ?pm = pm_inst_num pm" "tasks ?dm = []"
    by (simp_all add: drc_int_remaster_target_def tasks_def)
  obtain tbl1 where t1: "inst_part_mark (\<lambda>e. e\<lparr>ip_is_used := True, ip_count := 0\<rparr>) ?tbl ids = Some tbl1"
      "moving (?dm\<lparr>dm_target_inst_part_tbl := tbl1\<rparr>) L" "used_rank tbl1 OG_MAX_INSTANCES = used_rank ?tbl OG_MAX_INSTANCES + length ids"
      "\<And>k. k < OG_MAX_INSTANCES \<Longrightarrow> ip_is_used (tbl1 ! k) = (of_nat k \<in> set ids \<or> ip_is_used (?tbl ! k))"
    using join_marked [OF s ids(2,3), of v] by blast
  have n: "used_rank tbl1 OG_MAX_INSTANCES \<le> OG_MAX_INSTANCES" by (rule used_rank_le)
  have r: "used_rank tbl1 OG_MAX_INSTANCES = unat (pm_inst_num pm) + unat num"
    using s t1(3) namesD(2) [OF arr] by (simp add: spread_def)
  let ?N = "ucast num + ucast (pm_inst_num pm) :: u32"
  have N: "?N = of_nat (used_rank tbl1 OG_MAX_INSTANCES)" "unat (pm_inst_num pm + num) = used_rank tbl1 OG_MAX_INSTANCES"
    "ucast ?N = pm_inst_num pm + num"
    using inst_num_add [of "pm_inst_num pm" num] n unfolding r by blast+
  have l1: "length tbl1 = OG_MAX_INSTANCES" using movingD(5) [OF t1(2)] by simp
  obtain dm2 L2 where t2: "drc_set_remaster_taskset ?N (?dm\<lparr>dm_target_inst_part_tbl := tbl1\<rparr>) = Some dm2" "moving dm2 L2"
      "trimmed ?N 0 tbl1 L (dm_target_inst_part_tbl dm2) L2" "\<forall>(p, i) \<in> set (tasks dm2). p \<in> set (L i)"
    using taskset_loop_ok [OF _ t1(2), of 0 tbl1 ?N] pm(4) by (auto simp: drc_set_remaster_taskset_def all_instances_def)
  note F = join_filling [OF s l1 n ids(3) t1(4) t2(3) [unfolded N(1)]]
  have used: "ip_is_used (dm_target_inst_part_tbl dm2 ! k) = ip_is_used (tbl1 ! k)" if "k < OG_MAX_INSTANCES" for k
    using t2(3) that by (simp add: trimmed_def)
  have ids2: "\<forall>j \<in> set ids. inst_ok j \<and> ip_is_used (dm_target_inst_part_tbl dm2 ! unat j)"
    using ids(3) used t1(4) by (simp add: inst_ok_lt)
  obtain dm3 L3 where t3: "drc_scaleout_imports arr 0 (task_range 0 (dm_task_num dm2)) dm2 = Some dm3"
      "importing dm3 L3 (unat (dm_task_num dm2))" "tasks dm3 = tasks dm2" "dm_task_num dm3 = dm_task_num dm2"
      "within_shares (dm_target_inst_part_tbl dm3) L3"
      "\<And>k. ip_is_used (dm_target_inst_part_tbl dm3 ! k) = ip_is_used (dm_target_inst_part_tbl dm2 ! k)" "\<And>j. j \<notin> set ids \<Longrightarrow> L3 j = L2 j"
    using scaleout_imports_ok [OF _ t2(2) [unfolded moving_importing], of "dm_task_num dm2" 0 ids "unat num" arr] ids(1,2) ids2 F(1) t1(3) n namesD(3) [OF arr]
    by (auto simp: task_range_def)
  let ?dm3 = "pm\<lparr>pm_remaster_mngr := dm3, pm_inst_num := pm_inst_num pm + num\<rparr>"
  note D3 = importingD [OF t3(2)]
  have rank3: "used_rank (dm_target_inst_part_tbl dm3) OG_MAX_INSTANCES = used_rank tbl1 OG_MAX_INSTANCES"
    by (rule used_rank_cong) (use D3(5) l1 t3(6) used in simp_all)
  have "spread (published ?dm3) L3"
    by (rule spread_published) (use D3 t3(3-5) rank3 N(2) D(4) t1(3) in \<open>simp_all flip: unat_eq_0\<close>)
  moreover have "drc_scaleout_remaster False arr num ?pm = Some (OG_SUCCESS, ?dm3)"
    using ids(1,3) namesD [OF arr] inst_part_check_ok [of ids ?tbl False] D(2) pm t1(1) t2(1) t3(1) N(3)
    by (simp add: drc_scaleout_remaster_def drc_int_remaster_target_def Let_def)
  moreover have "\<exists>ps. L i = ps @ L3 i" if i: "i \<notin> set ids" for i
  proof (cases "inst_ok i")
    case True
    then have "L3 i = drop (length (L i) - share tbl1 (unat i)) (L i)" using F(2) [of "unat i"] t3(7) [OF i] i by (simp add: inst_ok_lt)
    then show ?thesis by (metis append_take_drop_id)
  next
    case False
    then show ?thesis using D(1) D3(1) by (simp add: tbl_rep_def)
  qed
  moreover have "ip_is_used (dm_target_inst_part_tbl dm3 ! unat i) = (i \<in> set ids \<or> ip_is_used (?tbl ! unat i))" if "inst_ok i" for i
    using t3(6) used t1(4) that by (simp add: inst_ok_lt)
  ultimately show ?thesis using t3(3) t2(4) by (intro exI [of _ dm3] exI [of _ L3]) simp
qed

subsection \<open>Instances leave\<close>

text \<open>
  From \<open>k\<close> on, the instances in use know their shares and the others have given everything away.
\<close>

definition emptied :: "u32 \<Rightarrow> nat \<Rightarrow> drc_inst_part list \<Rightarrow> (u8 \<Rightarrow> u16 list) \<Rightarrow> drc_inst_part list \<Rightarrow> (u8 \<Rightarrow> u16 list) \<Rightarrow> bool" where
  "emptied N k tbl L tbl' L' \<longleftrightarrow> length tbl' = length tbl \<and>
     (\<forall>j<OG_MAX_INSTANCES. ip_is_used (tbl' ! j) = ip_is_used (tbl ! j) \<and>
       ip_expected_num (tbl' ! j) = (if k \<le> j \<and> ip_is_used (tbl ! j) then part_share N (of_nat (used_rank tbl j)) else ip_expected_num (tbl ! j)) \<and>
       L' (of_nat j) = (if k \<le> j \<and> \<not> ip_is_used (tbl ! j) then [] else L (of_nat j)))"

lemma emptied_step:
  assumes len: "length tbl = OG_MAX_INSTANCES" and k: "k < OG_MAX_INSTANCES"
    and e: "ip_is_used e = ip_is_used (tbl ! k)"
      "ip_expected_num e = (if ip_is_used (tbl ! k) then part_share N (of_nat (used_rank tbl k)) else ip_expected_num (tbl ! k))"
    and L: "L1 = L(of_nat k := if ip_is_used (tbl ! k) then L (of_nat k) else [])"
    and rest: "emptied N (Suc k) (tbl[k := e]) L1 tbl' L'"
  shows "emptied N k tbl L tbl' L'"
proof -
  have rank: "used_rank (tbl[k := e]) j = used_rank tbl j" for j using e(1) by (rule used_rank_upd)
  have "length tbl' = length tbl" using rest by (simp add: emptied_def)
  moreover have "ip_is_used (tbl' ! j) = ip_is_used (tbl ! j) \<and>
       ip_expected_num (tbl' ! j) = (if k \<le> j \<and> ip_is_used (tbl ! j) then part_share N (of_nat (used_rank tbl j)) else ip_expected_num (tbl ! j)) \<and>
       L' (of_nat j) = (if k \<le> j \<and> \<not> ip_is_used (tbl ! j) then [] else L (of_nat j))" if j: "j < OG_MAX_INSTANCES" for j
  proof (cases "j = k")
    case True
    then show ?thesis using rest k e len L unfolding emptied_def by (auto simp: rank dest!: spec [of _ k])
  next
    case False
    moreover have "Suc k \<le> j \<longleftrightarrow> k \<le> j" using False by linarith
    ultimately show ?thesis using rest j k len L unfolding emptied_def by (simp add: rank of_nat_inst_eq [OF j k])
  qed
  ultimately show ?thesis unfolding emptied_def by blast
qed

text \<open>One step of the loop.\<close>

definition scalein_stepped :: "drc_part list \<Rightarrow> u32 \<Rightarrow> nat \<Rightarrow> drc_remaster_mngr \<Rightarrow> (u8 \<Rightarrow> u16 list) \<Rightarrow> drc_remaster_mngr \<Rightarrow> drc_inst_part \<Rightarrow> bool" where
  "scalein_stepped links N k dm L dm1 e \<longleftrightarrow> (let tbl = dm_target_inst_part_tbl dm in
     moving dm1 (L(of_nat k := if ip_is_used (tbl ! k) then L (of_nat k) else [])) \<and> dm_target_inst_part_tbl dm1 = tbl[k := e] \<and>
     dm_target_part_map dm1 = links \<and> ip_is_used e = ip_is_used (tbl ! k) \<and>
     ip_expected_num e = (if ip_is_used (tbl ! k) then part_share N (of_nat (used_rank tbl k)) else ip_expected_num (tbl ! k)) \<and>
     set (tasks dm1) \<subseteq> set (tasks dm) \<union> {(p, i). p \<in> set (L i)} \<and>
     drc_scalein_loop links N (of_nat (used_rank tbl k)) (map of_nat [k..<OG_MAX_INSTANCES]) dm =
     drc_scalein_loop links N (of_nat (used_rank tbl (Suc k))) (map of_nat [Suc k..<OG_MAX_INSTANCES]) dm1)"

lemma scalein_step_ok:
  assumes mv: "moving dm L" and links: "dm_target_part_map dm = links" and k: "k < OG_MAX_INSTANCES"
  shows "\<exists>dm1 e. scalein_stepped links N k dm L dm1 e"
proof -
  let ?tbl = "dm_target_inst_part_tbl dm" and ?j = "of_nat k :: u8"
  let ?e = "?tbl ! k"
  note D = movingD [OF mv]
  have ki: "unat (of_nat k :: u32) = k" "ucast (of_nat k :: u32) = ?j"
    using k by (simp_all add: unat_of_nat_u32 OG_MAX_INSTANCES_def unsigned_of_nat take_bit_nat_eq_self)
  have ks: "[k..<OG_MAX_INSTANCES] = k # [Suc k..<OG_MAX_INSTANCES]" using k by (rule upt_conv_Cons)
  have rd: "rd ?tbl (of_nat k :: u32) = Some ?e" and wr: "wr ?tbl (of_nat k :: u32) e = Some (?tbl[k := e])" for e
    using k D(5) ki by simp_all
  have cnt: "unat (ip_count ?e) = length (L ?j)" using tbl_repD(3) [OF D(1), of ?j] k by simp
  have rank: "used_rank ?tbl (Suc k) = used_rank ?tbl k + (if ip_is_used ?e then 1 else 0)" using k D(5) by (simp add: used_rank_Suc)
  consider (used) "ip_is_used ?e" | (none) "\<not> ip_is_used ?e" "L ?j = []" | (some) "\<not> ip_is_used ?e" "L ?j \<noteq> []" by blast
  then show ?thesis
  proof cases
    case used
    let ?e1 = "?e\<lparr>ip_expected_num := part_share N (of_nat (used_rank ?tbl k))\<rparr>"
    have "scalein_stepped links N k dm L (dm\<lparr>dm_target_inst_part_tbl := ?tbl[k := ?e1]\<rparr>) ?e1"
      using used moving_entry [OF mv k, of ?e1] links rd wr rank by (auto simp: scalein_stepped_def ks add.commute)
    then show ?thesis by blast
  next
    case none
    then have "ip_count ?e = 0" "L(?j := []) = L" using cnt by (auto simp flip: unat_eq_0)
    then have "scalein_stepped links N k dm L dm ?e" using none rank mv links rd by (auto simp: scalein_stepped_def ks)
    then show ?thesis by blast
  next
    case some
    then have pos: "ip_count ?e > 0" using cnt by (simp add: word_gt_0 flip: unat_eq_0)
    have "walk (nexts links) (ip_first ?e) (length (L ?j)) = L ?j" using tbl_repD(4) [OF D(1), of ?j] k links by simp
    then obtain dm1 where ex: "drc_export_parts links ?j (length (L ?j)) (ip_first ?e) dm = Some (walk_end (nexts links) (ip_first ?e) (length (L ?j)), dm1)"
      "tasks_added dm dm1 (map (\<lambda>p. (p, ?j)) (L ?j))"
      "moving (dm1\<lparr>dm_target_inst_part_tbl := (dm_target_inst_part_tbl dm1)[k := ?e\<lparr>ip_count := 0\<rparr>]\<rparr>) (L(?j := []))"
      using export_ok [OF mv k, of "length (L ?j)" links ?j] D(6) links by auto
    have "dm_target_inst_part_tbl dm1 = ?tbl" "dm_target_part_map dm1 = links" "set (tasks dm1) = set (tasks dm) \<union> (\<lambda>p. (p, ?j)) ` set (L ?j)"
      using ex(2) links by (simp_all add: tasks_added_def)
    then have "scalein_stepped links N k dm L (dm1\<lparr>dm_target_inst_part_tbl := ?tbl[k := ?e\<lparr>ip_count := 0\<rparr>]\<rparr>) (?e\<lparr>ip_count := 0\<rparr>)"
      using some ex rank pos cnt rd wr ki by (auto simp: scalein_stepped_def ks)
    then show ?thesis by blast
  qed
qed

lemma scalein_loop_ok:
  assumes "k \<le> OG_MAX_INSTANCES" "moving dm L" "dm_target_inst_part_tbl dm = tbl" "dm_target_part_map dm = links"
  shows "\<exists>dm' L'. drc_scalein_loop links N (of_nat (used_rank tbl k)) (map of_nat [k..<OG_MAX_INSTANCES]) dm = Some dm' \<and>
    moving dm' L' \<and> emptied N k tbl L (dm_target_inst_part_tbl dm') L' \<and>
    set (tasks dm') \<subseteq> set (tasks dm) \<union> {(p, i). p \<in> set (L i)}"
  using assms
proof (induction k arbitrary: dm L tbl rule: inc_induct)
  case base
  then show ?case by (auto simp: emptied_def intro!: exI [of _ L])
next
  case (step k)
  let ?e = "tbl ! k" and ?j = "of_nat k :: u8"
  have len: "length tbl = OG_MAX_INSTANCES" using movingD(5) [OF step.prems(1)] step.prems(2) by simp
  obtain dm1 e where s1: "moving dm1 (L(?j := if ip_is_used ?e then L ?j else []))" "dm_target_inst_part_tbl dm1 = tbl[k := e]"
    "dm_target_part_map dm1 = links" "ip_is_used e = ip_is_used ?e"
    "ip_expected_num e = (if ip_is_used ?e then part_share N (of_nat (used_rank tbl k)) else ip_expected_num ?e)"
    "set (tasks dm1) \<subseteq> set (tasks dm) \<union> {(p, i). p \<in> set (L i)}"
    "drc_scalein_loop links N (of_nat (used_rank tbl k)) (map of_nat [k..<OG_MAX_INSTANCES]) dm =
     drc_scalein_loop links N (of_nat (used_rank tbl (Suc k))) (map of_nat [Suc k..<OG_MAX_INSTANCES]) dm1"
    using scalein_step_ok [OF step.prems(1,3) step.hyps(2), of N] unfolding scalein_stepped_def step.prems(2) Let_def by blast
  have "(of_nat (used_rank (tbl[k := e]) (Suc k)) :: u32) = of_nat (used_rank tbl (Suc k))" using used_rank_upd [OF s1(4)] by simp
  with step.IH [OF s1(1-3)] obtain dm' L' where
    IH: "drc_scalein_loop links N (of_nat (used_rank tbl (Suc k))) (map of_nat [Suc k..<OG_MAX_INSTANCES]) dm1 = Some dm'" "moving dm' L'"
      "emptied N (Suc k) (tbl[k := e]) (L(?j := if ip_is_used ?e then L ?j else [])) (dm_target_inst_part_tbl dm') L'"
      "set (tasks dm') \<subseteq> set (tasks dm1) \<union> {(p, i). p \<in> set ((L(?j := if ip_is_used ?e then L ?j else [])) i)}" by metis
  have "emptied N k tbl L (dm_target_inst_part_tbl dm') L'" using emptied_step [OF len step.hyps(2) s1(4,5) refl IH(3)] .
  moreover have "set (tasks dm') \<subseteq> set (tasks dm) \<union> {(p, i). p \<in> set (L i)}"
    using IH(4) s1(6) by (fastforce split: if_splits)
  ultimately show ?case using s1(7) IH(1,2) by auto
qed

text \<open>The instances before \<open>l\<close> have their shares.\<close>

definition filled :: "drc_inst_part list \<Rightarrow> (u8 \<Rightarrow> u16 list) \<Rightarrow> nat \<Rightarrow> bool" where
  "filled tbl L l \<longleftrightarrow> within_shares tbl L \<and>
     (\<forall>k<OG_MAX_INSTANCES. ip_is_used (tbl ! k) \<longrightarrow> unat (ip_expected_num (tbl ! k)) = share tbl k) \<and>
     (\<forall>k<OG_MAX_INSTANCES. k < l \<longrightarrow> length (L (of_nat k)) = share tbl k)"

lemma filled_next:
  assumes "filled tbl L l" "l < OG_MAX_INSTANCES" "length (L (of_nat l)) = share tbl l"
  shows "filled tbl L (Suc l)"
  using assms by (auto simp: filled_def less_Suc_eq)

lemma filled_give:
  assumes f: "filled tbl L l" and l: "l < OG_MAX_INSTANCES" "length tbl = OG_MAX_INSTANCES" "length (L (of_nat l)) < share tbl l"
    and e: "ip_is_used e = ip_is_used (tbl ! l)" "ip_expected_num e = ip_expected_num (tbl ! l)"
  shows "filled (tbl[l := e]) (L(of_nat l := p # L (of_nat l))) l"
proof -
  have nth: "ip_is_used (tbl[l := e] ! k) = ip_is_used (tbl ! k)" "ip_expected_num (tbl[l := e] ! k) = ip_expected_num (tbl ! k)" for k
    using l e by (cases "k = l"; simp)+
  have sh: "share (tbl[l := e]) k = share tbl k" if "k < OG_MAX_INSTANCES" for k by (rule share_cong) (use nth l(2) that in simp_all)
  have "length ((L(of_nat l := p # L (of_nat l))) (of_nat k)) \<le> share (tbl[l := e]) k" if k: "k < OG_MAX_INSTANCES" for k
    using f l k sh [OF k] by (cases "k = l") (simp_all add: filled_def within_shares_def of_nat_inst_eq [OF k l(1)])
  moreover have "length ((L(of_nat l := p # L (of_nat l))) (of_nat k)) = share (tbl[l := e]) k" if k: "k < OG_MAX_INSTANCES" "k < l" for k
    using f k sh [OF k(1)] by (simp add: filled_def of_nat_inst_eq [OF k(1) l(1)])
  ultimately show ?thesis using f nth sh by (simp add: filled_def within_shares_def)
qed

text \<open>While there is a task, the search finds an instance with room.\<close>

lemma find_import_ok:
  assumes im: "importing dm L i" and i: "i < unat (dm_task_num dm)" and f: "filled (dm_target_inst_part_tbl dm) L l"
    and n: "0 < used_rank (dm_target_inst_part_tbl dm) OG_MAX_INSTANCES" and l: "l \<le> OG_MAX_INSTANCES"
  shows "\<exists>l'. drc_find_import (dm_target_inst_part_tbl dm) l = Some l' \<and> l' < OG_MAX_INSTANCES \<and> ip_is_used (dm_target_inst_part_tbl dm ! l') \<and>
    length (L (of_nat l')) < share (dm_target_inst_part_tbl dm) l' \<and> filled (dm_target_inst_part_tbl dm) L l'"
  using l f
proof (induction l rule: inc_induct)
  case base
  have "balanced (dm_target_inst_part_tbl dm) L" using base by (simp add: filled_def balanced_def)
  then show ?case
    using nothing_pending [OF importingD(2) [OF im] _ n] base i importingD(4) [OF im] by (simp add: filled_def)
next
  case (step l)
  let ?tbl = "dm_target_inst_part_tbl dm"
  note D = importingD [OF im]
  have cnt: "unat (ip_count (?tbl ! l)) = length (L (of_nat l))" using tbl_repD(3) [OF D(1), of "of_nat l"] step.hyps(2) by simp
  have le: "length (L (of_nat l)) \<le> share ?tbl l" using step.prems step.hyps(2) by (simp add: filled_def within_shares_def)
  have exp: "ip_is_used (?tbl ! l) \<Longrightarrow> unat (ip_expected_num (?tbl ! l)) = share ?tbl l" using step.prems step.hyps(2) by (simp add: filled_def)
  show ?case
  proof (cases "\<not> ip_is_used (?tbl ! l) \<or> ip_count (?tbl ! l) \<ge> ip_expected_num (?tbl ! l)")
    case True
    then have "length (L (of_nat l)) = share ?tbl l"
      using le cnt exp by (cases "ip_is_used (?tbl ! l)") (auto simp: word_le_nat_alt share_def)
    from step.IH [OF filled_next [OF step.prems step.hyps(2) this]] show ?thesis
      using True step.hyps(2) D(5) by (subst drc_find_import.simps) simp
  next
    case False
    then have "length (L (of_nat l)) < share ?tbl l" using cnt exp by (simp add: word_le_nat_alt)
    then show ?thesis using False step.hyps(2) step.prems D(5) by (subst drc_find_import.simps) auto
  qed
qed

lemma scalein_imports_ok:
  assumes "i \<le> unat n" "importing dm L i" "dm_task_num dm = n" "filled (dm_target_inst_part_tbl dm) L l" "l \<le> OG_MAX_INSTANCES"
    "0 < used_rank (dm_target_inst_part_tbl dm) OG_MAX_INSTANCES"
  shows "\<exists>dm' L'. drc_scalein_imports st l (map of_nat [i..<unat n]) dm = Some dm' \<and> importing dm' L' (unat n) \<and>
    tasks dm' = tasks dm \<and> dm_task_num dm' = n \<and> within_shares (dm_target_inst_part_tbl dm') L' \<and>
    (\<forall>k. ip_is_used (dm_target_inst_part_tbl dm' ! k) = ip_is_used (dm_target_inst_part_tbl dm ! k)) \<and>
    (\<forall>j. \<exists>qs. L' j = qs @ L j)"
  using assms
proof (induction i arbitrary: dm L l rule: inc_induct)
  case base
  then show ?case by (auto simp: filled_def intro!: exI [of _ L])
next
  case (step i)
  let ?tbl = "dm_target_inst_part_tbl dm"
  have i: "i < unat (dm_task_num dm)" using step.hyps(2) step.prems(2) by simp
  note D = importingD [OF step.prems(1)]
  obtain l' where l': "drc_find_import ?tbl l = Some l'" "l' < OG_MAX_INSTANCES" "ip_is_used (?tbl ! l')"
      "length (L (of_nat l')) < share ?tbl l'" "filled ?tbl L l'"
    using find_import_ok [OF step.prems(1) i step.prems(3,5,4)] by blast
  let ?j = "of_nat l' :: u8"
  have j: "inst_ok ?j" "unat ?j = l'" using l'(2) by simp_all
  let ?L = "L(?j := fst (tasks dm ! i) # L ?j)"
  obtain dm1 e where im: "drc_import_part st (of_nat i) ?j dm = Some dm1"
      "importing dm1 ?L (Suc i)" "tasks dm1 = tasks dm" "dm_task_num dm1 = n" "dm_target_inst_part_tbl dm1 = ?tbl[l' := e]"
      "ip_is_used e = ip_is_used (?tbl ! l')" "ip_expected_num e = ip_expected_num (?tbl ! l')"
    using import_ok [OF step.prems(1) i j(1), of st] step.prems(2) j(2) by auto
  have used: "ip_is_used (dm_target_inst_part_tbl dm1 ! k) = ip_is_used (?tbl ! k)" for k
    using im(5,6) l'(2) D(5) by (cases "k = l'") simp_all
  have f: "filled (dm_target_inst_part_tbl dm1) ?L l'" unfolding im(5) by (rule filled_give [OF l'(5,2) D(5) l'(4) im(6,7)])
  have "used_rank (dm_target_inst_part_tbl dm1) OG_MAX_INSTANCES = used_rank ?tbl OG_MAX_INSTANCES"
    unfolding im(5) using im(6) by (rule used_rank_upd)
  then obtain dm' L' where
    IH: "drc_scalein_imports st l' (map of_nat [Suc i..<unat n]) dm1 = Some dm'" "importing dm' L' (unat n)"
      "tasks dm' = tasks dm1" "dm_task_num dm' = n" "within_shares (dm_target_inst_part_tbl dm') L'"
      "\<forall>k. ip_is_used (dm_target_inst_part_tbl dm' ! k) = ip_is_used (dm_target_inst_part_tbl dm1 ! k)"
      "\<And>j. \<exists>qs. L' j = qs @ ?L j"
    using step.IH [OF im(2,4) f] l'(2) step.prems(5) by (metis less_imp_le)
  have "drc_scalein_imports st l (map of_nat [i..<unat n]) dm = Some dm'"
    using l'(1) im(1) IH(1) step.hyps(2) by (simp add: upt_conv_Cons)
  moreover have "\<exists>qs. L' j = qs @ L j" for j
    using IH(7) [of j] by (cases "j = ?j") (auto simp: append_eq_Cons_conv intro: exI [of _ "_ @ [_]"])
  ultimately show ?case using IH(2-6) im(3) used by (intro exI [of _ dm'] exI [of _ L']) simp
qed

lemma leave_marked:
  fixes v
  assumes s: "spread pm L" and ids: "distinct ids" "\<forall>i \<in> set ids. inst_ok i \<and> ip_is_used (pm_inst_part_tbl pm ! unat i)"
  defines "dm \<equiv> pm_remaster_mngr (drc_int_remaster_target v pm)"
  shows "\<exists>tbl1. inst_part_mark (\<lambda>e. e\<lparr>ip_is_used := False, ip_expected_num := 0\<rparr>) (pm_inst_part_tbl pm) ids = Some tbl1 \<and>
    moving (dm\<lparr>dm_target_inst_part_tbl := tbl1\<rparr>) L \<and> used_rank (pm_inst_part_tbl pm) OG_MAX_INSTANCES = used_rank tbl1 OG_MAX_INSTANCES + length ids \<and>
    (\<forall>k<OG_MAX_INSTANCES. ip_is_used (tbl1 ! k) = (of_nat k \<notin> set ids \<and> ip_is_used (pm_inst_part_tbl pm ! k)))"
proof -
  let ?tbl = "pm_inst_part_tbl pm" and ?f = "\<lambda>e. e\<lparr>ip_is_used := False, ip_expected_num := 0\<rparr>"
  note D = spreadD [OF s]
  have ok: "\<forall>i \<in> set ids. inst_ok i" using ids(2) by blast
  obtain tbl1 where t1: "inst_part_mark ?f ?tbl ids = Some tbl1" "length tbl1 = OG_MAX_INSTANCES"
    "\<forall>k<OG_MAX_INSTANCES. tbl1 ! k = (if of_nat k \<in> set ids then ?f (?tbl ! k) else ?tbl ! k)"
    using inst_part_mark_ok [OF ok ids(1) D(2), of ?f] D(2) by auto
  have mark: "ip_is_used (tbl1 ! k) = (of_nat k \<notin> set ids \<and> ip_is_used (?tbl ! k))" if "k < OG_MAX_INSTANCES" for k
    using t1(3) that by simp
  have rank: "used_rank ?tbl OG_MAX_INSTANCES = used_rank tbl1 OG_MAX_INSTANCES + length ids"
    using mark_rank [where b = False, OF _ ids(1) D(2) t1(2)] ids(2) mark by simp
  have "tbl_rep (pm_part_map pm) tbl1 L"
    by (intro tbl_rep_entries [OF D(1)]) (use t1(2,3) D(2) in \<open>auto simp: inst_ok_lt\<close>)
  then have "moving (dm\<lparr>dm_target_inst_part_tbl := tbl1\<rparr>) L"
    using s by (simp add: moving_def dm_def drc_int_remaster_target_def spread_def parts_rep_def tasks_def)
  then show ?thesis using t1(1) mark rank by blast
qed

text \<open>After the first loop the leaving instances are empty and the others have at most their new shares.\<close>

lemma leave_filled:
  assumes s: "spread pm L" and len: "length tbl1 = OG_MAX_INSTANCES" and n: "0 < used_rank tbl1 OG_MAX_INSTANCES" 
    and mark: "\<And>k. k < OG_MAX_INSTANCES \<Longrightarrow> ip_is_used (tbl1 ! k) = (of_nat k \<notin> set ids \<and> ip_is_used (pm_inst_part_tbl pm ! k))"
    and em: "emptied (of_nat (used_rank tbl1 OG_MAX_INSTANCES)) 0 tbl1 L tbl2 L2"
  shows "filled tbl2 L2 0" "k < OG_MAX_INSTANCES \<Longrightarrow> of_nat k \<notin> set ids \<Longrightarrow> L2 (of_nat k) = L (of_nat k)"
proof -
  let ?tbl = "pm_inst_part_tbl pm"
  note D = spreadD [OF s]
  have sh: "share tbl2 k = share tbl1 k" if "k < OG_MAX_INSTANCES" for k
    by (rule share_cong) (use em len that in \<open>simp_all add: emptied_def\<close>)
  have ps: "unat (part_share (of_nat (used_rank tbl1 OG_MAX_INSTANCES)) (of_nat (used_rank tbl1 k))) = share tbl1 k"
    if "k < OG_MAX_INSTANCES" "ip_is_used (tbl1 ! k)" for k
    using part_share_quota [OF n used_rank_le, of "used_rank tbl1 k"] used_rank_le [of tbl1 k] that by (simp add: share_def)
  have none: "L (of_nat k) = []" if "k < OG_MAX_INSTANCES" "\<not> ip_is_used (?tbl ! k)" for k
    using D(3) [of "of_nat k"] that by (simp add: share_def)
  show "k < OG_MAX_INSTANCES \<Longrightarrow> of_nat k \<notin> set ids \<Longrightarrow> L2 (of_nat k) = L (of_nat k)"
    using em mark none by (simp add: emptied_def)
  have "length (L2 (of_nat k)) \<le> share tbl2 k" if k: "k < OG_MAX_INSTANCES" for k
  proof (cases "ip_is_used (tbl1 ! k)")
    case True
    then have "share ?tbl k \<le> share tbl1 k" using mark k by (intro join_share_le [OF len D(2) k n]) simp_all
    then show ?thesis using em k True sh [OF k] D(3) [of "of_nat k"] by (simp add: emptied_def)
  next
    case False
    then show ?thesis using em k by (simp add: emptied_def)
  qed
  moreover have "unat (ip_expected_num (tbl2 ! k)) = share tbl2 k" if "k < OG_MAX_INSTANCES" "ip_is_used (tbl2 ! k)" for k
    using em that ps [of k] sh [of k] by (simp add: emptied_def)
  ultimately show "filled tbl2 L2 0" by (simp add: filled_def within_shares_def)
qed

lemma inst_num_sub:
  fixes x m :: u8
  assumes "m < x" "unat x \<le> OG_MAX_INSTANCES"
  shows "(ucast x - ucast m :: u32) = of_nat (unat x - unat m)" "unat (x - m) = unat x - unat m" "ucast (ucast x - ucast m :: u32) = x - m"
proof -
  have less: "unat m < unat x" using assms(1) by (simp add: word_less_nat_alt)
  have "(ucast y :: u32) = of_nat (unat y)" for y :: u8 by simp
  then show a: "(ucast x - ucast m :: u32) = of_nat (unat x - unat m)" using less by (simp only: of_nat_diff less_imp_le)
  show b: "unat (x - m) = unat x - unat m" using assms(1) by (simp add: unat_sub less_imp_le)
  have "unat (of_nat (unat x - unat m) :: u32) = unat x - unat m" using assms by (intro unat_of_nat_u32) (simp add: OG_MAX_INSTANCES_def)
  then have "unat (ucast (of_nat (unat x - unat m) :: u32) :: u8) = unat x - unat m"
    using assms by (simp add: unsigned_ucast_eq take_bit_nat_eq_self OG_MAX_INSTANCES_def)
  then show "ucast (ucast x - ucast m :: u32) = x - m" using b unfolding a by (metis unat_eq_iff)
qed

lemma scalein_ok:
  assumes s: "spread pm L" and arr: "names arr num ids" and ids: "ids \<noteq> []" "distinct ids" "\<forall>i \<in> set ids. inst_ok i \<and> ip_is_used (pm_inst_part_tbl pm ! unat i)"
    and less: "num < pm_inst_num pm"
  shows "\<exists>dm L'. drc_scalein_remaster arr num is_abort (drc_int_remaster_target v pm) =
      Some (OG_SUCCESS, pm\<lparr>pm_remaster_mngr := dm, pm_inst_num := pm_inst_num pm - num\<rparr>) \<and>
    spread (published (pm\<lparr>pm_remaster_mngr := dm, pm_inst_num := pm_inst_num pm - num\<rparr>)) L' \<and>
    (\<forall>i. inst_ok i \<longrightarrow> ip_is_used (dm_target_inst_part_tbl dm ! unat i) = (i \<notin> set ids \<and> ip_is_used (pm_inst_part_tbl pm ! unat i))) \<and>
    (\<forall>i. i \<notin> set ids \<longrightarrow> (\<exists>ps. L' i = ps @ L i)) \<and> (is_abort \<longrightarrow> tasks dm = []) \<and>
    (\<forall>(p, i) \<in> set (tasks dm). p \<in> set (L i))"
proof -
  let ?tbl = "pm_inst_part_tbl pm" and ?pm = "drc_int_remaster_target v pm"
  let ?dm = "pm_remaster_mngr ?pm" and ?N = "ucast (pm_inst_num pm) - ucast num :: u32"
  note D = spreadD [OF s]
  have pm: "pm_inst_part_tbl ?pm = ?tbl" "dm_target_inst_part_tbl ?dm = ?tbl" "pm_inst_num ?pm = pm_inst_num pm" "tasks ?dm = []"
    "pm_part_map ?pm = dm_target_part_map ?dm" "dm_task_num ?dm = 0" by (simp_all add: drc_int_remaster_target_def tasks_def)
  obtain tbl1 where t1: "inst_part_mark (\<lambda>e. e\<lparr>ip_is_used := False, ip_expected_num := 0\<rparr>) ?tbl ids = Some tbl1"
      "moving (?dm\<lparr>dm_target_inst_part_tbl := tbl1\<rparr>) L" "used_rank ?tbl OG_MAX_INSTANCES = used_rank tbl1 OG_MAX_INSTANCES + length ids"
      "\<And>k. k < OG_MAX_INSTANCES \<Longrightarrow> ip_is_used (tbl1 ! k) = (of_nat k \<notin> set ids \<and> ip_is_used (?tbl ! k))"
    using leave_marked [OF s ids(2,3), of v] by blast
  have r: "used_rank tbl1 OG_MAX_INSTANCES = unat (pm_inst_num pm) - unat num"
    using s t1(3) namesD(2) [OF arr] by (simp add: spread_def)
  have N: "?N = of_nat (used_rank tbl1 OG_MAX_INSTANCES)" "unat (pm_inst_num pm - num) = used_rank tbl1 OG_MAX_INSTANCES"
    "ucast ?N = pm_inst_num pm - num"
    using inst_num_sub [OF less] D(5) s unfolding r by (auto simp: spread_def)
  have n: "0 < used_rank tbl1 OG_MAX_INSTANCES" using r less by (simp add: word_less_nat_alt)
  have l1: "length tbl1 = OG_MAX_INSTANCES" using movingD(5) [OF t1(2)] by simp
  obtain dm2 L2 where t2: "drc_scalein_loop (pm_part_map ?pm) ?N 0 all_instances (?dm\<lparr>dm_target_inst_part_tbl := tbl1\<rparr>) = Some dm2" "moving dm2 L2"
      "emptied ?N 0 tbl1 L (dm_target_inst_part_tbl dm2) L2" "\<forall>(p, i) \<in> set (tasks dm2). p \<in> set (L i)"
    using scalein_loop_ok [OF _ t1(2), of 0 tbl1 "pm_part_map ?pm" ?N] pm(4,5) by (auto simp: all_instances_def)
  note F = leave_filled [OF s l1 n t1(4) t2(3) [unfolded N(1)]]
  have used: "ip_is_used (dm_target_inst_part_tbl dm2 ! k) = ip_is_used (tbl1 ! k)" if "k < OG_MAX_INSTANCES" for k
    using t2(3) that by (simp add: emptied_def)
  have rank2: "used_rank (dm_target_inst_part_tbl dm2) OG_MAX_INSTANCES = used_rank tbl1 OG_MAX_INSTANCES"
    by (rule used_rank_cong) (use movingD(5) [OF t2(2)] l1 used in simp_all)
  define st where "st = (if is_abort then PART_WAIT_RECOVERY else PART_WAIT_MIGRATE)"
  obtain dm3 L3 where t3: "drc_scalein_imports st 0 (task_range 0 (dm_task_num dm2)) dm2 = Some dm3"
      "importing dm3 L3 (unat (dm_task_num dm2))" "tasks dm3 = tasks dm2" "dm_task_num dm3 = dm_task_num dm2"
      "within_shares (dm_target_inst_part_tbl dm3) L3"
      "\<And>k. ip_is_used (dm_target_inst_part_tbl dm3 ! k) = ip_is_used (dm_target_inst_part_tbl dm2 ! k)" "\<And>j. \<exists>qs. L3 j = qs @ L2 j"
    using scalein_imports_ok [OF _ t2(2) [unfolded moving_importing] refl F(1), of st] n rank2 by (auto simp: task_range_def)
  define dm4 where "dm4 = (if is_abort then dm3\<lparr>dm_task_num := 0\<rparr> else dm3)"
  let ?pm4 = "pm\<lparr>pm_remaster_mngr := dm4, pm_inst_num := pm_inst_num pm - num\<rparr>"
  note D3 = importingD [OF t3(2)]
  have rank3: "used_rank (dm_target_inst_part_tbl dm4) OG_MAX_INSTANCES = used_rank tbl1 OG_MAX_INSTANCES"
    by (rule used_rank_cong) (use D3(5) l1 t3(6) used in \<open>simp_all add: dm4_def\<close>)
  have "spread (published ?pm4) L3"
    by (rule spread_published) (use D3 t3(3-5) rank3 N(2) n in \<open>simp_all add: dm4_def flip: unat_eq_0\<close>)
  moreover have "drc_scalein_remaster arr num is_abort ?pm = Some (OG_SUCCESS, ?pm4)"
    using ids(1,3) namesD [OF arr] inst_part_check_ok [of ids ?tbl True] D(2) pm t1(1) t2(1) t3(1) N(3) less not_le_imp_less
    by (simp add: drc_scalein_remaster_def drc_int_remaster_target_def Let_def knl_panic_def st_def dm4_def)
  moreover have "\<exists>ps. L3 i = ps @ L i" if i: "i \<notin> set ids" for i
    using F(2) [of "unat i"] t3(7) [of i] i D(1) by (cases "inst_ok i") (simp_all add: inst_ok_lt tbl_rep_def)
  moreover have "ip_is_used (dm_target_inst_part_tbl dm4 ! unat i) = (i \<notin> set ids \<and> ip_is_used (?tbl ! unat i))" if "inst_ok i" for i
    using t3(6) used t1(4) that by (simp add: inst_ok_lt dm4_def)
  moreover have "tasks dm4 = (if is_abort then [] else tasks dm2)" using t3(3) by (simp add: dm4_def tasks_def)
  ultimately show ?thesis using t2(4) by (intro exI [of _ dm4] exI [of _ L3]) simp
qed

end
