(* ===== verification/Task_Assignment.thy ===== *)
theory Task_Assignment
  imports Remaster_Tasks
begin

text \<open>
  The assignment of the tasks: the loop that gathers neighbouring tasks is compared with a reference that cuts the plan where
  the exporting instance changes, and every instance turns out to be told exactly its tasks.
\<close>

subsection \<open>Runs of tasks\<close>

text \<open>The reference: the tasks are cut where the exporting instance changes.\<close>

function runs :: "drc_remaster_task list \<Rightarrow> drc_remaster_task list list" where
  "runs [] = []"
| "runs (t # ts) = (t # takeWhile (\<lambda>u. tk_export_inst u = tk_export_inst t) ts) # runs (dropWhile (\<lambda>u. tk_export_inst u = tk_export_inst t) ts)"
  by pat_completeness auto
termination by (relation "measure length") (auto simp: le_imp_less_Suc length_dropWhile_le)

definition task_msg :: "drc_remaster_mngr \<Rightarrow> drc_remaster_task list \<Rightarrow> drc_remaster_task_msg" where
  "task_msg dm ts = \<lparr>tm_size_ok = True, tm_task_num = of_nat (length ts), tm_task_buffer_len = of_nat (length ts) * SIZEOF_REMASTER_TASK,
     tm_reform_trigger_version = rf_trigger_version (dm_reform_info dm),
     tm_target_part_map = dm_target_part_map dm, tm_target_inst_part_tbl = dm_target_inst_part_tbl dm,
     tm_remaster_task_set = dm_remaster_task_set dm, tm_tasks = ts\<rparr>"

text \<open>One message for each run of another instance.\<close>

definition run_msgs :: "drc_remaster_mngr \<Rightarrow> u8 \<Rightarrow> drc_remaster_task list \<Rightarrow> task_msgs" where
  "run_msgs dm self ts = map (\<lambda>r. (tk_export_inst (hd r), task_msg dm r)) (filter (\<lambda>r. tk_export_inst (hd r) \<noteq> self) (runs ts))"

lemma runs_append:
  assumes "cur \<noteq> []" "\<forall>t \<in> set cur. tk_export_inst t = e" "ts = [] \<or> tk_export_inst (hd ts) \<noteq> e"
  shows "runs (cur @ ts) = cur # runs ts"
proof -
  obtain c cs where c: "cur = c # cs" using assms(1) by (cases cur) auto
  have "takeWhile (\<lambda>u. tk_export_inst u = tk_export_inst c) (cs @ ts) = cs" "dropWhile (\<lambda>u. tk_export_inst u = tk_export_inst c) (cs @ ts) = ts"
    using assms(2,3) c by (cases ts; auto simp: takeWhile_append dropWhile_append)+
  then show ?thesis by (simp add: c)
qed

lemma run_msgs_self:
  assumes "tk_export_inst t = self"
  shows "run_msgs dm self (t # ts) = run_msgs dm self ts"
proof (cases ts)
  case (Cons u us)
  then show ?thesis using assms by (cases "tk_export_inst u = self") (simp_all add: run_msgs_def)
qed (use assms in \<open>simp add: run_msgs_def\<close>)

lemma run_msgs_append:
  assumes "cur \<noteq> []" "\<forall>t \<in> set cur. tk_export_inst t = e" "ts = [] \<or> tk_export_inst (hd ts) \<noteq> e \<or> e = self"
  shows "run_msgs dm self (cur @ ts) = (if e = self then [] else [(e, task_msg dm cur)]) @ run_msgs dm self ts"
proof (cases "e = self")
  case True
  then show ?thesis using assms(2) by (induction cur) (simp_all add: run_msgs_self)
next
  case False
  then show ?thesis using runs_append [OF assms(1,2), of ts] assms by (cases cur) (auto simp: run_msgs_def)
qed

text \<open>What an instance is told.\<close>

definition told :: "task_msgs \<Rightarrow> u8 \<Rightarrow> drc_remaster_task list" where
  "told msgs i = concat (map (\<lambda>m. tm_tasks (snd m)) (filter (\<lambda>m. fst m = i) msgs))"

lemma told_append [simp]: "told (ms @ ms') i = told ms i @ told ms' i"
  by (simp add: told_def)

lemma told_runs:
  assumes "i \<noteq> self"
  shows "told (run_msgs dm self ts) i = filter (\<lambda>t. tk_export_inst t = i) ts"
proof (induction ts rule: runs.induct)
  case (2 t ts)
  let ?p = "\<lambda>u. tk_export_inst u = tk_export_inst t"
  have f: "filter (\<lambda>u. tk_export_inst u = i) (takeWhile ?p ts) = (if tk_export_inst t = i then takeWhile ?p ts else [])"
    by (induction ts) auto
  have "filter (\<lambda>u. tk_export_inst u = i) ts = filter (\<lambda>u. tk_export_inst u = i) (takeWhile ?p ts) @ filter (\<lambda>u. tk_export_inst u = i) (dropWhile ?p ts)"
    by (metis filter_append takeWhile_dropWhile_id)
  then show ?case using 2 assms f by (auto simp: told_def run_msgs_def task_msg_def)
qed (simp add: told_def run_msgs_def)

subsection \<open>The loop\<close>

text \<open>Messages to an instance arrive and are acknowledged.\<close>

definition delivers :: "(u8 \<Rightarrow> drc_remaster_task list \<Rightarrow> net_env) \<Rightarrow> bool" where
  "delivers net \<longleftrightarrow> (\<forall>i ts. inst_ok i \<longrightarrow>
     drc_mes_send_data_with_retry (net i ts) i REMASTER_SEND_MSG_RETRY_TIMES = OG_SUCCESS \<and> ne_recv (net i ts) = OG_SUCCESS)"

lemma send_ok:
  assumes "delivers net" "inst_ok i" "i \<noteq> self" "n = of_nat (length ts)"
  shows "drc_send_remaster_task_msg net ts n self i dm msgs = (OG_SUCCESS, msgs @ [(i, task_msg dm ts)])"
  using assms by (simp add: drc_send_remaster_task_msg_def delivers_def Let_def task_msg_def)

text \<open>
  What the loop leaves as it is, and what it records: the tasks kept here, and which instances have been sent tasks.
\<close>

definition same_plan :: "drc_remaster_mngr \<Rightarrow> drc_remaster_mngr \<Rightarrow> bool" where
  "same_plan dm dm' \<longleftrightarrow> dm' = dm\<lparr>dm_local_task_set := dm_local_task_set dm', dm_local_task_num := dm_local_task_num dm',
     dm_inst_drm_info := dm_inst_drm_info dm'\<rparr>"

definition recorded :: "u8 \<Rightarrow> drc_remaster_task list \<Rightarrow> task_msgs \<Rightarrow> drc_remaster_mngr \<Rightarrow> bool" where
  "recorded self kept msgs dm \<longleftrightarrow> length (dm_local_task_set dm) = DRC_MAX_PART_NUM \<and> length (dm_inst_drm_info dm) = OG_MAX_INSTANCES \<and>
     unat (dm_local_task_num dm) = length kept \<and> take (length kept) (dm_local_task_set dm) = kept \<and>
     (\<forall>i. inst_ok i \<longrightarrow> i \<noteq> self \<longrightarrow> (di_task_num (dm_inst_drm_info dm ! unat i) \<noteq> 0 \<longleftrightarrow> i \<in> fst ` set msgs))"

lemma same_plan_refl: "same_plan dm dm"
  by (simp add: same_plan_def)

lemma same_plan_trans: "same_plan a b \<Longrightarrow> same_plan b c \<Longrightarrow> same_plan a c"
  unfolding same_plan_def by (cases a; cases b; cases c) simp

lemma same_planD:
  assumes "same_plan dm dm'"
  shows "dm_remaster_task_set dm' = dm_remaster_task_set dm" "task_msg dm' ts = task_msg dm ts" "run_msgs dm' self ts = run_msgs dm self ts"
    "dm_task_num dm' = dm_task_num dm" "dm_reform_info dm' = dm_reform_info dm"
    "dm_target_part_map dm' = dm_target_part_map dm" "dm_target_inst_part_tbl dm' = dm_target_inst_part_tbl dm"
proof -
  obtain l n d where "dm' = dm\<lparr>dm_local_task_set := l, dm_local_task_num := n, dm_inst_drm_info := d\<rparr>"
    using assms unfolding same_plan_def by blast
  then show "dm_remaster_task_set dm' = dm_remaster_task_set dm" "task_msg dm' ts = task_msg dm ts" "run_msgs dm' self ts = run_msgs dm self ts"
    "dm_task_num dm' = dm_task_num dm" "dm_reform_info dm' = dm_reform_info dm"
    "dm_target_part_map dm' = dm_target_part_map dm" "dm_target_inst_part_tbl dm' = dm_target_inst_part_tbl dm"
    by (simp_all add: task_msg_def run_msgs_def)
qed

lemma add_local_ok:
  assumes "recorded self kept msgs dm" "k < length (dm_remaster_task_set dm)" "k < DRC_MAX_PART_NUM" "length kept < DRC_MAX_PART_NUM"
  shows "\<exists>dm'. drc_add_local_task (of_nat k) dm = Some dm' \<and> same_plan dm dm' \<and> recorded self (kept @ [dm_remaster_task_set dm ! k]) msgs dm'"
proof -
  have k: "unat (of_nat k :: u32) = k" using assms(3) by (simp add: unat_of_nat_u32 DRC_MAX_PART_NUM_def)
  have n: "unat (dm_local_task_num dm) = length kept" "length (dm_local_task_set dm) = DRC_MAX_PART_NUM" "take (length kept) (dm_local_task_set dm) = kept"
    using assms(1) by (simp_all add: recorded_def)
  have "unat (dm_local_task_num dm + 1) = Suc (length kept)"
    using n(1) assms(4) unat_inc [of "dm_local_task_num dm"] by (simp add: DRC_MAX_PART_NUM_def)
  moreover have "take (Suc (length kept)) ((dm_local_task_set dm)[length kept := t]) = kept @ [t]" for t
    using n(2,3) assms(4) by (simp add: take_Suc_conv_app_nth)
  ultimately show ?thesis
    using assms n k by (simp add: drc_add_local_task_def same_plan_def recorded_def)
qed

lemma set_task_num_ok:
  assumes "recorded self kept msgs dm" "inst_ok i" "0 < n" "n \<le> DRC_MAX_PART_NUM" "i \<noteq> self"
  shows "\<exists>dm'. drc_set_inst_task_num i (of_nat n) dm = Some dm' \<and> same_plan dm dm' \<and> recorded self kept (msgs @ [(i, m)]) dm'"
proof -
  have i: "unat i < length (dm_inst_drm_info dm)" using assms(1,2) by (simp add: recorded_def inst_ok_lt)
  have "unat (ucast (of_nat n :: u32) :: u16) = n"
    using assms(4) by (simp add: unsigned_ucast_eq unsigned_of_nat take_bit_nat_eq_self DRC_MAX_PART_NUM_def)
  then have "(ucast (of_nat n :: u32) :: u16) \<noteq> 0" using assms(3) by (metis less_irrefl unat_0)
  then show ?thesis using assms(1,5) i by (auto simp: drc_set_inst_task_num_def same_plan_def recorded_def nth_update_word)
qed

text \<open>
  \<open>cur\<close> is the run that has been read and not been sent, \<open>rest\<close> are the tasks still to be read.
\<close>

lemma flush_ok:
  assumes rec: "recorded self kept msgs dm" and net: "delivers net"
    and cur: "take num (drop pos (dm_remaster_task_set dm)) = cur" "pos + num \<le> length (dm_remaster_task_set dm)" "length (dm_remaster_task_set dm) = DRC_MAX_PART_NUM"
      "0 < num" "\<forall>t \<in> set cur. tk_export_inst t = e" "inst_ok e" "e = self \<longrightarrow> num = 1"
    and room: "length kept < DRC_MAX_PART_NUM"
  shows "\<exists>dm'. drc_flush_tasks net self e (of_nat pos) (of_nat num) (e = self) msgs dm =
      Some (OG_SUCCESS, msgs @ (if e = self then [] else [(e, task_msg dm cur)]), dm') \<and> same_plan dm dm' \<and>
    recorded self (kept @ filter (\<lambda>t. tk_export_inst t = self) cur) (msgs @ (if e = self then [] else [(e, task_msg dm cur)])) dm'"
proof -
  have w: "unat (of_nat pos :: u32) = pos" "unat (of_nat num :: u32) = num"
    using cur(2,3) by (simp_all add: unat_of_nat_u32 DRC_MAX_PART_NUM_def)
  have len: "length cur = num" using cur(1,2) by auto
  show ?thesis
  proof (cases "e = self")
    case True
    then have n: "num = 1" using cur(7) by simp
    then have c: "cur = [dm_remaster_task_set dm ! pos]" using cur(1,2) by (auto simp: take_Suc_conv_app_nth)
    have "tk_export_inst (dm_remaster_task_set dm ! pos) = self" using cur(5) c True by simp
    then show ?thesis using add_local_ok [OF rec, of pos] cur(2,3) n room True c by (auto simp: drc_flush_tasks_def)
  next
    case False
    have "task_body dm (of_nat pos) (of_nat num) = Some cur" using w cur(1,2) by (simp add: task_body_def)
    moreover have "filter (\<lambda>t. tk_export_inst t = self) cur = []" using cur(5) False by (simp add: filter_empty_conv)
    moreover have "num \<le> DRC_MAX_PART_NUM" using cur(2,3) by simp
    ultimately show ?thesis
      using False send_ok [OF net cur(6) False, of "of_nat num" cur dm msgs] len set_task_num_ok [OF rec cur(6,4), of "task_msg dm cur"]
      by (auto simp: drc_flush_tasks_def)
  qed
qed

lemma assign_loop_ok:
  assumes "i \<le> n" "n \<le> DRC_MAX_PART_NUM" "length (dm_remaster_task_set dm) = DRC_MAX_PART_NUM" "dm_remaster_task_set dm = set0"
    and "delivers net" "\<forall>t \<in> set (take n set0). inst_ok (tk_export_inst t)"
    and "recorded self kept msgs dm" "pos + num = i" "0 < num" "\<forall>t \<in> set (take num (drop pos set0)). tk_export_inst t = e"
    and "e = self \<longrightarrow> num = 1" "length kept + (n - pos) \<le> DRC_MAX_PART_NUM"
  shows "\<exists>dm'. drc_assign_loop net self (map of_nat [i..<n]) e (of_nat pos) (of_nat num) (e = self) msgs dm =
      Some (OG_SUCCESS, msgs @ run_msgs dm self (drop pos (take n set0)), dm') \<and> same_plan dm dm' \<and>
    recorded self (kept @ filter (\<lambda>t. tk_export_inst t = self) (drop pos (take n set0))) (msgs @ run_msgs dm self (drop pos (take n set0))) dm'"
  using assms
proof (induction i arbitrary: dm kept msgs pos num e rule: inc_induct)
  case base
  let ?cur = "take num (drop pos set0)"
  have c: "drop pos (take n set0) = ?cur @ []" using base(7) by (simp add: take_drop add.commute)
  have ne: "?cur \<noteq> []" using base by auto
  then have e: "inst_ok e" using base c by (metis append_Nil2 in_set_dropD list.set_sel(1))
  show ?case
    using flush_ok [OF base(6,4) _ _ base(2) base(8) base(9) e base(10), of pos] base run_msgs_append [OF ne base(9), of "[]" self dm] c
    by (auto simp: run_msgs_def)
next
  case (step i)
  let ?t = "set0 ! i" and ?cur = "take num (drop pos set0)"
  have il: "i < length set0" "i < DRC_MAX_PART_NUM" using step by auto
  have iw: "unat (of_nat i :: u32) = i" using il(2) by (simp add: unat_of_nat_u32 DRC_MAX_PART_NUM_def)
  have rd: "rd (dm_remaster_task_set dm) (of_nat i :: u32) = Some ?t" using il iw step.prems(3) by simp
  have split: "drop pos (take n set0) = ?cur @ drop i (take n set0)" "drop i (take n set0) = ?t # drop (Suc i) (take n set0)"
  proof -
    have "take num (drop pos (take n set0)) = ?cur" using step by (simp add: take_drop min_def)
    then show "drop pos (take n set0) = ?cur @ drop i (take n set0)" using step.prems(7) by (metis add.commute append_take_drop_id drop_drop)
    show "drop i (take n set0) = ?t # drop (Suc i) (take n set0)" using step.hyps il by (simp flip: Cons_nth_drop_Suc)
  qed
  have ne: "?cur \<noteq> []" using step.prems(7,8) il by auto
  have ce: "inst_ok e" using step.prems(5,9) split(1) ne by (metis Un_iff in_set_dropD list.set_sel(1) set_append)
  have nx: "of_nat pos + of_nat num = (of_nat i :: u32)" using step.prems(7) by (metis of_nat_add)
  have one: "take 1 (drop i set0) = [?t]" using il by (simp add: take_Suc_conv_app_nth flip: Cons_nth_drop_Suc)
  have room: "length kept < DRC_MAX_PART_NUM" using step.prems(7,11) step.hyps by linarith
  have flush: "take num (drop pos (dm_remaster_task_set dm)) = ?cur" "pos + num \<le> length (dm_remaster_task_set dm)"
    using step.prems(3,7) il by simp_all
  show ?case
  proof (cases "tk_export_inst ?t \<noteq> e \<or> e = self")
    case True
    let ?ms = "msgs @ (if e = self then [] else [(e, task_msg dm ?cur)])" and ?kept = "kept @ filter (\<lambda>t. tk_export_inst t = self) ?cur"
    obtain dm1 where f: "drc_flush_tasks net self e (of_nat pos) (of_nat num) (e = self) msgs dm = Some (OG_SUCCESS, ?ms, dm1)"
        "same_plan dm dm1" "recorded self ?kept ?ms dm1"
      using flush_ok [OF step.prems(6,4) flush step.prems(2,8,9) ce step.prems(10) room] by blast
    note P = same_planD [OF f(2)]
    have k: "length ?kept \<le> length kept + num" using length_filter_le [of "\<lambda>t. tk_export_inst t = self" ?cur] by simp
    have "run_msgs dm self (drop pos (take n set0)) = (if e = self then [] else [(e, task_msg dm ?cur)]) @ run_msgs dm1 self (drop i (take n set0))"
      unfolding split(1) P(3) by (rule run_msgs_append [OF ne step.prems(9)]) (use True split(2) in auto)
    then have ms: "?ms @ run_msgs dm1 self (drop i (take n set0)) = msgs @ run_msgs dm self (drop pos (take n set0))" by simp
    have ks: "?kept @ filter (\<lambda>t. tk_export_inst t = self) (drop i (take n set0)) = kept @ filter (\<lambda>t. tk_export_inst t = self) (drop pos (take n set0))"
      unfolding split(1) by simp
    have "\<exists>dm'. drc_assign_loop net self (map of_nat [Suc i..<n]) (tk_export_inst ?t) (of_nat i) (of_nat 1) (tk_export_inst ?t = self) ?ms dm1 =
        Some (OG_SUCCESS, ?ms @ run_msgs dm1 self (drop i (take n set0)), dm') \<and> same_plan dm1 dm' \<and>
      recorded self (?kept @ filter (\<lambda>t. tk_export_inst t = self) (drop i (take n set0))) (?ms @ run_msgs dm1 self (drop i (take n set0))) dm'"
      by (rule step.IH) (use step.prems f(3) P(1) k one step.hyps in auto)
    moreover have "drc_assign_loop net self (map of_nat [i..<n]) e (of_nat pos) (of_nat num) (e = self) msgs dm =
        drc_assign_loop net self (map of_nat [Suc i..<n]) (tk_export_inst ?t) (of_nat i) (of_nat 1) (tk_export_inst ?t = self) ?ms dm1"
      using f(1) rd True nx step.hyps by (auto simp: upt_conv_Cons drc_flush_tasks_def split: Option.bind_splits)
    ultimately show ?thesis unfolding ms ks using same_plan_trans [OF f(2)] by auto
  next
    case False
    have t: "take (Suc num) (drop pos set0) = ?cur @ [?t]" using step.prems(7) il by (simp add: take_Suc_conv_app_nth add.commute)
    have "\<exists>dm'. drc_assign_loop net self (map of_nat [Suc i..<n]) e (of_nat pos) (of_nat (Suc num)) (e = self) msgs dm =
        Some (OG_SUCCESS, msgs @ run_msgs dm self (drop pos (take n set0)), dm') \<and> same_plan dm dm' \<and>
      recorded self (kept @ filter (\<lambda>t. tk_export_inst t = self) (drop pos (take n set0))) (msgs @ run_msgs dm self (drop pos (take n set0))) dm'"
      by (rule step.IH) (use step.prems t False in auto)
    then show ?thesis using rd False step.hyps by (auto simp: upt_conv_Cons add.commute)
  qed
qed

text \<open>The instances without tasks.\<close>

lemma assign_none_ok:
  assumes "recorded self kept msgs0 dm" "delivers net" "\<forall>i \<in> set ids. inst_ok i"
  shows "\<exists>es. drc_assign_none net self ids msgs dm = Some (OG_SUCCESS, msgs @ es) \<and>
    (\<forall>(i, m) \<in> set es. i \<noteq> self \<and> i \<notin> fst ` set msgs0 \<and> m = task_msg dm []) \<and> (\<forall>i \<in> set ids. i \<noteq> self \<longrightarrow> i \<in> fst ` set msgs0 \<union> fst ` set es)"
  using assms(3)
proof (induction ids arbitrary: msgs)
  case (Cons i ids)
  have i: "inst_ok i" "unat i < length (dm_inst_drm_info dm)" using Cons.prems assms(1) by (simp_all add: recorded_def inst_ok_lt)
  show ?case
  proof (cases "di_task_num (dm_inst_drm_info dm ! unat i) = 0 \<and> i \<noteq> self")
    case True
    then have "i \<notin> fst ` set msgs0" using assms(1) i(1) by (auto simp: recorded_def)
    moreover obtain es where "drc_assign_none net self ids (msgs @ [(i, task_msg dm [])]) dm = Some (OG_SUCCESS, (msgs @ [(i, task_msg dm [])]) @ es)"
        "\<forall>(i, m) \<in> set es. i \<noteq> self \<and> i \<notin> fst ` set msgs0 \<and> m = task_msg dm []" "\<forall>j \<in> set ids. j \<noteq> self \<longrightarrow> j \<in> fst ` set msgs0 \<union> fst ` set es"
      using Cons.IH [of "msgs @ [(i, task_msg dm [])]"] Cons.prems by auto
    ultimately show ?thesis using True i send_ok [OF assms(2) i(1), of self 0 "[]" dm msgs]
      by (intro exI [of _ "(i, task_msg dm []) # es"]) auto
  next
    case False
    then have told: "i \<noteq> self \<longrightarrow> i \<in> fst ` set msgs0" using assms(1) i(1) by (auto simp: recorded_def)
    obtain es where "drc_assign_none net self ids msgs dm = Some (OG_SUCCESS, msgs @ es)"
        "\<forall>(i, m) \<in> set es. i \<noteq> self \<and> i \<notin> fst ` set msgs0 \<and> m = task_msg dm []" "\<forall>j \<in> set ids. j \<noteq> self \<longrightarrow> j \<in> fst ` set msgs0 \<union> fst ` set es"
      using Cons.IH [of msgs] Cons.prems by auto
    then show ?thesis using False i told by (intro exI [of _ es]) (auto simp: drc_send_remaster_task_msg_def)
  qed
qed simp

text \<open>The state in which the tasks are assigned.\<close>

definition unassigned :: "u8 \<Rightarrow> drc_remaster_mngr \<Rightarrow> bool" where
  "unassigned self dm \<longleftrightarrow> length (dm_local_task_set dm) = DRC_MAX_PART_NUM \<and> dm_local_task_num dm = 0 \<and>
     length (dm_inst_drm_info dm) = OG_MAX_INSTANCES \<and> (\<forall>i. inst_ok i \<longrightarrow> di_task_num (dm_inst_drm_info dm ! unat i) = 0) \<and> inst_ok self"

definition plan_ok :: "u8 \<Rightarrow> drc_remaster_mngr \<Rightarrow> bool" where
  "plan_ok self dm \<longleftrightarrow> length (dm_remaster_task_set dm) = DRC_MAX_PART_NUM \<and> unat (dm_task_num dm) \<le> DRC_MAX_PART_NUM \<and>
     (\<forall>t \<in> set (take (unat (dm_task_num dm)) (dm_remaster_task_set dm)). inst_ok (tk_export_inst t)) \<and> unassigned self dm"

definition planned :: "drc_remaster_mngr \<Rightarrow> drc_remaster_task list" where
  "planned dm = take (unat (dm_task_num dm)) (dm_remaster_task_set dm)"

lemma assign_runs_ok:
  assumes p: "plan_ok self dm" and net: "delivers net"
  shows "\<exists>dm'. (if dm_task_num dm > 0 then do {
          task \<leftarrow> rd (dm_remaster_task_set dm) (0 :: u32);
          drc_assign_loop net self (task_range 1 (dm_task_num dm)) (tk_export_inst task) 0 1 (tk_export_inst task = self) [] dm
        } else Some (OG_SUCCESS, [], dm)) = Some (OG_SUCCESS, run_msgs dm self (planned dm), dm') \<and>
    same_plan dm dm' \<and> recorded self (filter (\<lambda>t. tk_export_inst t = self) (planned dm)) (run_msgs dm self (planned dm)) dm'"
proof (cases "dm_task_num dm = 0")
  case True
  then show ?thesis using p by (auto simp: plan_ok_def unassigned_def planned_def recorded_def run_msgs_def same_plan_refl)
next
  case False
  let ?t = "dm_remaster_task_set dm ! 0"
  have n: "0 < unat (dm_task_num dm)" "dm_task_num dm > 0" using False by (simp_all add: unat_gt_0 word_gt_0)
  have ne: "dm_remaster_task_set dm \<noteq> []" using p by (auto simp: plan_ok_def unassigned_def DRC_MAX_PART_NUM_def)
  have rec: "recorded self [] [] dm" using p by (simp add: plan_ok_def unassigned_def recorded_def)
  have one: "take 1 (drop 0 (dm_remaster_task_set dm)) = [?t]" using ne by (cases "dm_remaster_task_set dm") auto
  have "\<exists>dm'. drc_assign_loop net self (map of_nat [1..<unat (dm_task_num dm)]) (tk_export_inst ?t) (of_nat 0) (of_nat 1) (tk_export_inst ?t = self) [] dm =
      Some (OG_SUCCESS, [] @ run_msgs dm self (drop 0 (take (unat (dm_task_num dm)) (dm_remaster_task_set dm))), dm') \<and> same_plan dm dm' \<and>
    recorded self ([] @ filter (\<lambda>t. tk_export_inst t = self) (drop 0 (take (unat (dm_task_num dm)) (dm_remaster_task_set dm))))
      ([] @ run_msgs dm self (drop 0 (take (unat (dm_task_num dm)) (dm_remaster_task_set dm)))) dm'"
    by (rule assign_loop_ok [OF _ _ _ refl net _ rec]) (use p n one in \<open>auto simp: plan_ok_def unassigned_def\<close>)
  then show ?thesis using n(2) ne by (auto simp: planned_def task_range_def)
qed

definition planned_local :: "drc_remaster_mngr \<Rightarrow> drc_remaster_task list" where
  "planned_local dm = take (unat (dm_local_task_num dm)) (dm_local_task_set dm)"

lemma assign_ok:
  assumes p: "plan_ok self dm" and net: "delivers net"
    and ids: "id_entries (il_inst_id_list (rf_after (dm_reform_info dm))) (il_inst_id_count (rf_after (dm_reform_info dm))) = Some ids" "\<forall>i \<in> set ids. inst_ok i"
    and ids': "id_entries (il_inst_id_list (rf_leave (dm_reform_info dm))) (il_inst_id_count (rf_leave (dm_reform_info dm))) = Some ids'" "\<forall>i \<in> set ids'. inst_ok i"
  shows "\<exists>es dm'. drc_assign_remaster_task net self dm = Some (OG_SUCCESS, run_msgs dm self (planned dm) @ es, dm') \<and> same_plan dm dm' \<and>
    recorded self (filter (\<lambda>t. tk_export_inst t = self) (planned dm)) (run_msgs dm self (planned dm)) dm' \<and>
    (\<forall>(i, m) \<in> set es. i \<noteq> self \<and> i \<notin> fst ` set (run_msgs dm self (planned dm)) \<and> m = task_msg dm []) \<and>
    (\<forall>i \<in> set ids \<union> set ids'. i \<noteq> self \<longrightarrow> i \<in> fst ` set (run_msgs dm self (planned dm)) \<union> fst ` set es)"
proof -
  let ?kept = "filter (\<lambda>t. tk_export_inst t = self) (planned dm)" and ?ms = "run_msgs dm self (planned dm)"
  obtain dm1 where d1: "(if dm_task_num dm > 0 then do {
          task \<leftarrow> rd (dm_remaster_task_set dm) (0 :: u32);
          drc_assign_loop net self (task_range 1 (dm_task_num dm)) (tk_export_inst task) 0 1 (tk_export_inst task = self) [] dm
        } else Some (OG_SUCCESS, [], dm)) = Some (OG_SUCCESS, ?ms, dm1)" "same_plan dm dm1" "recorded self ?kept ?ms dm1"
    using assign_runs_ok [OF p net] by blast
  have s: "unat self < length (dm_inst_drm_info dm1)" using d1(3) p by (simp add: recorded_def plan_ok_def unassigned_def inst_ok_lt)
  define dm2 where "dm2 = dm1\<lparr>dm_inst_drm_info := (dm_inst_drm_info dm1)
    [unat self := (dm_inst_drm_info dm1 ! unat self)\<lparr>di_task_num := ucast (dm_local_task_num dm1)\<rparr>]\<rparr>"
  have d2: "drc_set_inst_task_num self (dm_local_task_num dm1) dm1 = Some dm2" using s by (simp add: drc_set_inst_task_num_def dm2_def)
  have "same_plan dm1 dm2" by (simp add: dm2_def same_plan_def)
  then have plan: "same_plan dm dm2" by (rule same_plan_trans [OF d1(2)])
  note P = same_planD [OF plan]
  have rec: "recorded self ?kept ?ms dm2" using d1(3) s by (auto simp: recorded_def dm2_def nth_update_word)
  obtain es where es: "drc_assign_none net self ids ?ms dm2 = Some (OG_SUCCESS, ?ms @ es)"
    "\<forall>(i, m) \<in> set es. i \<noteq> self \<and> i \<notin> fst ` set ?ms \<and> m = task_msg dm []" "\<forall>i \<in> set ids. i \<noteq> self \<longrightarrow> i \<in> fst ` set ?ms \<union> fst ` set es"
    using assign_none_ok [OF rec net ids(2), of ?ms] unfolding P(2) by blast
  obtain es' where es': "drc_assign_none net self ids' (?ms @ es) dm2 = Some (OG_SUCCESS, (?ms @ es) @ es')"
    "\<forall>(i, m) \<in> set es'. i \<noteq> self \<and> i \<notin> fst ` set ?ms \<and> m = task_msg dm []" "\<forall>i \<in> set ids'. i \<noteq> self \<longrightarrow> i \<in> fst ` set ?ms \<union> fst ` set es'"
    using assign_none_ok [OF rec net ids'(2), of "?ms @ es"] unfolding P(2) by blast
  have "drc_assign_remaster_task net self dm = Some (OG_SUCCESS, ?ms @ (es @ es'), dm2)"
    unfolding drc_assign_remaster_task_def d1(1) using d2 ids(1) ids'(1) es(1) es'(1) P(5) by simp
  then show ?thesis using plan rec es(2,3) es'(2,3) by (intro exI [of _ "es @ es'"] exI [of _ dm2]) auto
qed

text \<open>When the tasks of each instance stand together, one message has all of them.\<close>

lemma filter_one: "distinct (map fst xs) \<Longrightarrow> (i, m) \<in> set xs \<Longrightarrow> filter (\<lambda>x. fst x = i) xs = [(i, m)]"
  by (induction xs) (force simp: filter_empty_conv)+

lemma one_run:
  assumes "distinct (map (\<lambda>r. tk_export_inst (hd r)) (runs ts))" "(i, m) \<in> set (run_msgs dm self ts)"
  shows "tm_tasks m = filter (\<lambda>t. tk_export_inst t = i) ts"
proof -
  have self: "i \<noteq> self" using assms(2) by (auto simp: run_msgs_def)
  have "distinct (map fst (run_msgs dm self ts))"
    using assms(1) by (simp add: run_msgs_def comp_def distinct_map_filter)
  from filter_one [OF this assms(2)] show ?thesis using told_runs [OF self, of dm ts] by (simp add: told_def)
qed

lemma run_msgs_form: "(i, m) \<in> set (run_msgs dm self ts) \<Longrightarrow> m = task_msg dm (tm_tasks m)"
  by (auto simp: run_msgs_def task_msg_def)

text \<open>A follower that waits for its tasks takes those of the message.\<close>

lemma accept_ok:
  assumes "pm_remaster_status pm = REMASTER_ASSIGN_TASK" "rf_trigger_version (dm_reform_info (pm_remaster_mngr pm)) = rf_trigger_version (dm_reform_info dm)"
    "length ts \<le> DRC_MAX_PART_NUM"
  defines "pm' \<equiv> drc_accept_remaster_task True (task_msg dm ts) pm"
  shows "pm_remaster_status pm' = REMASTER_MIGRATE" "planned_local (pm_remaster_mngr pm') = ts"
    "dm_remaster_task_set (pm_remaster_mngr pm') = dm_remaster_task_set dm"
proof -
  have n: "unat (of_nat (length ts) :: u32) = length ts" using assms(3) by (simp add: unat_of_nat_u32 DRC_MAX_PART_NUM_def)
  then have z: "(of_nat (length ts) :: u32) = 0 \<longleftrightarrow> ts = []" by (metis length_0_conv unat_eq_0)
  have "drc_check_accept_remaster_task_msg True (task_msg dm ts) pm = OG_SUCCESS"
    using assms(1-3) n by (simp add: drc_check_accept_remaster_task_msg_def drc_accept_remaster_task_parameter_check_def task_msg_def)
  then show "pm_remaster_status pm' = REMASTER_MIGRATE" "planned_local (pm_remaster_mngr pm') = ts"
    "dm_remaster_task_set (pm_remaster_mngr pm') = dm_remaster_task_set dm"
    using assms(1) n z
    by (auto simp: pm'_def drc_accept_remaster_task_def Let_def drc_update_remaster_local_status_def task_msg_def planned_local_def overwrite_def)
qed

text \<open>
  Claim C17. The tasks of a change of the partition table reach the instances that have to do them. When all messages arrive, the
  assignment succeeds; the reform master keeps exactly its own tasks, in order; every other instance is sent exactly the tasks
  in which it exports, in order, and every member and every leaving instance is sent something. When the tasks of each instance stand together
  in the plan, a follower that takes its message has exactly its tasks and goes on to the migration.
\<close>

theorem remaster_tasks_assigned:
  assumes "plan_ok self dm" "delivers net"
    and "id_entries (il_inst_id_list (rf_after (dm_reform_info dm))) (il_inst_id_count (rf_after (dm_reform_info dm))) = Some ids" "\<forall>i \<in> set ids. inst_ok i"
    and "id_entries (il_inst_id_list (rf_leave (dm_reform_info dm))) (il_inst_id_count (rf_leave (dm_reform_info dm))) = Some ids'" "\<forall>i \<in> set ids'. inst_ok i"
  shows "\<exists>msgs dm'. drc_assign_remaster_task net self dm = Some (OG_SUCCESS, msgs, dm') \<and>
    planned_local dm' = filter (\<lambda>t. tk_export_inst t = self) (planned dm) \<and>
    (\<forall>i. i \<noteq> self \<longrightarrow> told msgs i = filter (\<lambda>t. tk_export_inst t = i) (planned dm)) \<and>
    (\<forall>i \<in> set ids \<union> set ids'. i \<noteq> self \<longrightarrow> i \<in> fst ` set msgs) \<and>
    (distinct (map (\<lambda>r. tk_export_inst (hd r)) (runs (planned dm))) \<longrightarrow>
      (\<forall>(i, m) \<in> set msgs. \<forall>pm. pm_remaster_status pm = REMASTER_ASSIGN_TASK \<and>
          rf_trigger_version (dm_reform_info (pm_remaster_mngr pm)) = rf_trigger_version (dm_reform_info dm) \<longrightarrow>
        (let pm' = drc_accept_remaster_task True m pm in pm_remaster_status pm' = REMASTER_MIGRATE \<and>
          planned_local (pm_remaster_mngr pm') = filter (\<lambda>t. tk_export_inst t = i) (planned dm) \<and>
          dm_remaster_task_set (pm_remaster_mngr pm') = dm_remaster_task_set dm)))"
proof -
  let ?ms = "run_msgs dm self (planned dm)"
  obtain es dm' where a: "drc_assign_remaster_task net self dm = Some (OG_SUCCESS, ?ms @ es, dm')"
      "recorded self (filter (\<lambda>t. tk_export_inst t = self) (planned dm)) ?ms dm'"
      "\<forall>(i, m) \<in> set es. i \<noteq> self \<and> i \<notin> fst ` set ?ms \<and> m = task_msg dm []"
      "\<forall>i \<in> set ids \<union> set ids'. i \<noteq> self \<longrightarrow> i \<in> fst ` set ?ms \<union> fst ` set es"
    using assign_ok [OF assms] by blast
  have es: "told es i = []" for i using a(3) by (auto simp: told_def task_msg_def)
  have none: "filter (\<lambda>t. tk_export_inst t = i) (planned dm) = []" if "i \<noteq> self" "i \<notin> fst ` set ?ms" for i
  proof -
    have "filter (\<lambda>m. fst m = i) ?ms = []" using that(2) by (auto simp: filter_empty_conv)
    then show ?thesis using told_runs [OF that(1), of dm "planned dm"] by (simp add: told_def)
  qed
  have len: "length (planned dm) \<le> DRC_MAX_PART_NUM" using assms(1) by (simp add: planned_def plan_ok_def unassigned_def)
  have msg: "m = task_msg dm (filter (\<lambda>t. tk_export_inst t = i) (planned dm))"
    if "distinct (map (\<lambda>r. tk_export_inst (hd r)) (runs (planned dm)))" "(i, m) \<in> set (?ms @ es)" for i m
    using that(2) one_run [OF that(1), of i m dm self] run_msgs_form [of i m dm self "planned dm"] a(3) none [of i] by auto
  have "length (filter (\<lambda>t. tk_export_inst t = i) (planned dm)) \<le> DRC_MAX_PART_NUM" for i
    using le_trans [OF length_filter_le len] .
  note acc = accept_ok [OF _ _ this]
  have acc': "pm_remaster_status (drc_accept_remaster_task True m pm) = REMASTER_MIGRATE \<and>
      planned_local (pm_remaster_mngr (drc_accept_remaster_task True m pm)) = filter (\<lambda>t. tk_export_inst t = i) (planned dm) \<and>
      dm_remaster_task_set (pm_remaster_mngr (drc_accept_remaster_task True m pm)) = dm_remaster_task_set dm"
    if "distinct (map (\<lambda>r. tk_export_inst (hd r)) (runs (planned dm)))" "(i, m) \<in> set (?ms @ es)"
      "pm_remaster_status pm = REMASTER_ASSIGN_TASK"
      "rf_trigger_version (dm_reform_info (pm_remaster_mngr pm)) = rf_trigger_version (dm_reform_info dm)" for i m pm
    using acc [OF that(3,4)] msg [OF that(1,2)] by simp
  have own: "planned_local dm' = filter (\<lambda>t. tk_export_inst t = self) (planned dm)"
    using a(2) by (simp add: recorded_def planned_local_def)
  have all: "told (?ms @ es) i = filter (\<lambda>t. tk_export_inst t = i) (planned dm)" if "i \<noteq> self" for i
    using told_runs [OF that, of dm "planned dm"] es [of i] by (simp add: told_def)
  have reach: "\<forall>i \<in> set ids \<union> set ids'. i \<noteq> self \<longrightarrow> i \<in> fst ` set (?ms @ es)" using a(4) by (simp add: image_Un)
  show ?thesis unfolding Let_def
    by (intro exI [of _ "?ms @ es"] exI [of _ dm'] conjI a(1) own reach) (use all acc' in blast)+
qed

text \<open>A plan of four moves made at instance 1, in a cluster of instances 0, 1 and 2 whose instance 3 leaves, over a network that loses nothing.\<close>

definition sample_net :: "u8 \<Rightarrow> drc_remaster_task list \<Rightarrow> net_env" where
  "sample_net i ts = \<lparr>ne_send = \<lambda>_. OG_SUCCESS, ne_alive = \<lambda>_. 7, ne_recv = OG_SUCCESS\<rparr>"

definition sample_plan :: drc_remaster_mngr where
  "sample_plan = zero_remaster_mngr\<lparr>
     dm_remaster_task_set := map (\<lambda>(e, p). zero_task\<lparr>tk_export_inst := e, tk_import_inst := 2, tk_part_id := p\<rparr>) [(0, 10), (0, 11), (1, 12), (3, 13)]
       @ replicate 1020 zero_task,
     dm_task_num := 4,
     dm_reform_info := zero_reform_info\<lparr>rf_after := \<lparr>il_inst_id_list = [0, 1, 2], il_inst_id_count = 3\<rparr>,
       rf_leave := \<lparr>il_inst_id_list = [3], il_inst_id_count = 1\<rparr>\<rparr>\<rparr>"

lemma sample_net_delivers: "delivers sample_net"
  by (simp add: delivers_def sample_net_def drc_mes_send_data_with_retry_def REMASTER_SEND_MSG_RETRY_TIMES_def inst_ok_def numeral_3_eq_3)

theorem remaster_tasks_assigned_witness:
  "\<exists>msgs dm'. drc_assign_remaster_task sample_net 1 sample_plan = Some (OG_SUCCESS, msgs, dm') \<and>
    map tk_part_id (planned_local dm') = [12] \<and> map tk_part_id (told msgs 0) = [10, 11] \<and> map tk_part_id (told msgs 3) = [13] \<and>
    2 \<in> fst ` set msgs \<and> told msgs 2 = []"
proof -
  have p: "plan_ok 1 sample_plan"
    by (auto simp: plan_ok_def unassigned_def sample_plan_def zero_remaster_mngr_def inst_ok_def OG_MAX_INSTANCES_def DRC_MAX_PART_NUM_def)
  have ids: "id_entries (il_inst_id_list (rf_after (dm_reform_info sample_plan))) (il_inst_id_count (rf_after (dm_reform_info sample_plan))) = Some [0, 1, 2]"
    "id_entries (il_inst_id_list (rf_leave (dm_reform_info sample_plan))) (il_inst_id_count (rf_leave (dm_reform_info sample_plan))) = Some [3]"
    by (simp_all add: sample_plan_def id_entries_def)
  have ok: "\<forall>i \<in> set [0, 1, 2]. inst_ok i" "\<forall>i \<in> set [3]. inst_ok i" by (simp_all add: inst_ok_def OG_MAX_INSTANCES_def)
  obtain msgs dm' where *: "drc_assign_remaster_task sample_net 1 sample_plan = Some (OG_SUCCESS, msgs, dm')"
      "planned_local dm' = filter (\<lambda>t. tk_export_inst t = 1) (planned sample_plan)"
      "\<forall>i. i \<noteq> 1 \<longrightarrow> told msgs i = filter (\<lambda>t. tk_export_inst t = i) (planned sample_plan)"
      "\<forall>i \<in> set [0, 1, 2] \<union> set [3]. i \<noteq> 1 \<longrightarrow> i \<in> fst ` set msgs"
    using remaster_tasks_assigned [OF p sample_net_delivers ids(1) ok(1) ids(2) ok(2)] by (elim exE conjE) (rule that)
  have f: "map tk_part_id (filter (\<lambda>t. tk_export_inst t = 1) (planned sample_plan)) = [12]"
    "map tk_part_id (filter (\<lambda>t. tk_export_inst t = 0) (planned sample_plan)) = [10, 11]"
    "map tk_part_id (filter (\<lambda>t. tk_export_inst t = 3) (planned sample_plan)) = [13]"
    "filter (\<lambda>t. tk_export_inst t = 2) (planned sample_plan) = []"
    by (simp_all add: planned_def sample_plan_def)
  show ?thesis
    by (intro exI [of _ msgs] exI [of _ dm'] conjI) (use * f in simp_all)
qed

end
