(* ===== verification/Remaster_Properties.thy ===== *)
theory Remaster_Properties
  imports Part_Balance Task_Assignment
begin

text \<open>
  The first table is balanced, and so are the tables after joins and departures of instances.
\<close>

subsection \<open>The first table is balanced\<close>

lemma residue_count:
  assumes "a < n"
  shows "length (filter (\<lambda>p. p mod n = a) [0..<m]) = m div n + (if a < m mod n then 1 else 0)"
proof (induction m)
  case (Suc m)
  have "m mod n < n" using assms by simp
  then show ?case using Suc assms by (auto simp: mod_Suc div_Suc)
qed (use assms in simp)

lemma first_parts_length:
  assumes "distinct ids" "a < length ids"
  shows "length (first_parts ids (length ids) DRC_MAX_PART_NUM (ids ! a)) = quota (length ids) a"
proof -
  have "p mod length ids < length ids" for p using assms(2) by (intro mod_less_divisor) linarith
  then have "(\<lambda>p. ids ! (p mod length ids) = ids ! a) = (\<lambda>p. p mod length ids = a)"
    using assms by (simp add: nth_eq_iff_index_eq fun_eq_iff)
  then show ?thesis using residue_count [OF assms(2)] by (simp add: first_parts_def quota_def)
qed

lemma first_parts_other: "0 < length ids \<Longrightarrow> i \<notin> set ids \<Longrightarrow> first_parts ids (length ids) m i = []"
  using mod_less_divisor nth_mem by (force simp: first_parts_def filter_empty_conv)

text \<open>The rank of the \<open>a\<close>-th of instances in ascending order.\<close>

lemma ascending_rank:
  assumes ids: "sorted_wrt (<) ids" "\<forall>i \<in> set ids. inst_ok i" and a: "a < length ids" and len: "length tbl = OG_MAX_INSTANCES"
    and used: "\<And>k. k < OG_MAX_INSTANCES \<Longrightarrow> ip_is_used (tbl ! k) \<longleftrightarrow> (of_nat k :: u8) \<in> set ids"
  shows "used_rank tbl (unat (ids ! a)) = a"
proof -
  have bound: "unat (ids ! a) < OG_MAX_INSTANCES" using ids(2) a by (simp add: inst_ok_lt)
  have dist: "distinct ids" using ids(1) strict_sorted_iff by blast
  have less: "ids ! b < ids ! a \<longleftrightarrow> b < a" if "b < length ids" for b
    using sorted_wrt_nth_less [OF ids(1)] that a by (metis linorder_neqE_nat order_less_asym order_less_irrefl)
  have "{k. k < unat (ids ! a) \<and> ip_is_used (tbl ! k)} = unat ` set (take a ids)"
  proof (intro equalityI subsetI)
    fix k assume "k \<in> {k. k < unat (ids ! a) \<and> ip_is_used (tbl ! k)}"
    then have k: "k < unat (ids ! a)" "(of_nat k :: u8) \<in> set ids" "unat (of_nat k :: u8) = k" using used [of k] bound by auto
    then obtain b where b: "b < length ids" "ids ! b = of_nat k" by (auto simp: in_set_conv_nth)
    then have "b < a" using less [OF b(1)] k(1,3) by (simp add: word_less_nat_alt)
    then show "k \<in> unat ` set (take a ids)" using b k(3) a by (intro image_eqI [of _ _ "of_nat k"]) (auto simp: in_set_conv_nth)
  next
    fix k assume "k \<in> unat ` set (take a ids)"
    then obtain b where b: "b < a" "k = unat (ids ! b)" using a by (auto simp: in_set_conv_nth)
    then have "ids ! b < ids ! a" "ids ! b \<in> set ids" using less [of b] a by auto
    then show "k \<in> {k. k < unat (ids ! a) \<and> ip_is_used (tbl ! k)}"
      using used [of k] b(2) bound by (simp add: word_less_nat_alt)
  qed
  moreover have "used_rank tbl (unat (ids ! a)) = card {k. k < unat (ids ! a) \<and> ip_is_used (tbl ! k)}"
    using bound len by (simp add: used_rank_def length_filter_conv_card) (metis (no_types, lifting) less_trans nth_take)
  ultimately show ?thesis using a dist by (simp add: card_image distinct_card inj_on_def unat_eq_iff)
qed

lemma first_table_spread:
  assumes ids: "sorted_wrt (<) ids" "\<forall>i \<in> set ids. inst_ok i" "ids \<noteq> []"
  shows "\<exists>pm. drc_part_init ids (of_nat (length ids)) zero_part_mngr = Some pm \<and> spread pm (first_parts ids (length ids) DRC_MAX_PART_NUM) \<and>
    pm_remaster_status pm = REMASTER_DONE \<and> (\<forall>i. inst_ok i \<longrightarrow> ip_is_used (pm_inst_part_tbl pm ! unat i) = (i \<in> set ids))"
proof -
  let ?n = "length ids" and ?L = "first_parts ids (length ids) DRC_MAX_PART_NUM"
  have dist: "distinct ids" using ids(1) strict_sorted_iff by blast
  have n: "0 < ?n" "?n \<le> OG_MAX_INSTANCES"
    using ids(3) ids_card [OF ids(2) dist] card_mono [of "{..<OG_MAX_INSTANCES}" "{k. k < OG_MAX_INSTANCES \<and> (of_nat k :: u8) \<in> set ids}"] by auto
  then have w: "?n = unat (of_nat ?n :: u8)" by (simp add: unat_of_nat OG_MAX_INSTANCES_def)
  obtain pm where pm: "drc_part_init ids (of_nat ?n) zero_part_mngr = Some pm" "table_ok (pm_part_map pm) (pm_inst_part_tbl pm) ?L"
    "pm_remaster_status pm = REMASTER_DONE" "pm_inst_num pm = of_nat ?n" "pm_remaster_mngr pm = pm_remaster_mngr zero_part_mngr"
    "\<And>j. inst_ok j \<Longrightarrow> ip_is_used (pm_inst_part_tbl pm ! unat j) \<longleftrightarrow> ?L j \<noteq> []"
    using part_init_ok [OF w n(1) order_refl] ids(2) by (auto simp: list_all_iff)
  let ?tbl = "pm_inst_part_tbl pm"
  have len: "length ?tbl = OG_MAX_INSTANCES" using pm(2) tbl_repD(2) by (auto simp: table_ok_def)
  have q: "length (?L (ids ! a)) = quota ?n a" "0 < quota ?n a" if "a < ?n" for a
    using first_parts_length [OF dist that] quota_pos [of ?n a] n by (simp_all add: OG_MAX_INSTANCES_def DRC_MAX_PART_NUM_def)
  have used: "ip_is_used (?tbl ! unat i) \<longleftrightarrow> i \<in> set ids" if "inst_ok i" for i
    using pm(6) [OF that] first_parts_other [of ids i DRC_MAX_PART_NUM] n(1) q by (fastforce simp: in_set_conv_nth)
  have used': "ip_is_used (?tbl ! k) \<longleftrightarrow> (of_nat k :: u8) \<in> set ids" if "k < OG_MAX_INSTANCES" for k
    using used [of "of_nat k"] that by simp
  have rank: "used_rank ?tbl OG_MAX_INSTANCES = ?n"
    using ids_card [OF ids(2) dist] used' by (simp add: rank_card [OF len] cong: conj_cong)
  have "length (?L (of_nat k)) = share ?tbl k" if k: "k < OG_MAX_INSTANCES" for k
  proof (cases "(of_nat k :: u8) \<in> set ids")
    case True
    then obtain a where a: "a < ?n" "of_nat k = ids ! a" by (metis in_set_conv_nth)
    have "used_rank ?tbl k = a" using ascending_rank [OF ids(1,2) a(1) len used'] index_inst(1) [OF k] a(2) by simp
    then show ?thesis using q(1) [OF a(1)] a(2) used' [OF k] True rank by (simp add: share_def)
  next
    case False
    then show ?thesis using first_parts_other [of ids "of_nat k" DRC_MAX_PART_NUM] n(1) used' [OF k] by (simp add: share_def)
  qed
  then have "spread pm ?L" using pm(2,4,5) rank w n(1)
    by (auto simp: spread_def balanced_def parts_rep_def table_ok_def zero_part_mngr_def zero_remaster_mngr_def simp flip: unat_eq_0)
  then show ?thesis using pm(1,3) used by blast
qed

subsection \<open>The plan and the assignment\<close>

text \<open>The change of the tables leaves what the assignment of the tasks starts with, and the task set has room for all tasks.\<close>

definition rest_kept :: "drc_remaster_mngr \<Rightarrow> drc_remaster_mngr \<Rightarrow> bool" where
  "rest_kept dm dm' \<longleftrightarrow> dm_local_task_set dm' = dm_local_task_set dm \<and> dm_local_task_num dm' = dm_local_task_num dm \<and>
     dm_inst_drm_info dm' = dm_inst_drm_info dm \<and> dm_reform_info dm' = dm_reform_info dm \<and>
     length (dm_remaster_task_set dm') = length (dm_remaster_task_set dm) \<and>
     (unat (dm_task_num dm) \<le> length (dm_remaster_task_set dm) \<longrightarrow> length (dm_remaster_task_set dm) \<le> DRC_MAX_PART_NUM \<longrightarrow>
        unat (dm_task_num dm') \<le> length (dm_remaster_task_set dm))"

lemma rest_kept_refl [simp]: "rest_kept dm dm" "rest_kept dm (dm\<lparr>dm_target_inst_part_tbl := tbl\<rparr>)"
    "rest_kept (dm\<lparr>dm_target_inst_part_tbl := tbl\<rparr>) dm' = rest_kept dm dm'"
    "rest_kept dm (dm'\<lparr>dm_target_inst_part_tbl := tbl\<rparr>) = rest_kept dm dm'"
  by (simp_all add: rest_kept_def)

lemma rest_kept_trans: "rest_kept a b \<Longrightarrow> rest_kept b c \<Longrightarrow> rest_kept a c"
  by (simp add: rest_kept_def)

lemma add_task_rest: "drc_add_task p e dm = Some dm' \<Longrightarrow> rest_kept dm dm'"
  by (auto simp: drc_add_task_def rest_kept_def Option.bind_eq_Some_conv rd_def wr_def DRC_MAX_PART_NUM_def unat_inc split: if_splits)

lemma export_parts_rest: "drc_export_parts links e n p dm = Some (q, dm') \<Longrightarrow> rest_kept dm dm'"
  by (induction n arbitrary: p dm) (auto simp: Option.bind_eq_Some_conv intro: rest_kept_trans add_task_rest)

lemma export_inst_rest: "drc_set_remaster_taskset_export_inst i dm = Some dm' \<Longrightarrow> rest_kept dm dm'"
  by (auto simp: drc_set_remaster_taskset_export_inst_def Option.bind_eq_Some_conv dest!: export_parts_rest split: if_splits)

lemma taskset_loop_rest: "drc_taskset_loop expect seq is dm = Some dm' \<Longrightarrow> rest_kept dm dm'"
  by (induction "is" arbitrary: seq dm)
    (auto simp: Option.bind_eq_Some_conv dest!: export_inst_rest intro: rest_kept_trans split: if_splits)

lemma import_part_rest: "drc_import_part st i inst dm = Some dm' \<Longrightarrow> rest_kept dm dm'"
  by (auto simp: drc_import_part_def rest_kept_def Option.bind_eq_Some_conv wr_def split: if_splits)

lemma scaleout_imports_rest: "drc_scaleout_imports arr l is dm = Some dm' \<Longrightarrow> rest_kept dm dm'"
  by (induction "is" arbitrary: l dm) (auto simp: Option.bind_eq_Some_conv Let_def intro: rest_kept_trans import_part_rest)

lemma scaleout_rest: "drc_scaleout_remaster rm arr n pm = Some (st, pm') \<Longrightarrow> rest_kept (pm_remaster_mngr pm) (pm_remaster_mngr pm')"
  by (auto simp: drc_scaleout_remaster_def drc_set_remaster_taskset_drc_in_reformer_mode_def drc_set_remaster_taskset_def Option.bind_eq_Some_conv
      Let_def dest!: taskset_loop_rest scaleout_imports_rest intro: rest_kept_trans split: if_splits)

lemma scalein_loop_rest: "drc_scalein_loop links n seq is dm = Some dm' \<Longrightarrow> rest_kept dm dm'"
proof (induction "is" arbitrary: seq dm)
  case (Cons i "is")
  from Cons.prems show ?case
    by (auto simp: Option.bind_eq_Some_conv dest!: export_parts_rest Cons.IH intro: rest_kept_trans split: if_splits)
qed simp

lemma scalein_imports_rest: "drc_scalein_imports st l is dm = Some dm' \<Longrightarrow> rest_kept dm dm'"
  by (induction "is" arbitrary: l dm) (auto simp: Option.bind_eq_Some_conv intro: rest_kept_trans import_part_rest)

lemma abort_rest: "rest_kept dm dm' \<Longrightarrow> rest_kept dm (dm'\<lparr>dm_task_num := dm_task_num dm\<rparr>)"
  by (simp add: rest_kept_def)

lemma scalein_rest: "drc_scalein_remaster arr n ab pm = Some (st, pm') \<Longrightarrow> rest_kept (pm_remaster_mngr pm) (pm_remaster_mngr pm')"
  by (auto simp: drc_scalein_remaster_def Option.bind_eq_Some_conv Let_def
      dest!: scalein_loop_rest scalein_imports_rest intro: rest_kept_trans abort_rest [OF rest_kept_trans] split: if_splits)

lemma step_then_ok [simp]: "step_then (Some (OG_SUCCESS, x)) f = f x"
  by (simp add: step_then_def)

lemma migrate_status [simp]:
  "pm_remaster_status pm \<noteq> REMASTER_FAIL \<Longrightarrow> drc_update_remaster_local_status REMASTER_MIGRATE pm = pm\<lparr>pm_remaster_status := REMASTER_MIGRATE, pm_is_reentrant := False\<rparr>"
  by (simp add: drc_update_remaster_local_status_def Let_def)

lemma target_fields [simp]:
  "pm_mgrt_fail_list (drc_int_remaster_target v pm) = pm_mgrt_fail_list pm"
  by (simp add: drc_int_remaster_target_def)

lemma published_status [simp]:
  "published (pm\<lparr>pm_remaster_status := st, pm_is_reentrant := r, pm_remaster_finish_step := f\<rparr>) =
   (published pm)\<lparr>pm_remaster_status := st, pm_is_reentrant := r, pm_remaster_finish_step := f\<rparr>"
  by (simp add: published_def drc_update_target_part_def)

lemma spread_status [simp]:
  "spread (pm\<lparr>pm_remaster_status := st, pm_is_reentrant := r, pm_remaster_finish_step := f\<rparr>) L = spread pm L"
  by (simp add: spread_def)

lemma rest_keptD:
  assumes "rest_kept dm dm'" "unassigned self dm" "length (dm_remaster_task_set dm) = DRC_MAX_PART_NUM" "dm_task_num dm = 0"
    "\<forall>(p, i) \<in> set (tasks dm'). inst_ok i"
  shows "plan_ok self dm'" "dm_reform_info dm' = dm_reform_info dm"
  using assms by (auto simp: rest_kept_def plan_ok_def unassigned_def tasks_def)

text \<open>The instances that a reform names.\<close>

definition lists_ok :: "reform_info \<Rightarrow> bool" where
  "lists_ok info \<longleftrightarrow> (\<forall>l \<in> {rf_after info, rf_leave info}. unat (il_inst_id_count l) \<le> length (il_inst_id_list l) \<and>
     (\<forall>i \<in> set (take (unat (il_inst_id_count l)) (il_inst_id_list l)). inst_ok i))"

text \<open>The reform master keeps its own tasks, and every other instance is told exactly those in which it exports.\<close>

definition informed :: "u8 \<Rightarrow> task_msgs \<Rightarrow> drc_remaster_mngr \<Rightarrow> bool" where
  "informed self msgs dm \<longleftrightarrow> planned_local dm = filter (\<lambda>t. tk_export_inst t = self) (planned dm) \<and>
     (\<forall>i. i \<noteq> self \<longrightarrow> told msgs i = filter (\<lambda>t. tk_export_inst t = i) (planned dm))"

lemma assigned_ok:
  assumes "plan_ok self dm" "delivers net" "lists_ok (dm_reform_info dm)"
  shows "\<exists>msgs dm'. drc_assign_remaster_task net self dm = Some (OG_SUCCESS, msgs, dm') \<and> same_plan dm dm' \<and> informed self msgs dm'"
proof -
  let ?ms = "run_msgs dm self (planned dm)"
  have l: "id_entries (il_inst_id_list l) (il_inst_id_count l) = Some (take (unat (il_inst_id_count l)) (il_inst_id_list l))"
      "\<forall>i \<in> set (take (unat (il_inst_id_count l)) (il_inst_id_list l)). inst_ok i"
    if "l \<in> {rf_after (dm_reform_info dm), rf_leave (dm_reform_info dm)}" for l
    using assms(3) that by (auto simp: lists_ok_def id_entries_def)
  obtain es dm' where a: "drc_assign_remaster_task net self dm = Some (OG_SUCCESS, ?ms @ es, dm')" "same_plan dm dm'"
      "recorded self (filter (\<lambda>t. tk_export_inst t = self) (planned dm)) ?ms dm'"
      "\<forall>(i, m) \<in> set es. i \<noteq> self \<and> i \<notin> fst ` set ?ms \<and> m = task_msg dm []"
    using assign_ok [OF assms(1,2) l(1,2) l(1,2)] by blast
  have p: "planned dm' = planned dm" using same_planD [OF a(2)] by (simp add: planned_def)
  have es: "told es i = []" for i using a(4) by (auto simp: told_def task_msg_def)
  have "informed self (?ms @ es) dm'"
    using a(3) told_runs [of _ self dm "planned dm"] es by (simp add: informed_def p recorded_def planned_local_def told_def)
  then show ?thesis using a(1,2) by blast
qed

lemma execute_ok:
  assumes "drc_execute_rebalance rm v info pm = Some (OG_SUCCESS, pm1)" "rest_kept (pm_remaster_mngr (drc_int_remaster_target v pm)) (pm_remaster_mngr pm1)"
    "spread pm L" "unassigned self (pm_remaster_mngr pm)" "delivers net" "lists_ok (dm_reform_info (pm_remaster_mngr pm))"
    "\<forall>(p, i) \<in> set (tasks (pm_remaster_mngr pm1)). p \<in> set (L i)" "pm_remaster_status pm1 \<noteq> REMASTER_FAIL" "spread (published pm1) L'"
  shows "\<exists>msgs dm. drc_execute_remaster rm v net self info pm = Some (OG_SUCCESS, msgs, pm1\<lparr>pm_remaster_mngr := dm,
        pm_remaster_status := REMASTER_MIGRATE, pm_is_reentrant := False, pm_remaster_finish_step := REMASTER_ASSIGN_TASK\<rparr>) \<and>
      same_plan (pm_remaster_mngr pm1) dm \<and> informed self msgs dm \<and> tasks dm = tasks (pm_remaster_mngr pm1) \<and>
      spread (published (pm1\<lparr>pm_remaster_mngr := dm, pm_remaster_status := REMASTER_MIGRATE, pm_is_reentrant := False,
        pm_remaster_finish_step := REMASTER_ASSIGN_TASK\<rparr>)) L'"
proof -
  let ?dm = "pm_remaster_mngr (drc_int_remaster_target v pm)"
  have "unassigned self ?dm" "length (dm_remaster_task_set ?dm) = DRC_MAX_PART_NUM" "dm_task_num ?dm = 0"
      "dm_reform_info ?dm = dm_reform_info (pm_remaster_mngr pm)"
    using assms(3,4) by (simp_all add: unassigned_def spread_def drc_int_remaster_target_def)
  moreover have "\<forall>(p, i) \<in> set (tasks (pm_remaster_mngr pm1)). inst_ok i"
    using assms(7) tbl_repD(7) [OF spreadD(1) [OF assms(3)]] by blast
  ultimately have plan: "plan_ok self (pm_remaster_mngr pm1)" "dm_reform_info (pm_remaster_mngr pm1) = dm_reform_info (pm_remaster_mngr pm)"
    using rest_keptD [OF assms(2)] by simp_all
  obtain msgs dm where a: "drc_assign_remaster_task net self (pm_remaster_mngr pm1) = Some (OG_SUCCESS, msgs, dm)"
      "same_plan (pm_remaster_mngr pm1) dm" "informed self msgs dm"
    using assigned_ok [OF plan(1) assms(5)] assms(6) plan(2) by auto
  note S = same_planD [OF a(2)]
  have "spread (published (pm1\<lparr>pm_remaster_mngr := dm\<rparr>)) L'"
    using assms(9) S by (simp add: spread_def published_def drc_update_target_part_def)
  then show ?thesis using a assms(1,8) S
    by (intro exI [of _ msgs] exI [of _ dm]) (simp add: drc_execute_remaster_def tasks_def Let_def)
qed

subsection \<open>Balance\<close>

text \<open>
  Claim C13. When instances join, the reform master spreads the partitions again: from a balanced table the whole change ends with success,
  the tables in use are as before, and the target tables are balanced for the larger cluster: every partition has one master
  and every instance has its share. Every instance is told its tasks. The instances that were there only give partitions away (from the front of their lists), and every
  partition that moves is exported by its master.
\<close>

theorem remaster_join_balances:
  assumes "spread pm L" and "names (il_inst_id_list (rf_join info)) (il_inst_id_count (rf_join info)) ids"
    and "ids \<noteq> []" "distinct ids" "\<forall>i \<in> set ids. inst_ok i \<and> \<not> ip_is_used (pm_inst_part_tbl pm ! unat i)"
    and "il_inst_id_count (rf_leave info) = 0" "il_inst_id_count (rf_abort info) = 0" "il_inst_id_count (rf_fail info) = 0"
    and "pm_remaster_status pm \<noteq> REMASTER_FAIL" "unassigned self (pm_remaster_mngr pm)" "delivers net" "lists_ok (dm_reform_info (pm_remaster_mngr pm))"
  shows "\<exists>msgs pm' L'. drc_execute_remaster False v net self info pm = Some (OG_SUCCESS, msgs, pm') \<and> informed self msgs (pm_remaster_mngr pm') \<and>
    pm_part_map pm' = pm_part_map pm \<and> pm_inst_part_tbl pm' = pm_inst_part_tbl pm \<and> pm_remaster_status pm' = REMASTER_MIGRATE \<and>
    spread (published pm') L' \<and>
    (\<forall>i. inst_ok i \<longrightarrow> ip_is_used (dm_target_inst_part_tbl (pm_remaster_mngr pm') ! unat i) = (i \<in> set ids \<or> ip_is_used (pm_inst_part_tbl pm ! unat i))) \<and>
    (\<forall>i. i \<notin> set ids \<longrightarrow> (\<exists>ps. L i = ps @ L' i)) \<and>
    (\<forall>(p, i) \<in> set (tasks (pm_remaster_mngr pm')). p \<in> set (L i))"
proof -
  obtain dm L' where so: "drc_scaleout_remaster False (il_inst_id_list (rf_join info)) (il_inst_id_count (rf_join info)) (drc_int_remaster_target v pm) =
      Some (OG_SUCCESS, pm\<lparr>pm_remaster_mngr := dm, pm_inst_num := pm_inst_num pm + il_inst_id_count (rf_join info)\<rparr>)"
    "spread (published (pm\<lparr>pm_remaster_mngr := dm, pm_inst_num := pm_inst_num pm + il_inst_id_count (rf_join info)\<rparr>)) L'"
    "\<forall>i. inst_ok i \<longrightarrow> ip_is_used (dm_target_inst_part_tbl dm ! unat i) = (i \<in> set ids \<or> ip_is_used (pm_inst_part_tbl pm ! unat i))"
    "\<forall>i. i \<notin> set ids \<longrightarrow> (\<exists>ps. L i = ps @ L' i)" "\<forall>(p, i) \<in> set (tasks dm). p \<in> set (L i)"
    using scaleout_ok [OF assms(1-5), of v] by blast
  let ?pm = "pm\<lparr>pm_remaster_mngr := dm, pm_inst_num := pm_inst_num pm + il_inst_id_count (rf_join info)\<rparr>"
  have "drc_execute_rebalance False v info pm = Some (OG_SUCCESS, ?pm)"
    using so(1) assms(3,6-8) namesD(4) [OF assms(2)] by (simp add: drc_execute_rebalance_def)
  from execute_ok [OF this _ assms(1) assms(10-12) _ _ so(2)] obtain msgs dm' where e:
      "drc_execute_remaster False v net self info pm = Some (OG_SUCCESS, msgs, ?pm\<lparr>pm_remaster_mngr := dm',
        pm_remaster_status := REMASTER_MIGRATE, pm_is_reentrant := False, pm_remaster_finish_step := REMASTER_ASSIGN_TASK\<rparr>)"
      "same_plan dm dm'" "informed self msgs dm'" "tasks dm' = tasks dm"
      "spread (published (?pm\<lparr>pm_remaster_mngr := dm', pm_remaster_status := REMASTER_MIGRATE, pm_is_reentrant := False,
        pm_remaster_finish_step := REMASTER_ASSIGN_TASK\<rparr>)) L'"
    using so(5) assms(9) scaleout_rest [OF so(1)] by auto
  show ?thesis
    by (intro exI [of _ msgs] exI [of _ L'] exI conjI, rule e(1)) (use so(3-5) e(2-5) same_planD(7) [OF e(2)] in simp_all)
qed

text \<open>A reform in which instances 1 and 2 join, and one in which instance 1 leaves.\<close>

definition sample_join :: reform_info where
  "sample_join = zero_reform_info\<lparr>rf_join := \<lparr>il_inst_id_list = [1, 2], il_inst_id_count = 2\<rparr>,
     rf_after := \<lparr>il_inst_id_list = [0, 1, 2], il_inst_id_count = 3\<rparr>\<rparr>"

definition sample_leave :: reform_info where
  "sample_leave = zero_reform_info\<lparr>rf_leave := \<lparr>il_inst_id_list = [1], il_inst_id_count = 1\<rparr>,
     rf_after := \<lparr>il_inst_id_list = [0, 2], il_inst_id_count = 2\<rparr>\<rparr>"

definition reforming :: "reform_info \<Rightarrow> drc_part_mngr \<Rightarrow> drc_part_mngr" where
  "reforming info pm = pm\<lparr>pm_remaster_mngr := (pm_remaster_mngr pm)\<lparr>dm_reform_info := info\<rparr>\<rparr>"

lemma reforming_fields [simp]:
  "spread (reforming info pm) L = spread pm L" "pm_inst_part_tbl (reforming info pm) = pm_inst_part_tbl pm"
  "pm_remaster_status (reforming info pm) = pm_remaster_status pm" "pm_inst_num (reforming info pm) = pm_inst_num pm"
  "dm_reform_info (pm_remaster_mngr (reforming info pm)) = info"
  by (simp_all add: reforming_def spread_def)

lemma reforming_unassigned:
  assumes "pm_remaster_mngr pm = zero_remaster_mngr"
  shows "unassigned 0 (pm_remaster_mngr (reforming info pm))"
  using assms by (simp add: reforming_def unassigned_def zero_remaster_mngr_def inst_ok_def OG_MAX_INSTANCES_def)

lemma sample_lists: "lists_ok sample_join" "lists_ok sample_leave"
  by (simp_all add: lists_ok_def sample_join_def sample_leave_def zero_reform_info_def no_instances_def inst_ok_def OG_MAX_INSTANCES_def)

theorem remaster_join_balances_witness:
  "\<exists>pm msgs pm' L'. drc_part_init [0] 1 zero_part_mngr = Some pm \<and>
    drc_execute_remaster False 7 sample_net 0 sample_join (reforming sample_join pm) = Some (OG_SUCCESS, msgs, pm') \<and> spread (published pm') L'"
proof -
  obtain pm where pm: "drc_part_init [0] 1 zero_part_mngr = Some pm" "spread pm (first_parts [0] 1 DRC_MAX_PART_NUM)"
    "pm_remaster_status pm = REMASTER_DONE" "\<forall>i. inst_ok i \<longrightarrow> ip_is_used (pm_inst_part_tbl pm ! unat i) = (i = 0)"
    using first_table_spread [of "[0]"] by (auto simp: inst_ok_def OG_MAX_INSTANCES_def)
  have mngr: "pm_remaster_mngr pm = zero_remaster_mngr"
    using part_init_ok [of 1 1 "[0]"] pm(1) by (simp add: inst_ok_def OG_MAX_INSTANCES_def zero_part_mngr_def)
  let ?pm = "reforming sample_join pm"
  have n: "names (il_inst_id_list (rf_join sample_join)) (il_inst_id_count (rf_join sample_join)) [1, 2]" by (simp add: names_def sample_join_def)
  have new: "[1, 2 :: u8] \<noteq> []" "distinct [1, 2 :: u8]" "\<forall>i \<in> set [1, 2]. inst_ok i \<and> \<not> ip_is_used (pm_inst_part_tbl ?pm ! unat i)"
    using pm(4) [rule_format, of 1] pm(4) [rule_format, of 2] by (simp_all add: inst_ok_def OG_MAX_INSTANCES_def)
  have c: "il_inst_id_count (rf_leave sample_join) = 0" "il_inst_id_count (rf_abort sample_join) = 0" "il_inst_id_count (rf_fail sample_join) = 0"
    by (simp_all add: sample_join_def zero_reform_info_def no_instances_def)
  have p: "spread ?pm (first_parts [0] 1 DRC_MAX_PART_NUM)" "pm_remaster_status ?pm \<noteq> REMASTER_FAIL" "lists_ok (dm_reform_info (pm_remaster_mngr ?pm))"
    using pm(2,3) sample_lists(1) by simp_all
  show ?thesis
    using remaster_join_balances [OF p(1) n new c p(2) reforming_unassigned [OF mngr] sample_net_delivers p(3), of 7] pm(1)
    by (elim exE conjE) (intro exI conjI; assumption)
qed



end
