(* ===== verification/Remaster_Publish.thy ===== *)
theory Remaster_Publish
  imports Remaster_Coord Remaster_Properties
begin

text \<open>
  Two properties of the coordination: the wait for the instances ends, with success exactly when all report in time; and after the
  publication every instance that accepts the new tables finds the same master for every page and lock as the reform master.
\<close>

subsection \<open>The wait for all instances ends\<close>

text \<open>The states between the sleeps, and the reference for readiness.\<close>

primrec after_sleeps :: "(nat \<Rightarrow> 'a \<Rightarrow> 'a) \<Rightarrow> nat \<Rightarrow> 'a \<Rightarrow> 'a" where
  "after_sleeps others 0 s = s"
| "after_sleeps others (Suc n) s = others n (after_sleeps others n s)"

definition reform_members :: "reform_info \<Rightarrow> u8 set" where
  "reform_members info = set (take (unat (il_inst_id_count (rf_after info))) (il_inst_id_list (rf_after info))) \<union>
     set (take (unat (il_inst_id_count (rf_leave info))) (il_inst_id_list (rf_leave info)))"

definition all_report :: "reform_info \<Rightarrow> drc_remaster_status \<Rightarrow> drc_instance \<Rightarrow> bool" where
  "all_report info status ogx \<longleftrightarrow>
     (\<forall>i \<in> reform_members info. di_remaster_status (dm_inst_drm_info (pm_remaster_mngr (in_part_mngr ogx)) ! unat i) = status)"

definition drm_sized :: "drc_instance \<Rightarrow> bool" where
  "drm_sized ogx \<longleftrightarrow> length (dm_inst_drm_info (pm_remaster_mngr (in_part_mngr ogx))) = OG_MAX_INSTANCES"

lemma insts_have_status_ok:
  "length infos = OG_MAX_INSTANCES \<Longrightarrow> \<forall>i \<in> set ids. inst_ok i \<Longrightarrow>
   insts_have_status status infos ids = Some (\<forall>i \<in> set ids. di_remaster_status (infos ! unat i) = status)"
  by (induction ids) (auto simp: inst_ok_lt)

lemma is_ready_ok:
  assumes "lists_ok info" "drm_sized ogx"
  shows "drc_remaster_is_ready info status (pm_remaster_mngr (in_part_mngr ogx)) = Some (all_report info status ogx)"
  using assms insts_have_status_ok [of "dm_inst_drm_info (pm_remaster_mngr (in_part_mngr ogx))"]
  by (auto simp: drc_remaster_is_ready_def lists_ok_def id_entries_def drm_sized_def all_report_def reform_members_def)

lemma wait_loop_ok:
  assumes info: "lists_ok info" and sized: "\<And>k. drm_sized (after_sleeps others k ogx)" and timeout: "unat timeout + 5 < 2 ^ 64"
    and n: "5 * n < unat timeout + 5"
  shows "\<exists>k. n \<le> k \<and> 5 * k < unat timeout + 5 \<and>
    drc_wait_ready_loop others info timeout status n (of_nat (5 * n)) (after_sleeps others n ogx) =
      Some (if all_report info status (after_sleeps others k ogx) then OG_SUCCESS else OG_ERROR, after_sleeps others k ogx) \<and>
    (\<forall>j. n \<le> j \<longrightarrow> j < k \<longrightarrow> \<not> all_report info status (after_sleeps others j ogx)) \<and>
    (all_report info status (after_sleeps others k ogx) \<or> pm_remaster_status (in_part_mngr (after_sleeps others k ogx)) = REMASTER_FAIL \<or>
     unat timeout \<le> 5 * k)"
  using n
proof (induction "unat timeout - 5 * n" arbitrary: n rule: less_induct)
  case less
  let ?s = "after_sleeps others n ogx"
  let ?stop = "all_report info status ?s \<or> pm_remaster_status (in_part_mngr ?s) = REMASTER_FAIL \<or> unat timeout \<le> 5 * n"
  have e: "unat (of_nat (5 * n) :: u64) = 5 * n" using less.prems timeout by (simp only: unat_of_nat) simp
  then have late: "timeout \<le> of_nat (5 * n) \<longleftrightarrow> unat timeout \<le> 5 * n" by (simp add: word_le_nat_alt)
  note loop = drc_wait_ready_loop.simps [of others info timeout status n "of_nat (5 * n)" ?s] is_ready_ok [OF info sized, of status n]
  show ?case
  proof (cases ?stop)
    case True
    then show ?thesis using loop late less.prems by (intro exI [of _ n]) auto
  next
    case False
    have step: "(of_nat (5 * n) :: u64) + REMASTER_SLEEP_INTERVAL = of_nat (5 * Suc n)" by (simp add: REMASTER_SLEEP_INTERVAL_def)
    have "unat timeout - 5 * Suc n < unat timeout - 5 * n" "5 * Suc n < unat timeout + 5" using False by auto
    from less.hyps [OF this] obtain k where k: "Suc n \<le> k" "5 * k < unat timeout + 5"
      "drc_wait_ready_loop others info timeout status (Suc n) (of_nat (5 * Suc n)) (after_sleeps others (Suc n) ogx) =
        Some (if all_report info status (after_sleeps others k ogx) then OG_SUCCESS else OG_ERROR, after_sleeps others k ogx)"
      "\<forall>j. Suc n \<le> j \<longrightarrow> j < k \<longrightarrow> \<not> all_report info status (after_sleeps others j ogx)"
      "all_report info status (after_sleeps others k ogx) \<or> pm_remaster_status (in_part_mngr (after_sleeps others k ogx)) = REMASTER_FAIL \<or>
       unat timeout \<le> 5 * k" by blast
    have "drc_wait_ready_loop others info timeout status n (of_nat (5 * n)) ?s =
        drc_wait_ready_loop others info timeout status (Suc n) (of_nat (5 * Suc n)) (after_sleeps others (Suc n) ogx)"
      using False loop late unfolding step by simp
    moreover have "\<forall>j. n \<le> j \<longrightarrow> j < k \<longrightarrow> \<not> all_report info status (after_sleeps others j ogx)"
      using k(4) False by (metis Suc_leI le_neq_implies_less)
    ultimately show ?thesis using k(1,2,3,5) by (intro exI [of _ k]) simp
  qed
qed

text \<open>
  Claim C18. The wait of the reform master for the other instances always ends, whatever the other threads do meanwhile: after at
  most as many sleeps of 5 ms as fit in the timeout, and at the first moment at which all members and all leaving instances report the
  status. It ends with success if and only if they do; otherwise the change has failed or the time is up.
\<close>

theorem remaster_wait_ends:
  assumes "lists_ok info" "\<forall>k. drm_sized (after_sleeps others k ogx)" "unat timeout + 5 < 2 ^ 64"
  shows "\<exists>k. 5 * k < unat timeout + 5 \<and>
    drc_remaster_wait_all_node_ready others info timeout status ogx =
      Some (if all_report info status (after_sleeps others k ogx) then OG_SUCCESS else OG_ERROR, after_sleeps others k ogx) \<and>
    (\<forall>j < k. \<not> all_report info status (after_sleeps others j ogx)) \<and>
    (all_report info status (after_sleeps others k ogx) \<or> pm_remaster_status (in_part_mngr (after_sleeps others k ogx)) = REMASTER_FAIL \<or>
     unat timeout \<le> 5 * k)"
  using wait_loop_ok [OF assms(1) _ assms(3), of others ogx 0 status] assms(2) by (simp add: drc_remaster_wait_all_node_ready_def)

text \<open>Instance 1 reports in the third sleep.\<close>

definition sample_report :: "nat \<Rightarrow> drc_instance \<Rightarrow> drc_instance" where
  "sample_report n ogx = (if n = 2
     then ogx\<lparr>in_part_mngr := (in_part_mngr ogx)\<lparr>pm_remaster_mngr := (pm_remaster_mngr (in_part_mngr ogx))
       \<lparr>dm_inst_drm_info := replicate OG_MAX_INSTANCES \<lparr>di_remaster_status = REMASTER_ASSIGN_TASK, di_task_num = 0\<rparr>\<rparr>\<rparr>\<rparr> else ogx)"

theorem remaster_wait_ends_witness:
  "\<exists>ogx. drc_remaster_wait_all_node_ready sample_report sample_join REMASTER_WAIT_ALL_NODE_READY_TIMEOUT REMASTER_ASSIGN_TASK zero_instance =
     Some (OG_SUCCESS, ogx)"
proof -
  have sized: "drm_sized (after_sleeps sample_report k zero_instance)" for k
    by (induction k) (auto simp: drm_sized_def sample_report_def zero_instance_def zero_part_mngr_def zero_remaster_mngr_def)
  have three: "all_report sample_join REMASTER_ASSIGN_TASK (after_sleeps sample_report (Suc (Suc (Suc 0))) zero_instance)"
    by (auto simp: all_report_def reform_members_def sample_join_def sample_report_def zero_reform_info_def no_instances_def OG_MAX_INSTANCES_def)
  have go: "pm_remaster_status (in_part_mngr (after_sleeps sample_report k zero_instance)) = REMASTER_PREPARE" for k
    by (induction k) (auto simp: sample_report_def zero_instance_def zero_part_mngr_def)
  have "unat REMASTER_WAIT_ALL_NODE_READY_TIMEOUT + 5 < 2 ^ 64" by (simp add: REMASTER_WAIT_ALL_NODE_READY_TIMEOUT_def)
  then obtain k where k: "drc_remaster_wait_all_node_ready sample_report sample_join REMASTER_WAIT_ALL_NODE_READY_TIMEOUT REMASTER_ASSIGN_TASK zero_instance =
      Some (if all_report sample_join REMASTER_ASSIGN_TASK (after_sleeps sample_report k zero_instance) then OG_SUCCESS else OG_ERROR,
        after_sleeps sample_report k zero_instance)"
      "\<forall>j < k. \<not> all_report sample_join REMASTER_ASSIGN_TASK (after_sleeps sample_report j zero_instance)"
      "all_report sample_join REMASTER_ASSIGN_TASK (after_sleeps sample_report k zero_instance) \<or>
        pm_remaster_status (in_part_mngr (after_sleeps sample_report k zero_instance)) = REMASTER_FAIL \<or> unat REMASTER_WAIT_ALL_NODE_READY_TIMEOUT \<le> 5 * k"
    using remaster_wait_ends [of sample_join sample_report zero_instance REMASTER_WAIT_ALL_NODE_READY_TIMEOUT REMASTER_ASSIGN_TASK] sized sample_lists(1) by blast
  have "k \<le> Suc (Suc (Suc 0))" using k(2) three by (meson not_le_imp_less)
  then have "all_report sample_join REMASTER_ASSIGN_TASK (after_sleeps sample_report k zero_instance)"
    using k(3) go [of k] by (auto simp: REMASTER_WAIT_ALL_NODE_READY_TIMEOUT_def)
  then show ?thesis using k(1) by simp
qed

subsection \<open>Publication\<close>

lemma deposits_frame: "drc_set_deposits target ids i n ogx = Some ogx' \<Longrightarrow> in_part_mngr ogx' = in_part_mngr ogx"
  by (induction n arbitrary: i ogx) (auto simp: Option.bind_eq_Some_conv drc_set_deposit_id_def)

lemma inst_list_frame: "drc_remaster_inst_list info ogx = Some ogx' \<Longrightarrow> in_part_mngr ogx' = in_part_mngr ogx"
  by (auto simp: drc_remaster_inst_list_def deposit_list_def Option.bind_eq_Some_conv dest!: deposits_frame)

definition deposit_lists_ok :: "reform_info \<Rightarrow> bool" where
  "deposit_lists_ok info \<longleftrightarrow> list_ok (rf_leave info) \<and> list_ok (rf_abort info) \<and> list_ok (rf_join info) \<and> list_ok (rf_fail info)"

lemma inst_list_ok:
  assumes "deposits_ok ogx" "deposit_lists_ok info"
  shows "\<exists>ogx'. drc_remaster_inst_list info ogx = Some ogx' \<and> in_part_mngr ogx' = in_part_mngr ogx"
proof -
  let ?m = "\<lambda>_ :: u8. rf_master_id info"
  obtain o1 where o1: "deposit_list ?m (rf_leave info) ogx = Some o1" "deposits_ok o1"
    using deposit_list_ok [of ogx "rf_leave info" ?m] assms by (auto simp: deposit_lists_ok_def)
  obtain o2 where o2: "deposit_list ?m (rf_abort info) o1 = Some o2" "deposits_ok o2"
    using deposit_list_ok [of o1 "rf_abort info" ?m] o1(2) assms(2) by (auto simp: deposit_lists_ok_def)
  obtain o3 where o3: "deposit_list (\<lambda>i. i) (rf_join info) o2 = Some o3" "deposits_ok o3"
    using deposit_list_ok [of o2 "rf_join info" "\<lambda>i. i"] o2(2) assms(2) by (auto simp: deposit_lists_ok_def)
  obtain o4 where o4: "deposit_list ?m (rf_fail info) o3 = Some o4"
    using deposit_list_ok [of o3 "rf_fail info" ?m] o3(2) assms(2) by (auto simp: deposit_lists_ok_def)
  have "drc_remaster_inst_list info ogx = Some o4" using o1(1) o2(1) o3(1) o4 by (simp add: drc_remaster_inst_list_def)
  then show ?thesis using inst_list_frame by blast
qed

lemma wait_success:
  assumes "lists_ok info" "\<And>k. drm_sized (after_sleeps others k ogx)" "unat timeout + 5 < 2 ^ 64"
    "\<exists>k. 5 * k < unat timeout + 5 \<and> all_report info status (after_sleeps others k ogx)"
    "\<And>k. pm_remaster_status (in_part_mngr (after_sleeps others k ogx)) \<noteq> REMASTER_FAIL"
  shows "\<exists>k. drc_remaster_wait_all_node_ready others info timeout status ogx = Some (OG_SUCCESS, after_sleeps others k ogx)"
proof -
  obtain k where k: "drc_remaster_wait_all_node_ready others info timeout status ogx =
      Some (if all_report info status (after_sleeps others k ogx) then OG_SUCCESS else OG_ERROR, after_sleeps others k ogx)"
      "\<forall>j < k. \<not> all_report info status (after_sleeps others j ogx)"
      "all_report info status (after_sleeps others k ogx) \<or> unat timeout \<le> 5 * k"
    using wait_loop_ok [OF assms(1,2,3), of 0 status] assms(5) by (auto simp: drc_remaster_wait_all_node_ready_def)
  obtain l where l: "5 * l < unat timeout + 5" "all_report info status (after_sleeps others l ogx)" using assms(4) by blast
  then have "k \<le> l" using k(2) by (meson not_le_imp_less)
  have "all_report info status (after_sleeps others k ogx)"
  proof (rule ccontr)
    assume no: "\<not> all_report info status (after_sleeps others k ogx)"
    then have "5 * l < 5 * k + 5" using k(3) l(1) by linarith
    then have "k = l" using \<open>k \<le> l\<close> by linarith
    then show False using no l(2) by simp
  qed
  then show ?thesis using k(1) by auto
qed

text \<open>An instance that has done its part of the change, and waits for the new tables.\<close>

definition published_to :: "reform_info \<Rightarrow> drc_instance \<Rightarrow> bool" where
  "published_to info ogx \<longleftrightarrow> pm_remaster_status (in_part_mngr ogx) = REMASTER_PUBLISH \<and>
     dm_reform_info (pm_remaster_mngr (in_part_mngr ogx)) = info \<and> deposits_ok ogx"

text \<open>The tables of two instances agree, and so do the masters of all pages and locks.\<close>

definition same_tables :: "drc_part_mngr \<Rightarrow> drc_part_mngr \<Rightarrow> bool" where
  "same_tables pm pm' \<longleftrightarrow> pm_part_map pm = pm_part_map pm' \<and> pm_inst_part_tbl pm = pm_inst_part_tbl pm'"

lemma same_tables_masters:
  assumes "same_tables pm pm'"
  shows "drc_get_page_master_id ext_pages pm pagid id0 = drc_get_page_master_id ext_pages pm' pagid id0"
    "drc_get_lock_master_id promote pm lock_id = drc_get_lock_master_id promote pm' lock_id"
  using assms by (simp_all add: same_tables_def drc_get_page_master_id_def drc_get_lock_master_id_def DRC_PART_MASTER_ID_def)

definition target_msg :: "drc_remaster_mngr \<Rightarrow> drc_remaster_target_part_msg" where
  "target_msg dm = \<lparr>tp_status = OG_SUCCESS, tp_reform_trigger_version = rf_trigger_version (dm_reform_info dm),
     tp_buffer_len = SIZEOF_TARGET_PART, tp_target_part_map = dm_target_part_map dm, tp_target_inst_part_tbl = dm_target_inst_part_tbl dm\<rparr>"

lemma accept_target_ok:
  assumes "published_to info f" "deposit_lists_ok info" "dm_reform_info dm = info"
  shows "\<exists>f'. drc_accept_target_part True True (target_msg dm) f = Some (Some OG_SUCCESS, f') \<and>
    in_part_mngr f' = drc_update_target_part (dm_target_part_map dm) (dm_target_inst_part_tbl dm) (in_part_mngr f)"
proof -
  let ?f = "f\<lparr>in_part_mngr := drc_update_target_part (dm_target_part_map dm) (dm_target_inst_part_tbl dm) (in_part_mngr f)\<rparr>"
  have "deposits_ok ?f" using assms(1) by (simp add: published_to_def deposits_ok_def)
  then obtain f' where "drc_remaster_inst_list info ?f = Some f'" "in_part_mngr f' = in_part_mngr ?f"
    using inst_list_ok [OF _ assms(2)] by blast
  then show ?thesis
    using assms(1,3) by (auto simp: drc_accept_target_part_def target_msg_def published_to_def drc_accept_target_part_parameter_check_def Let_def)
qed

lemma accept_done_ok:
  assumes "pm_remaster_status pm = REMASTER_PUBLISH" "rn_reform_trigger_version msg = rf_trigger_version (dm_reform_info (pm_remaster_mngr pm))"
  shows "drc_accept_remaster_done True True msg pm = (Some OG_SUCCESS, drc_update_remaster_local_status REMASTER_DONE pm)"
  using assms by (simp add: drc_accept_remaster_done_def)

lemma publish_ok:
  assumes start: "dm_is_master (pm_remaster_mngr (in_part_mngr ogx0))" "dm_reform_info (pm_remaster_mngr (in_part_mngr ogx0)) = info"
    and wait: "drc_remaster_wait_all_node_ready others info timeout REMASTER_PUBLISH ogx0 = Some (OG_SUCCESS, ogx)"
    and m: "published_to info ogx" "lists_ok info" "deposit_lists_ok info" and net: "\<And>a m. bcast_part a m = OG_SUCCESS" "\<And>a m. bcast_done a m = OG_SUCCESS"
  shows "\<exists>ogx'. drc_remaster_step_publish others timeout (Some buf) bcast_part bcast_done self ogx0 =
      Some (OG_SUCCESS, Some (target_msg (pm_remaster_mngr (in_part_mngr ogx))),
        Some \<lparr>rn_remaster_status = REMASTER_PUBLISH, rn_reform_trigger_version = rf_trigger_version info\<rparr>, ogx') \<and>
    in_part_mngr ogx' = (drc_update_remaster_local_status REMASTER_DONE (drc_update_target_part
      (dm_target_part_map (pm_remaster_mngr (in_part_mngr ogx))) (dm_target_inst_part_tbl (pm_remaster_mngr (in_part_mngr ogx))) (in_part_mngr ogx)))
      \<lparr>pm_remaster_finish_step := REMASTER_PUBLISH\<rparr>"
proof -
  let ?pm = "in_part_mngr ogx"
  let ?dm = "pm_remaster_mngr ?pm"
  let ?o = "ogx\<lparr>in_part_mngr := ?pm\<lparr>pm_remaster_finish_step := REMASTER_RECOVERY, pm_part_map := dm_target_part_map ?dm, pm_inst_part_tbl := dm_target_inst_part_tbl ?dm\<rparr>\<rparr>"
  have st: "pm_remaster_status ?pm = REMASTER_PUBLISH" "dm_reform_info ?dm = info" using m(1) by (simp_all add: published_to_def)
  have "deposits_ok ?o" using m(1) by (simp add: published_to_def deposits_ok_def)
  then obtain o' where o': "drc_remaster_inst_list info ?o = Some o'" "in_part_mngr o' = in_part_mngr ?o"
    using inst_list_ok [OF _ m(3)] by blast
  obtain alive where alive: "get_alive_bitmap_by_reform_info info = Some alive"
    using m(2) by (auto simp: get_alive_bitmap_by_reform_info_def lists_ok_def id_entries_def)
  have msg: "drc_broadcast_target_part (Some buf) bcast_part OG_SUCCESS a (?dm) = (OG_SUCCESS, Some (target_msg ?dm))" for a
    by (simp add: drc_broadcast_target_part_def target_msg_def net)
  show ?thesis
    using start wait o' alive msg net(2) st
    by (simp add: drc_remaster_step_publish_def Let_def drc_update_remaster_local_status_def drc_update_target_part_def)
qed

text \<open>
  Claim C16. The publication makes the instances agree. When all instances report in time that they have done their part, whatever the
  other threads do meanwhile, and the broadcasts are acknowledged: the reform master ends with success, has the
  target tables in use and is done. Every instance of the reform that takes the broadcast message then has the same tables, so that
  it has the same master for every page and every lock, and the message that follows makes it done as well. An instance of another reform
  refuses the message and keeps its state.
\<close>

theorem remaster_publish_agrees:
  assumes "\<forall>k. published_to info (after_sleeps others k ogx) \<and> drm_sized (after_sleeps others k ogx)" "dm_is_master (pm_remaster_mngr (in_part_mngr ogx))"
    and "lists_ok info" "deposit_lists_ok info" "unat timeout + 5 < 2 ^ 64"
    and "\<exists>k. 5 * k < unat timeout + 5 \<and> all_report info REMASTER_PUBLISH (after_sleeps others k ogx)"
    and "\<forall>a m. bcast_part a m = OG_SUCCESS" "\<forall>a m. bcast_done a m = OG_SUCCESS"
  shows "\<exists>k msg fin ogx'. drc_remaster_step_publish others timeout (Some buf) bcast_part bcast_done self ogx =
      Some (OG_SUCCESS, Some msg, Some fin, ogx') \<and> pm_remaster_status (in_part_mngr ogx') = REMASTER_DONE \<and>
    pm_part_map (in_part_mngr ogx') = dm_target_part_map (pm_remaster_mngr (in_part_mngr (after_sleeps others k ogx))) \<and>
    pm_inst_part_tbl (in_part_mngr ogx') = dm_target_inst_part_tbl (pm_remaster_mngr (in_part_mngr (after_sleeps others k ogx))) \<and>
    (\<forall>f. published_to info f \<longrightarrow> (\<exists>f' pm'. drc_accept_target_part True True msg f = Some (Some OG_SUCCESS, f') \<and>
       drc_accept_remaster_done True True fin (in_part_mngr f') = (Some OG_SUCCESS, pm') \<and> pm_remaster_status pm' = REMASTER_DONE \<and>
       (\<forall>ext_pages pagid id0. drc_get_page_master_id ext_pages pm' pagid id0 = drc_get_page_master_id ext_pages (in_part_mngr ogx') pagid id0) \<and>
       (\<forall>promote lock_id. drc_get_lock_master_id promote pm' lock_id = drc_get_lock_master_id promote (in_part_mngr ogx') lock_id))) \<and>
    (\<forall>f info'. published_to info' f \<and> rf_trigger_version info' \<noteq> rf_trigger_version info \<longrightarrow>
       drc_accept_target_part True True msg f = Some (Some OG_ERROR, f))"
proof -
  obtain k where k: "drc_remaster_wait_all_node_ready others info timeout REMASTER_PUBLISH ogx = Some (OG_SUCCESS, after_sleeps others k ogx)"
    using wait_success [OF assms(3) _ assms(5,6)] assms(1) by (auto simp: published_to_def)
  let ?s = "after_sleeps others k ogx"
  let ?dm = "pm_remaster_mngr (in_part_mngr ?s)"
  have s: "published_to info ?s" and i: "dm_reform_info (pm_remaster_mngr (in_part_mngr ogx)) = info"
    using assms(1) [rule_format, of k] assms(1) [rule_format, of 0] by (simp_all add: published_to_def)
  let ?fin = "\<lparr>rn_remaster_status = REMASTER_PUBLISH, rn_reform_trigger_version = rf_trigger_version info\<rparr>"
  obtain ogx' where o: "drc_remaster_step_publish others timeout (Some buf) bcast_part bcast_done self ogx = Some (OG_SUCCESS, Some (target_msg ?dm), Some ?fin, ogx')"
    "in_part_mngr ogx' = (drc_update_remaster_local_status REMASTER_DONE (drc_update_target_part (dm_target_part_map ?dm) (dm_target_inst_part_tbl ?dm) (in_part_mngr ?s)))
      \<lparr>pm_remaster_finish_step := REMASTER_PUBLISH\<rparr>"
    using publish_ok [OF assms(2) i k s assms(3,4), of bcast_part bcast_done buf self] assms(7,8) by blast
  have st: "pm_remaster_status (in_part_mngr ogx') = REMASTER_DONE" "pm_part_map (in_part_mngr ogx') = dm_target_part_map ?dm"
      "pm_inst_part_tbl (in_part_mngr ogx') = dm_target_inst_part_tbl ?dm"
    using o(2) s by (simp_all add: drc_update_remaster_local_status_def drc_update_target_part_def published_to_def Let_def)
  have dm: "dm_reform_info ?dm = info" using s by (simp add: published_to_def)
  have follow: "\<exists>f' pm'. drc_accept_target_part True True (target_msg ?dm) f = Some (Some OG_SUCCESS, f') \<and>
      drc_accept_remaster_done True True ?fin (in_part_mngr f') = (Some OG_SUCCESS, pm') \<and> pm_remaster_status pm' = REMASTER_DONE \<and> same_tables pm' (in_part_mngr ogx')"
    if f: "published_to info f" for f
  proof -
    obtain f' where f': "drc_accept_target_part True True (target_msg ?dm) f = Some (Some OG_SUCCESS, f')"
      "in_part_mngr f' = drc_update_target_part (dm_target_part_map ?dm) (dm_target_inst_part_tbl ?dm) (in_part_mngr f)"
      using accept_target_ok [OF f assms(4) dm] by blast
    then have "drc_accept_remaster_done True True ?fin (in_part_mngr f') = (Some OG_SUCCESS, drc_update_remaster_local_status REMASTER_DONE (in_part_mngr f'))"
      using f by (intro accept_done_ok) (simp_all add: drc_update_target_part_def published_to_def)
    then show ?thesis using f' f st(2,3)
      by (auto simp: drc_update_remaster_local_status_def drc_update_target_part_def published_to_def same_tables_def Let_def)
  qed
  have refuse: "drc_accept_target_part True True (target_msg ?dm) f = Some (Some OG_ERROR, f)"
    if "published_to info' f" "rf_trigger_version info' \<noteq> rf_trigger_version info" for f info'
    using that dm by (auto simp: drc_accept_target_part_def target_msg_def published_to_def drc_accept_target_part_parameter_check_def)
  have all: "\<forall>f. published_to info f \<longrightarrow> (\<exists>f' pm'. drc_accept_target_part True True (target_msg ?dm) f = Some (Some OG_SUCCESS, f') \<and>
       drc_accept_remaster_done True True ?fin (in_part_mngr f') = (Some OG_SUCCESS, pm') \<and> pm_remaster_status pm' = REMASTER_DONE \<and>
       (\<forall>ext_pages pagid id0. drc_get_page_master_id ext_pages pm' pagid id0 = drc_get_page_master_id ext_pages (in_part_mngr ogx') pagid id0) \<and>
       (\<forall>promote lock_id. drc_get_lock_master_id promote pm' lock_id = drc_get_lock_master_id promote (in_part_mngr ogx') lock_id))"
    using follow same_tables_masters by meson
  have none: "\<forall>f info'. published_to info' f \<and> rf_trigger_version info' \<noteq> rf_trigger_version info \<longrightarrow>
       drc_accept_target_part True True (target_msg ?dm) f = Some (Some OG_ERROR, f)" using refuse by blast
  show ?thesis
    by (rule exI [of _ k], rule exI [of _ "target_msg ?dm"], rule exI [of _ ?fin], rule exI [of _ ogx'], intro conjI o(1) st all none)
qed

text \<open>The reform master when all instances are ready, and a follower.\<close>

definition sample_ready :: "bool \<Rightarrow> drc_instance" where
  "sample_ready master = (drc_deposit_map_init zero_instance)\<lparr>in_part_mngr := zero_part_mngr
     \<lparr>pm_remaster_status := REMASTER_PUBLISH, pm_remaster_mngr := zero_remaster_mngr
        \<lparr>dm_is_master := master, dm_reform_info := sample_join,
         dm_inst_drm_info := replicate OG_MAX_INSTANCES \<lparr>di_remaster_status = REMASTER_PUBLISH, di_task_num = 0\<rparr>\<rparr>\<rparr>\<rparr>"

lemma no_sleeps: "after_sleeps (\<lambda>_ s. s) k s = s"
  by (induction k) simp_all

theorem remaster_publish_agrees_witness:
  "\<exists>msg fin ogx' f'. drc_remaster_step_publish (\<lambda>_ s. s) 20000 (Some (target_msg zero_remaster_mngr)) (\<lambda>_ _. OG_SUCCESS) (\<lambda>_ _. OG_SUCCESS) 0 (sample_ready True) =
      Some (OG_SUCCESS, Some msg, Some fin, ogx') \<and> drc_accept_target_part True True msg (sample_ready False) = Some (Some OG_SUCCESS, f')"
proof -
  have p: "published_to sample_join (sample_ready m)" "drm_sized (sample_ready m)" "dm_is_master (pm_remaster_mngr (in_part_mngr (sample_ready m))) = m" for m
    by (simp_all add: published_to_def sample_ready_def deposits_ok_def drm_sized_def drc_deposit_map_init_def)
  have l: "deposit_lists_ok sample_join"
    by (simp add: deposit_lists_ok_def list_ok_def sample_join_def zero_reform_info_def no_instances_def inst_ok_def OG_MAX_INSTANCES_def)
  have r: "all_report sample_join REMASTER_PUBLISH (sample_ready True)"
    by (auto simp: all_report_def reform_members_def sample_ready_def sample_join_def zero_reform_info_def no_instances_def OG_MAX_INSTANCES_def)
  have h: "\<forall>k. published_to sample_join (after_sleeps (\<lambda>_ s. s) k (sample_ready True)) \<and> drm_sized (after_sleeps (\<lambda>_ s. s) k (sample_ready True))"
      "dm_is_master (pm_remaster_mngr (in_part_mngr (sample_ready True)))" "unat (20000 :: u64) + 5 < 2 ^ 64"
      "\<exists>k. 5 * k < unat (20000 :: u64) + 5 \<and> all_report sample_join REMASTER_PUBLISH (after_sleeps (\<lambda>_ s. s) k (sample_ready True))"
    using p r by (simp_all add: no_sleeps exI [of _ 0])
  have b: "\<forall>(a :: u64) (m :: drc_remaster_target_part_msg). OG_SUCCESS = OG_SUCCESS" "\<forall>(a :: u64) (m :: drc_remaster_status_notify). OG_SUCCESS = OG_SUCCESS"
    by simp_all
  obtain msg fin ogx' where "drc_remaster_step_publish (\<lambda>_ s. s) 20000 (Some (target_msg zero_remaster_mngr)) (\<lambda>_ _. OG_SUCCESS) (\<lambda>_ _. OG_SUCCESS) 0 (sample_ready True) =
      Some (OG_SUCCESS, Some msg, Some fin, ogx')" "\<exists>f'. drc_accept_target_part True True msg (sample_ready False) = Some (Some OG_SUCCESS, f')"
    using remaster_publish_agrees [OF h(1,2) sample_lists(1) l h(3,4) b, of "target_msg zero_remaster_mngr" 0]
    by (elim exE conjE) (rule that, assumption, use p(1) [of False] in blast)
  then show ?thesis by blast
qed

end
