(* ===== verification/Migration.thy ===== *)
theory Migration
  imports Remaster_Coord
begin

text \<open>
  The migration of a partition in \<^verbatim>\<open>dtc_drc.c\<close>: the old master packs the pages and locks of the partition in messages, the new one
  enters them in its directory, and looks whether all have arrived.
\<close>

subsection \<open>Messages\<close>

text \<open>A request of a convert queue, a page and a lock in a message.\<close>

record drc_le_msg =
  lm_inst_id :: u8
  lm_mode :: drc_lock_mode
  lm_inst_sid :: u16

record drc_buf_res_msg =
  bm_mode :: drc_lock_mode
  bm_claimed_owner :: u8
  bm_latest_edp :: u8
  bm_latest_edp_lsn :: u64
  bm_le_num :: u8
  bm_page_id :: page_id
  bm_lsn :: u64
  bm_edp_map :: u64
  bm_readonly_copies :: u64
  bm_les :: "drc_le_msg list"

record drc_lock_res_msg =
  km_res_id :: drid
  km_mode :: drc_lock_mode
  km_le_num :: u32
  km_granted_map :: u64
  km_les :: "drc_le_msg list"

text \<open>
  A message of a migration. \<open>mm_block\<close> has the resources in it, \<open>mm_counts\<close> the two counts after them at the end of a
  partition.
\<close>

record 'm drc_res_master_msg =
  mm_src_inst :: u8
  mm_size :: u32
  mm_part_id :: u32
  mm_res_num :: u32
  mm_is_part_end :: bool
  mm_reform_trigger_version :: u64
  mm_block :: "'m list"
  mm_counts :: "u32 \<times> u32"

definition SIZEOF_RES_MASTER_MSG :: u32 where
  "SIZEOF_RES_MASTER_MSG = 80"

definition SIZEOF_BUF_RES_MSG :: u32 where
  "SIZEOF_BUF_RES_MSG = 56"

definition SIZEOF_LOCK_RES_MSG :: u32 where
  "SIZEOF_LOCK_RES_MSG = 40"

definition SIZEOF_LE_MSG :: u32 where
  "SIZEOF_LE_MSG = 4"

definition MES_MESSAGE_BUFFER_SIZE :: u32 where
  "MES_MESSAGE_BUFFER_SIZE = 32 * 1024 + 64"

definition REMASTER_MIG_MAX_BUF_RES_NUM :: u32 where
  "REMASTER_MIG_MAX_BUF_RES_NUM = (MES_MESSAGE_BUFFER_SIZE - SIZEOF_RES_MASTER_MSG) div SIZEOF_BUF_RES_MSG"

definition REMASTER_MIG_MAX_LOCK_RES_NUM :: u32 where
  "REMASTER_MIG_MAX_LOCK_RES_NUM = (MES_MESSAGE_BUFFER_SIZE - SIZEOF_RES_MASTER_MSG) div SIZEOF_LOCK_RES_MSG"

definition drc_init_res_master_msg :: "u8 \<Rightarrow> drc_remaster_task \<Rightarrow> 'm drc_res_master_msg" where
  "drc_init_res_master_msg self task = \<lparr>mm_src_inst = self, mm_size = 0, mm_part_id = ucast (tk_part_id task), mm_res_num = 0,
     mm_is_part_end = False, mm_reform_trigger_version = - 1, mm_block = [], mm_counts = (0, 0)\<rparr>"

text \<open>The request that is converted and those in the queue.\<close>

definition le_of :: "drc_lock_item \<Rightarrow> drc_le_msg" where
  "le_of le = \<lparr>lm_inst_id = ri_inst_id (li_req_info le), lm_mode = ri_req_mode (li_req_info le), lm_inst_sid = ri_inst_sid (li_req_info le)\<rparr>"

fun drc_queue_le_msgs :: "nat \<Rightarrow> u32 \<Rightarrow> lock_item_pool \<Rightarrow> drc_le_msg list option" where
  "drc_queue_le_msgs 0 idx pool = Some []"
| "drc_queue_le_msgs (Suc n) idx pool = do {
     le \<leftarrow> rd (rp_addr pool) idx;
     les \<leftarrow> drc_queue_le_msgs n (bh_next le) pool;
     Some (le_of le # les)
   }"

definition drc_set_le_msg :: "nat \<Rightarrow> drc_lock_item \<Rightarrow> drc_list \<Rightarrow> drc_res_ctx \<Rightarrow> drc_le_msg list option" where
  "drc_set_le_msg le_num cvt convert_q c =
     (case le_num of 0 \<Rightarrow> Some []
      | Suc n \<Rightarrow> do {
          les \<leftarrow> drc_queue_le_msgs n (dl_first convert_q) (rc_lock_item_pool c);
          Some (le_of cvt # les)
        })"

definition DRC_LE_SET :: "u8 \<Rightarrow> drc_lock_mode \<Rightarrow> u16 \<Rightarrow> u32 \<Rightarrow> drc_lock_item \<Rightarrow> drc_lock_item" where
  "DRC_LE_SET inst_id mode inst_sid nxt le = le\<lparr>bh_next := nxt,
     li_req_info := (li_req_info le)\<lparr>ri_inst_id := inst_id, ri_req_mode := mode, ri_inst_sid := inst_sid\<rparr>\<rparr>"

text \<open>The queue of an arriving resource; when the pool is empty the rest is dropped.\<close>

fun drc_get_le_msg :: "drc_le_msg list \<Rightarrow> drc_list \<Rightarrow> lock_item_pool \<Rightarrow> (drc_list \<times> lock_item_pool) option" where
  "drc_get_le_msg [] convert_q pool = Some (convert_q, pool)"
| "drc_get_le_msg (le # les) convert_q pool = do {
     (le_idx, pool) \<leftarrow> drc_res_pool_alloc_item pool;
     if le_idx = OG_INVALID_ID32 then Some (convert_q, pool)
     else do {
       item \<leftarrow> rd (rp_addr pool) le_idx;
       mem \<leftarrow> wr (rp_addr pool) le_idx (DRC_LE_SET (lm_inst_id le) (lm_mode le) (lm_inst_sid le) OG_INVALID_ID32 item);
       (mem, convert_q) \<leftarrow>
         (if dl_count convert_q = 0 then Some (mem, convert_q\<lparr>dl_first := le_idx, dl_last := le_idx\<rparr>)
          else do {
            mem \<leftarrow> set_next mem (dl_last convert_q) le_idx;
            Some (mem, convert_q\<lparr>dl_last := le_idx\<rparr>)
          });
       drc_get_le_msg les (convert_q\<lparr>dl_count := dl_count convert_q + 1\<rparr>) (pool\<lparr>rp_addr := mem\<rparr>)
     }
   }"

subsection \<open>Pages leave\<close>

text \<open>The number of requests of a resource that go with it.\<close>

definition le_count :: "'a drc_res_base_scheme \<Rightarrow> u32" where
  "le_count res = (if ri_inst_id (cvt_req res) = OG_INVALID_ID8 then 0 else 1 + dl_count (rb_convert_q res))"

definition buf_res_msg :: "u32 \<Rightarrow> drc_le_msg list \<Rightarrow> drc_buf_res \<Rightarrow> drc_buf_res_msg" where
  "buf_res_msg le_num les res = \<lparr>bm_mode = rb_mode res, bm_claimed_owner = br_claimed_owner res, bm_latest_edp = br_latest_edp res,
     bm_latest_edp_lsn = br_latest_edp_lsn res, bm_le_num = ucast le_num, bm_page_id = br_page_id res, bm_lsn = br_lsn res,
     bm_edp_map = br_edp_map res, bm_readonly_copies = br_readonly_copies res, bm_les = les\<rparr>"

text \<open>
  The message is sent and emptied. \<open>net n\<close> is what happens to the \<open>n\<close>-th message, and \<open>sent\<close> are the messages that have
  been sent. The comparisons with the size of the buffer are made in 64 bits, where the sums do not wrap.
\<close>

definition drc_flush_msg :: "(nat \<Rightarrow> net_env) \<Rightarrow> u8 \<Rightarrow> u32 \<Rightarrow> 'm drc_res_master_msg \<Rightarrow> 'm drc_res_master_msg list \<Rightarrow>
    status_t \<times> 'm drc_res_master_msg list" where
  "drc_flush_msg net dst offset msg sent =
     (let ret = drc_mes_send_data_with_retry (net (length sent)) dst REMASTER_SEND_MSG_RETRY_TIMES
      in if ret \<noteq> OG_SUCCESS then (ret, sent) else (OG_SUCCESS, sent @ [msg\<lparr>mm_size := offset\<rparr>]))"

text \<open>
  The loop over the pages of a partition. A page that is being converted is waited for; the lock of the partition is held meanwhile, so
  nobody can end the conversion, and the wait does not end.
\<close>

fun drc_send_buf_loop :: "(nat \<Rightarrow> net_env) \<Rightarrow> u8 \<Rightarrow> nat \<Rightarrow> u32 \<Rightarrow> u32 \<Rightarrow> drc_buf_res_msg drc_res_master_msg \<Rightarrow>
    drc_buf_res_msg drc_res_master_msg list \<Rightarrow> drc_res_ctx \<Rightarrow>
    (status_t \<times> u32 \<times> drc_buf_res_msg drc_res_master_msg \<times> drc_buf_res_msg drc_res_master_msg list) option" where
  "drc_send_buf_loop net dst 0 buf_idx offset msg sent c = Some (OG_SUCCESS, offset, msg, sent)"
| "drc_send_buf_loop net dst (Suc n) buf_idx offset msg sent c = do {
     buf_res \<leftarrow> buf_get c buf_idx;
     if ri_inst_id (cvt_req buf_res) \<noteq> OG_INVALID_ID8 then None
     else do {
       let le_num = le_count buf_res;
       let full = unat offset + unat SIZEOF_BUF_RES_MSG + unat SIZEOF_LE_MSG * unat le_num > unat MES_MESSAGE_BUFFER_SIZE;
       let (ret, sent) = (if full then drc_flush_msg net dst offset msg sent else (OG_SUCCESS, sent));
       if ret \<noteq> OG_SUCCESS then Some (ret, offset, msg, sent)
       else do {
         let (offset, msg) = (if full then (SIZEOF_RES_MASTER_MSG, msg\<lparr>mm_res_num := 0, mm_block := []\<rparr>) else (offset, msg));
         les \<leftarrow> drc_set_le_msg (unat le_num) (rb_converting buf_res) (rb_convert_q buf_res) c;
         drc_send_buf_loop net dst n (ln_next (rb_node buf_res)) (offset + (SIZEOF_BUF_RES_MSG + SIZEOF_LE_MSG * le_num))
           (msg\<lparr>mm_block := mm_block msg @ [buf_res_msg le_num les buf_res], mm_res_num := mm_res_num msg + 1\<rparr>) sent c
       }
     }
   }"

definition drc_send_buf_master_blk :: "bool \<Rightarrow> (nat \<Rightarrow> net_env) \<Rightarrow> u8 \<Rightarrow> drc_remaster_task \<Rightarrow> drc_instance \<Rightarrow>
    (status_t \<times> u32 \<times> drc_buf_res_msg drc_res_master_msg list) option" where
  "drc_send_buf_master_blk malloc_ok net self task ogx = do {
     res_list \<leftarrow> rd (gr_res_parts (rc_global_buf_res (in_ctx ogx))) (tk_part_id task);
     if dl_count res_list = 0 then Some (OG_SUCCESS, 0, [])
     else if \<not> malloc_ok then Some (OG_ERROR, 0, [])
     else do {
       let msg = (drc_init_res_master_msg self task)
             \<lparr>mm_reform_trigger_version := rf_trigger_version (dm_reform_info (pm_remaster_mngr (in_part_mngr ogx)))\<rparr>;
       (ret, offset, msg, sent) \<leftarrow> drc_send_buf_loop net (tk_import_inst task) (unat (dl_count res_list)) (dl_first res_list)
          SIZEOF_RES_MASTER_MSG msg [] (in_ctx ogx);
       if ret \<noteq> OG_SUCCESS then Some (ret, dl_count res_list, sent)
       else let (ret, sent) = drc_flush_msg net (tk_import_inst task) offset (msg\<lparr>mm_is_part_end := False\<rparr>) sent
         in Some (ret, dl_count res_list, sent)
     }
   }"

subsection \<open>Pages arrive\<close>

definition drc_init_buf_res :: "u32 \<Rightarrow> drc_buf_res_msg \<Rightarrow> u32 \<Rightarrow> drc_buf_res \<Rightarrow> lock_item_pool \<Rightarrow> (drc_buf_res \<times> lock_item_pool) option" where
  "drc_init_buf_res ext_pages res_msg i buf_res pool = do {
     let buf_res = buf_res\<lparr>br_claimed_owner := bm_claimed_owner res_msg, rb_mode := bm_mode res_msg, br_page_id := bm_page_id res_msg,
           br_latest_edp := bm_latest_edp res_msg, br_latest_edp_lsn := bm_latest_edp_lsn res_msg, br_lsn := bm_lsn res_msg,
           br_edp_map := bm_edp_map res_msg, br_readonly_copies := bm_readonly_copies res_msg, rb_idx := i,
           br_pending := DRC_RES_INVALID_ACTION, br_is_used := True, rb_part_id := ucast (drc_page_partid ext_pages (bm_page_id res_msg)),
           rb_node := (rb_node buf_res)\<lparr>ln_idx := i\<rparr>\<rparr>;
     if bm_le_num res_msg = 0
     then Some (buf_res\<lparr>rb_converting := DRC_LE_SET OG_INVALID_ID8 DRC_LOCK_NULL OG_INVALID_ID16 OG_INVALID_ID32 (rb_converting buf_res),
            rb_convert_q := DRC_LIST_INIT\<rparr>, pool)
     else do {
       le \<leftarrow> rd (bm_les res_msg) (0 :: u32);
       (q, pool) \<leftarrow> drc_get_le_msg (take (unat (bm_le_num res_msg) - 1) (tl (bm_les res_msg))) (rb_convert_q buf_res) pool;
       Some (buf_res\<lparr>rb_converting := DRC_LE_SET (lm_inst_id le) (lm_mode le) (lm_inst_sid le) OG_INVALID_ID32 (rb_converting buf_res),
         rb_convert_q := q\<rparr>, pool)
     }
   }"

definition drc_check_migrate_buf_res_info :: "drc_buf_res \<Rightarrow> drc_buf_res_msg \<Rightarrow> status_t" where
  "drc_check_migrate_buf_res_info buf_res res_msg =
     (if br_claimed_owner buf_res \<noteq> bm_claimed_owner res_msg \<or> rb_mode buf_res \<noteq> bm_mode res_msg \<or>
         br_latest_edp buf_res \<noteq> bm_latest_edp res_msg \<or> br_latest_edp_lsn buf_res \<noteq> bm_latest_edp_lsn res_msg \<or>
         br_lsn buf_res \<noteq> bm_lsn res_msg \<or> br_edp_map buf_res \<noteq> bm_edp_map res_msg \<or>
         br_readonly_copies buf_res \<noteq> bm_readonly_copies res_msg
      then OG_ERROR else OG_SUCCESS)"

text \<open>
  The loop over the pages of a message, each with the item allocated for it. A page that is known already is compared and its item
  freed.
\<close>

fun drc_migrate_buf_res_l :: "u32 \<Rightarrow> (u32 \<times> drc_buf_res_msg) list \<Rightarrow> u32 \<Rightarrow> drc_res_ctx \<Rightarrow> (status_t \<times> u32 \<times> drc_res_ctx) option" where
  "drc_migrate_buf_res_l ext_pages [] real_add_res_num c = Some (OG_SUCCESS, real_add_res_num, c)"
| "drc_migrate_buf_res_l ext_pages ((i, res_msg) # rest) real_add_res_num c = do {
     found \<leftarrow> buf_find c (bm_page_id res_msg);
     case found of
       Some j \<Rightarrow> do {
         buf_res \<leftarrow> buf_get c j;
         if drc_check_migrate_buf_res_info buf_res res_msg = OG_ERROR then Some (OG_ERROR, real_add_res_num, c)
         else do {
           c \<leftarrow> buf_free c i;
           drc_migrate_buf_res_l ext_pages rest real_add_res_num c
         }
       }
     | None \<Rightarrow> do {
         buf_res \<leftarrow> buf_get c i;
         (buf_res, pool) \<leftarrow> drc_init_buf_res ext_pages res_msg i buf_res (rc_lock_item_pool c);
         g \<leftarrow> gr_write (rc_global_buf_res c) i buf_res;
         g \<leftarrow> gr_map_add page_hash g (bm_page_id res_msg) i;
         g \<leftarrow> gr_part_add g (rb_part_id buf_res) i;
         drc_migrate_buf_res_l ext_pages rest (real_add_res_num + 1) (c\<lparr>rc_global_buf_res := g, rc_lock_item_pool := pool\<rparr>)
       }
   }"

definition drc_process_buf_master_blk :: "u32 \<Rightarrow> bool \<Rightarrow> drc_buf_res_msg drc_res_master_msg \<Rightarrow> drc_instance \<Rightarrow>
    (status_t \<times> drc_instance) option" where
  "drc_process_buf_master_blk ext_pages malloc_ok msg ogx =
     (let dm = pm_remaster_mngr (in_part_mngr ogx); c = in_ctx ogx in
      if mm_res_num msg > REMASTER_MIG_MAX_BUF_RES_NUM \<or> unat (mm_part_id msg) \<ge> DRC_MAX_PART_NUM \<or>
         mm_reform_trigger_version msg \<noteq> rf_trigger_version (dm_reform_info dm)
      then Some (OG_ERROR, ogx)
      else if mm_res_num msg = 0 then Some (OG_SUCCESS, ogx)
      else if \<not> malloc_ok then Some (OG_ERROR, ogx)
      else do {
        (status, idx, pool) \<leftarrow> drc_res_pool_alloc_batch_item (gr_pool (rc_global_buf_res c)) (mm_res_num msg);
        let c = c\<lparr>rc_global_buf_res := gr_set_pool (rc_global_buf_res c) pool\<rparr>;
        if status \<noteq> OG_SUCCESS then Some (OG_ERROR, ogx\<lparr>in_ctx := c\<rparr>)
        else do {
          (status, real_add_res_num, c) \<leftarrow> drc_migrate_buf_res_l ext_pages (zip idx (mm_block msg)) 0 c;
          if status \<noteq> OG_SUCCESS then Some (OG_ERROR, ogx\<lparr>in_ctx := c\<rparr>)
          else do {
            cnt \<leftarrow> rd (dm_mgrt_part_res_cnt dm) (mm_part_id msg);
            cnts \<leftarrow> wr (dm_mgrt_part_res_cnt dm) (mm_part_id msg) (cnt\<lparr>mc_page := mc_page cnt + real_add_res_num\<rparr>);
            Some (OG_SUCCESS, ogx\<lparr>in_ctx := c,
              in_part_mngr := (in_part_mngr ogx)\<lparr>pm_remaster_mngr := dm\<lparr>dm_mgrt_part_res_cnt := cnts\<rparr>\<rparr>\<rparr>)
          }
        }
      })"

subsection \<open>Locks leave\<close>

definition lock_res_msg :: "u32 \<Rightarrow> drc_le_msg list \<Rightarrow> drc_master_res \<Rightarrow> drc_lock_res_msg" where
  "lock_res_msg le_num les res = \<lparr>km_res_id = mr_res_id res, km_mode = rb_mode res, km_le_num = le_num,
     km_granted_map = mr_granted_map res, km_les = les\<rparr>"

fun drc_send_lock_loop :: "(nat \<Rightarrow> net_env) \<Rightarrow> u8 \<Rightarrow> nat \<Rightarrow> u32 \<Rightarrow> u32 \<Rightarrow> drc_lock_res_msg drc_res_master_msg \<Rightarrow>
    drc_lock_res_msg drc_res_master_msg list \<Rightarrow> drc_res_ctx \<Rightarrow>
    (status_t \<times> u32 \<times> drc_lock_res_msg drc_res_master_msg \<times> drc_lock_res_msg drc_res_master_msg list) option" where
  "drc_send_lock_loop net dst 0 lock_idx offset msg sent c = Some (OG_SUCCESS, offset, msg, sent)"
| "drc_send_lock_loop net dst (Suc n) lock_idx offset msg sent c = do {
     lock_res \<leftarrow> lock_get c lock_idx;
     if ri_inst_id (cvt_req lock_res) \<noteq> OG_INVALID_ID8 then None
     else do {
       let le_num = le_count lock_res;
       let full = unat offset + unat SIZEOF_LOCK_RES_MSG + unat SIZEOF_LE_MSG * unat le_num > unat MES_MESSAGE_BUFFER_SIZE;
       let (ret, sent) = (if full then drc_flush_msg net dst offset msg sent else (OG_SUCCESS, sent));
       if ret \<noteq> OG_SUCCESS then Some (ret, offset, msg, sent)
       else do {
         let (offset, msg) = (if full then (SIZEOF_RES_MASTER_MSG, msg\<lparr>mm_res_num := 0, mm_block := []\<rparr>) else (offset, msg));
         les \<leftarrow> drc_set_le_msg (unat le_num) (rb_converting lock_res) (rb_convert_q lock_res) c;
         drc_send_lock_loop net dst n (ln_next (rb_node lock_res)) (offset + (SIZEOF_LOCK_RES_MSG + SIZEOF_LE_MSG * le_num))
           (msg\<lparr>mm_block := mm_block msg @ [lock_res_msg le_num les lock_res], mm_res_num := mm_res_num msg + 1\<rparr>) sent c
       }
     }
   }"

text \<open>The end of a partition is a message of its own when there is no room for the counts in the last one.\<close>

definition drc_send_mgrt_part_end :: "(nat \<Rightarrow> net_env) \<Rightarrow> u8 \<Rightarrow> 'm drc_res_master_msg \<Rightarrow> u32 \<Rightarrow> u32 \<Rightarrow> 'm drc_res_master_msg list \<Rightarrow>
    status_t \<times> 'm drc_res_master_msg list" where
  "drc_send_mgrt_part_end net dst msg buf_res_cnt lock_res_cnt sent =
     drc_flush_msg net dst (SIZEOF_RES_MASTER_MSG + 8)
       (msg\<lparr>mm_counts := (buf_res_cnt, lock_res_cnt), mm_res_num := 0, mm_block := [], mm_is_part_end := True\<rparr>) sent"

definition drc_send_lock_master_blk :: "bool \<Rightarrow> (nat \<Rightarrow> net_env) \<Rightarrow> u8 \<Rightarrow> drc_remaster_task \<Rightarrow> u32 \<Rightarrow> drc_instance \<Rightarrow>
    (status_t \<times> drc_lock_res_msg drc_res_master_msg list) option" where
  "drc_send_lock_master_blk malloc_ok net self task buf_res_cnt ogx =
     (if \<not> malloc_ok then Some (OG_ERROR, [])
      else do {
        let dst = tk_import_inst task;
        let msg = (drc_init_res_master_msg self task)
              \<lparr>mm_reform_trigger_version := rf_trigger_version (dm_reform_info (pm_remaster_mngr (in_part_mngr ogx)))\<rparr>;
        res_list \<leftarrow> rd (gr_res_parts (rc_global_lock_res (in_ctx ogx))) (tk_part_id task);
        (ret, offset, msg, sent) \<leftarrow> drc_send_lock_loop net dst (unat (dl_count res_list)) (dl_first res_list)
           SIZEOF_RES_MASTER_MSG msg [] (in_ctx ogx);
        if ret \<noteq> OG_SUCCESS then Some (ret, sent)
        else if unat offset + 4 + 4 \<le> unat MES_MESSAGE_BUFFER_SIZE
        then Some (drc_flush_msg net dst (offset + 8)
               (msg\<lparr>mm_counts := (buf_res_cnt, dl_count res_list), mm_is_part_end := True\<rparr>) sent)
        else let (ret, sent) = drc_flush_msg net dst offset msg sent in
          if ret \<noteq> OG_SUCCESS then Some (ret, sent)
          else Some (drc_send_mgrt_part_end net dst msg buf_res_cnt (dl_count res_list) sent)
      })"

text \<open>One partition: the pages first, then the locks, whose last message ends the partition.\<close>

definition drc_migrate_master_blk :: "bool \<Rightarrow> bool \<Rightarrow> (nat \<Rightarrow> net_env) \<Rightarrow> (nat \<Rightarrow> net_env) \<Rightarrow> u8 \<Rightarrow> drc_remaster_task \<Rightarrow> drc_instance \<Rightarrow>
    (status_t \<times> drc_buf_res_msg drc_res_master_msg list \<times> drc_lock_res_msg drc_res_master_msg list) option" where
  "drc_migrate_master_blk malloc_ok malloc_ok2 net net2 self task ogx = do {
     knl_panic (tk_status task = PART_WAIT_MIGRATE);
     (ret, buf_res_cnt, pages) \<leftarrow> drc_send_buf_master_blk malloc_ok net self task ogx;
     if ret \<noteq> OG_SUCCESS then Some (ret, pages, [])
     else do {
       (ret, locks) \<leftarrow> drc_send_lock_master_blk malloc_ok2 net2 self task buf_res_cnt ogx;
       Some (ret, pages, locks)
     }
   }"

subsection \<open>Locks arrive\<close>

definition dtc_init_lock_res :: "(u8 \<Rightarrow> u32) \<Rightarrow> drc_lock_res_msg \<Rightarrow> u32 \<Rightarrow> drc_master_res \<Rightarrow> lock_item_pool \<Rightarrow>
    (drc_master_res \<times> lock_item_pool) option" where
  "dtc_init_lock_res promote res_msg i lock_res pool = do {
     let lock_res = lock_res\<lparr>mr_granted_map := km_granted_map res_msg, rb_mode := km_mode res_msg, mr_res_id := km_res_id res_msg,
           rb_idx := i, bh_next := OG_INVALID_ID32, rb_convert_q := DRC_LIST_INIT\<rparr>;
     (lock_res, pool) \<leftarrow>
       (if km_le_num res_msg = 0
        then Some (set_cvt_req ((cvt_req lock_res)\<lparr>ri_inst_id := OG_INVALID_ID8\<rparr>) lock_res, pool)
        else do {
          le \<leftarrow> rd (km_les res_msg) (0 :: u32);
          (q, pool) \<leftarrow> drc_get_le_msg (take (unat (km_le_num res_msg) - 1) (tl (km_les res_msg))) (rb_convert_q lock_res) pool;
          Some (lock_res\<lparr>rb_converting := DRC_LE_SET (lm_inst_id le) (lm_mode le) (lm_inst_sid le) OG_INVALID_ID32 (rb_converting lock_res),
            rb_convert_q := q\<rparr>, pool)
        });
     Some (lock_res\<lparr>rb_part_id := lock_partid promote (mr_res_id lock_res), rb_node := (rb_node lock_res)\<lparr>ln_idx := i\<rparr>\<rparr>, pool)
   }"

text \<open>
  The loop over the locks of a message. It steps over the locks as if none had requests with it, so that after one that has it would
  read other bytes; that is \<open>None\<close>.
\<close>

fun drc_migrate_lock_res_l :: "(u8 \<Rightarrow> u32) \<Rightarrow> (u32 \<times> drc_lock_res_msg) list \<Rightarrow> u32 \<Rightarrow> drc_res_ctx \<Rightarrow> (u32 \<times> drc_res_ctx) option" where
  "drc_migrate_lock_res_l promote [] real_add_res_num c = Some (real_add_res_num, c)"
| "drc_migrate_lock_res_l promote ((i, res_msg) # rest) real_add_res_num c = do {
     found \<leftarrow> lock_find promote c (km_res_id res_msg);
     (real_add_res_num, c) \<leftarrow>
       (case found of
          Some _ \<Rightarrow> do {
            g \<leftarrow> gr_free (rc_global_lock_res c) i;
            Some (real_add_res_num, c\<lparr>rc_global_lock_res := g\<rparr>)
          }
        | None \<Rightarrow> do {
            lock_res \<leftarrow> lock_get c i;
            (lock_res, pool) \<leftarrow> dtc_init_lock_res promote res_msg i lock_res (rc_lock_item_pool c);
            g \<leftarrow> gr_write (rc_global_lock_res c) i lock_res;
            g \<leftarrow> gr_map_add (lock_hash promote) g (km_res_id res_msg) i;
            g \<leftarrow> gr_part_add g (rb_part_id lock_res) i;
            Some (real_add_res_num + 1, c\<lparr>rc_global_lock_res := g, rc_lock_item_pool := pool\<rparr>)
          });
     if km_le_num res_msg \<noteq> 0 then None else drc_migrate_lock_res_l promote rest real_add_res_num c
   }"

fun drc_update_task_status :: "u8 \<Rightarrow> u32 \<Rightarrow> drc_part_status \<Rightarrow> u8 \<Rightarrow> drc_remaster_task list \<Rightarrow> drc_remaster_task list" where
  "drc_update_task_status self part_id status export_inst [] = []"
| "drc_update_task_status self part_id status export_inst (t # ts) =
     (if ucast (tk_part_id t) = part_id \<and> tk_export_inst t = export_inst \<and> tk_import_inst t = self
      then t\<lparr>tk_status := status\<rparr> # ts else t # drc_update_task_status self part_id status export_inst ts)"

definition drc_update_remaster_task_status :: "u8 \<Rightarrow> u32 \<Rightarrow> drc_part_status \<Rightarrow> u8 \<Rightarrow> drc_remaster_mngr \<Rightarrow> drc_remaster_mngr" where
  "drc_update_remaster_task_status self part_id status export_inst dm =
     dm\<lparr>dm_remaster_task_set := drc_update_task_status self part_id status export_inst (dm_remaster_task_set dm)\<rparr>"

definition drc_process_mgrt_part_end :: "u8 \<Rightarrow> 'm drc_res_master_msg \<Rightarrow> drc_remaster_mngr \<Rightarrow> (status_t \<times> drc_remaster_mngr) option" where
  "drc_process_mgrt_part_end self msg dm = do {
     infos \<leftarrow> wr (dm_mgrt_part_info dm) (mm_part_id msg)
       \<lparr>pi_page_cnt = fst (mm_counts msg), pi_lock_cnt = snd (mm_counts msg), pi_src_inst = mm_src_inst msg\<rparr>;
     Some (OG_SUCCESS, drc_update_remaster_task_status self (mm_part_id msg) PART_MIGRATING (mm_src_inst msg) (dm\<lparr>dm_mgrt_part_info := infos\<rparr>))
   }"

definition drc_process_lock_master_blk :: "(u8 \<Rightarrow> u32) \<Rightarrow> bool \<Rightarrow> u8 \<Rightarrow> drc_lock_res_msg drc_res_master_msg \<Rightarrow> drc_instance \<Rightarrow>
    (status_t \<times> drc_instance) option" where
  "drc_process_lock_master_blk promote malloc_ok self msg ogx =
     (let dm = pm_remaster_mngr (in_part_mngr ogx); c = in_ctx ogx in
      if mm_res_num msg > REMASTER_MIG_MAX_LOCK_RES_NUM \<or> unat (mm_part_id msg) \<ge> DRC_MAX_PART_NUM \<or>
         mm_reform_trigger_version msg \<noteq> rf_trigger_version (dm_reform_info dm)
      then Some (OG_ERROR, ogx)
      else if \<not> malloc_ok then Some (OG_ERROR, ogx)
      else do {
        (status, idx, pool) \<leftarrow> drc_res_pool_alloc_batch_item (gr_pool (rc_global_lock_res c)) (mm_res_num msg);
        let c = c\<lparr>rc_global_lock_res := gr_set_pool (rc_global_lock_res c) pool\<rparr>;
        if status \<noteq> OG_SUCCESS then Some (OG_ERROR, ogx\<lparr>in_ctx := c\<rparr>)
        else do {
          (real_add_res_num, c) \<leftarrow> drc_migrate_lock_res_l promote (zip idx (mm_block msg)) 0 c;
          cnt \<leftarrow> rd (dm_mgrt_part_res_cnt dm) (mm_part_id msg);
          cnts \<leftarrow> wr (dm_mgrt_part_res_cnt dm) (mm_part_id msg) (cnt\<lparr>mc_lock := mc_lock cnt + real_add_res_num\<rparr>);
          let dm = dm\<lparr>dm_mgrt_part_res_cnt := cnts\<rparr>;
          (status, dm) \<leftarrow> (if mm_is_part_end msg then drc_process_mgrt_part_end self msg dm else Some (OG_SUCCESS, dm));
          Some (status, ogx\<lparr>in_ctx := c, in_part_mngr := (in_part_mngr ogx)\<lparr>pm_remaster_mngr := dm\<rparr>\<rparr>)
        }
      })"

subsection \<open>The handler and the end of a partition\<close>

datatype mgrt_msg = Page_Msg "drc_buf_res_msg drc_res_master_msg" | Lock_Msg "drc_lock_res_msg drc_res_master_msg"

fun drc_check_mgrt_data_msg :: "mgrt_msg \<Rightarrow> status_t" where
  "drc_check_mgrt_data_msg (Page_Msg msg) =
     (if SIZEOF_RES_MASTER_MSG > mm_size msg \<or> unat SIZEOF_RES_MASTER_MSG + unat (mm_res_num msg) * unat SIZEOF_BUF_RES_MSG > unat (mm_size msg)
      then OG_ERROR else OG_SUCCESS)"
| "drc_check_mgrt_data_msg (Lock_Msg msg) =
     (if SIZEOF_RES_MASTER_MSG > mm_size msg \<or> unat SIZEOF_RES_MASTER_MSG + unat (mm_res_num msg) * unat SIZEOF_LOCK_RES_MSG > unat (mm_size msg)
      then OG_ERROR else OG_SUCCESS)"

record mgrt_env =
  ge_in_reform :: bool
  ge_malloc_ok :: bool
  ge_ext_pages :: u32
  ge_promote :: "u8 \<Rightarrow> u32"
  ge_self :: u8

definition drc_process_mgrt_data :: "mgrt_env \<Rightarrow> mgrt_msg \<Rightarrow> drc_instance \<Rightarrow> drc_instance option" where
  "drc_process_mgrt_data e m ogx =
     (if drc_check_mgrt_data_msg m \<noteq> OG_SUCCESS then Some ogx
      else if pm_remaster_status (in_part_mngr ogx) = REMASTER_DONE \<or> \<not> ge_in_reform e then Some ogx
      else case m of
        Page_Msg msg \<Rightarrow> map_option snd (drc_process_buf_master_blk (ge_ext_pages e) (ge_malloc_ok e) msg ogx)
      | Lock_Msg msg \<Rightarrow> map_option snd (drc_process_lock_master_blk (ge_promote e) (ge_malloc_ok e) (ge_self e) msg ogx))"

text \<open>One round of \<^verbatim>\<open>remaster_part_proc\<close>, which looks whether all resources of the partitions that come in have arrived.\<close>

fun remaster_part_round :: "u8 \<Rightarrow> u32 list \<Rightarrow> drc_instance \<Rightarrow> drc_instance option" where
  "remaster_part_round self [] ogx = Some ogx"
| "remaster_part_round self (i # is) ogx = do {
     let dm = pm_remaster_mngr (in_part_mngr ogx);
     task \<leftarrow> rd (dm_remaster_task_set dm) i;
     if \<not> (tk_import_inst task = self \<and> tk_export_inst task \<noteq> self) then remaster_part_round self is ogx
     else if tk_status task \<noteq> PART_MIGRATING then remaster_part_round self is ogx
     else do {
       part_info \<leftarrow> rd (dm_mgrt_part_info dm) (tk_part_id task);
       buf_res_list \<leftarrow> rd (gr_res_parts (rc_global_buf_res (in_ctx ogx))) (tk_part_id task);
       lock_res_list \<leftarrow> rd (gr_res_parts (rc_global_lock_res (in_ctx ogx))) (tk_part_id task);
       if pi_page_cnt part_info \<noteq> dl_count buf_res_list \<or> pi_lock_cnt part_info \<noteq> dl_count lock_res_list
       then remaster_part_round self is ogx
       else remaster_part_round self is (ogx\<lparr>in_part_mngr := (in_part_mngr ogx)\<lparr>pm_remaster_mngr :=
         drc_update_remaster_task_status self (ucast (tk_part_id task)) PART_MIGRATE_COMPLETE (pi_src_inst part_info) dm\<rparr>\<rparr>)
     }
   }"

definition all_tasks :: "u32 list" where
  "all_tasks = map of_nat [0..<DRC_MAX_PART_NUM]"

definition task_arriving :: "u8 \<Rightarrow> drc_remaster_task \<Rightarrow> bool" where
  "task_arriving self task \<longleftrightarrow> tk_import_inst task = self \<and> tk_export_inst task \<noteq> self"

text \<open>The wait for the tasks of an array; \<open>others n\<close> is what happens in the \<open>n\<close>-th sleep.\<close>

partial_function (option) drc_wait_migrate_loop :: "(nat \<Rightarrow> drc_instance \<Rightarrow> drc_instance) \<Rightarrow> u8 \<Rightarrow> u64 \<Rightarrow> nat \<Rightarrow> u64 \<Rightarrow> nat \<Rightarrow> drc_instance \<Rightarrow>
    (status_t \<times> drc_instance) option" where
  "drc_wait_migrate_loop others self timeout i elapsed n ogx =
     (if i \<ge> DRC_MAX_PART_NUM then Some (OG_SUCCESS, ogx)
      else Option.bind (rd (dm_remaster_task_set (pm_remaster_mngr (in_part_mngr ogx))) (of_nat i :: u32)) (\<lambda>task.
        if \<not> task_arriving self task then drc_wait_migrate_loop others self timeout (Suc i) elapsed n ogx
        else if pm_remaster_status (in_part_mngr ogx) = REMASTER_FAIL then Some (OG_ERROR, ogx)
        else if tk_status task = PART_MIGRATE_COMPLETE then drc_wait_migrate_loop others self timeout (Suc i) elapsed n ogx
        else if elapsed \<ge> timeout then Some (OG_ERROR, ogx)
        else drc_wait_migrate_loop others self timeout i (elapsed + REMASTER_SLEEP_INTERVAL) (Suc n) (others n ogx)))"

definition drc_remaster_wait_migrate_finish :: "(nat \<Rightarrow> drc_instance \<Rightarrow> drc_instance) \<Rightarrow> bool \<Rightarrow> u8 \<Rightarrow> u64 \<Rightarrow> drc_instance \<Rightarrow>
    (status_t \<times> drc_instance) option" where
  "drc_remaster_wait_migrate_finish others thread_ok self timeout ogx =
     (if \<not> thread_ok then Some (OG_ERROR, ogx) else drc_wait_migrate_loop others self timeout 0 0 0 ogx)"

end
