(* ===== verification/Mgrt_Send.thy ===== *)
theory Mgrt_Send
  imports Migration
begin

text \<open>
  The messages of a migration. The loops over the pages and over the locks of a partition are one interface, whose laws give that the
  messages together have exactly the resources of the partition, each fits its size, and the receiver takes it.
\<close>

subsection \<open>Sending\<close>

text \<open>A message that a receiver takes: it is from this reform, and its size and its count fit what is in it.\<close>

definition mgrt_msg_ok :: "u32 \<Rightarrow> nat \<Rightarrow> u32 \<Rightarrow> u64 \<Rightarrow> 'm drc_res_master_msg \<Rightarrow> bool" where
  "mgrt_msg_ok part sz lim ver m \<longleftrightarrow> mm_part_id m = part \<and> mm_reform_trigger_version m = ver \<and>
     unat (mm_res_num m) = length (mm_block m) \<and> length (mm_block m) \<le> unat lim \<and> 80 + sz * length (mm_block m) \<le> unat (mm_size m)"

text \<open>The message that is being filled.\<close>

definition filling_msg :: "u32 \<Rightarrow> nat \<Rightarrow> u64 \<Rightarrow> u8 \<Rightarrow> u32 \<Rightarrow> 'm drc_res_master_msg \<Rightarrow> bool" where
  "filling_msg part sz ver src offset m \<longleftrightarrow> mm_part_id m = part \<and> mm_reform_trigger_version m = ver \<and> mm_src_inst m = src \<and> \<not> mm_is_part_end m \<and>
     unat (mm_res_num m) = length (mm_block m) \<and> unat offset = 80 + sz * length (mm_block m) \<and> unat offset \<le> 32832"

definition net_ok :: "(nat \<Rightarrow> net_env) \<Rightarrow> u8 \<Rightarrow> bool" where
  "net_ok net dst \<longleftrightarrow> (\<forall>n. drc_mes_send_data_with_retry (net n) dst REMASTER_SEND_MSG_RETRY_TIMES = OG_SUCCESS)"

lemma flush_sent: "net_ok net dst \<Longrightarrow> drc_flush_msg net dst offset msg sent = (OG_SUCCESS, sent @ [msg\<lparr>mm_size := offset\<rparr>])"
  by (simp add: net_ok_def drc_flush_msg_def)

lemma filled_ok:
  assumes "filling_msg part sz ver src offset m" "0 < sz" "unat lim = 32752 div sz"
  shows "mgrt_msg_ok part sz lim ver (m\<lparr>mm_size := offset\<rparr>)"
proof -
  have "sz * length (mm_block m) \<le> 32752" using assms(1) by (simp add: filling_msg_def)
  then have "length (mm_block m) \<le> 32752 div sz" using assms(2) by (metis div_le_mono nonzero_mult_div_cancel_left not_gr_zero)
  then show ?thesis using assms by (simp add: filling_msg_def mgrt_msg_ok_def)
qed

lemma filling_add:
  assumes "filling_msg part sz ver src offset m" "unat offset + sz \<le> 32832" "unat (w :: u32) = sz" "0 < sz"
  shows "filling_msg part sz ver src (offset + w) (m\<lparr>mm_block := mm_block m @ [x], mm_res_num := mm_res_num m + 1\<rparr>)"
proof -
  have "unat (offset + w) = unat offset + sz" using assms(2,3) by (simp add: unat_plus_simple word_le_nat_alt unat_word_ariths)
  moreover have "length (mm_block m) \<le> sz * length (mm_block m)" using assms(4) by simp
  then have "length (mm_block m) < 4294967295" using assms(1) unfolding filling_msg_def by linarith
  then have "unat (mm_res_num m + 1) = Suc (length (mm_block m))"
    using assms(1) unat_inc [of "mm_res_num m"] by (simp add: filling_msg_def)
  ultimately show ?thesis using assms by (simp add: filling_msg_def)
qed

lemma filling_empty:
  "filling_msg part sz ver src offset m \<Longrightarrow> filling_msg part sz ver src SIZEOF_RES_MASTER_MSG (m\<lparr>mm_res_num := 0, mm_block := []\<rparr>)"
  by (simp add: filling_msg_def SIZEOF_RES_MASTER_MSG_def)

text \<open>The items of a partition list, in order.\<close>

definition chain :: "(u32 \<Rightarrow> 'a drc_res_base_scheme option) \<Rightarrow> u32 \<Rightarrow> u32 list \<Rightarrow> bool" where
  "chain get i xs \<longleftrightarrow> walk (\<lambda>j. case get j of Some res \<Rightarrow> ln_next (rb_node res) | None \<Rightarrow> OG_INVALID_ID32) i (length xs) = xs"

definition settled :: "'a drc_res_base_scheme \<Rightarrow> bool" where
  "settled res \<longleftrightarrow> ri_inst_id (cvt_req res) = OG_INVALID_ID8"

lemma chain_Cons: "chain get i (x # xs) \<Longrightarrow> get x = Some res \<Longrightarrow> i = x \<and> chain get (ln_next (rb_node res)) xs"
  by (auto simp: chain_def)

text \<open>
  The interface of the two loops that fill messages: \<open>get\<close> reads a resource, \<open>pack\<close> is what a message has of one that is not being
  converted, and \<open>sz\<close> its size.
\<close>

locale mgrt_sender =
  fixes send_loop :: "(nat \<Rightarrow> net_env) \<Rightarrow> u8 \<Rightarrow> nat \<Rightarrow> u32 \<Rightarrow> u32 \<Rightarrow> 'm drc_res_master_msg \<Rightarrow> 'm drc_res_master_msg list \<Rightarrow> drc_res_ctx \<Rightarrow>
      (status_t \<times> u32 \<times> 'm drc_res_master_msg \<times> 'm drc_res_master_msg list) option"
    and get :: "drc_res_ctx \<Rightarrow> u32 \<Rightarrow> 'a drc_res_base_scheme option"
    and pack :: "'a drc_res_base_scheme \<Rightarrow> 'm"
    and sz :: u32 and lim :: u32
  assumes loop_0: "send_loop net dst 0 idx offset msg sent c = Some (OG_SUCCESS, offset, msg, sent)"
    and loop_Suc: "get c idx = Some res \<Longrightarrow> settled res \<Longrightarrow> send_loop net dst (Suc n) idx offset msg sent c =
      (let full = unat offset + unat sz > 32832;
           (ret, sent) = (if full then drc_flush_msg net dst offset msg sent else (OG_SUCCESS, sent))
       in if ret \<noteq> OG_SUCCESS then Some (ret, offset, msg, sent)
          else let (offset, msg) = (if full then (SIZEOF_RES_MASTER_MSG, msg\<lparr>mm_res_num := 0, mm_block := []\<rparr>) else (offset, msg))
            in send_loop net dst n (ln_next (rb_node res)) (offset + sz)
                 (msg\<lparr>mm_block := mm_block msg @ [pack res], mm_res_num := mm_res_num msg + 1\<rparr>) sent c)"
    and sz: "0 < unat sz" "unat sz \<le> 32752" "unat lim = 32752 div unat sz"
begin

abbreviation taken :: "u32 \<Rightarrow> u64 \<Rightarrow> 'm drc_res_master_msg \<Rightarrow> bool" where
  "taken part ver \<equiv> mgrt_msg_ok part (unat sz) lim ver"

abbreviation open_msg :: "u32 \<Rightarrow> u64 \<Rightarrow> u8 \<Rightarrow> u32 \<Rightarrow> 'm drc_res_master_msg \<Rightarrow> bool" where
  "open_msg part \<equiv> filling_msg part (unat sz)"

lemma send_loop_ok:
  assumes "net_ok net dst" "chain (get c) idx xs" "\<forall>i \<in> set xs. get c i = Some (f i) \<and> settled (f i)" "open_msg part ver src offset msg"
  shows "\<exists>offset' msg' sent'. send_loop net dst (length xs) idx offset msg sent c = Some (OG_SUCCESS, offset', msg', sent @ sent') \<and>
    open_msg part ver src offset' msg' \<and> concat (map mm_block sent') @ mm_block msg' = mm_block msg @ map (\<lambda>i. pack (f i)) xs \<and>
    (\<forall>m \<in> set sent'. taken part ver m \<and> \<not> mm_is_part_end m)"
  using assms(2-)
proof (induction xs arbitrary: idx offset msg sent)
  case Nil
  then show ?case by (simp add: loop_0)
next
  case (Cons x xs)
  have x: "get c x = Some (f x)" "settled (f x)" using Cons.prems(2) by simp_all
  have n: "idx = x" "chain (get c) (ln_next (rb_node (f x))) xs" using chain_Cons [OF Cons.prems(1) x(1)] by simp_all
  let ?full = "unat offset + unat sz > 32832"
  let ?m = "if ?full then msg\<lparr>mm_res_num := 0, mm_block := []\<rparr> else msg" and ?o = "if ?full then SIZEOF_RES_MASTER_MSG else offset"
  let ?s = "if ?full then [msg\<lparr>mm_size := offset\<rparr>] else []" and ?b = "pack (f x)"
  have f1: "open_msg part ver src ?o ?m" using Cons.prems(3) filling_empty [OF Cons.prems(3)] by simp
  have "unat ?o + unat sz \<le> 32832" using sz(2) by (simp add: SIZEOF_RES_MASTER_MSG_def)
  then have f2: "open_msg part ver src (?o + sz) (?m\<lparr>mm_block := mm_block ?m @ [?b], mm_res_num := mm_res_num ?m + 1\<rparr>)"
    by (intro filling_add [OF f1]) (simp_all add: sz)
  obtain o' m' s' where IH: "send_loop net dst (length xs) (ln_next (rb_node (f x))) (?o + sz)
      (?m\<lparr>mm_block := mm_block ?m @ [?b], mm_res_num := mm_res_num ?m + 1\<rparr>) (sent @ ?s) c = Some (OG_SUCCESS, o', m', (sent @ ?s) @ s')"
    "open_msg part ver src o' m'" "concat (map mm_block s') @ mm_block m' = (mm_block ?m @ [?b]) @ map (\<lambda>i. pack (f i)) xs"
    "\<forall>m \<in> set s'. taken part ver m \<and> \<not> mm_is_part_end m"
    using Cons.IH [OF n(2) _ f2, of "sent @ ?s"] Cons.prems(2) by auto
  have "send_loop net dst (length (x # xs)) idx offset msg sent c = Some (OG_SUCCESS, o', m', sent @ (?s @ s'))"
    using IH(1) loop_Suc [OF x, of net dst "length xs" offset msg sent] n(1) flush_sent [OF assms(1), of offset msg sent]
    by (auto simp: Let_def split: if_splits)
  moreover have "\<forall>m \<in> set (?s @ s'). taken part ver m \<and> \<not> mm_is_part_end m"
    using IH(4) filled_ok [OF Cons.prems(3) sz(1,3)] Cons.prems(3) by (auto simp: filling_msg_def)
  moreover have "concat (map mm_block (?s @ s')) @ mm_block m' = mm_block msg @ map (\<lambda>i. pack (f i)) (x # xs)"
    using IH(3) by simp
  ultimately show ?case using IH(2) by blast
qed

end

lemma settled_le: "settled res \<Longrightarrow> le_count res = 0"
  by (simp add: settled_def le_count_def)

lemmas mgrt_sizes = MES_MESSAGE_BUFFER_SIZE_def SIZEOF_RES_MASTER_MSG_def SIZEOF_BUF_RES_MSG_def SIZEOF_LOCK_RES_MSG_def SIZEOF_LE_MSG_def

interpretation page_sender: mgrt_sender drc_send_buf_loop buf_get "buf_res_msg 0 []" SIZEOF_BUF_RES_MSG REMASTER_MIG_MAX_BUF_RES_NUM
proof (unfold_locales, goal_cases)
  case (2 c idx res net dst n offset msg sent)
  then show ?case using settled_le [OF 2(2)]
    by (simp add: settled_def drc_set_le_msg_def Let_def mgrt_sizes split: prod.splits)
qed (simp_all add: REMASTER_MIG_MAX_BUF_RES_NUM_def mgrt_sizes)

interpretation lock_sender: mgrt_sender drc_send_lock_loop lock_get "lock_res_msg 0 []" SIZEOF_LOCK_RES_MSG REMASTER_MIG_MAX_LOCK_RES_NUM
proof (unfold_locales, goal_cases)
  case (2 c idx res net dst n offset msg sent)
  then show ?case using settled_le [OF 2(2)]
    by (simp add: settled_def drc_set_le_msg_def Let_def mgrt_sizes split: prod.splits)
qed (simp_all add: REMASTER_MIG_MAX_LOCK_RES_NUM_def mgrt_sizes)

subsection \<open>The resources of a partition\<close>

text \<open>The resources of a partition.\<close>

definition part_keys :: "('k \<Rightarrow> 'a drc_res_base_scheme option) \<Rightarrow> nat \<Rightarrow> 'k set" where
  "part_keys V p = {k. \<exists>res. V k = Some res \<and> unat (rb_part_id res) = p}"

context directory
begin

lemma part_items_rep:
  assumes rep: "rep g V H" and p: "p < DRC_MAX_PART_NUM"
  shows "distinct (part_items g p)"
    "i \<in> set (part_items g p) \<longleftrightarrow> (\<exists>k res. V k = Some res \<and> rb_idx res = i \<and> unat (rb_part_id res) = p)"
    "length (part_items g p) = unat (dl_count (gr_res_parts g ! p))"
    "length (gr_res_parts g) = DRC_MAX_PART_NUM"
proof -
  have inv: "dir_inv hash key cmp g" "wf g" using rep rep_wf by (auto simp: dir_rep_def)
  have ok: "part_ok g q" if "q < DRC_MAX_PART_NUM" for q
    using inv(2) that by (simp add: dir_wf_def parts_inv_def list_all_iff)
  show "distinct (part_items g p)" using ok [OF p] by (simp add: part_ok_def list_repr_def)
  show "length (part_items g p) = unat (dl_count (gr_res_parts g ! p))" by (simp add: part_items_def list_items_def)
  show "length (gr_res_parts g) = DRC_MAX_PART_NUM" using inv(2) by (simp add: dir_wf_def parts_inv_def)
  have view: "V k = map_option (\<lambda>i. strip (gr_mem g ! unat i)) (dfind g k)" for k
    using rep by (auto simp: dir_rep_def dir_view_def)
  have part: "unat (rb_part_id (gr_mem g ! unat j)) = q" if "j \<in> set (part_items g q)" "q < DRC_MAX_PART_NUM" for j q
    using ok [OF that(2)] that(1) by (auto simp: part_ok_def list_all_iff)
  have mapped: "mapped hash key g = listed g" using inv(1) by (simp add: dir_inv_def)
  show "i \<in> set (part_items g p) \<longleftrightarrow> (\<exists>k res. V k = Some res \<and> rb_idx res = i \<and> unat (rb_part_id res) = p)"
  proof
    assume i: "i \<in> set (part_items g p)"
    then have "i \<in> mapped hash key g" using p mapped by (auto simp: listed_def)
    then have "dfind g (key (gr_mem g ! unat i)) = Some i" "rb_idx (gr_mem g ! unat i) = i"
      using find_mapped(2) [OF inv(2)] inv(1) by (auto simp: dir_inv_def)
    then show "\<exists>k res. V k = Some res \<and> rb_idx res = i \<and> unat (rb_part_id res) = p"
      using view part [OF i p] by (intro exI [of _ "key (gr_mem g ! unat i)"] exI [of _ "strip (gr_mem g ! unat i)"]) simp
  next
    assume "\<exists>k res. V k = Some res \<and> rb_idx res = i \<and> unat (rb_part_id res) = p"
    then obtain k res where k: "V k = Some res" "rb_idx res = i" "unat (rb_part_id res) = p" by blast
    have f: "strip (gr_mem g ! unat i) = res" "i \<in> mapped hash key g" using rep_find(2) [OF rep k(1)] k(2) by auto
    then obtain q where q: "q < DRC_MAX_PART_NUM" "i \<in> set (part_items g q)" using mapped by (auto simp: listed_def)
    have "rb_part_id (gr_mem g ! unat i) = rb_part_id res" using f(1) strip_sel(3) by metis
    then show "i \<in> set (part_items g p)" using part [OF q(2,1)] q k(3) by simp
  qed
qed

lemma part_chain:
  assumes "rep g V H" "p < DRC_MAX_PART_NUM"
  shows "chain (gr_read g) (dl_first (gr_res_parts g ! p)) (part_items g p)"
proof -
  have "(\<lambda>j. case gr_read g j of Some res \<Rightarrow> ln_next (rb_node res) | None \<Rightarrow> OG_INVALID_ID32) = node_next (nodes (gr_mem g))"
    by (auto simp: fun_eq_iff gr_read_def rd_def node_next_def)
  then show ?thesis using part_items_rep(3) [OF assms] by (simp add: chain_def) (simp add: part_items_def list_items_def)
qed

lemma part_items_read:
  assumes rep: "rep g V H" and p: "p < DRC_MAX_PART_NUM" and i: "i \<in> set (part_items g p)"
  shows "gr_read g i = Some (gr_mem g ! unat i)" "V (key (gr_mem g ! unat i)) = Some (strip (gr_mem g ! unat i))"
    "unat (rb_part_id (gr_mem g ! unat i)) = p"
proof -
  obtain k res where k: "V k = Some res" "rb_idx res = i" "unat (rb_part_id res) = p" using part_items_rep(2) [OF rep p] i by blast
  note f = rep_find(2) [OF rep k(1)]
  show "gr_read g i = Some (gr_mem g ! unat i)" using f k(2) by (simp add: gr_read_def)
  have "key (gr_mem g ! unat i) = k" using f k(2) strip_sel(6) by metis
  then show "V (key (gr_mem g ! unat i)) = Some (strip (gr_mem g ! unat i))" using f k(1,2) by simp
  show "unat (rb_part_id (gr_mem g ! unat i)) = p" using f k(2,3) strip_sel(3) by metis
qed

lemma part_keys_items:
  assumes rep: "rep g V H" and p: "p < DRC_MAX_PART_NUM"
  shows "part_keys V p = (\<lambda>i. key (gr_mem g ! unat i)) ` set (part_items g p)" "inj_on (\<lambda>i. key (gr_mem g ! unat i)) (set (part_items g p))"
proof -
  have idx: "rb_idx (strip (gr_mem g ! unat i)) = i" if i: "i \<in> set (part_items g p)" for i
  proof -
    obtain k res where k: "V k = Some res" "rb_idx res = i" using part_items_rep(2) [OF rep p] i by blast
    then show ?thesis using rep_find(2) [OF rep k(1)] by simp
  qed
  show "part_keys V p = (\<lambda>i. key (gr_mem g ! unat i)) ` set (part_items g p)" (is "_ = ?K")
  proof (intro equalityI subsetI)
    fix k assume "k \<in> part_keys V p"
    then obtain res where r: "V k = Some res" "unat (rb_part_id res) = p" by (auto simp: part_keys_def)
    then have "rb_idx res \<in> set (part_items g p)" using part_items_rep(2) [OF rep p] by blast
    moreover have "key (gr_mem g ! unat (rb_idx res)) = k" using rep_find(2) [OF rep r(1)] strip_sel(6) by metis
    ultimately show "k \<in> ?K" by force
  next
    fix k assume "k \<in> ?K"
    then obtain i where i: "i \<in> set (part_items g p)" "k = key (gr_mem g ! unat i)" by blast
    then show "k \<in> part_keys V p" using part_items_read [OF rep p i(1)] by (auto simp: part_keys_def)
  qed
  show "inj_on (\<lambda>i. key (gr_mem g ! unat i)) (set (part_items g p))"
  proof (rule inj_onI)
    fix i j assume ij: "i \<in> set (part_items g p)" "j \<in> set (part_items g p)" "key (gr_mem g ! unat i) = key (gr_mem g ! unat j)"
    then have "strip (gr_mem g ! unat i) = strip (gr_mem g ! unat j)"
      using part_items_read(2) [OF rep p ij(1)] part_items_read(2) [OF rep p ij(2)] by simp
    then show "i = j" using idx [OF ij(1)] idx [OF ij(2)] by simp
  qed
qed

lemma part_count:
  assumes "rep g V H" "p < DRC_MAX_PART_NUM"
  shows "unat (dl_count (gr_res_parts g ! p)) = card (part_keys V p)"
  using part_keys_items [OF assms] part_items_rep(1,3) [OF assms] by (simp add: card_image distinct_card)

end

subsection \<open>A partition leaves\<close>

text \<open>The resources of partition \<open>p\<close> in messages.\<close>

definition packed :: "('a drc_res_base_scheme \<Rightarrow> 'm) \<Rightarrow> ('m \<Rightarrow> 'k) \<Rightarrow> ('k \<Rightarrow> 'a drc_res_base_scheme option) \<Rightarrow> nat \<Rightarrow> 'm list \<Rightarrow> bool" where
  "packed pack mkey V p xs \<longleftrightarrow> distinct (map mkey xs) \<and> set xs = {pack res |k res. V k = Some res \<and> unat (rb_part_id res) = p} \<and>
     mkey ` set xs = part_keys V p"

context directory
begin

text \<open>What the messages have of a partition when \<open>pack\<close> is what they have of a resource.\<close>

lemma part_packed:
  fixes pack :: "'a drc_res_base_scheme \<Rightarrow> 'm" and mkey :: "'m \<Rightarrow> 'k"
  assumes rep: "rep g V H" and p: "p < DRC_MAX_PART_NUM" and pack: "\<And>res. pack (strip res) = pack res" "\<And>res. mkey (pack res) = key res"
  shows "packed pack mkey V p (map (\<lambda>i. pack (gr_mem g ! unat i)) (part_items g p))"
proof -
  note items = part_keys_items [OF rep p]
  have content: "(\<lambda>i. pack (gr_mem g ! unat i)) ` set (part_items g p) = {pack res |k res. V k = Some res \<and> unat (rb_part_id res) = p}" (is "?l = ?r")
  proof (intro equalityI subsetI)
    fix m assume "m \<in> ?l"
    then obtain i where i: "i \<in> set (part_items g p)" "m = pack (gr_mem g ! unat i)" by blast
    then have "m = pack (strip (gr_mem g ! unat i))" by (simp add: pack)
    moreover have "unat (rb_part_id (strip (gr_mem g ! unat i))) = p" using part_items_read(3) [OF rep p i(1)] by simp
    ultimately show "m \<in> ?r" using part_items_read(2) [OF rep p i(1)] by blast
  next
    fix m assume "m \<in> ?r"
    then obtain k res where m: "m = pack res" "V k = Some res" "unat (rb_part_id res) = p" by blast
    have "rb_idx res \<in> set (part_items g p)" using m part_items_rep(2) [OF rep p] by blast
    moreover have "m = pack (gr_mem g ! unat (rb_idx res))" using rep_find(2) [OF rep m(2)] m(1) pack(1) by metis
    ultimately show "m \<in> ?l" by blast
  qed
  have keys: "map mkey (map (\<lambda>i. pack (gr_mem g ! unat i)) (part_items g p)) = map (\<lambda>i. key (gr_mem g ! unat i)) (part_items g p)"
    by (simp add: pack)
  then have "mkey ` set (map (\<lambda>i. pack (gr_mem g ! unat i)) (part_items g p)) = part_keys V p"
    using items(1) by (metis set_map)
  then show ?thesis using content keys items(2) part_items_rep(1) [OF rep p] by (simp add: packed_def distinct_map comp_def pack)
qed

end

lemma settled_strip [simp]: "settled (strip res) = settled res"
  by (simp add: settled_def cvt_req_def)

definition quiet :: "('k \<Rightarrow> 'a drc_res_base_scheme option) \<Rightarrow> nat \<Rightarrow> bool" where
  "quiet V p \<longleftrightarrow> (\<forall>k res. V k = Some res \<longrightarrow> unat (rb_part_id res) = p \<longrightarrow> settled res)"

lemma pages_packed:
  assumes "page_dir.rep g V H" "p < DRC_MAX_PART_NUM"
  shows "packed (buf_res_msg 0 []) bm_page_id V p (map (\<lambda>i. buf_res_msg 0 [] (gr_mem g ! unat i)) (part_items g p))"
  by (rule page_dir.part_packed [OF assms]) (simp_all add: buf_res_msg_def strip_def)

lemma locks_packed:
  assumes "lock_dir.rep promote g V H" "p < DRC_MAX_PART_NUM"
  shows "packed (lock_res_msg 0 []) km_res_id V p (map (\<lambda>i. lock_res_msg 0 [] (gr_mem g ! unat i)) (part_items g p))"
  by (rule lock_dir.part_packed [OF assms]) (simp_all add: lock_res_msg_def strip_def)

text \<open>The empty message at the start.\<close>

abbreviation "first_msg self task ver \<equiv> (drc_init_res_master_msg self task)\<lparr>mm_reform_trigger_version := ver\<rparr>"

lemma filling_first: "filling_msg (ucast (tk_part_id task)) sz ver self SIZEOF_RES_MASTER_MSG (first_msg self task ver)"
  by (simp add: filling_msg_def drc_init_res_master_msg_def SIZEOF_RES_MASTER_MSG_def)

abbreviation "version_of ogx \<equiv> rf_trigger_version (dm_reform_info (pm_remaster_mngr (in_part_mngr ogx)))"

lemma pages_sent:
  assumes rep: "page_dir.rep (rc_global_buf_res (in_ctx ogx)) V H" and p: "unat (tk_part_id task) < DRC_MAX_PART_NUM"
    and q: "quiet V (unat (tk_part_id task))" and net: "net_ok net (tk_import_inst task)"
  shows "\<exists>ms. drc_send_buf_master_blk True net self task ogx =
      Some (OG_SUCCESS, dl_count (gr_res_parts (rc_global_buf_res (in_ctx ogx)) ! unat (tk_part_id task)), ms) \<and>
    (\<forall>m \<in> set ms. mgrt_msg_ok (ucast (tk_part_id task)) 56 REMASTER_MIG_MAX_BUF_RES_NUM (version_of ogx) m) \<and>
    packed (buf_res_msg 0 []) bm_page_id V (unat (tk_part_id task)) (concat (map mm_block ms))"
proof -
  let ?g = "rc_global_buf_res (in_ctx ogx)" and ?p = "unat (tk_part_id task)" and ?dst = "tk_import_inst task"
  let ?f = "\<lambda>i. gr_mem ?g ! unat i" and ?xs = "part_items ?g ?p"
  note items = page_dir.part_items_rep [OF rep p]
  have rd: "rd (gr_res_parts ?g) (tk_part_id task) = Some (gr_res_parts ?g ! ?p)" using items(4) p by simp
  have get: "\<forall>i \<in> set ?xs. buf_get (in_ctx ogx) i = Some (?f i) \<and> settled (?f i)"
  proof
    fix i assume i: "i \<in> set ?xs"
    have "unat (rb_part_id (strip (?f i))) = ?p" using page_dir.part_items_read(3) [OF rep p i] by simp
    then have "settled (strip (?f i))" using q page_dir.part_items_read(2) [OF rep p i] unfolding quiet_def by blast
    then show "buf_get (in_ctx ogx) i = Some (?f i) \<and> settled (?f i)" using page_dir.part_items_read(1) [OF rep p i] by (simp add: buf_get_def)
  qed
  have ch: "chain (buf_get (in_ctx ogx)) (dl_first (gr_res_parts ?g ! ?p)) ?xs"
    using page_dir.part_chain [OF rep p] by (simp add: chain_def buf_get_def)
  note pk = pages_packed [OF rep p]
  show ?thesis
  proof (cases "dl_count (gr_res_parts ?g ! ?p) = 0")
    case True
    then have "?xs = []" using items(3) by simp
    then show ?thesis using True rd pk by (intro exI [of _ "[]"]) (simp add: drc_send_buf_master_blk_def)
  next
    case False
    obtain o' m' s where l: "drc_send_buf_loop net ?dst (length ?xs) (dl_first (gr_res_parts ?g ! ?p)) SIZEOF_RES_MASTER_MSG
        (first_msg self task (version_of ogx)) [] (in_ctx ogx) = Some (OG_SUCCESS, o', m', [] @ s)"
      "filling_msg (ucast (tk_part_id task)) 56 (version_of ogx) self o' m'"
      "concat (map mm_block s) @ mm_block m' = map (\<lambda>i. buf_res_msg 0 [] (?f i)) ?xs"
      "\<forall>m \<in> set s. mgrt_msg_ok (ucast (tk_part_id task)) 56 REMASTER_MIG_MAX_BUF_RES_NUM (version_of ogx) m \<and> \<not> mm_is_part_end m"
      using page_sender.send_loop_ok [OF net ch get filling_first [of task _ "version_of ogx" self], of "[]"]
      by (auto simp: SIZEOF_BUF_RES_MSG_def drc_init_res_master_msg_def)
    let ?l = "m'\<lparr>mm_is_part_end := False, mm_size := o'\<rparr>"
    have "m'\<lparr>mm_is_part_end := False\<rparr> = m'" using l(2) by (simp add: filling_msg_def)
    then have ok: "mgrt_msg_ok (ucast (tk_part_id task)) 56 REMASTER_MIG_MAX_BUF_RES_NUM (version_of ogx) ?l"
      using filled_ok [OF l(2), of REMASTER_MIG_MAX_BUF_RES_NUM] by (simp add: REMASTER_MIG_MAX_BUF_RES_NUM_def mgrt_sizes)
    have "drc_send_buf_master_blk True net self task ogx = Some (OG_SUCCESS, dl_count (gr_res_parts ?g ! ?p), s @ [?l])"
      using False rd l(1) items(3) flush_sent [OF net, of o' "m'\<lparr>mm_is_part_end := False\<rparr>" s] by (simp add: drc_send_buf_master_blk_def)
    then show ?thesis using l(3,4) ok pk by (intro exI [of _ "s @ [?l]"]) simp
  qed
qed

lemma locks_sent:
  assumes rep: "lock_dir.rep promote (rc_global_lock_res (in_ctx ogx)) V H" and p: "unat (tk_part_id task) < DRC_MAX_PART_NUM"
    and q: "quiet V (unat (tk_part_id task))" and net: "net_ok net (tk_import_inst task)"
  shows "\<exists>ms l. drc_send_lock_master_blk True net self task cnt ogx = Some (OG_SUCCESS, ms @ [l]) \<and>
    (\<forall>m \<in> set (ms @ [l]). mgrt_msg_ok (ucast (tk_part_id task)) 40 REMASTER_MIG_MAX_LOCK_RES_NUM (version_of ogx) m) \<and>
    packed (lock_res_msg 0 []) km_res_id V (unat (tk_part_id task)) (concat (map mm_block (ms @ [l]))) \<and>
    (\<forall>m \<in> set ms. \<not> mm_is_part_end m) \<and> mm_is_part_end l \<and> mm_src_inst l = self \<and>
    mm_counts l = (cnt, dl_count (gr_res_parts (rc_global_lock_res (in_ctx ogx)) ! unat (tk_part_id task)))"
proof -
  let ?g = "rc_global_lock_res (in_ctx ogx)" and ?p = "unat (tk_part_id task)" and ?dst = "tk_import_inst task"
  let ?f = "\<lambda>i. gr_mem ?g ! unat i" and ?xs = "part_items ?g ?p"
  let ?ok = "mgrt_msg_ok (ucast (tk_part_id task)) 40 REMASTER_MIG_MAX_LOCK_RES_NUM (version_of ogx)"
  let ?n = "dl_count (gr_res_parts ?g ! ?p)"
  note items = lock_dir.part_items_rep [OF rep p]
  have rd: "rd (gr_res_parts ?g) (tk_part_id task) = Some (gr_res_parts ?g ! ?p)" using items(4) p by simp
  have get: "\<forall>i \<in> set ?xs. lock_get (in_ctx ogx) i = Some (?f i) \<and> settled (?f i)"
  proof
    fix i assume i: "i \<in> set ?xs"
    have "unat (rb_part_id (strip (?f i))) = ?p" using lock_dir.part_items_read(3) [OF rep p i] by simp
    then have "settled (strip (?f i))" using q lock_dir.part_items_read(2) [OF rep p i] unfolding quiet_def by blast
    then show "lock_get (in_ctx ogx) i = Some (?f i) \<and> settled (?f i)" using lock_dir.part_items_read(1) [OF rep p i] by (simp add: lock_get_def)
  qed
  have ch: "chain (lock_get (in_ctx ogx)) (dl_first (gr_res_parts ?g ! ?p)) ?xs"
    using lock_dir.part_chain [OF rep p] by (simp add: chain_def lock_get_def)
  note pk = locks_packed [OF rep p]
  obtain o' m' s where l: "drc_send_lock_loop net ?dst (length ?xs) (dl_first (gr_res_parts ?g ! ?p)) SIZEOF_RES_MASTER_MSG
      (first_msg self task (version_of ogx)) [] (in_ctx ogx) = Some (OG_SUCCESS, o', m', [] @ s)"
    "filling_msg (ucast (tk_part_id task)) 40 (version_of ogx) self o' m'"
    "concat (map mm_block s) @ mm_block m' = map (\<lambda>i. lock_res_msg 0 [] (?f i)) ?xs" "\<forall>m \<in> set s. ?ok m \<and> \<not> mm_is_part_end m"
    using lock_sender.send_loop_ok [OF net ch get filling_first [of task _ "version_of ogx" self], of "[]"]
    by (auto simp: SIZEOF_LOCK_RES_MSG_def drc_init_res_master_msg_def)
  have ok: "?ok (m'\<lparr>mm_size := o'\<rparr>)"
    using filled_ok [OF l(2), of REMASTER_MIG_MAX_LOCK_RES_NUM] by (simp add: REMASTER_MIG_MAX_LOCK_RES_NUM_def mgrt_sizes)
  have pre: "drc_send_lock_loop net ?dst (unat ?n) (dl_first (gr_res_parts ?g ! ?p)) SIZEOF_RES_MASTER_MSG
      (first_msg self task (version_of ogx)) [] (in_ctx ogx) = Some (OG_SUCCESS, o', m', s)" using l(1) items(3) by simp
  show ?thesis
  proof (cases "unat o' + 8 \<le> 32832")
    case True
    let ?l = "m'\<lparr>mm_counts := (cnt, ?n), mm_is_part_end := True, mm_size := o' + 8\<rparr>"
    have "unat (o' + 8) = unat o' + 8" using True by (simp add: unat_word_ariths)
    then have "?ok ?l" using ok by (simp add: mgrt_msg_ok_def)
    moreover have "drc_send_lock_master_blk True net self task cnt ogx = Some (OG_SUCCESS, s @ [?l])"
      using rd pre True flush_sent [OF net] by (simp add: drc_send_lock_master_blk_def mgrt_sizes)
    ultimately show ?thesis using l(2,3,4) pk by (intro exI [of _ s] exI [of _ ?l]) (simp add: filling_msg_def)
  next
    case False
    let ?l = "m'\<lparr>mm_counts := (cnt, ?n), mm_res_num := 0, mm_block := [], mm_is_part_end := True, mm_size := SIZEOF_RES_MASTER_MSG + 8\<rparr>"
    have "?ok ?l" using ok by (simp add: mgrt_msg_ok_def mgrt_sizes)
    moreover have "drc_send_lock_master_blk True net self task cnt ogx = Some (OG_SUCCESS, (s @ [m'\<lparr>mm_size := o'\<rparr>]) @ [?l])"
      using rd pre False by (simp add: flush_sent [OF net] drc_send_lock_master_blk_def drc_send_mgrt_part_end_def Let_def mgrt_sizes)
    ultimately show ?thesis using l(2,3,4) ok pk
      by (intro exI [of _ "s @ [m'\<lparr>mm_size := o'\<rparr>]"] exI [of _ ?l]) (simp add: filling_msg_def)
  qed
qed

end
