(* ===== verification/Mgrt_Receive.thy ===== *)
theory Mgrt_Receive
  imports Mgrt_Send
begin

text \<open>
  The processing of the messages. The loops that enter pages and locks in a directory are one interface; its laws give what is in the directory
  after a message, and from there what is in it after all.
\<close>

subsection \<open>Batches and entries of a directory\<close>

lemma alloc_batch_ok:
  assumes "pool_inv p" "unat (rp_item_num p) < 2 ^ 31" "pool_free p \<noteq> []" "unat num \<le> length (pool_free p)"
  shows "drc_res_pool_alloc_batch_item p num = Some (OG_SUCCESS, take (unat num) (pool_free p), (pool_pop ^^ unat num) p)"
proof -
  have len: "length (pool_free p) = unat (rp_item_num p) - unat (rp_used_num p)" by (simp add: pool_free_def pool_free_num_def)
  have used: "unat (rp_used_num p) \<le> unat (rp_item_num p)" and init: "rp_inited p" using assms(1) by (simp_all add: pool_inv_def)
  have "unat (rp_used_num p + num) = unat (rp_used_num p) + unat num"
    using used assms(2,4) len by (simp add: unat_word_ariths)
  then have "\<not> (num > rp_item_num p \<or> rp_used_num p + num > rp_item_num p)"
    using assms(4) used len by (auto simp: word_less_nat_alt)
  moreover have "rp_free_list p \<noteq> OG_INVALID_ID32" using pool_free_empty_iff [OF assms(1)] assms(3) by simp
  ultimately show ?thesis
    using take_items [OF assms(1,4)] init by (simp add: drc_res_pool_alloc_batch_item_def)
qed

lemma pops_fields: "rp_addr ((pool_pop ^^ n) p) = rp_addr p" "rp_item_num ((pool_pop ^^ n) p) = rp_item_num p"
  by (induction n) (simp_all add: pool_pop_def)

text \<open>The size of a pool and the number of its free items.\<close>

definition pool_size :: "'a drc_res_pool \<Rightarrow> u32 \<times> nat" where
  "pool_size p = (rp_item_num p, pool_free_num p)"

lemma pool_size_mem [simp]: "pool_size (p\<lparr>rp_addr := mem\<rparr>) = pool_size p"
  by (simp add: pool_size_def pool_free_num_def)

lemma write_size: "gr_write g i res = Some g' \<Longrightarrow> pool_size (gr_pool g') = pool_size (gr_pool g)"
  by (auto simp: gr_write_def gr_set_mem_def)

lemma map_add_size: "gr_map_add hash g k i = Some g' \<Longrightarrow> pool_size (gr_pool g') = pool_size (gr_pool g)"
  by (auto simp: gr_map_add_def map_add_def drc_res_map_add_def Let_def Option.bind_eq_Some_conv gr_pool_def)

lemma part_add_size: "gr_part_add g part i = Some g' \<Longrightarrow> pool_size (gr_pool g') = pool_size (gr_pool g)"
  by (auto simp: gr_part_add_def Option.bind_eq_Some_conv gr_set_mem_def)

lemma part_of_added:
  assumes "gr_write g i res = Some g1" "gr_map_add hash g1 k i = Some g2"
  shows "\<exists>nx. gr_read g2 i = Some (res\<lparr>bh_next := nx\<rparr>) \<and> gr_mem g2 ! unat i = res\<lparr>bh_next := nx\<rparr> \<and> unat i < length (gr_mem g2)"
  using assms
  by (auto simp: gr_write_def gr_map_add_def map_add_def drc_res_map_add_def Let_def gr_read_def set_next_def Option.bind_eq_Some_conv gr_simps rd_def wr_def split: if_splits)

lemma set_part_same:
  assumes "gr_read g i = Some x" "rb_part_id x = part" "ln_idx (rb_node x) = i"
  shows "gr_set_part g part i = Some g"
proof -
  have "x\<lparr>rb_part_id := part, rb_node := (rb_node x)\<lparr>ln_idx := i\<rparr>\<rparr> = x" using assms(2,3) by simp
  moreover have "gr_write g i x = Some g" using assms(1) by (auto simp: gr_write_def gr_read_def rd_def wr_def gr_simps split: if_splits)
  ultimately show ?thesis using assms(1) by (simp add: gr_set_part_def)
qed

context directory
begin

lemma rep_alloc_batch:
  assumes rep: "rep g V H" and small: "unat (rp_item_num (gr_pool g)) < 2 ^ 31" and n: "0 < pool_free_num (gr_pool g)" "unat n \<le> pool_free_num (gr_pool g)"
  shows "\<exists>ids pool'. drc_res_pool_alloc_batch_item (gr_pool g) n = Some (OG_SUCCESS, ids, pool') \<and> distinct ids \<and> length ids = unat n \<and>
    set ids \<inter> H = {} \<and> rep (gr_set_pool g pool') V (H \<union> set ids) \<and>
    pool_size pool' = (rp_item_num (gr_pool g), pool_free_num (gr_pool g) - unat n)"
proof -
  let ?p = "gr_pool g" and ?k = "unat n"
  let ?ids = "take ?k (pool_free ?p)" and ?p' = "(pool_pop ^^ ?k) ?p"
  have inv: "pool_inv ?p" using wf_pool [OF rep_wf [OF rep]] .
  have len: "length (pool_free ?p) = pool_free_num ?p" by (simp add: pool_free_def)
  have t: "pool_inv ?p'" "pool_free ?p' = drop ?k (pool_free ?p)" using take_items [OF inv, of ?k] n(2) len by simp_all
  have fresh: "distinct (pool_free ?p)" "\<forall>i \<in> set (pool_free ?p). pool_valid ?p i" using inv by (auto simp: pool_inv_def list_all_iff)
  have dis: "set ?ids \<inter> set (drop ?k (pool_free ?p)) = {}" using fresh(1) by (simp add: set_take_disj_set_drop_if_distinct)
  have "set (pool_free ?p) = set ?ids \<union> set (drop ?k (pool_free ?p))" by (metis append_take_drop_id set_append)
  then have used: "pool_used ?p' j \<longleftrightarrow> pool_used ?p j \<or> j \<in> set ?ids" for j
    using t(2) fresh(2) dis by (auto simp: pool_used_def pool_valid_def pops_fields)
  have notH: "set ?ids \<inter> H = {}" using rep_held [OF rep] by (auto simp: pool_used_def dest: in_set_takeD)
  note frame = wf_frame [OF rep_wf [OF rep] t(1) pops_fields(2)]
  have "wf (gr_set_pool g ?p')" "dfind (gr_set_pool g ?p') = dfind g" "listed (gr_set_pool g ?p') = listed g"
    by (rule frame; use linked_used [OF rep_wf [OF rep]] used in \<open>simp add: pops_fields gr_mem_def\<close>)+
  then have rep': "rep (gr_set_pool g ?p') V (H \<union> set ?ids)"
    by (rule rep_same [OF rep])
      (use rep used linked_used [OF rep_wf [OF rep]] in \<open>auto simp: dir_rep_def pops_fields gr_mem_def pool_used_def dest: in_set_takeD\<close>)
  have "pool_free_num ?p' = length (pool_free ?p')" by (simp add: pool_free_def)
  then have "pool_size ?p' = (rp_item_num ?p, pool_free_num ?p - ?k)" using t(2) len by (simp add: pool_size_def pops_fields)
  moreover have "pool_free ?p \<noteq> []" using n(1) len by auto
  ultimately show ?thesis using alloc_batch_ok [OF inv small, of n] n(2) len fresh(1) notH rep' by auto
qed

lemma rep_enter:
  assumes rep: "rep g V H" and i: "i \<in> H" and k: "key res = k" "V k = None" and idx: "rb_idx res = i" "ln_idx (rb_node res) = i"
    and part: "unat (rb_part_id res) < DRC_MAX_PART_NUM"
  shows "\<exists>g1 g2 g3. gr_write g i res = Some g1 \<and> gr_map_add hash g1 k i = Some g2 \<and> gr_part_add g2 (rb_part_id res) i = Some g3 \<and>
    rep g3 (V(k \<mapsto> strip res)) (H - {i}) \<and> pool_size (gr_pool g3) = pool_size (gr_pool g)"
proof -
  obtain g1 g2 g3 g4 where g: "gr_write g i res = Some g1" "gr_map_add hash g1 k i = Some g2" "gr_set_part g2 (rb_part_id res) i = Some g3"
    "gr_part_add g3 (rb_part_id res) i = Some g4" "rep g4 (V(k \<mapsto> strip (res\<lparr>rb_part_id := rb_part_id res\<rparr>))) (H - {i})"
    using rep_insert [OF rep i k idx(1) part] by blast
  obtain nx where "gr_read g2 i = Some (res\<lparr>bh_next := nx\<rparr>)" using part_of_added [OF g(1,2)] by blast
  then have "g3 = g2" using set_part_same [of g2 i "res\<lparr>bh_next := nx\<rparr>" "rb_part_id res"] g(3) idx(2) by simp
  then show ?thesis
    using g write_size [OF g(1)] map_add_size [OF g(2)] part_add_size [of g2 "rb_part_id res" i g4] by auto
qed

end

subsection \<open>Receiving\<close>

text \<open>
  The interface of the two loops that enter the resources of a message: \<open>dir\<close> is the directory they enter them in, \<open>mkey\<close> the identifier
  of a resource in a message, \<open>fresh\<close> the resource made of it in an item with other contents, and \<open>plain\<close> says that no requests go with it.
\<close>

locale mgrt_receiver = directory hash key cmp
  for hash :: "u32 \<Rightarrow> 'k \<Rightarrow> u32" and key :: "'a drc_res_base_scheme \<Rightarrow> 'k" and cmp +
  fixes load :: "(u32 \<times> 'm) list \<Rightarrow> u32 \<Rightarrow> drc_res_ctx \<Rightarrow> (u32 \<times> drc_res_ctx) option"
    and dir :: "drc_res_ctx \<Rightarrow> ('k, 'a drc_res_base_ext) drc_global_res"
    and upd :: "('k, 'a drc_res_base_ext) drc_global_res \<Rightarrow> drc_res_ctx \<Rightarrow> drc_res_ctx"
    and mkey :: "'m \<Rightarrow> 'k" and fresh :: "'m \<Rightarrow> u32 \<Rightarrow> 'a drc_res_base_scheme \<Rightarrow> 'a drc_res_base_scheme" and plain :: "'m \<Rightarrow> bool"
  assumes load_Nil: "load [] n c = Some (n, c)"
    and load_Cons: "gr_lookup hash (dir c) (mkey m) = Some None \<Longrightarrow> gr_read (dir c) i = Some old \<Longrightarrow> plain m \<Longrightarrow>
      gr_write (dir c) i (fresh m i old) = Some g1 \<Longrightarrow> gr_map_add hash g1 (mkey m) i = Some g2 \<Longrightarrow>
      gr_part_add g2 (rb_part_id (fresh m i old)) i = Some g3 \<Longrightarrow> load ((i, m) # rest) n c = load rest (n + 1) (upd g3 c)"
    and upd: "dir (upd g c) = g" "upd g (upd g' c) = upd g c" "upd (dir c) c = c"
    and fresh_key: "key (fresh m i old) = mkey m"
    and fresh_idx: "rb_idx (fresh m i old) = i" "ln_idx (rb_node (fresh m i old)) = i"
    and fresh_part: "unat (rb_part_id (fresh m i old)) < DRC_MAX_PART_NUM"
begin

text \<open>The directory after the resources \<open>ms\<close> have arrived.\<close>

definition arrivals :: "'m list \<Rightarrow> ('k \<Rightarrow> 'a drc_res_base_scheme option) \<Rightarrow> ('k \<Rightarrow> 'a drc_res_base_scheme option) \<Rightarrow> bool" where
  "arrivals ms V V' \<longleftrightarrow> (\<forall>k. k \<notin> mkey ` set ms \<longrightarrow> V' k = V k) \<and> (\<forall>m \<in> set ms. \<exists>i old. V' (mkey m) = Some (strip (fresh m i old)))"

lemma arrivals_Nil: "arrivals [] V V"
  by (simp add: arrivals_def)

lemma arrivals_append:
  assumes "arrivals ms V V1" "arrivals ms' V1 V2" "mkey ` set ms \<inter> mkey ` set ms' = {}"
  shows "arrivals (ms @ ms') V V2"
proof -
  have kept: "V2 (mkey m) = V1 (mkey m)" if "m \<in> set ms" for m
  proof -
    have "mkey m \<notin> mkey ` set ms'" using assms(3) that by blast
    then show ?thesis using assms(2) by (simp add: arrivals_def)
  qed
  show ?thesis unfolding arrivals_def
  proof (intro conjI allI impI ballI)
    fix k assume "k \<notin> mkey ` set (ms @ ms')"
    then show "V2 k = V k" using assms(1,2) by (simp add: arrivals_def image_Un)
  next
    fix m assume "m \<in> set (ms @ ms')"
    then show "\<exists>i old. V2 (mkey m) = Some (strip (fresh m i old))"
      using assms(1,2) kept [of m] by (auto simp: arrivals_def)
  qed
qed

lemma load_ok:
  assumes "rep (dir c) V (H \<union> set idx)" "distinct idx" "set idx \<inter> H = {}" "length idx = length ms" "distinct (map mkey ms)"
    "\<forall>m \<in> set ms. V (mkey m) = None \<and> plain m"
  shows "\<exists>g V'. load (zip idx ms) n c = Some (n + of_nat (length ms), upd g c) \<and> rep g V' H \<and> arrivals ms V V' \<and>
    pool_size (gr_pool g) = pool_size (gr_pool (dir c))"
  using assms
proof (induction ms arbitrary: idx n c V)
  case Nil
  then show ?case using arrivals_Nil by (intro exI [of _ "dir c"] exI [of _ V]) (auto simp: load_Nil upd)
next
  case (Cons m ms)
  then obtain i rest where idx: "idx = i # rest" by (cases idx) auto
  have i: "i \<in> H \<union> set idx" using idx by simp
  have m: "V (mkey m) = None" "plain m" using Cons.prems(6) by simp_all
  obtain old where old: "gr_read (dir c) i = Some old" using rep_read_held [OF Cons.prems(1) i] by blast
  obtain g1 g2 g3 where g: "gr_write (dir c) i (fresh m i old) = Some g1" "gr_map_add hash g1 (mkey m) i = Some g2"
    "gr_part_add g2 (rb_part_id (fresh m i old)) i = Some g3"
    "rep g3 (V(mkey m \<mapsto> strip (fresh m i old))) (H \<union> set idx - {i})" "pool_size (gr_pool g3) = pool_size (gr_pool (dir c))"
    using rep_enter [OF Cons.prems(1) i fresh_key m(1) fresh_idx fresh_part] by blast
  have "gr_lookup hash (dir c) (mkey m) = Some None" using rep_lookup [OF Cons.prems(1)] m(1) by simp
  then have step: "load (zip idx (m # ms)) n c = load (zip rest ms) (n + 1) (upd g3 c)"
    using load_Cons [OF _ old m(2) g(1-3)] idx by simp
  have H: "H \<union> set idx - {i} = H \<union> set rest" using idx Cons.prems(2,3) by auto
  let ?V = "V(mkey m \<mapsto> strip (fresh m i old))"
  have r: "rep (dir (upd g3 c)) ?V (H \<union> set rest)" "\<forall>m' \<in> set ms. ?V (mkey m') = None \<and> plain m'"
    using g(4) Cons.prems(5,6) unfolding H upd by (auto simp: image_iff)
  have d: "distinct rest" "set rest \<inter> H = {}" "length rest = length ms" "distinct (map mkey ms)" "\<forall>m' \<in> set ms. ?V (mkey m') = None \<and> plain m'"
    using Cons.prems(2-5) idx r(2) by auto
  obtain g V' where IH: "load (zip rest ms) (n + 1) (upd g3 c) = Some (n + 1 + of_nat (length ms), upd g c)" "rep g V' H" "arrivals ms ?V V'"
    "pool_size (gr_pool g) = pool_size (gr_pool g3)"
    using Cons.IH [OF r(1) d, of "n + 1"] unfolding upd by blast
  have "arrivals [m] V ?V" by (auto simp: arrivals_def)
  then have "arrivals (m # ms) V V'" using arrivals_append [of "[m]" V ?V ms V'] IH(3) Cons.prems(5) by auto
  then show ?case using step IH g(5) by (intro exI [of _ g] exI [of _ V']) (simp add: upd add.assoc)
qed

end

definition arrived_page :: "u32 \<Rightarrow> drc_buf_res_msg \<Rightarrow> u32 \<Rightarrow> drc_buf_res \<Rightarrow> drc_buf_res" where
  "arrived_page ext_pages m i old = old\<lparr>br_claimed_owner := bm_claimed_owner m, rb_mode := bm_mode m, br_page_id := bm_page_id m,
     br_latest_edp := bm_latest_edp m, br_latest_edp_lsn := bm_latest_edp_lsn m, br_lsn := bm_lsn m,
     br_edp_map := bm_edp_map m, br_readonly_copies := bm_readonly_copies m, rb_idx := i,
     br_pending := DRC_RES_INVALID_ACTION, br_is_used := True, rb_part_id := ucast (drc_page_partid ext_pages (bm_page_id m)),
     rb_node := (rb_node old)\<lparr>ln_idx := i\<rparr>,
     rb_converting := DRC_LE_SET OG_INVALID_ID8 DRC_LOCK_NULL OG_INVALID_ID16 OG_INVALID_ID32 (rb_converting old), rb_convert_q := DRC_LIST_INIT\<rparr>"

definition load_pages :: "u32 \<Rightarrow> (u32 \<times> drc_buf_res_msg) list \<Rightarrow> u32 \<Rightarrow> drc_res_ctx \<Rightarrow> (u32 \<times> drc_res_ctx) option" where
  "load_pages ext_pages xs n c = (case drc_migrate_buf_res_l ext_pages xs n c of Some (OG_SUCCESS, n, c) \<Rightarrow> Some (n, c) | _ \<Rightarrow> None)"

lemma page_part_bound: "unat (ucast (drc_page_partid ext_pages pagid) :: u16) < DRC_MAX_PART_NUM"
proof -
  have "unat (drc_page_partid ext_pages pagid) < 1024"
    by (simp add: drc_page_partid_def cm_hash_uint32_def unat_mod Let_def)
  then show ?thesis by (simp add: DRC_MAX_PART_NUM_def unsigned_ucast_eq take_bit_nat_eq_self)
qed

interpretation page_receiver: mgrt_receiver page_hash br_page_id is_same_page "load_pages ext_pages" rc_global_buf_res
    "\<lambda>g. rc_global_buf_res_update (\<lambda>_. g)" bm_page_id "arrived_page ext_pages" "\<lambda>m. bm_le_num m = 0"
proof (unfold_locales, goal_cases)
  case (2 c m i old g1 g2 g3 rest n)
  have "drc_init_buf_res ext_pages m i old (rc_lock_item_pool c) = Some (arrived_page ext_pages m i old, rc_lock_item_pool c)"
    using 2(3) by (simp add: drc_init_buf_res_def arrived_page_def)
  then show ?case using 2 by (simp add: load_pages_def buf_find_def buf_get_def)
qed (simp_all add: load_pages_def arrived_page_def page_part_bound)

definition arrived_lock :: "(u8 \<Rightarrow> u32) \<Rightarrow> drc_lock_res_msg \<Rightarrow> u32 \<Rightarrow> drc_master_res \<Rightarrow> drc_master_res" where
  "arrived_lock promote m i old = old\<lparr>mr_granted_map := km_granted_map m, rb_mode := km_mode m, mr_res_id := km_res_id m,
     rb_idx := i, bh_next := OG_INVALID_ID32, rb_convert_q := DRC_LIST_INIT,
     rb_converting := (rb_converting old)\<lparr>li_req_info := (cvt_req old)\<lparr>ri_inst_id := OG_INVALID_ID8\<rparr>\<rparr>,
     rb_part_id := lock_partid promote (km_res_id m), rb_node := (rb_node old)\<lparr>ln_idx := i\<rparr>\<rparr>"

lemma lock_part_bound: "unat (lock_partid promote lock_id) < DRC_MAX_PART_NUM"
proof -
  have "unat (drc_resource_id_hash promote (drid_bytes lock_id) 1024) < 1024" using hash_in_range [of "1024 :: u32" _ _ promote "drid_bytes lock_id"] by simp
  then show ?thesis by (simp add: lock_partid_def DRC_MAX_PART_NUM_def unsigned_ucast_eq take_bit_nat_eq_self)
qed

interpretation lock_receiver: mgrt_receiver "lock_hash promote" mr_res_id is_same_lock "drc_migrate_lock_res_l promote" rc_global_lock_res
    "\<lambda>g. rc_global_lock_res_update (\<lambda>_. g)" km_res_id "arrived_lock promote" "\<lambda>m. km_le_num m = 0"
proof (unfold_locales, goal_cases)
  case (2 c m i old g1 g2 g3 rest n)
  have "dtc_init_lock_res promote m i old (rc_lock_item_pool c) = Some (arrived_lock promote m i old, rc_lock_item_pool c)"
    using 2(3) by (simp add: dtc_init_lock_res_def arrived_lock_def set_cvt_req_def cvt_req_def)
  then show ?case using 2 by (simp add: lock_find_def lock_get_def)
qed (simp_all add: arrived_lock_def lock_part_bound)

context mgrt_receiver
begin

lemma arrivals_part:
  assumes "arrivals ms V V'" "\<forall>m \<in> set ms. \<forall>i old. unat (rb_part_id (fresh m i old)) = p" "part_keys V p = {}"
  shows "part_keys V' p = mkey ` set ms"
proof (intro equalityI subsetI)
  fix k assume k: "k \<in> part_keys V' p"
  show "k \<in> mkey ` set ms"
  proof (rule ccontr)
    assume "k \<notin> mkey ` set ms"
    then have "V' k = V k" using assms(1) by (simp add: arrivals_def)
    then show False using k assms(3) by (auto simp: part_keys_def)
  qed
next
  fix k assume "k \<in> mkey ` set ms"
  then obtain m where m: "m \<in> set ms" "k = mkey m" by blast
  then obtain i old where "V' k = Some (strip (fresh m i old))" using assms(1) by (auto simp: arrivals_def)
  then show "k \<in> part_keys V' p" using assms(2) m(1) by (auto simp: part_keys_def)
qed

end

subsection \<open>One message\<close>

text \<open>What a message of a migration changes: the directory, and the counts of what has arrived.\<close>

definition with_counts :: "drc_mgrt_res_cnt list \<Rightarrow> drc_instance \<Rightarrow> drc_instance" where
  "with_counts cnts ogx = ogx\<lparr>in_part_mngr := (in_part_mngr ogx)\<lparr>pm_remaster_mngr :=
     (pm_remaster_mngr (in_part_mngr ogx))\<lparr>dm_mgrt_part_res_cnt := cnts\<rparr>\<rparr>\<rparr>"

definition with_pages :: "buf_directory \<Rightarrow> drc_mgrt_res_cnt list \<Rightarrow> drc_instance \<Rightarrow> drc_instance" where
  "with_pages g cnts ogx = (with_counts cnts ogx)\<lparr>in_ctx := (in_ctx ogx)\<lparr>rc_global_buf_res := g\<rparr>\<rparr>"

definition with_locks :: "lock_directory \<Rightarrow> drc_mgrt_res_cnt list \<Rightarrow> drc_instance \<Rightarrow> drc_instance" where
  "with_locks g cnts ogx = (with_counts cnts ogx)\<lparr>in_ctx := (in_ctx ogx)\<lparr>rc_global_lock_res := g\<rparr>\<rparr>"

definition receiving :: "mgrt_env \<Rightarrow> u64 \<Rightarrow> drc_instance \<Rightarrow> bool" where
  "receiving e ver ogx \<longleftrightarrow> ge_in_reform e \<and> ge_malloc_ok e \<and> pm_remaster_status (in_part_mngr ogx) \<noteq> REMASTER_DONE \<and>
     rf_trigger_version (dm_reform_info (pm_remaster_mngr (in_part_mngr ogx))) = ver \<and>
     length (dm_mgrt_part_res_cnt (pm_remaster_mngr (in_part_mngr ogx))) = DRC_MAX_PART_NUM \<and>
     length (dm_mgrt_part_info (pm_remaster_mngr (in_part_mngr ogx))) = DRC_MAX_PART_NUM"

lemma with_pages_fields [simp]:
  "rc_global_buf_res (in_ctx (with_pages g cnts ogx)) = g" "rc_global_lock_res (in_ctx (with_pages g cnts ogx)) = rc_global_lock_res (in_ctx ogx)"
  "dm_mgrt_part_info (pm_remaster_mngr (in_part_mngr (with_pages g cnts ogx))) = dm_mgrt_part_info (pm_remaster_mngr (in_part_mngr ogx))"
  "dm_remaster_task_set (pm_remaster_mngr (in_part_mngr (with_pages g cnts ogx))) = dm_remaster_task_set (pm_remaster_mngr (in_part_mngr ogx))"
  "with_pages g cnts (with_pages g' cnts' ogx) = with_pages g cnts ogx"
  by (simp_all add: with_pages_def with_counts_def)

lemma with_locks_fields [simp]:
  "rc_global_lock_res (in_ctx (with_locks g cnts ogx)) = g" "rc_global_buf_res (in_ctx (with_locks g cnts ogx)) = rc_global_buf_res (in_ctx ogx)"
  "dm_mgrt_part_info (pm_remaster_mngr (in_part_mngr (with_locks g cnts ogx))) = dm_mgrt_part_info (pm_remaster_mngr (in_part_mngr ogx))"
  "dm_remaster_task_set (pm_remaster_mngr (in_part_mngr (with_locks g cnts ogx))) = dm_remaster_task_set (pm_remaster_mngr (in_part_mngr ogx))"
  "with_locks g cnts (with_locks g' cnts' ogx) = with_locks g cnts ogx"
  by (simp_all add: with_locks_def with_counts_def)

lemma receiving_kept [simp]:
  assumes "receiving e ver ogx" "length cnts = DRC_MAX_PART_NUM"
  shows "receiving e ver (with_pages g cnts ogx)" "receiving e ver (with_locks g' cnts ogx)"
  using assms by (simp_all add: receiving_def with_pages_def with_locks_def with_counts_def)

lemma with_same: "\<exists>cnts. length cnts = length (dm_mgrt_part_res_cnt (pm_remaster_mngr (in_part_mngr ogx))) \<and>
    with_pages (rc_global_buf_res (in_ctx ogx)) cnts ogx = ogx"
  by (rule exI [of _ "dm_mgrt_part_res_cnt (pm_remaster_mngr (in_part_mngr ogx))"]) (simp add: with_pages_def with_counts_def)

lemma process_page_msg:
  assumes rep: "page_dir.rep (rc_global_buf_res (in_ctx ogx)) V H" and m: "mgrt_msg_ok part 56 REMASTER_MIG_MAX_BUF_RES_NUM ver m" "unat part < DRC_MAX_PART_NUM"
    and r: "receiving e ver ogx" and new: "distinct (map bm_page_id (mm_block m))" "\<forall>x \<in> set (mm_block m). V (bm_page_id x) = None \<and> bm_le_num x = 0"
    and room: "unat (rp_item_num (gr_pool (rc_global_buf_res (in_ctx ogx)))) < 2 ^ 31" "length (mm_block m) \<le> pool_free_num (gr_pool (rc_global_buf_res (in_ctx ogx)))"
  shows "\<exists>g V' cnts. drc_process_mgrt_data e (Page_Msg m) ogx = Some (with_pages g cnts ogx) \<and> length cnts = DRC_MAX_PART_NUM \<and>
    page_dir.rep g V' H \<and> page_receiver.arrivals (ge_ext_pages e) (mm_block m) V V' \<and>
    pool_size (gr_pool g) = (rp_item_num (gr_pool (rc_global_buf_res (in_ctx ogx))), pool_free_num (gr_pool (rc_global_buf_res (in_ctx ogx))) - length (mm_block m))"
proof -
  let ?g = "rc_global_buf_res (in_ctx ogx)" and ?dm = "pm_remaster_mngr (in_part_mngr ogx)" and ?n = "length (mm_block m)"
  let ?ext = "ge_ext_pages e"
  have n: "unat (mm_res_num m) = ?n" "\<not> mm_res_num m > REMASTER_MIG_MAX_BUF_RES_NUM" using m(1) by (simp_all add: mgrt_msg_ok_def word_less_nat_alt not_less)
  have chk: "drc_check_mgrt_data_msg (Page_Msg m) = OG_SUCCESS" using m(1) by (simp add: mgrt_msg_ok_def mgrt_sizes word_less_nat_alt)
  have enter: "drc_process_mgrt_data e (Page_Msg m) ogx = map_option snd (drc_process_buf_master_blk ?ext True m ogx)"
    using chk r by (simp add: drc_process_mgrt_data_def receiving_def)
  show ?thesis
  proof (cases "mm_block m = []")
    case True
    then have "mm_res_num m = 0" using n(1) by (simp add: unat_eq_0)
    then have "drc_process_mgrt_data e (Page_Msg m) ogx = Some ogx"
      using enter m r n by (simp add: drc_process_buf_master_blk_def mgrt_msg_ok_def receiving_def)
    moreover obtain cnts where "length cnts = DRC_MAX_PART_NUM" "with_pages ?g cnts ogx = ogx" using with_same [of ogx] r by (auto simp: receiving_def)
    ultimately show ?thesis using True rep page_receiver.arrivals_Nil [of ?ext V]
      by (intro exI [of _ ?g] exI [of _ V] exI [of _ cnts]) (simp add: pool_size_def)
  next
    case False
    then have "0 < ?n" by simp
    then have pos: "0 < pool_free_num (gr_pool ?g)" "mm_res_num m \<noteq> 0" using room(2) n(1) by (linarith, auto)
    obtain ids pool' where a: "drc_res_pool_alloc_batch_item (gr_pool ?g) (mm_res_num m) = Some (OG_SUCCESS, ids, pool')" "distinct ids"
      "length ids = ?n" "set ids \<inter> H = {}" "page_dir.rep (gr_set_pool ?g pool') V (H \<union> set ids)"
      "pool_size pool' = (rp_item_num (gr_pool ?g), pool_free_num (gr_pool ?g) - ?n)"
      using page_dir.rep_alloc_batch [OF rep room(1) pos(1), of "mm_res_num m"] room(2) n(1) by auto
    let ?c = "(in_ctx ogx)\<lparr>rc_global_buf_res := gr_set_pool ?g pool'\<rparr>"
    obtain g V' where l: "load_pages ?ext (zip ids (mm_block m)) 0 ?c = Some (0 + of_nat ?n, ?c\<lparr>rc_global_buf_res := g\<rparr>)" "page_dir.rep g V' H"
      "page_receiver.arrivals ?ext (mm_block m) V V'" "pool_size (gr_pool g) = pool_size (gr_pool (rc_global_buf_res ?c))"
      using page_receiver.load_ok [of ?c V H ids "mm_block m" ?ext 0] a(2-5) new by auto
    have mig: "drc_migrate_buf_res_l ?ext (zip ids (mm_block m)) 0 ?c = Some (OG_SUCCESS, of_nat ?n, (in_ctx ogx)\<lparr>rc_global_buf_res := g\<rparr>)"
      using l(1) by (auto simp: load_pages_def split: option.splits status_t.splits prod.splits)
    have p: "unat (mm_part_id m) < length (dm_mgrt_part_res_cnt ?dm)" using m r by (simp add: mgrt_msg_ok_def receiving_def)
    let ?cnts = "(dm_mgrt_part_res_cnt ?dm)[unat (mm_part_id m) := (dm_mgrt_part_res_cnt ?dm ! unat (mm_part_id m))
      \<lparr>mc_page := mc_page (dm_mgrt_part_res_cnt ?dm ! unat (mm_part_id m)) + of_nat ?n\<rparr>]"
    have "drc_process_mgrt_data e (Page_Msg m) ogx = Some (with_pages g ?cnts ogx)"
      using enter mig a(1) p pos(2) n(2) m r
      by (simp add: drc_process_buf_master_blk_def Let_def mgrt_msg_ok_def receiving_def with_pages_def with_counts_def)
    moreover have "length ?cnts = DRC_MAX_PART_NUM" using r by (simp add: receiving_def)
    ultimately show ?thesis using l(2-4) a(6) by (intro exI [of _ g] exI [of _ V'] exI [of _ ?cnts]) simp
  qed
qed

text \<open>The messages one after the other.\<close>

fun deliver_all :: "mgrt_env \<Rightarrow> mgrt_msg list \<Rightarrow> drc_instance \<Rightarrow> drc_instance option" where
  "deliver_all e [] ogx = Some ogx"
| "deliver_all e (m # ms) ogx = do {
     ogx \<leftarrow> drc_process_mgrt_data e m ogx;
     deliver_all e ms ogx
   }"

lemma deliver_append: "deliver_all e (ms @ ms') ogx = Option.bind (deliver_all e ms ogx) (deliver_all e ms')"
  by (induction ms arbitrary: ogx) (auto split: Option.bind_splits)

lemma pages_arrive:
  assumes "page_dir.rep (rc_global_buf_res (in_ctx ogx)) V H" "\<forall>m \<in> set ms. mgrt_msg_ok part 56 REMASTER_MIG_MAX_BUF_RES_NUM ver m" "unat part < DRC_MAX_PART_NUM"
    "receiving e ver ogx" "distinct (map bm_page_id (concat (map mm_block ms)))" "\<forall>x \<in> set (concat (map mm_block ms)). V (bm_page_id x) = None \<and> bm_le_num x = 0"
    "unat (rp_item_num (gr_pool (rc_global_buf_res (in_ctx ogx)))) < 2 ^ 31"
    "length (concat (map mm_block ms)) \<le> pool_free_num (gr_pool (rc_global_buf_res (in_ctx ogx)))"
  shows "\<exists>g V' cnts. deliver_all e (map Page_Msg ms) ogx = Some (with_pages g cnts ogx) \<and> length cnts = DRC_MAX_PART_NUM \<and>
    page_dir.rep g V' H \<and> page_receiver.arrivals (ge_ext_pages e) (concat (map mm_block ms)) V V'"
  using assms
proof (induction ms arbitrary: ogx V)
  case Nil
  moreover obtain cnts where "length cnts = DRC_MAX_PART_NUM" "with_pages (rc_global_buf_res (in_ctx ogx)) cnts ogx = ogx"
    using with_same [of ogx] Nil.prems(4) by (auto simp: receiving_def)
  ultimately show ?case using page_receiver.arrivals_Nil [of "ge_ext_pages e" V]
    by (intro exI [of _ "rc_global_buf_res (in_ctx ogx)"] exI [of _ V] exI [of _ cnts]) simp
next
  case (Cons m ms)
  let ?g = "rc_global_buf_res (in_ctx ogx)" and ?ext = "ge_ext_pages e"
  let ?rest = "concat (map mm_block ms)"
  have one: "mgrt_msg_ok part 56 REMASTER_MIG_MAX_BUF_RES_NUM ver m" "distinct (map bm_page_id (mm_block m))"
      "\<forall>x \<in> set (mm_block m). V (bm_page_id x) = None \<and> bm_le_num x = 0" "length (mm_block m) \<le> pool_free_num (gr_pool ?g)"
    using Cons.prems(2,5,6,8) by auto
  obtain g V1 cnts where p: "drc_process_mgrt_data e (Page_Msg m) ogx = Some (with_pages g cnts ogx)" "length cnts = DRC_MAX_PART_NUM"
    "page_dir.rep g V1 H" "page_receiver.arrivals ?ext (mm_block m) V V1" "pool_size (gr_pool g) = (rp_item_num (gr_pool ?g), pool_free_num (gr_pool ?g) - length (mm_block m))"
    using process_page_msg [OF Cons.prems(1) one(1) Cons.prems(3,4) one(2,3) Cons.prems(7) one(4)] by blast
  have dis: "bm_page_id ` set (mm_block m) \<inter> bm_page_id ` set ?rest = {}" using Cons.prems(5) by auto
  have none: "\<forall>x \<in> set ?rest. V1 (bm_page_id x) = None \<and> bm_le_num x = 0"
  proof
    fix x assume x: "x \<in> set ?rest"
    then have "bm_page_id x \<notin> bm_page_id ` set (mm_block m)" using dis by blast
    then show "V1 (bm_page_id x) = None \<and> bm_le_num x = 0"
      using p(4) Cons.prems(6) x unfolding page_receiver.arrivals_def by auto
  qed
  have "distinct (map bm_page_id ?rest)" "unat (rp_item_num (gr_pool g)) < 2 ^ 31" "length ?rest \<le> pool_free_num (gr_pool g)"
    using Cons.prems(5,7,8) p(5) by (auto simp: pool_size_def)
  then obtain g' V' cnts' where IH: "deliver_all e (map Page_Msg ms) (with_pages g cnts ogx) = Some (with_pages g' cnts' ogx)" "length cnts' = DRC_MAX_PART_NUM"
    "page_dir.rep g' V' H" "page_receiver.arrivals ?ext ?rest V1 V'"
    using Cons.IH [of "with_pages g cnts ogx" V1] Cons.prems(2,3,4) p(2,3) none by auto
  then show ?case using p(1) page_receiver.arrivals_append [OF p(4) IH(4) dis] by auto
qed

subsection \<open>The locks of a partition\<close>

definition part_ended :: "u8 \<Rightarrow> 'm drc_res_master_msg \<Rightarrow> drc_instance \<Rightarrow> drc_instance" where
  "part_ended self m ogx = (let dm = pm_remaster_mngr (in_part_mngr ogx) in ogx\<lparr>in_part_mngr := (in_part_mngr ogx)\<lparr>pm_remaster_mngr :=
     drc_update_remaster_task_status self (mm_part_id m) PART_MIGRATING (mm_src_inst m) (dm\<lparr>dm_mgrt_part_info :=
       (dm_mgrt_part_info dm)[unat (mm_part_id m) := \<lparr>pi_page_cnt = fst (mm_counts m), pi_lock_cnt = snd (mm_counts m), pi_src_inst = mm_src_inst m\<rparr>]\<rparr>)\<rparr>\<rparr>)"

lemma process_lock_msg:
  assumes rep: "lock_dir.rep (ge_promote e) (rc_global_lock_res (in_ctx ogx)) V H" and m: "mgrt_msg_ok part 40 REMASTER_MIG_MAX_LOCK_RES_NUM ver m" "unat part < DRC_MAX_PART_NUM"
    and r: "receiving e ver ogx" and new: "distinct (map km_res_id (mm_block m))" "\<forall>x \<in> set (mm_block m). V (km_res_id x) = None \<and> km_le_num x = 0"
    and room: "unat (rp_item_num (gr_pool (rc_global_lock_res (in_ctx ogx)))) < 2 ^ 31" "length (mm_block m) \<le> pool_free_num (gr_pool (rc_global_lock_res (in_ctx ogx)))"
      "0 < pool_free_num (gr_pool (rc_global_lock_res (in_ctx ogx)))"
  shows "\<exists>g V' cnts. drc_process_mgrt_data e (Lock_Msg m) ogx =
      Some (if mm_is_part_end m then part_ended (ge_self e) m (with_locks g cnts ogx) else with_locks g cnts ogx) \<and> length cnts = DRC_MAX_PART_NUM \<and>
    lock_dir.rep (ge_promote e) g V' H \<and> lock_receiver.arrivals (ge_promote e) (mm_block m) V V' \<and>
    pool_size (gr_pool g) = (rp_item_num (gr_pool (rc_global_lock_res (in_ctx ogx))), pool_free_num (gr_pool (rc_global_lock_res (in_ctx ogx))) - length (mm_block m))"
proof -
  let ?g = "rc_global_lock_res (in_ctx ogx)" and ?dm = "pm_remaster_mngr (in_part_mngr ogx)" and ?n = "length (mm_block m)"
  let ?pr = "ge_promote e"
  have n: "unat (mm_res_num m) = ?n" "\<not> mm_res_num m > REMASTER_MIG_MAX_LOCK_RES_NUM" using m(1) by (simp_all add: mgrt_msg_ok_def word_less_nat_alt not_less)
  have "drc_check_mgrt_data_msg (Lock_Msg m) = OG_SUCCESS" using m(1) by (simp add: mgrt_msg_ok_def mgrt_sizes word_less_nat_alt)
  then have enter: "drc_process_mgrt_data e (Lock_Msg m) ogx = map_option snd (drc_process_lock_master_blk ?pr True (ge_self e) m ogx)"
    using r by (simp add: drc_process_mgrt_data_def receiving_def)
  obtain ids pool' where a: "drc_res_pool_alloc_batch_item (gr_pool ?g) (mm_res_num m) = Some (OG_SUCCESS, ids, pool')" "distinct ids"
    "length ids = ?n" "set ids \<inter> H = {}" "lock_dir.rep ?pr (gr_set_pool ?g pool') V (H \<union> set ids)"
    "pool_size pool' = (rp_item_num (gr_pool ?g), pool_free_num (gr_pool ?g) - ?n)"
    using lock_dir.rep_alloc_batch [OF rep room(1,3), of "mm_res_num m"] room(2) n(1) by auto
  let ?c = "(in_ctx ogx)\<lparr>rc_global_lock_res := gr_set_pool ?g pool'\<rparr>"
  obtain g V' where l: "drc_migrate_lock_res_l ?pr (zip ids (mm_block m)) 0 ?c = Some (0 + of_nat ?n, ?c\<lparr>rc_global_lock_res := g\<rparr>)" "lock_dir.rep ?pr g V' H"
    "lock_receiver.arrivals ?pr (mm_block m) V V'" "pool_size (gr_pool g) = pool_size (gr_pool (rc_global_lock_res ?c))"
    using lock_receiver.load_ok [of ?pr ?c V H ids "mm_block m" 0] a(2-5) new by auto
  have p: "unat (mm_part_id m) < length (dm_mgrt_part_res_cnt ?dm)" "unat (mm_part_id m) < length (dm_mgrt_part_info ?dm)"
    using m r by (simp_all add: mgrt_msg_ok_def receiving_def)
  let ?cnts = "(dm_mgrt_part_res_cnt ?dm)[unat (mm_part_id m) := (dm_mgrt_part_res_cnt ?dm ! unat (mm_part_id m))
    \<lparr>mc_lock := mc_lock (dm_mgrt_part_res_cnt ?dm ! unat (mm_part_id m)) + of_nat ?n\<rparr>]"
  have "drc_process_mgrt_data e (Lock_Msg m) ogx =
      Some (if mm_is_part_end m then part_ended (ge_self e) m (with_locks g ?cnts ogx) else with_locks g ?cnts ogx)"
    using enter l(1) a(1) p n(2) m r
    by (simp add: drc_process_lock_master_blk_def Let_def mgrt_msg_ok_def receiving_def with_locks_def with_counts_def part_ended_def drc_process_mgrt_part_end_def)
  moreover have "length ?cnts = DRC_MAX_PART_NUM" using r by (simp add: receiving_def)
  ultimately show ?thesis using l(2-4) a(6) by (intro exI [of _ g] exI [of _ V'] exI [of _ ?cnts]) simp
qed

text \<open>The messages up to the last, which ends the partition.\<close>

lemma locks_arrive:
  assumes "lock_dir.rep (ge_promote e) (rc_global_lock_res (in_ctx ogx)) V H" "\<forall>m \<in> set (ms @ [l]). mgrt_msg_ok part 40 REMASTER_MIG_MAX_LOCK_RES_NUM ver m"
    "unat part < DRC_MAX_PART_NUM" "receiving e ver ogx" "distinct (map km_res_id (concat (map mm_block (ms @ [l]))))"
    "\<forall>x \<in> set (concat (map mm_block (ms @ [l]))). V (km_res_id x) = None \<and> km_le_num x = 0"
    "unat (rp_item_num (gr_pool (rc_global_lock_res (in_ctx ogx)))) < 2 ^ 31"
    "length (concat (map mm_block (ms @ [l]))) < pool_free_num (gr_pool (rc_global_lock_res (in_ctx ogx)))"
    "\<forall>m \<in> set ms. \<not> mm_is_part_end m" "mm_is_part_end l"
  shows "\<exists>g V' cnts. deliver_all e (map Lock_Msg (ms @ [l])) ogx = Some (part_ended (ge_self e) l (with_locks g cnts ogx)) \<and>
    lock_dir.rep (ge_promote e) g V' H \<and> lock_receiver.arrivals (ge_promote e) (concat (map mm_block (ms @ [l]))) V V'"
  using assms
proof (induction ms arbitrary: ogx V)
  case Nil
  let ?g = "rc_global_lock_res (in_ctx ogx)"
  have "mgrt_msg_ok part 40 REMASTER_MIG_MAX_LOCK_RES_NUM ver l" "distinct (map km_res_id (mm_block l))" "\<forall>x \<in> set (mm_block l). V (km_res_id x) = None \<and> km_le_num x = 0"
    "length (mm_block l) \<le> pool_free_num (gr_pool ?g)" "0 < pool_free_num (gr_pool ?g)"
    using Nil.prems(2,5,6,8) by auto
  from process_lock_msg [OF Nil.prems(1) this(1) Nil.prems(3,4) this(2,3) Nil.prems(7) this(4,5)]
  obtain g V' cnts where "drc_process_mgrt_data e (Lock_Msg l) ogx = Some (part_ended (ge_self e) l (with_locks g cnts ogx))"
    "lock_dir.rep (ge_promote e) g V' H" "lock_receiver.arrivals (ge_promote e) (mm_block l) V V'" using Nil.prems(10) by auto
  then show ?case by (intro exI [of _ g] exI [of _ V'] exI [of _ cnts]) simp
next
  case (Cons m ms)
  let ?g = "rc_global_lock_res (in_ctx ogx)" and ?pr = "ge_promote e"
  let ?rest = "concat (map mm_block (ms @ [l]))"
  have one: "mgrt_msg_ok part 40 REMASTER_MIG_MAX_LOCK_RES_NUM ver m" "distinct (map km_res_id (mm_block m))"
      "\<forall>x \<in> set (mm_block m). V (km_res_id x) = None \<and> km_le_num x = 0" "length (mm_block m) \<le> pool_free_num (gr_pool ?g)" "0 < pool_free_num (gr_pool ?g)"
      "\<not> mm_is_part_end m"
    using Cons.prems(2,5,6,8,9) by auto
  obtain g V1 cnts where p: "drc_process_mgrt_data e (Lock_Msg m) ogx = Some (with_locks g cnts ogx)" "length cnts = DRC_MAX_PART_NUM"
    "lock_dir.rep ?pr g V1 H" "lock_receiver.arrivals ?pr (mm_block m) V V1" "pool_size (gr_pool g) = (rp_item_num (gr_pool ?g), pool_free_num (gr_pool ?g) - length (mm_block m))"
    using process_lock_msg [OF Cons.prems(1) one(1) Cons.prems(3,4) one(2,3) Cons.prems(7) one(4,5)] one(6) by auto
  have dis: "km_res_id ` set (mm_block m) \<inter> km_res_id ` set ?rest = {}" using Cons.prems(5) by (simp only: map_append list.map concat.simps append_Cons distinct_append set_map)
  have none: "\<forall>x \<in> set ?rest. V1 (km_res_id x) = None \<and> km_le_num x = 0"
  proof
    fix x assume x: "x \<in> set ?rest"
    then have "km_res_id x \<notin> km_res_id ` set (mm_block m)" using dis by blast
    then show "V1 (km_res_id x) = None \<and> km_le_num x = 0"
      using p(4) Cons.prems(6) x unfolding lock_receiver.arrivals_def by auto
  qed
  have "distinct (map km_res_id ?rest)" "unat (rp_item_num (gr_pool g)) < 2 ^ 31" "length ?rest < pool_free_num (gr_pool g)"
    using Cons.prems(5,7,8) p(5) by (auto simp: pool_size_def)
  then obtain g' V' cnts' where IH: "deliver_all e (map Lock_Msg (ms @ [l])) (with_locks g cnts ogx) = Some (part_ended (ge_self e) l (with_locks g' cnts' ogx))"
    "lock_dir.rep ?pr g' V' H" "lock_receiver.arrivals ?pr ?rest V1 V'"
    using Cons.IH [of "with_locks g cnts ogx" V1] Cons.prems(2,3,4,9,10) p(2,3) none by auto
  then show ?case using p(1) lock_receiver.arrivals_append [OF p(4) IH(3) dis] by (intro exI [of _ g'] exI [of _ V'] exI [of _ cnts']) simp
qed

end
