(* ===== verification/Mgrt_Properties.thy ===== *)
theory Mgrt_Properties
  imports Mgrt_Receive Lock_Properties Task_Assignment
begin

text \<open>
  The two ends of a migration together: the partition changes hands whole.
\<close>

subsection \<open>A partition changes hands\<close>

text \<open>Every resource is in the partition of its identifier.\<close>

definition placed :: "('k \<Rightarrow> u16) \<Rightarrow> ('k \<Rightarrow> 'a drc_res_base_scheme option) \<Rightarrow> bool" where
  "placed part_of V \<longleftrightarrow> (\<forall>k res. V k = Some res \<longrightarrow> rb_part_id res = part_of k)"

abbreviation page_part :: "u32 \<Rightarrow> page_id \<Rightarrow> u16" where
  "page_part ext_pages k \<equiv> ucast (drc_page_partid ext_pages k)"

text \<open>What the new master knows of a page and of a lock when it has them from the old one.\<close>

definition page_agrees :: "drc_buf_res \<Rightarrow> drc_buf_res \<Rightarrow> bool" where
  "page_agrees a b \<longleftrightarrow> br_page_id b = br_page_id a \<and> rb_mode b = rb_mode a \<and> br_claimed_owner b = br_claimed_owner a \<and>
     br_latest_edp b = br_latest_edp a \<and> br_latest_edp_lsn b = br_latest_edp_lsn a \<and> br_lsn b = br_lsn a \<and>
     br_edp_map b = br_edp_map a \<and> br_readonly_copies b = br_readonly_copies a \<and> rb_part_id b = rb_part_id a"

definition lock_agrees :: "drc_master_res \<Rightarrow> drc_master_res \<Rightarrow> bool" where
  "lock_agrees a b \<longleftrightarrow> mr_res_id b = mr_res_id a \<and> rb_mode b = rb_mode a \<and> mr_granted_map b = mr_granted_map a \<and> rb_part_id b = rb_part_id a"

text \<open>
  From \<open>V'\<close> to \<open>V''\<close> the new master has got exactly the resources that \<open>V\<close> has of partition \<open>p\<close>, none with a request in
  hand or waiting.
\<close>

definition handed_over :: "('a drc_res_base_scheme \<Rightarrow> 'a drc_res_base_scheme \<Rightarrow> bool) \<Rightarrow> nat \<Rightarrow> ('k \<Rightarrow> 'a drc_res_base_scheme option) \<Rightarrow>
    ('k \<Rightarrow> 'a drc_res_base_scheme option) \<Rightarrow> ('k \<Rightarrow> 'a drc_res_base_scheme option) \<Rightarrow> bool" where
  "handed_over same p V V' V'' \<longleftrightarrow> part_keys V'' p = part_keys V p \<and> (\<forall>k. k \<notin> part_keys V p \<longrightarrow> V'' k = V' k) \<and>
     (\<forall>k \<in> part_keys V p. \<exists>a b. V k = Some a \<and> V'' k = Some b \<and> same a b \<and> settled b \<and> rb_convert_q b = DRC_LIST_INIT)"

lemma part_keys_placed:
  assumes "placed part_of V" "k \<in> part_keys V p"
  shows "unat (part_of k) = p"
  using assms by (auto simp: placed_def part_keys_def)

text \<open>No resource of the partition is known where the partition is empty.\<close>

lemma absent:
  assumes "placed part_of V" "placed part_of V'" "part_keys V' p = {}" "k \<in> part_keys V p"
  shows "V' k = None"
proof (rule ccontr)
  assume "V' k \<noteq> None"
  then obtain res where "V' k = Some res" by blast
  then have "k \<in> part_keys V' p" using part_keys_placed [OF assms(1,4)] assms(2) by (auto simp: part_keys_def placed_def)
  then show False using assms(3) by simp
qed

lemma packed_mem:
  assumes "packed pack mkey V p xs" "\<And>res. mkey (pack res) = key res" "\<And>k res. V k = Some res \<Longrightarrow> key res = k" "k \<in> part_keys V p"
  shows "\<exists>res. V k = Some res \<and> unat (rb_part_id res) = p \<and> pack res \<in> set xs \<and> mkey (pack res) = k"
  using assms by (auto simp: packed_def part_keys_def)

context mgrt_receiver
begin

lemma arrivals_hand_over:
  fixes pack :: "'a drc_res_base_scheme \<Rightarrow> 'm"
  assumes arr: "arrivals xs V' V''" and pk: "packed pack mkey V p xs" and mk: "\<And>res. mkey (pack res) = key res" "\<And>k res. V k = Some res \<Longrightarrow> key res = k"
    and part: "\<And>m i old. rb_part_id (fresh m i old) = part_of (mkey m)" and pl: "placed part_of V" and new: "part_keys V' p = {}"
    and same: "\<And>res i old. rb_part_id res = part_of (key res) \<Longrightarrow> same res (strip (fresh (pack res) i old)) \<and>
      settled (strip (fresh (pack res) i old)) \<and> rb_convert_q (strip (fresh (pack res) i old)) = DRC_LIST_INIT"
  shows "handed_over same p V V' V''"
proof -
  have keys: "mkey ` set xs = part_keys V p" using pk unfolding packed_def by blast
  have parts: "\<forall>m \<in> set xs. \<forall>i old. unat (rb_part_id (fresh m i old)) = p"
    using part_keys_placed [OF pl] keys by (auto simp: part)
  have "\<exists>a b. V k = Some a \<and> V'' k = Some b \<and> same a b \<and> settled b \<and> rb_convert_q b = DRC_LIST_INIT" if k: "k \<in> part_keys V p" for k
  proof -
    obtain res where r: "V k = Some res" "pack res \<in> set xs" "mkey (pack res) = k" using packed_mem [OF pk mk k] by blast
    then obtain i old where "V'' k = Some (strip (fresh (pack res) i old))" using arr by (auto simp: arrivals_def)
    moreover have "rb_part_id res = part_of (key res)" using pl r(1) mk(2) by (auto simp: placed_def)
    ultimately show ?thesis using r(1) same [of res i old] by blast
  qed
  moreover have "\<forall>k. k \<notin> part_keys V p \<longrightarrow> V'' k = V' k" using arr keys by (simp add: arrivals_def)
  ultimately show ?thesis using arrivals_part [OF arr parts new] keys by (simp add: handed_over_def)
qed

end

lemma pages_hand_over:
  assumes "page_receiver.arrivals ext_pages xs V' V''" "packed (buf_res_msg 0 []) bm_page_id V p xs" "placed (page_part ext_pages) V" "part_keys V' p = {}"
    "\<And>k res. V k = Some res \<Longrightarrow> br_page_id res = k"
  shows "handed_over page_agrees p V V' V''"
  by (rule page_receiver.arrivals_hand_over [OF assms(1,2) _ assms(5) _ assms(3,4)])
    (simp_all add: buf_res_msg_def arrived_page_def page_agrees_def settled_def cvt_req_def strip_def DRC_LE_SET_def)

lemma locks_hand_over:
  assumes "lock_receiver.arrivals promote xs V' V''" "packed (lock_res_msg 0 []) km_res_id V p xs" "placed (lock_partid promote) V" "part_keys V' p = {}"
    "\<And>k res. V k = Some res \<Longrightarrow> mr_res_id res = k"
  shows "handed_over lock_agrees p V V' V''"
  by (rule lock_receiver.arrivals_hand_over [OF assms(1,2) _ assms(5) _ assms(3,4)])
    (simp_all add: lock_res_msg_def arrived_lock_def lock_agrees_def settled_def cvt_req_def strip_def)

lemma ucast_u16_u32_inj: "(ucast (a :: u16) :: u32) = ucast b \<Longrightarrow> a = b"
proof -
  assume "(ucast a :: u32) = ucast b"
  then have "unat (ucast a :: u32) = unat (ucast b :: u32)" by simp
  moreover have "unat (ucast c :: u32) = unat c" for c :: u16
    using unsigned_less [of c, where 'a = nat] by (simp add: unsigned_ucast_eq take_bit_nat_eq_self)
  ultimately show "a = b" by (simp add: word_unat_eq_iff)
qed

text \<open>The task of the partition: the only one with its partition and its two instances.\<close>

definition the_task :: "drc_remaster_task list \<Rightarrow> nat \<Rightarrow> drc_remaster_task \<Rightarrow> bool" where
  "the_task ts j task \<longleftrightarrow> j < length ts \<and> (\<forall>i < length ts.
     tk_part_id (ts ! i) = tk_part_id task \<and> tk_export_inst (ts ! i) = tk_export_inst task \<and> tk_import_inst (ts ! i) = tk_import_inst task \<longleftrightarrow> i = j)"

lemma update_the_task:
  assumes "the_task ts j task"
  shows "drc_update_task_status (tk_import_inst task) (ucast (tk_part_id task)) st (tk_export_inst task) ts = ts[j := (ts ! j)\<lparr>tk_status := st\<rparr>]"
  using assms
proof (induction ts arbitrary: j)
  case Nil
  then show ?case by simp
next
  case (Cons t ts)
  have inj: "(ucast (a :: u16) :: u32) = ucast b \<longleftrightarrow> a = b" for a b by (metis ucast_u16_u32_inj)
  show ?case
  proof (cases j)
    case 0
    then show ?thesis using Cons.prems by (auto simp: the_task_def inj)
  next
    case (Suc k)
    have t: "\<not> (tk_part_id t = tk_part_id task \<and> tk_export_inst t = tk_export_inst task \<and> tk_import_inst t = tk_import_inst task)"
      using Cons.prems Suc by (auto simp: the_task_def)
    have "the_task ts k task" using Cons.prems Suc by (fastforce simp: the_task_def)
    then show ?thesis using Cons.IH [of k] t Suc by (auto simp: inj)
  qed
qed

lemma packed_arrival:
  assumes "packed pack mkey V p xs" "placed part_of V" "placed part_of V'" "part_keys V' p = {}"
  shows "distinct (map mkey xs)" "\<forall>x \<in> set xs. V' (mkey x) = None" "length xs = card (part_keys V p)"
proof -
  have keys: "mkey ` set xs = part_keys V p" and d: "distinct (map mkey xs)" using assms(1) unfolding packed_def by blast+
  show "distinct (map mkey xs)" by (rule d)
  show "\<forall>x \<in> set xs. V' (mkey x) = None" using absent [OF assms(2-4)] keys by blast
  show "length xs = card (part_keys V p)" using distinct_card [OF d] keys by simp
qed

lemma pages_plain: "packed (buf_res_msg 0 []) bm_page_id V p xs \<Longrightarrow> \<forall>x \<in> set xs. bm_le_num x = 0"
  by (auto simp: packed_def buf_res_msg_def)

lemma locks_plain: "packed (lock_res_msg 0 []) km_res_id V p xs \<Longrightarrow> \<forall>x \<in> set xs. km_le_num x = 0"
  by (auto simp: packed_def lock_res_msg_def)

lemma the_task_status: "the_task ts j task \<Longrightarrow> the_task (ts[j := (ts ! j)\<lparr>tk_status := st\<rparr>]) j task"
  by (auto simp: the_task_def nth_list_update)

context directory
begin

lemma rep_key: "rep g V H \<Longrightarrow> V k = Some res \<Longrightarrow> key res = k"
  using rep_find(2) strip_sel(6) by metis

end

lemma part_ended_fields [simp]:
  "in_ctx (part_ended self m ogx) = in_ctx ogx"
  "dm_mgrt_part_info (pm_remaster_mngr (in_part_mngr (part_ended self m ogx))) = (dm_mgrt_part_info (pm_remaster_mngr (in_part_mngr ogx)))
     [unat (mm_part_id m) := \<lparr>pi_page_cnt = fst (mm_counts m), pi_lock_cnt = snd (mm_counts m), pi_src_inst = mm_src_inst m\<rparr>]"
  "dm_remaster_task_set (pm_remaster_mngr (in_part_mngr (part_ended self m ogx))) =
     drc_update_task_status self (mm_part_id m) PART_MIGRATING (mm_src_inst m) (dm_remaster_task_set (pm_remaster_mngr (in_part_mngr ogx)))"
  by (simp_all add: part_ended_def drc_update_remaster_task_status_def Let_def)

text \<open>The look at a partition that has arrived whole.\<close>

lemma round_completes:
  assumes t: "the_task (dm_remaster_task_set (pm_remaster_mngr (in_part_mngr ogx))) j task" "j < DRC_MAX_PART_NUM" "tk_export_inst task \<noteq> tk_import_inst task"
    and st: "tk_status (dm_remaster_task_set (pm_remaster_mngr (in_part_mngr ogx)) ! j) = PART_MIGRATING"
    and info: "rd (dm_mgrt_part_info (pm_remaster_mngr (in_part_mngr ogx))) (tk_part_id task) = Some info" "pi_src_inst info = tk_export_inst task"
    and lists: "rd (gr_res_parts (rc_global_buf_res (in_ctx ogx))) (tk_part_id task) = Some bl" "pi_page_cnt info = dl_count bl"
      "rd (gr_res_parts (rc_global_lock_res (in_ctx ogx))) (tk_part_id task) = Some ll" "pi_lock_cnt info = dl_count ll"
  shows "\<exists>ogx'. remaster_part_round (tk_import_inst task) [of_nat j] ogx = Some ogx' \<and> in_ctx ogx' = in_ctx ogx \<and>
    dm_remaster_task_set (pm_remaster_mngr (in_part_mngr ogx')) = (dm_remaster_task_set (pm_remaster_mngr (in_part_mngr ogx)))
      [j := (dm_remaster_task_set (pm_remaster_mngr (in_part_mngr ogx)) ! j)\<lparr>tk_status := PART_MIGRATE_COMPLETE\<rparr>]"
proof -
  let ?ts = "dm_remaster_task_set (pm_remaster_mngr (in_part_mngr ogx))"
  have j: "unat (of_nat j :: u32) = j" using t(2) by (simp add: unat_of_nat take_bit_nat_eq_self DRC_MAX_PART_NUM_def)
  have tj: "j < length ?ts" "tk_part_id (?ts ! j) = tk_part_id task" "tk_export_inst (?ts ! j) = tk_export_inst task" "tk_import_inst (?ts ! j) = tk_import_inst task"
    using t(1) by (auto simp: the_task_def)
  then have "rd ?ts (of_nat j :: u32) = Some (?ts ! j)" using j by (simp add: rd_def)
  then show ?thesis using tj t(3) st info lists update_the_task [OF t(1), of PART_MIGRATE_COMPLETE]
    by (simp add: drc_update_remaster_task_status_def Let_def)
qed

text \<open>
  Claim C15. A partition changes hands whole. The old master \<open>src\<close> and the new one \<open>dst\<close> have well-formed directories, in which every
  resource is in the partition of its identifier; no request is being served in the partition, the new master has no resource of it and room
  for all that come, and the messages of the reform get through in order. Then \<^verbatim>\<open>drc_migrate_master_blk\<close> succeeds; when the messages it has sent have
  been processed, the directories of the new master have exactly the pages and locks that the old one has of the partition, with the same owner, mode, copies,
  edp and lsn, or the same mode and holders, and all else unchanged; and the next look of \<^verbatim>\<open>remaster_part_proc\<close> at the task finds the counts that were sent and completes it.
\<close>

theorem partition_changes_hands:
  assumes src: "page_dir.rep (rc_global_buf_res (in_ctx src)) P HP" "lock_dir.rep (ge_promote e) (rc_global_lock_res (in_ctx src)) L HL"
    and dst: "page_dir.rep (rc_global_buf_res (in_ctx dst)) P' HP'" "lock_dir.rep (ge_promote e) (rc_global_lock_res (in_ctx dst)) L' HL'"
    and placed: "placed (page_part (ge_ext_pages e)) P" "placed (page_part (ge_ext_pages e)) P'"
      "placed (lock_partid (ge_promote e)) L" "placed (lock_partid (ge_promote e)) L'"
    and p: "unat (tk_part_id task) = p" "p < DRC_MAX_PART_NUM" and quiet: "quiet P p" "quiet L p" and new: "part_keys P' p = {}" "part_keys L' p = {}"
    and room: "unat (rp_item_num (gr_pool (rc_global_buf_res (in_ctx dst)))) < 2 ^ 31" "unat (rp_item_num (gr_pool (rc_global_lock_res (in_ctx dst)))) < 2 ^ 31"
      "card (part_keys P p) \<le> pool_free_num (gr_pool (rc_global_buf_res (in_ctx dst)))"
      "card (part_keys L p) < pool_free_num (gr_pool (rc_global_lock_res (in_ctx dst)))"
    and rcv: "receiving e (version_of src) dst" and net: "net_ok net (tk_import_inst task)" "net_ok net2 (tk_import_inst task)"
    and task: "tk_status task = PART_WAIT_MIGRATE" "tk_import_inst task = ge_self e" "tk_export_inst task \<noteq> ge_self e"
      "the_task (dm_remaster_task_set (pm_remaster_mngr (in_part_mngr dst))) j task" "j < DRC_MAX_PART_NUM"
  shows "\<exists>pages locks dst' dst'' P'' L''. drc_migrate_master_blk True True net net2 (tk_export_inst task) task src = Some (OG_SUCCESS, pages, locks) \<and>
    deliver_all e (map Page_Msg pages @ map Lock_Msg locks) dst = Some dst' \<and>
    page_dir.rep (rc_global_buf_res (in_ctx dst')) P'' HP' \<and> handed_over page_agrees p P P' P'' \<and>
    lock_dir.rep (ge_promote e) (rc_global_lock_res (in_ctx dst')) L'' HL' \<and> handed_over lock_agrees p L L' L'' \<and>
    remaster_part_round (ge_self e) [of_nat j] dst' = Some dst'' \<and> in_ctx dst'' = in_ctx dst' \<and>
    tk_status (dm_remaster_task_set (pm_remaster_mngr (in_part_mngr dst'')) ! j) = PART_MIGRATE_COMPLETE"
proof -
  let ?part = "ucast (tk_part_id task) :: u32" and ?gp = "rc_global_buf_res (in_ctx src)" and ?gl = "rc_global_lock_res (in_ctx src)"
  let ?ts = "dm_remaster_task_set (pm_remaster_mngr (in_part_mngr dst))"
  have part: "unat ?part = p" using p(1) unsigned_less [of "tk_part_id task", where 'a = nat] by (simp add: unsigned_ucast_eq take_bit_nat_eq_self)
  have lt: "unat (tk_part_id task) < DRC_MAX_PART_NUM" "unat ?part < DRC_MAX_PART_NUM" using p part by simp_all
  obtain pages where pg: "drc_send_buf_master_blk True net (tk_export_inst task) task src = Some (OG_SUCCESS, dl_count (gr_res_parts ?gp ! p), pages)"
    "\<forall>m \<in> set pages. mgrt_msg_ok ?part 56 REMASTER_MIG_MAX_BUF_RES_NUM (version_of src) m" "packed (buf_res_msg 0 []) bm_page_id P p (concat (map mm_block pages))"
    using pages_sent [OF src(1) lt(1) _ net(1), of "tk_export_inst task"] quiet(1) p(1) by auto
  obtain ms l where lk: "drc_send_lock_master_blk True net2 (tk_export_inst task) task (dl_count (gr_res_parts ?gp ! p)) src = Some (OG_SUCCESS, ms @ [l])"
    "\<forall>m \<in> set (ms @ [l]). mgrt_msg_ok ?part 40 REMASTER_MIG_MAX_LOCK_RES_NUM (version_of src) m"
    "packed (lock_res_msg 0 []) km_res_id L p (concat (map mm_block (ms @ [l])))" "\<forall>m \<in> set ms. \<not> mm_is_part_end m" "mm_is_part_end l"
    "mm_src_inst l = tk_export_inst task" "mm_counts l = (dl_count (gr_res_parts ?gp ! p), dl_count (gr_res_parts ?gl ! p))"
    using locks_sent [OF src(2) lt(1) _ net(2), of "tk_export_inst task" "dl_count (gr_res_parts ?gp ! p)"] quiet(2) p(1) by auto
  have mig: "drc_migrate_master_blk True True net net2 (tk_export_inst task) task src = Some (OG_SUCCESS, pages, ms @ [l])"
    using pg(1) lk(1) task(1) by (simp add: drc_migrate_master_blk_def)
  note pa = packed_arrival [OF pg(3) placed(1,2) new(1)] and la = packed_arrival [OF lk(3) placed(3,4) new(2)]
  obtain g P'' cnts where dp: "deliver_all e (map Page_Msg pages) dst = Some (with_pages g cnts dst)" "length cnts = DRC_MAX_PART_NUM"
    "page_dir.rep g P'' HP'" "page_receiver.arrivals (ge_ext_pages e) (concat (map mm_block pages)) P' P''"
    using pages_arrive [OF dst(1) pg(2) lt(2) rcv pa(1) _ room(1)] pa(2,3) pages_plain [OF pg(3)] room(3) by auto
  let ?d = "with_pages g cnts dst"
  obtain g' L'' cnts' where dl: "deliver_all e (map Lock_Msg (ms @ [l])) ?d = Some (part_ended (ge_self e) l (with_locks g' cnts' ?d))"
    "lock_dir.rep (ge_promote e) g' L'' HL'" "lock_receiver.arrivals (ge_promote e) (concat (map mm_block (ms @ [l]))) L' L''"
    using locks_arrive [of e ?d L' HL', OF _ lk(2) lt(2) _ la(1) _ _ _ lk(4,5)] dst(2) rcv dp(2) la(2,3) locks_plain [OF lk(3)] room(2,4) by auto
  have hp: "handed_over page_agrees p P P' P''" by (rule pages_hand_over [OF dp(4) pg(3) placed(1) new(1) page_dir.rep_key [OF src(1)]])
  have hl: "handed_over lock_agrees p L L' L''" by (rule locks_hand_over [OF dl(3) lk(3) placed(3) new(2) lock_dir.rep_key [OF src(2)]])
  let ?d' = "part_ended (ge_self e) l (with_locks g' cnts' ?d)"
  have lp: "mm_part_id l = ?part" using lk(2) by (simp add: mgrt_msg_ok_def)
  have ts: "dm_remaster_task_set (pm_remaster_mngr (in_part_mngr ?d')) = ?ts[j := (?ts ! j)\<lparr>tk_status := PART_MIGRATING\<rparr>]"
    using update_the_task [OF task(4), of PART_MIGRATING] lp lk(6) task(2) by simp
  have cp: "dl_count (gr_res_parts ?gp ! p) = dl_count (gr_res_parts g ! p)"
    using page_dir.part_count [OF src(1) p(2)] page_dir.part_count [OF dp(3) p(2)] hp by (simp add: handed_over_def word_unat_eq_iff)
  have cl: "dl_count (gr_res_parts ?gl ! p) = dl_count (gr_res_parts g' ! p)"
    using lock_dir.part_count [OF src(2) p(2)] lock_dir.part_count [OF dl(2) p(2)] hl by (simp add: handed_over_def word_unat_eq_iff)
  have j: "j < length ?ts" using task(4) by (simp add: the_task_def)
  have "the_task (?ts[j := (?ts ! j)\<lparr>tk_status := PART_MIGRATING\<rparr>]) j task" by (rule the_task_status [OF task(4)])
  then obtain d'' where d'': "remaster_part_round (tk_import_inst task) [of_nat j] ?d' = Some d''" "in_ctx d'' = in_ctx ?d'"
    "dm_remaster_task_set (pm_remaster_mngr (in_part_mngr d'')) = (dm_remaster_task_set (pm_remaster_mngr (in_part_mngr ?d')))
      [j := (dm_remaster_task_set (pm_remaster_mngr (in_part_mngr ?d')) ! j)\<lparr>tk_status := PART_MIGRATE_COMPLETE\<rparr>]"
    using round_completes [of ?d' j task "\<lparr>pi_page_cnt = dl_count (gr_res_parts g ! p), pi_lock_cnt = dl_count (gr_res_parts g' ! p), pi_src_inst = tk_export_inst task\<rparr>"
        "gr_res_parts g ! p" "gr_res_parts g' ! p"] ts j task(2,3,5) lp lk(6,7) cp cl part p rcv page_dir.part_items_rep(4) [OF dp(3) p(2)] lock_dir.part_items_rep(4) [OF dl(2) p(2)]
    by (auto simp: rd_def receiving_def)
  show ?thesis
    by (rule exI [of _ pages], rule exI [of _ "ms @ [l]"], rule exI [of _ ?d'], rule exI [of _ d''], rule exI [of _ P''], rule exI [of _ L''])
      (use mig dp(1,3) dl(1,2) hp hl d'' ts j task(2) in \<open>simp add: deliver_append\<close>)
qed

text \<open>A page and a lock with the old master, and the new master with nothing.\<close>

lemma small_init: "drc_global_res_init True True z zero_global_res 4 128 f = Some (OG_SUCCESS, g) \<Longrightarrow> rp_item_num (gr_pool g) = 4"
  using init_ok [of zero_res_pool 128 4 z]
  by (auto simp: drc_global_res_init_def drc_res_map_init_def zero_global_res_def zero_res_map_def zero_res_pool_def gr_pool_def split: if_splits)

lemma len_free: "pool_free_num q = length (pool_free q)"
  by (simp add: pool_free_def)

lemma small_dirs:
  "\<exists>g. page_dir.rep g (\<lambda>_. None) {} \<and> pool_size (gr_pool g) = (4, 4)" "\<exists>g. lock_dir.rep promote g (\<lambda>_. None) {} \<and> pool_size (gr_pool g) = (4, 4)"
proof -
  have s: "sizes_ok 128 4" by (simp add: sizes_ok_def)
  obtain g where "drc_global_res_init True True zero_buf_res zero_global_res 4 128 is_same_page = Some (OG_SUCCESS, g)" "page_dir.rep g (\<lambda>_. None) {}"
    "pool_free (gr_pool g) = map of_nat [0..<unat (4 :: u32)]"
    using page_init_ok [OF s, of "\<lambda>_. None"] by blast
  then show "\<exists>g. page_dir.rep g (\<lambda>_. None) {} \<and> pool_size (gr_pool g) = (4, 4)"
    using small_init by (intro exI [of _ g]) (simp add: pool_size_def len_free)
  obtain l where "drc_global_res_init True True zero_master_res zero_global_res 4 128 is_same_lock = Some (OG_SUCCESS, l)" "lock_dir.rep promote l (\<lambda>_. None) {}"
    "pool_free (gr_pool l) = map of_nat [0..<unat (4 :: u32)]"
    using lock_init_ok [OF s, of promote] by blast
  then show "\<exists>g. lock_dir.rep promote g (\<lambda>_. None) {} \<and> pool_size (gr_pool g) = (4, 4)"
    using small_init by (intro exI [of _ l]) (simp add: pool_size_def len_free)
qed

definition page_here :: drc_buf_res_msg where
  "page_here = \<lparr>bm_mode = DRC_LOCK_EXCLUSIVE, bm_claimed_owner = 1, bm_latest_edp = 0, bm_latest_edp_lsn = 0, bm_le_num = 0, bm_page_id = a_page,
     bm_lsn = 17, bm_edp_map = 0, bm_readonly_copies = 0, bm_les = []\<rparr>"

definition lock_here :: drc_lock_res_msg where
  "lock_here = \<lparr>km_res_id = a_lock, km_mode = DRC_LOCK_EXCLUSIVE, km_le_num = 0, km_granted_map = 2, km_les = []\<rparr>"

lemma one_page: "\<exists>g V i old. page_dir.rep g V {} \<and> V = (\<lambda>_. None)(a_page \<mapsto> strip (arrived_page ext_pages page_here i old))"
proof -
  obtain g where g: "page_dir.rep g (\<lambda>_. None) {}" "pool_size (gr_pool g) = (4, 4)" using small_dirs(1) by blast
  obtain ids q where a: "distinct ids" "length ids = 1" "page_dir.rep (gr_set_pool g q) (\<lambda>_. None) (set ids)"
    using page_dir.rep_alloc_batch [OF g(1), of 1] g(2) by (auto simp: pool_size_def)
  obtain g' V where "page_dir.rep g' V {}" "page_receiver.arrivals ext_pages [page_here] (\<lambda>_. None) V"
    using page_receiver.load_ok [of "zero_ctx\<lparr>rc_global_buf_res := gr_set_pool g q\<rparr>" "\<lambda>_. None" "{}" ids "[page_here]" ext_pages 0] a
    by (auto simp: page_here_def)
  moreover from this(2) obtain i old where "V a_page = Some (strip (arrived_page ext_pages page_here i old))" "\<forall>k. k \<noteq> a_page \<longrightarrow> V k = None"
    unfolding page_receiver.arrivals_def by (auto simp: page_here_def)
  then have "V = (\<lambda>_. None)(a_page \<mapsto> strip (arrived_page ext_pages page_here i old))" by auto
  ultimately show ?thesis by blast
qed

lemma one_lock: "\<exists>g V i old. lock_dir.rep promote g V {} \<and> V = (\<lambda>_. None)(a_lock \<mapsto> strip (arrived_lock promote lock_here i old))"
proof -
  obtain g where g: "lock_dir.rep promote g (\<lambda>_. None) {}" "pool_size (gr_pool g) = (4, 4)" using small_dirs(2) by blast
  obtain ids q where a: "distinct ids" "length ids = 1" "lock_dir.rep promote (gr_set_pool g q) (\<lambda>_. None) (set ids)"
    using lock_dir.rep_alloc_batch [OF g(1), of 1] g(2) by (auto simp: pool_size_def)
  obtain g' V where "lock_dir.rep promote g' V {}" "lock_receiver.arrivals promote [lock_here] (\<lambda>_. None) V"
    using lock_receiver.load_ok [of promote "zero_ctx\<lparr>rc_global_lock_res := gr_set_pool g q\<rparr>" "\<lambda>_. None" "{}" ids "[lock_here]" 0] a
    by (auto simp: lock_here_def)
  moreover from this(2) obtain i old where "V a_lock = Some (strip (arrived_lock promote lock_here i old))" "\<forall>k. k \<noteq> a_lock \<longrightarrow> V k = None"
    unfolding lock_receiver.arrivals_def by (auto simp: lock_here_def)
  then have "V = (\<lambda>_. None)(a_lock \<mapsto> strip (arrived_lock promote lock_here i old))" by auto
  ultimately show ?thesis by blast
qed

text \<open>The instance with these directories, in a reform in which the partition of the page goes from instance 0 to instance 1.\<close>

definition page_moves :: drc_remaster_task where
  "page_moves = \<lparr>tk_export_inst = 0, tk_import_inst = 1, tk_part_id = page_part 8 a_page, tk_status = PART_WAIT_MIGRATE\<rparr>"

definition sample_part :: "buf_directory \<Rightarrow> lock_directory \<Rightarrow> drc_instance" where
  "sample_part g l = zero_instance\<lparr>in_ctx := zero_ctx\<lparr>rc_global_buf_res := g, rc_global_lock_res := l\<rparr>,
     in_part_mngr := zero_part_mngr\<lparr>pm_remaster_status := REMASTER_MIGRATE, pm_remaster_mngr := zero_remaster_mngr
       \<lparr>dm_remaster_task_set := [page_moves], dm_mgrt_part_res_cnt := replicate DRC_MAX_PART_NUM \<lparr>mc_page = 0, mc_lock = 0\<rparr>,
        dm_mgrt_part_info := replicate DRC_MAX_PART_NUM \<lparr>pi_page_cnt = 0, pi_lock_cnt = 0, pi_src_inst = 0\<rparr>\<rparr>\<rparr>\<rparr>"

definition sample_mgrt :: mgrt_env where
  "sample_mgrt = \<lparr>ge_in_reform = True, ge_malloc_ok = True, ge_ext_pages = 8, ge_promote = (\<lambda>x. ucast x), ge_self = 1\<rparr>"

theorem partition_changes_hands_witness:
  "\<exists>src dst pages locks dst' P'' b. drc_migrate_master_blk True True (\<lambda>_. sample_net 1 []) (\<lambda>_. sample_net 1 []) 0 page_moves src = Some (OG_SUCCESS, pages, locks) \<and>
    deliver_all sample_mgrt (map Page_Msg pages @ map Lock_Msg locks) dst = Some dst' \<and> page_dir.rep (rc_global_buf_res (in_ctx dst')) P'' {} \<and>
    P'' a_page = Some b \<and> br_claimed_owner b = 1 \<and> rb_mode b = DRC_LOCK_EXCLUSIVE"
proof -
  let ?e = sample_mgrt and ?p = "unat (tk_part_id page_moves)"
  obtain g P i old where s1: "page_dir.rep g P {}" "P = (\<lambda>_. None)(a_page \<mapsto> strip (arrived_page 8 page_here i old))" using one_page by blast
  obtain l L i' old' where s2: "lock_dir.rep (ge_promote ?e) l L {}" "L = (\<lambda>_. None)(a_lock \<mapsto> strip (arrived_lock (ge_promote ?e) lock_here i' old'))" using one_lock by blast
  obtain g' where d1: "page_dir.rep g' (\<lambda>_. None) {}" "pool_size (gr_pool g') = (4, 4)" using small_dirs(1) by blast
  obtain l' where d2: "lock_dir.rep (ge_promote ?e) l' (\<lambda>_. None) {}" "pool_size (gr_pool l') = (4, 4)" using small_dirs(2) by blast
  let ?src = "sample_part g l" and ?dst = "sample_part g' l'"
  have dirs: "rc_global_buf_res (in_ctx (sample_part x y)) = x" "rc_global_lock_res (in_ctx (sample_part x y)) = y"
    "dm_remaster_task_set (pm_remaster_mngr (in_part_mngr (sample_part x y))) = [page_moves]"
    "receiving ?e (version_of ?src) (sample_part x y)" for x y
    by (simp_all add: sample_part_def receiving_def sample_mgrt_def)
  have pl: "placed (page_part (ge_ext_pages ?e)) P" "placed (lock_partid (ge_promote ?e)) L" "placed (page_part (ge_ext_pages ?e)) (\<lambda>_. None :: drc_buf_res option)"
    "placed (lock_partid (ge_promote ?e)) (\<lambda>_. None :: drc_master_res option)"
    by (simp_all add: placed_def s1(2) s2(2) arrived_page_def arrived_lock_def strip_def sample_mgrt_def page_here_def lock_here_def)
  have q: "quiet P ?p" "quiet L ?p" "part_keys (\<lambda>_. None :: drc_buf_res option) ?p = {}" "part_keys (\<lambda>_. None :: drc_master_res option) ?p = {}"
    by (simp_all add: quiet_def part_keys_def s1(2) s2(2) arrived_page_def arrived_lock_def strip_def settled_def cvt_req_def DRC_LE_SET_def)
  have "part_keys P ?p \<subseteq> {a_page}" "part_keys L ?p \<subseteq> {a_lock}" by (auto simp: part_keys_def s1(2) s2(2) split: if_splits)
  then have "card (part_keys P ?p) \<le> 1" "card (part_keys L ?p) \<le> 1" using card_mono [of "{a_page}"] card_mono [of "{a_lock}"] by fastforce+
  then have room: "unat (rp_item_num (gr_pool (rc_global_buf_res (in_ctx ?dst)))) < 2 ^ 31" "unat (rp_item_num (gr_pool (rc_global_lock_res (in_ctx ?dst)))) < 2 ^ 31"
      "card (part_keys P ?p) \<le> pool_free_num (gr_pool (rc_global_buf_res (in_ctx ?dst)))"
      "card (part_keys L ?p) < pool_free_num (gr_pool (rc_global_lock_res (in_ctx ?dst)))"
    using d1(2) d2(2) by (simp_all add: pool_size_def dirs)
  have net: "net_ok (\<lambda>_. sample_net 1 []) (tk_import_inst page_moves)" by (simp add: net_ok_def page_moves_def sample_net_def drc_mes_send_data_with_retry_def REMASTER_SEND_MSG_RETRY_TIMES_def OG_MAX_INSTANCES_def numeral_3_eq_3)
  have t: "?p < DRC_MAX_PART_NUM" "tk_status page_moves = PART_WAIT_MIGRATE" "tk_import_inst page_moves = ge_self ?e" "tk_export_inst page_moves \<noteq> ge_self ?e"
    "the_task (dm_remaster_task_set (pm_remaster_mngr (in_part_mngr ?dst))) 0 page_moves" "0 < DRC_MAX_PART_NUM" "tk_export_inst page_moves = 0"
    using page_part_bound [of 8 a_page] by (simp_all add: page_moves_def sample_mgrt_def the_task_def dirs)
  have mem: "a_page \<in> part_keys P ?p" "P a_page = Some (strip (arrived_page 8 page_here i old))"
    by (simp_all add: part_keys_def s1(2) arrived_page_def strip_def page_moves_def page_here_def)
  from partition_changes_hands [of ?src P "{}" ?e L "{}" ?dst "\<lambda>_. None" "{}" "\<lambda>_. None" "{}" page_moves ?p "\<lambda>_. sample_net 1 []" "\<lambda>_. sample_net 1 []" 0,
      OF _ _ _ _ pl(1,3,2,4) refl t(1) q room dirs(4) net net t(2-6)]
  obtain pages locks dst' P'' where r: "drc_migrate_master_blk True True (\<lambda>_. sample_net 1 []) (\<lambda>_. sample_net 1 []) 0 page_moves ?src = Some (OG_SUCCESS, pages, locks)"
    "deliver_all ?e (map Page_Msg pages @ map Lock_Msg locks) ?dst = Some dst'" "page_dir.rep (rc_global_buf_res (in_ctx dst')) P'' {}"
    "handed_over page_agrees ?p P (\<lambda>_. None) P''"
    using s1(1) s2(1) d1(1) d2(1) by (auto simp: dirs t(7))
  then obtain b where "P'' a_page = Some b" "page_agrees (strip (arrived_page 8 page_here i old)) b"
    using mem unfolding handed_over_def by fastforce
  then have "P'' a_page = Some b \<and> br_claimed_owner b = 1 \<and> rb_mode b = DRC_LOCK_EXCLUSIVE"
    by (simp add: page_agrees_def arrived_page_def strip_def page_here_def)
  then show ?thesis using r(1-3) by blast
qed

end
