(* ===== verification/Spec2Isabelle.thy ===== *)
theory Spec2Isabelle
  imports Lock_Properties Remaster_Publish Mgrt_Properties
begin

text \<open>
  A verification development of oGRAC, a shared-storage database cluster written in C. Its subject
  is the distributed resource catalogue (DRC) of \<^verbatim>\<open>src/pkg/src/cluster\<close>, which records which
  instance owns which page and lock.

  \<^item> \<^verbatim>\<open>Prelude\<close>: machine integers, reserved identifiers, status codes, counters and walks
    along chains of array indices.
\<close>

end
